(* ===== verification/Kyte_Prelude.thy ===== *)
theory Kyte_Prelude
  imports Main "HOL-Library.Word"
begin

text \<open>
  What the components of the runtime model share: names for the machine integers of the C++ code,
  the little-endian reading and writing of words as byte lists (the \<^verbatim>\<open>memcpy\<close> of a word),
  a loop scheme for the byte scans, and the named collections of facts the component theories feed.

  Conventions.  \<^verbatim>\<open>unsigned char\<close>, \<^verbatim>\<open>uint32_t\<close>, \<^verbatim>\<open>unsigned long long\<close> and
  \<^verbatim>\<open>unsigned __int128\<close> are words of that width; \<^verbatim>\<open>int\<close> and \<^verbatim>\<open>long long\<close> values
  that the code only compares, adds and subtracts inside their range are \<open>int\<close>; where the width of a
  signed value matters it is a word read with \<open>sint\<close>.
\<close>

unbundle bit_operations_syntax

type_synonym u8 = "8 word"
type_synonym u32 = "32 word"
type_synonym u64 = "64 word"
type_synonym u128 = "128 word"
type_synonym bytes = "u8 list"
type_synonym addr = int

named_theorems mem_simps \<open>equations of the byte memory: reads over writes\<close>
named_theorems heap_frame \<open>fields an operation leaves alone\<close>
named_theorems sched_simps \<open>equations of the scheduler's operations\<close>

section \<open>Outcomes\<close>

text \<open>
  How a runtime entry ends: it returns, it panics (\<^verbatim>\<open>kyte_panic\<close>: a message on stderr and
  exit status 134), or the process is killed (\<^verbatim>\<open>abort()\<close>, or a fault of the machine).
\<close>

datatype 'a outcome = Ok 'a | Panic string | Trap

fun bind_outcome :: "'a outcome \<Rightarrow> ('a \<Rightarrow> 'b outcome) \<Rightarrow> 'b outcome" where
  "bind_outcome (Ok x) f = f x"
| "bind_outcome (Panic msg) f = Panic msg"
| "bind_outcome Trap f = Trap"

lemma bind_outcome_Ok: "bind_outcome r f = Ok y \<longleftrightarrow> (\<exists>x. r = Ok x \<and> f x = Ok y)"
  by (cases r) auto

section \<open>Lists\<close>

lemma map_nth_upt [simp]: "n = length xs \<Longrightarrow> map ((!) xs) [0..<n] = xs"
  by (simp add: map_nth)

lemma nth_append_offset: "i < length ys \<Longrightarrow> (xs @ ys) ! (length xs + i) = ys ! i"
  by (simp add: nth_append)

lemma drop_eq_Cons_nth: "i < length xs \<Longrightarrow> drop i xs = xs ! i # drop (Suc i) xs"
  by (simp add: Cons_nth_drop_Suc)

lemma foldl_append_map: "foldl (\<lambda>acc x. acc @ f x) a xs = a @ concat (map f xs)"
  by (induction xs arbitrary: a) auto

text \<open>
  The scan loops of the runtime, \<^verbatim>\<open>while (i < n) { if (stop(s[i])) return i; i++; }  return n;\<close>:
  the first index at or after \<open>i\<close> whose element satisfies \<open>P\<close>, the length if there is none.
\<close>

function scan :: "('a \<Rightarrow> bool) \<Rightarrow> 'a list \<Rightarrow> nat \<Rightarrow> nat" where
  "scan P xs i = (if i < length xs then if P (xs ! i) then i else scan P xs (Suc i) else length xs)"
  by pat_completeness auto
termination
  by (relation "measure (\<lambda>(P, xs, i). length xs - i)") auto

declare scan.simps [simp del]

lemma scan_ge: "i \<le> length xs \<Longrightarrow> i \<le> scan P xs i \<and> scan P xs i \<le> length xs"
proof (induction P xs i rule: scan.induct)
  case (1 P xs i)
  then show ?case by (subst (1 2) scan.simps) auto
qed

lemma scan_hit: "scan P xs i < length xs \<Longrightarrow> P (xs ! scan P xs i)"
proof (induction P xs i rule: scan.induct)
  case (1 P xs i)
  then show ?case by (simp add: scan.simps [of P xs i] split: if_splits)
qed

lemma scan_miss: "i \<le> j \<Longrightarrow> j < scan P xs i \<Longrightarrow> j < length xs \<Longrightarrow> \<not> P (xs ! j)"
proof (induction P xs i rule: scan.induct)
  case (1 P xs i)
  then show ?case
    by (cases "j = i") (auto simp: scan.simps [of P xs i] split: if_splits)
qed

lemma scan_eqI:
  assumes "i \<le> k" "k \<le> length xs" "\<And>j. i \<le> j \<Longrightarrow> j < k \<Longrightarrow> \<not> P (xs ! j)"
    and "k < length xs \<Longrightarrow> P (xs ! k)"
  shows "scan P xs i = k"
proof (rule linorder_cases [of "scan P xs i" k])
  assume lt: "scan P xs i < k"
  then have "P (xs ! scan P xs i)" using assms(2) scan_hit [of P xs i] by simp
  moreover have "i \<le> scan P xs i" using assms(1,2) scan_ge by (meson le_trans)
  ultimately show ?thesis using assms(3) lt by blast
next
  assume gt: "k < scan P xs i"
  moreover have "scan P xs i \<le> length xs" using assms(1,2) scan_ge by (meson le_trans)
  ultimately have "P (xs ! k)" using assms(4) by simp
  then show ?thesis using scan_miss [OF assms(1) gt] gt \<open>scan P xs i \<le> length xs\<close> by simp
qed

lemma scan_none: "(\<And>j. i \<le> j \<Longrightarrow> j < length xs \<Longrightarrow> \<not> P (xs ! j)) \<Longrightarrow> i \<le> length xs \<Longrightarrow>
    scan P xs i = length xs"
  by (rule scan_eqI) auto

section \<open>Signed readings\<close>

lemma sint32_of_int: "- (2 ^ 31) \<le> v \<Longrightarrow> v < 2 ^ 31 \<Longrightarrow> sint (word_of_int v :: u32) = v"
  by (simp add: sint_sbintrunc' signed_take_bit_int_eq_self)

section \<open>Words as little-endian byte lists\<close>

text \<open>
  \<open>le_word bs\<close> is the value of \<^verbatim>\<open>memcpy(&w, p, n)\<close> on a little-endian host, \<open>le_bytes n w\<close>
  the bytes \<^verbatim>\<open>memcpy(p, &w, n)\<close> leaves.
\<close>

fun le_word :: "bytes \<Rightarrow> 'a::len word" where
  "le_word [] = 0"
| "le_word (b # bs) = ucast b OR push_bit 8 (le_word bs)"

definition le_bytes :: "nat \<Rightarrow> 'a::len word \<Rightarrow> bytes" where
  "le_bytes n w = map (\<lambda>i. ucast (drop_bit (8 * i) w)) [0..<n]"

lemma length_le_bytes [simp]: "length (le_bytes n w) = n"
  by (simp add: le_bytes_def)

lemma nth_le_bytes [simp]: "i < n \<Longrightarrow> le_bytes n w ! i = ucast (drop_bit (8 * i) w)"
  by (simp add: le_bytes_def)

lemma bit_le_word:
  "bit (le_word bs :: 'a::len word) n \<longleftrightarrow>
     n < LENGTH('a) \<and> n div 8 < length bs \<and> bit (bs ! (n div 8)) (n mod 8)"
proof (induction bs arbitrary: n)
  case Nil
  then show ?case by simp
next
  case (Cons b bs)
  show ?case
  proof (cases "n < 8")
    case True
    then show ?thesis by (auto simp: bit_or_iff bit_push_bit_iff bit_ucast_iff)
  next
    case False
    then have "n div 8 = Suc ((n - 8) div 8)" "n mod 8 = (n - 8) mod 8"
      by (simp_all add: le_div_geq le_mod_geq not_less)
    moreover from False have "\<not> bit b n"
      using bit_imp_le_length by fastforce
    ultimately show ?thesis
      using False Cons.IH [of "n - 8"]
      by (auto simp: bit_or_iff bit_push_bit_iff bit_ucast_iff not_less)
  qed
qed

lemma le_word_le_bytes:
  assumes "LENGTH('a) \<le> 8 * n"
  shows "le_word (le_bytes n w) = (w :: 'a::len word)"
proof (rule bit_word_eqI)
  fix k
  assume k: "k < LENGTH('a)"
  then have "k div 8 < n" using assms by (simp add: less_mult_imp_div_less)
  moreover have "8 * (k div 8) + k mod 8 = k" by simp
  ultimately show "bit (le_word (le_bytes n w) :: 'a word) k = bit w k"
    using k by (simp add: bit_le_word bit_ucast_iff bit_drop_bit_eq)
qed

lemma le_bytes_le_word:
  assumes "length bs = n" "8 * n \<le> LENGTH('a)"
  shows "le_bytes n (le_word bs :: 'a::len word) = bs"
proof (rule nth_equalityI)
  show "length (le_bytes n (le_word bs :: 'a word)) = length bs" using assms by simp
next
  fix i
  assume i: "i < length (le_bytes n (le_word bs :: 'a word))"
  show "le_bytes n (le_word bs :: 'a word) ! i = bs ! i"
  proof (rule bit_word_eqI)
    fix k
    assume k: "k < LENGTH(8)"
    then have "8 * i + k < LENGTH('a)" using i assms by simp
    then show "bit (le_bytes n (le_word bs :: 'a word) ! i) k = bit (bs ! i) k"
      using i k assms by (simp add: bit_ucast_iff bit_drop_bit_eq bit_le_word)
  qed
qed

text \<open>Two byte lists of a word's size are equal when the words they spell are.\<close>

lemma le_word_inj:
  "length bs = n \<Longrightarrow> length cs = n \<Longrightarrow> 8 * n \<le> LENGTH('a) \<Longrightarrow>
     (le_word bs :: 'a::len word) = le_word cs \<Longrightarrow> bs = cs"
  using le_bytes_le_word by metis

end
