(* ===== verification/Kyte_Memory.thy ===== *)
theory Kyte_Memory
  imports Kyte_Prelude
begin

text \<open>
  The byte memory under the runtime.  Every handle the compiled program passes to the runtime is a
  \<^verbatim>\<open>long long\<close> holding an address, and the runtime casts it to \<^verbatim>\<open>char*\<close>,
  \<^verbatim>\<open>int32_t*\<close> or \<^verbatim>\<open>long long*\<close>.  The model keeps that shape: addresses are integers,
  a memory maps every address to a byte, and words are read and written little-endian through byte
  lists.  Pointer arithmetic does not wrap here; in C++ it may not either.

  The locale \<open>cell\<close> is the interface a typed cell of the memory offers to the reference counts, the
  length headers and the boxes.  It is interpreted for the 32-bit and the 64-bit cells.
\<close>

type_synonym memory = "addr \<Rightarrow> u8"

definition rd :: "memory \<Rightarrow> addr \<Rightarrow> nat \<Rightarrow> bytes" where
  "rd m a n = map (\<lambda>i. m (a + int i)) [0..<n]"

definition wr :: "memory \<Rightarrow> addr \<Rightarrow> bytes \<Rightarrow> memory" where
  "wr m a bs = (\<lambda>x. if a \<le> x \<and> x < a + int (length bs) then bs ! nat (x - a) else m x)"

definition apart :: "addr \<Rightarrow> nat \<Rightarrow> addr \<Rightarrow> nat \<Rightarrow> bool" where
  "apart a n b k \<longleftrightarrow> a + int n \<le> b \<or> b + int k \<le> a"

lemma apart_sym: "apart a n b k \<Longrightarrow> apart b k a n"
  by (auto simp: apart_def)

lemma apart_sub: "apart a n b k \<Longrightarrow> a \<le> a' \<Longrightarrow> a' + int n' \<le> a + int n \<Longrightarrow> apart a' n' b k"
  by (auto simp: apart_def)

lemma length_rd [simp]: "length (rd m a n) = n"
  by (simp add: rd_def)

lemma nth_rd [simp]: "i < n \<Longrightarrow> rd m a n ! i = m (a + int i)"
  by (simp add: rd_def)

lemma rd_wr_same [mem_simps]: "length bs = n \<Longrightarrow> rd (wr m a bs) a n = bs"
  by (rule nth_equalityI) (auto simp: wr_def)

lemma rd_wr_apart [mem_simps]: "apart a n b (length bs) \<Longrightarrow> rd (wr m b bs) a n = rd m a n"
  by (rule nth_equalityI) (auto simp: wr_def apart_def)

lemma wr_wr_same [mem_simps]: "length bs = length cs \<Longrightarrow> wr (wr m a bs) a cs = wr m a cs"
  by (auto simp: wr_def)

lemma wr_rd_id [mem_simps]: "wr m a (rd m a n) = m"
  by (rule ext) (auto simp: wr_def)

lemma wr_outside [mem_simps]: "x < a \<or> a + int (length bs) \<le> x \<Longrightarrow> wr m a bs x = m x"
  by (auto simp: wr_def)

lemma wr_inside [mem_simps]: "i < length bs \<Longrightarrow> wr m a bs (a + int i) = bs ! i"
  by (auto simp: wr_def)

lemma wr_nil [mem_simps]: "wr m a [] = m"
  by (rule ext) (auto simp: wr_def)

lemma rd_split: "rd m a (n + k) = rd m a n @ rd m (a + int n) k"
  by (rule nth_equalityI) (auto simp: nth_append)

lemma wr_append: "wr m a (bs @ cs) = wr (wr m a bs) (a + int (length bs)) cs"
proof (rule ext)
  fix x
  have "nat (x - a) - length bs = nat (x - (a + int (length bs)))"
    by (simp add: nat_diff_distrib algebra_simps)
  then show "wr m a (bs @ cs) x = wr (wr m a bs) (a + int (length bs)) cs x"
    by (auto simp: wr_def nth_append)
qed

section \<open>Typed cells\<close>

definition load32 :: "memory \<Rightarrow> addr \<Rightarrow> u32" where
  "load32 m a = le_word (rd m a 4)"

definition store32 :: "memory \<Rightarrow> addr \<Rightarrow> u32 \<Rightarrow> memory" where
  "store32 m a w = wr m a (le_bytes 4 w)"

definition load64 :: "memory \<Rightarrow> addr \<Rightarrow> u64" where
  "load64 m a = le_word (rd m a 8)"

definition store64 :: "memory \<Rightarrow> addr \<Rightarrow> u64 \<Rightarrow> memory" where
  "store64 m a w = wr m a (le_bytes 8 w)"

locale cell =
  fixes get :: "memory \<Rightarrow> addr \<Rightarrow> 'v"
    and put :: "memory \<Rightarrow> addr \<Rightarrow> 'v \<Rightarrow> memory"
    and sz :: nat
  assumes get_put: "get (put m a v) a = v"
    and put_put: "put (put m a v) a w = put m a w"
    and put_get: "put m a (get m a) = m"
    and get_wr: "apart a sz b (length bs) \<Longrightarrow> get (wr m b bs) a = get m a"
    and rd_put: "apart b n a sz \<Longrightarrow> rd (put m a v) b n = rd m b n"
begin

definition modify :: "('v \<Rightarrow> 'v) \<Rightarrow> memory \<Rightarrow> addr \<Rightarrow> memory" where
  "modify f m a = put m a (f (get m a))"

lemma get_modify: "get (modify f m a) a = f (get m a)"
  by (simp add: modify_def get_put)

lemma modify_modify: "modify g (modify f m a) a = modify (g \<circ> f) m a"
  by (simp add: modify_def get_put put_put)

lemma modify_id: "(f (get m a) = get m a) \<Longrightarrow> modify f m a = m"
  by (simp add: modify_def put_get)

lemma modify_inverse: "g (f (get m a)) = get m a \<Longrightarrow> modify g (modify f m a) a = m"
  by (simp add: modify_modify modify_id)

lemma rd_modify: "apart b n a sz \<Longrightarrow> rd (modify f m a) b n = rd m b n"
  by (simp add: modify_def rd_put)

end

interpretation c32: cell load32 store32 4
proof
  fix m a w v bs b n
  show "load32 (store32 m a v) a = v"
    by (simp add: load32_def store32_def mem_simps le_word_le_bytes)
  show "store32 (store32 m a v) a w = store32 m a w"
    by (simp add: store32_def mem_simps)
  show "store32 m a (load32 m a) = m"
    by (simp add: store32_def load32_def le_bytes_le_word mem_simps)
  show "apart a 4 b (length bs) \<Longrightarrow> load32 (wr m b bs) a = load32 m a"
    by (simp add: load32_def mem_simps)
  show "apart b n a 4 \<Longrightarrow> rd (store32 m a v) b n = rd m b n"
    by (simp add: store32_def mem_simps)
qed

interpretation c64: cell load64 store64 8
proof
  fix m a w v bs b n
  show "load64 (store64 m a v) a = v"
    by (simp add: load64_def store64_def mem_simps le_word_le_bytes)
  show "store64 (store64 m a v) a w = store64 m a w"
    by (simp add: store64_def mem_simps)
  show "store64 m a (load64 m a) = m"
    by (simp add: store64_def load64_def le_bytes_le_word mem_simps)
  show "apart a 8 b (length bs) \<Longrightarrow> load64 (wr m b bs) a = load64 m a"
    by (simp add: load64_def mem_simps)
  show "apart b n a 8 \<Longrightarrow> rd (store64 m a v) b n = rd m b n"
    by (simp add: store64_def mem_simps)
qed

lemmas c32_simps [mem_simps] = c32.get_put c32.put_put c32.put_get
lemmas c64_simps [mem_simps] = c64.get_put c64.put_put c64.put_get

lemma load32_store32_apart [mem_simps]: "apart a 4 b 4 \<Longrightarrow> load32 (store32 m b v) a = load32 m a"
  by (simp add: store32_def c32.get_wr)

lemma load64_store64_apart [mem_simps]: "apart a 8 b 8 \<Longrightarrow> load64 (store64 m b v) a = load64 m a"
  by (simp add: store64_def c64.get_wr)

text \<open>A handle stored in a 64-bit cell and read back as an address.\<close>

definition word_of_addr :: "addr \<Rightarrow> u64" where
  "word_of_addr a = word_of_int a"

definition addr_of_word :: "u64 \<Rightarrow> addr" where
  "addr_of_word w = sint w"

lemma addr_word_roundtrip: "- (2 ^ 63) \<le> a \<Longrightarrow> a < 2 ^ 63 \<Longrightarrow> addr_of_word (word_of_addr a) = a"
  by (simp add: addr_of_word_def word_of_addr_def sint_sbintrunc' signed_take_bit_int_eq_self)

end
