(* ===== verification/Kyte_Audit.thy ===== *)
theory Kyte_Audit
  imports Kyte_Memory "HOL-Library.Multiset"
begin

text \<open>
  The allocation audit of \<^verbatim>\<open>src/runtime/alloc.cpp\<close>: the table of live objects
  (\<^verbatim>\<open>g_live\<close>, an unordered array grown by doubling), the ring of the last 512 objects freed
  (\<^verbatim>\<open>g_dead_ring\<close>), the two counters, and the aggregation behind the survivor dump.  The spin
  lock \<^verbatim>\<open>g_live_lock\<close> makes each operation atomic, so each is one function; what the dump
  prints is modelled as the list of rows it prints.
\<close>

record live_entry =
  le_base :: addr
  le_size :: int
  le_site :: addr

record dead_entry =
  de_base :: addr
  de_size :: int
  de_preview :: bytes
  de_printable :: bool

record audit =
  audit_live :: int
  audit_bytes :: int
  live :: "live_entry list"
  live_cap :: nat
  dead_ring :: "dead_entry list"
  dead_ring_n :: nat
  dead_releases :: int

definition DEAD_RING :: nat where "DEAD_RING = 512"

definition audit_init :: audit where
  "audit_init = \<lparr>audit_live = 0, audit_bytes = 0, live = [], live_cap = 0,
     dead_ring = replicate DEAD_RING \<lparr>de_base = 0, de_size = 0, de_preview = [], de_printable = False\<rparr>,
     dead_ring_n = 0, dead_releases = 0\<rparr>"

section \<open>The live table\<close>

text \<open>\<open>realloc_ok\<close> answers whether \<^verbatim>\<open>realloc\<close> to that many entries succeeds.\<close>

definition live_insert :: "(nat \<Rightarrow> bool) \<Rightarrow> audit \<Rightarrow> addr \<Rightarrow> int \<Rightarrow> addr \<Rightarrow> audit" where
  "live_insert realloc_ok a base sz site =
     (let e = \<lparr>le_base = base, le_size = sz, le_site = site\<rparr> in
      if length (live a) = live_cap a then
        (let ncap = (if live_cap a \<noteq> 0 then live_cap a * 2 else 1024) in
         if realloc_ok ncap then a\<lparr>live := live a @ [e], live_cap := ncap\<rparr> else a)
      else a\<lparr>live := live a @ [e]\<rparr>)"

text \<open>The loops \<^verbatim>\<open>for (size_t i = g_live_n; i-- > 0;)\<close>: the last index that matches.\<close>

fun find_back :: "('a \<Rightarrow> bool) \<Rightarrow> 'a list \<Rightarrow> nat \<Rightarrow> nat option" where
  "find_back P xs 0 = None"
| "find_back P xs (Suc i) = (if P (xs ! i) then Some i else find_back P xs i)"

definition live_contains :: "audit \<Rightarrow> addr \<Rightarrow> bool" where
  "live_contains a base = (find_back (\<lambda>e. le_base e = base) (live a) (length (live a)) \<noteq> None)"

definition printable_byte :: "u8 \<Rightarrow> bool" where
  "printable_byte c = (\<not> (c < 32 \<or> c > 126))"

text \<open>\<open>pay\<close> is the memory from the payload on, as the code reads it through \<^verbatim>\<open>p\<close>.\<close>

definition preview_len :: "int \<Rightarrow> nat" where
  "preview_len sz = (if sz < 0 \<or> sz > 16 then 16 else nat sz)"

definition dead_ring_record :: "audit \<Rightarrow> memory \<Rightarrow> addr \<Rightarrow> int \<Rightarrow> audit" where
  "dead_ring_record a m base sz =
     (let n = preview_len sz; p = rd m (base + 8) n in
      a\<lparr>dead_ring := (dead_ring a)[dead_ring_n a mod DEAD_RING :=
           \<lparr>de_base = base, de_size = sz, de_preview = p,
            de_printable = (n > 0 \<and> list_all printable_byte p)\<rparr>],
        dead_ring_n := Suc (dead_ring_n a)\<rparr>)"

definition dead_ring_find :: "audit \<Rightarrow> addr \<Rightarrow> dead_entry option" where
  "dead_ring_find a base =
     (let lim = (if dead_ring_n a < DEAD_RING then dead_ring_n a else DEAD_RING) in
      List.find (\<lambda>e. de_base e = base) (take lim (dead_ring a)))"

definition live_remove :: "audit \<Rightarrow> memory \<Rightarrow> addr \<Rightarrow> audit" where
  "live_remove a m base =
     (case find_back (\<lambda>e. le_base e = base) (live a) (length (live a)) of
        None \<Rightarrow> a
      | Some i \<Rightarrow>
          (let a' = dead_ring_record a m base (le_size (live a ! i)) in
           a'\<lparr>live := butlast ((live a)[i := last (live a)])\<rparr>))"

definition audit_alloc :: "bool \<Rightarrow> bool \<Rightarrow> (nat \<Rightarrow> bool) \<Rightarrow> audit \<Rightarrow> addr \<Rightarrow> int \<Rightarrow> addr \<Rightarrow> audit" where
  "audit_alloc audit_enabled dump_enabled realloc_ok a base sz site =
     (if \<not> audit_enabled then a
      else (let a' = a\<lparr>audit_live := audit_live a + 1, audit_bytes := audit_bytes a + sz\<rparr> in
            if dump_enabled then live_insert realloc_ok a' base sz site else a'))"

definition audit_free :: "bool \<Rightarrow> bool \<Rightarrow> audit \<Rightarrow> memory \<Rightarrow> addr \<Rightarrow> int \<Rightarrow> audit" where
  "audit_free audit_enabled dump_enabled a m base sz =
     (if \<not> audit_enabled then a
      else (let a' = a\<lparr>audit_live := audit_live a - 1, audit_bytes := audit_bytes a - sz\<rparr> in
            if dump_enabled then live_remove a' m base else a'))"

text \<open>\<open>kyte_arc_audit_report\<close>: the number of objects still live, 0 when none is.\<close>

definition kyte_arc_audit_report :: "bool \<Rightarrow> audit \<Rightarrow> int" where
  "kyte_arc_audit_report audit_enabled a =
     (if \<not> audit_enabled then 0 else if audit_live a \<le> 0 then 0 else audit_live a)"

section \<open>Facts about the table\<close>

lemma find_back_Some: "find_back P xs n = Some i \<Longrightarrow> i < n \<and> P (xs ! i) \<and> (\<forall>j. i < j \<and> j < n \<longrightarrow> \<not> P (xs ! j))"
  by (induction n) (auto split: if_splits simp: less_Suc_eq)

lemma find_back_None: "find_back P xs n = None \<longleftrightarrow> (\<forall>j<n. \<not> P (xs ! j))"
  by (induction n) (auto simp: less_Suc_eq)

lemma live_contains_iff: "live_contains a base \<longleftrightarrow> base \<in> le_base ` set (live a)"
  by (auto simp: live_contains_def find_back_None set_conv_nth)

lemma mset_swap_remove:
  "i < length xs \<Longrightarrow> mset (butlast (xs[i := last xs])) = mset xs - {#xs ! i#}"
proof (induction xs rule: rev_induct)
  case Nil
  then show ?case by simp
next
  case (snoc x xs)
  show ?case
  proof (cases "i < length xs")
    case True
    then have "butlast ((xs @ [x])[i := x]) = xs[i := x]"
      by (simp add: list_update_append)
    with True show ?thesis
      by (simp add: mset_update nth_append)
  next
    case False
    with snoc.prems have "i = length xs" by simp
    then show ?thesis by simp
  qed
qed

lemma live_remove_mset:
  "find_back (\<lambda>e. le_base e = base) (live a) (length (live a)) = Some i \<Longrightarrow>
     mset (live (live_remove a m base)) = mset (live a) - {#live a ! i#}"
  by (auto simp: live_remove_def Let_def mset_swap_remove dest!: find_back_Some)

text \<open>
  The ledger: the counters are the number of rows of the table and the sum of their sizes, no base
  is tracked twice and the table never exceeds its capacity.
\<close>

definition ledger :: "audit \<Rightarrow> bool" where
  "ledger a \<longleftrightarrow> audit_live a = int (length (live a)) \<and> audit_bytes a = sum_list (map le_size (live a))
     \<and> distinct (map le_base (live a)) \<and> length (live a) \<le> live_cap a"

lemma ledger_init: "ledger audit_init"
  by (simp add: ledger_def audit_init_def)

lemma sum_mset_live: "sum_list (map le_size xs) = sum_mset (image_mset le_size (mset xs))"
  by (metis mset_map sum_mset_sum_list)

lemma audit_alloc_ledger:
  assumes "ledger a" "base \<notin> le_base ` set (live a)" "\<And>n. realloc_ok n"
  shows "ledger (audit_alloc True True realloc_ok a base sz site)"
  using assms by (auto simp: ledger_def audit_alloc_def live_insert_def Let_def)

lemma mset_subset_distinct:
  assumes "mset xs \<subseteq># mset ys" "distinct ys"
  shows "distinct xs"
proof -
  obtain zs where "mset ys = mset (xs @ zs)"
    using assms(1) by (metis ex_mset mset_append mset_subset_eq_exists_conv)
  then show ?thesis using assms(2) by (metis distinct_append mset_eq_imp_distinct_iff)
qed

lemma live_row_unique:
  assumes "distinct (map le_base xs)" "i < length xs" "le_base (xs ! i) = base" "e \<in> set xs" "le_base e = base"
  shows "e = xs ! i"
proof -
  obtain j where "j < length xs" "xs ! j = e" using assms(4) by (auto simp: in_set_conv_nth)
  with assms show ?thesis by (metis length_map nth_eq_iff_index_eq nth_map)
qed

lemma audit_free_ledger:
  assumes led: "ledger a" and e: "e \<in> set (live a)" "le_base e = base" "le_size e = sz"
  shows "ledger (audit_free True True a m base sz)
    \<and> mset (live (audit_free True True a m base sz)) = mset (live a) - {#e#}"
proof -
  let ?a = "a\<lparr>audit_live := audit_live a - 1, audit_bytes := audit_bytes a - sz\<rparr>"
  obtain i where i: "find_back (\<lambda>e. le_base e = base) (live a) (length (live a)) = Some i"
    using e find_back_None [of "\<lambda>e. le_base e = base" "live a" "length (live a)"]
    by (auto simp: in_set_conv_nth)
  then have il: "i < length (live a)" and ib: "le_base (live a ! i) = base"
    by (auto dest: find_back_Some)
  have ei: "e = live a ! i"
    using live_row_unique [of "live a" i base e] led il ib e by (simp add: ledger_def)
  have free: "audit_free True True a m base sz = live_remove ?a m base"
    by (simp add: audit_free_def)
  have ms: "mset (live (live_remove ?a m base)) = mset (live a) - {#e#}"
    using live_remove_mset [of base ?a i m] i ei by simp
  have len: "length (live (live_remove ?a m base)) = length (live a) - 1"
    using ms e(1) by (metis size_Diff_singleton size_mset set_mset_mset)
  have sum: "sum_list (map le_size (live (live_remove ?a m base))) = sum_list (map le_size (live a)) - sz"
  proof -
    have "image_mset le_size (mset (live a)) = add_mset sz (image_mset le_size (mset (live a) - {#e#}))"
      using e by (metis image_mset_add_mset insert_DiffM set_mset_mset)
    then show ?thesis by (simp add: sum_mset_live ms)
  qed
  have dist: "distinct (map le_base (live (live_remove ?a m base)))"
  proof -
    have "mset (map le_base (live (live_remove ?a m base))) \<subseteq># mset (map le_base (live a))"
      using ms by (simp add: image_mset_subseteq_mono)
    then show ?thesis using led mset_subset_distinct unfolding ledger_def by blast
  qed
  show ?thesis
    using led len sum dist ms free i il
    by (auto simp: ledger_def live_remove_def Let_def dead_ring_record_def)
qed

section \<open>The survivor dump\<close>

record site_agg =
  sa_site :: addr
  sa_count :: int
  sa_bytes :: int

definition agg_add :: "site_agg list \<Rightarrow> live_entry \<Rightarrow> site_agg list" where
  "agg_add agg e =
     (let k = scan (\<lambda>r. sa_site r = le_site e) agg 0;
          agg' = (if k = length agg then agg @ [\<lparr>sa_site = le_site e, sa_count = 0, sa_bytes = 0\<rparr>] else agg) in
      agg'[k := (agg' ! k)\<lparr>sa_count := sa_count (agg' ! k) + 1, sa_bytes := sa_bytes (agg' ! k) + le_size e\<rparr>])"

definition site_histogram :: "live_entry list \<Rightarrow> site_agg list" where
  "site_histogram es = foldl agg_add [] es"

text \<open>The selection sort that prints the largest 40 rows.\<close>

fun best_from :: "site_agg list \<Rightarrow> nat \<Rightarrow> nat list \<Rightarrow> nat" where
  "best_from agg best [] = best"
| "best_from agg best (t # ts) =
     best_from agg (if sa_bytes (agg ! t) > sa_bytes (agg ! best) then t else best) ts"

definition swap :: "'a list \<Rightarrow> nat \<Rightarrow> nat \<Rightarrow> 'a list" where
  "swap xs i j = xs[i := xs ! j, j := xs ! i]"

function print_rows :: "site_agg list \<Rightarrow> nat \<Rightarrow> nat \<Rightarrow> site_agg list" where
  "print_rows agg r shown =
     (if r < length agg \<and> shown < 40 then
        (let best = best_from agg r [Suc r..<length agg]; agg' = swap agg r best in
         agg' ! r # print_rows agg' (Suc r) (Suc shown))
      else [])"
  by pat_completeness auto
termination
  by (relation "measure (\<lambda>(agg, r, shown). length agg - r)") (auto simp: swap_def)

declare print_rows.simps [simp del]

definition leak_by_site :: "live_entry list \<Rightarrow> site_agg list" where
  "leak_by_site es = print_rows (site_histogram es) 0 0"

text \<open>
  The clusters of equal survivors: \<open>same\<close> compares the size and the payload bytes, rows already
  counted are marked in \<open>seen\<close>, and printing stops after 25 clusters.  A row is the index of the
  cluster's first member and its size.
\<close>

fun mark_same :: "(nat \<Rightarrow> bool) \<Rightarrow> bool list \<Rightarrow> nat list \<Rightarrow> bool list \<times> nat" where
  "mark_same same seen [] = (seen, 1)"
| "mark_same same seen (j # js) =
     (if seen ! j \<or> \<not> same j then mark_same same seen js
      else (let (seen', c) = mark_same same (seen[j := True]) js in (seen', Suc c)))"

fun cluster_rows :: "(nat \<Rightarrow> nat \<Rightarrow> bool) \<Rightarrow> nat \<Rightarrow> bool list \<Rightarrow> nat list \<Rightarrow> nat \<Rightarrow> (nat \<times> nat) list" where
  "cluster_rows same n seen [] clusters = []"
| "cluster_rows same n seen (i # is) clusters =
     (if seen ! i then cluster_rows same n seen is clusters
      else (let (seen', c) = mark_same (same i) seen [Suc i..<n] in
            (i, c) # (if clusters + 1 \<ge> 25 then [] else cluster_rows same n seen' is (clusters + 1))))"

definition same_object :: "live_entry list \<Rightarrow> memory \<Rightarrow> nat \<Rightarrow> nat \<Rightarrow> bool" where
  "same_object es m i j \<longleftrightarrow> le_size (es ! j) = le_size (es ! i) \<and>
     rd m (le_base (es ! i) + 8) (nat (le_size (es ! i))) = rd m (le_base (es ! j) + 8) (nat (le_size (es ! i)))"

definition kyte_arc_dump_survivors :: "bool \<Rightarrow> audit \<Rightarrow> memory \<Rightarrow> (site_agg list \<times> (nat \<times> nat) list)" where
  "kyte_arc_dump_survivors dump_enabled a m =
     (if \<not> dump_enabled then ([], [])
      else (leak_by_site (live a),
            cluster_rows (same_object (live a) m) (length (live a)) (replicate (length (live a)) False)
              [0..<length (live a)] 0))"

section \<open>Facts about the dump\<close>

lemma agg_add_cases:
  "(\<exists>k<length agg. sa_site (agg ! k) = le_site e \<and>
      agg_add agg e = agg[k := (agg ! k)\<lparr>sa_count := sa_count (agg ! k) + 1, sa_bytes := sa_bytes (agg ! k) + le_size e\<rparr>])
   \<or> (le_site e \<notin> sa_site ` set agg \<and>
      agg_add agg e = agg @ [\<lparr>sa_site = le_site e, sa_count = 1, sa_bytes = le_size e\<rparr>])"
proof (cases "scan (\<lambda>r. sa_site r = le_site e) agg 0 < length agg")
  case True
  then have "sa_site (agg ! scan (\<lambda>r. sa_site r = le_site e) agg 0) = le_site e"
    using scan_hit [OF True] by simp
  with True show ?thesis by (auto simp: agg_add_def Let_def)
next
  case False
  then have k: "scan (\<lambda>r. sa_site r = le_site e) agg 0 = length agg"
    using scan_ge [of 0 agg] by (simp add: le_antisym)
  then have "\<forall>j<length agg. sa_site (agg ! j) \<noteq> le_site e"
    using scan_miss [of 0 _ "\<lambda>r. sa_site r = le_site e" agg] by auto
  then have "le_site e \<notin> sa_site ` set agg" by (auto simp: set_conv_nth)
  with k show ?thesis by (simp add: agg_add_def Let_def)
qed

definition tally :: "site_agg list \<Rightarrow> int \<times> int" where
  "tally agg = (sum_list (map sa_count agg), sum_list (map sa_bytes agg))"

lemma sum_list_map_update:
  fixes f :: "'a \<Rightarrow> int"
  shows "k < length xs \<Longrightarrow> sum_list (map f (xs[k := v])) = sum_list (map f xs) + f v - f (xs ! k)"
proof (induction xs arbitrary: k)
  case Nil
  then show ?case by simp
next
  case (Cons x xs)
  then show ?case by (cases k) auto
qed

lemma map_update_same: "f v = f (xs ! k) \<Longrightarrow> map f (xs[k := v]) = map f xs"
  by (metis list_update_id map_update)

lemma agg_add_tally:
  "tally (agg_add agg e) = (fst (tally agg) + 1, snd (tally agg) + le_size e)"
  using agg_add_cases [of agg e] by (auto simp: tally_def sum_list_map_update)

lemma agg_add_distinct:
  "distinct (map sa_site agg) \<Longrightarrow> distinct (map sa_site (agg_add agg e))"
  using agg_add_cases [of agg e]
  by (auto simp: map_update_same)

lemma site_histogram_tally:
  "tally (foldl agg_add agg es) =
     (fst (tally agg) + int (length es), snd (tally agg) + sum_list (map le_size es))"
  by (induction es arbitrary: agg) (simp_all add: agg_add_tally)

lemma site_histogram_distinct:
  "distinct (map sa_site agg) \<Longrightarrow> distinct (map sa_site (foldl agg_add agg es))"
  by (induction es arbitrary: agg) (simp_all add: agg_add_distinct)

lemma best_from_max:
  "best_from agg b ts \<in> insert b (set ts)
   \<and> (\<forall>t \<in> insert b (set ts). sa_bytes (agg ! t) \<le> sa_bytes (agg ! best_from agg b ts))"
proof (induction ts arbitrary: b)
  case Nil
  then show ?case by simp
next
  case (Cons t ts)
  show ?case
    using Cons.IH [of t] Cons.IH [of b] by (auto simp: not_less intro: order_trans)
qed

lemma length_swap [simp]: "length (swap xs i j) = length xs"
  by (simp add: swap_def)

lemma drop_swap_mset:
  assumes "r \<le> j" "j < length xs"
  shows "mset (drop r (swap xs r j)) = mset (drop r xs)"
proof -
  have "drop r (swap xs r j) = (drop r xs)[0 := drop r xs ! (j - r), (j - r) := drop r xs ! 0]"
    using assms by (simp add: swap_def drop_update_swap)
  then show ?thesis using assms mset_swap [of "j - r" "drop r xs" 0] by simp
qed

text \<open>The rows printed are the largest, in decreasing order, each a row of the histogram.\<close>

lemma print_rows_top:
  "mset (print_rows agg r s) \<subseteq># mset (drop r agg)
   \<and> sorted_wrt (\<lambda>x y. sa_bytes y \<le> sa_bytes x) (print_rows agg r s)
   \<and> (\<forall>x \<in># mset (drop r agg) - mset (print_rows agg r s). \<forall>y \<in> set (print_rows agg r s). sa_bytes x \<le> sa_bytes y)
   \<and> length (print_rows agg r s) = min (length agg - r) (40 - s)"
proof (induction agg r s rule: print_rows.induct)
  case (1 agg r s)
  show ?case
  proof (cases "r < length agg \<and> s < 40")
    case False
    then show ?thesis by (subst (1 2 3 4 5) print_rows.simps) auto
  next
    case True
    define b where "b = best_from agg r [Suc r..<length agg]"
    define agg' where "agg' = swap agg r b"
    define rest where "rest = print_rows agg' (Suc r) (Suc s)"
    have eq: "print_rows agg r s = agg' ! r # rest"
      using True by (simp add: print_rows.simps [of agg r s] Let_def b_def agg'_def rest_def)
    have b: "r \<le> b" "b < length agg"
      using best_from_max [of agg r "[Suc r..<length agg]"] True by (auto simp: b_def)
    have top: "agg' ! r = agg ! b"
      using b True by (simp add: agg'_def swap_def nth_list_update)
    have ms: "mset (drop r agg) = add_mset (agg' ! r) (mset (drop (Suc r) agg'))"
      using drop_swap_mset [OF b] True by (metis agg'_def drop_eq_Cons_nth length_swap mset.simps(2))
    have max: "sa_bytes x \<le> sa_bytes (agg' ! r)" if "x \<in># mset (drop r agg)" for x
    proof -
      have "x \<in> set (drop r agg)" using that by simp
      then obtain i where "i < length (drop r agg)" "x = drop r agg ! i"
        by (metis in_set_conv_nth)
      then show ?thesis
        using best_from_max [of agg r "[Suc r..<length agg]"] True
        by (cases i) (auto simp: b_def [symmetric] top)
    qed
    note IH = "1.IH" [OF True b_def agg'_def, folded rest_def]
    have sub: "mset rest \<subseteq># mset (drop (Suc r) agg')" using IH by blast
    have inr: "x \<in># mset (drop r agg)" if "x \<in> set rest" for x
      using that mset_subset_eqD [OF sub, of x] by (simp add: ms)
    have sorted: "sorted_wrt (\<lambda>x y. sa_bytes y \<le> sa_bytes x) (agg' ! r # rest)"
      using IH max inr by simp
    have out: "\<forall>x \<in># mset (drop r agg) - mset (agg' ! r # rest). \<forall>y \<in> set (agg' ! r # rest). sa_bytes x \<le> sa_bytes y"
      using IH max by (auto simp: ms dest!: in_diffD)
    have "length (agg' ! r # rest) = min (length agg - r) (40 - s)"
      using IH True by (auto simp: agg'_def)
    with sub sorted out show ?thesis by (simp add: eq ms)
  qed
qed

end
