(* ===== verification/Kyte_Heap.thy ===== *)
theory Kyte_Heap
  imports Kyte_Audit
begin

text \<open>
  The heap of \<^verbatim>\<open>src/runtime/alloc.cpp\<close>: the object header (a 32-bit count at \<open>p - 8\<close>, a 32-bit
  length at \<open>p - 4\<close>), the per-thread bump arena, the malloc path, the persistent copies and the boxes.

  The C library's \<^verbatim>\<open>malloc\<close>, \<^verbatim>\<open>mmap\<close> and \<^verbatim>\<open>realloc\<close> are the fields of
  a \<open>platform\<close>: what address they return is theirs to choose.  \<open>malloc_sound\<close> and \<open>mmap_sound\<close> say what
  the C library documents (a null pointer, or storage disjoint from every live block).  The build flag
  \<^verbatim>\<open>KYTE_DROP_ARENA\<close> (set by every build of \<^verbatim>\<open>build.zig\<close>) and the two audit switches
  read from the environment are fields too.  \<open>blocks\<close> is ghost state: the blocks \<^verbatim>\<open>malloc\<close> has
  handed out and that were not freed, with their sizes.
\<close>

record heap =
  mem :: memory
  blocks :: "addr \<rightharpoonup> nat"
  arena_start :: addr
  arena_current :: addr
  alloc_total :: int
  aud :: audit

record platform =
  drop_arena :: bool
  audit_enabled :: bool
  dump_enabled :: bool
  os_malloc :: "heap \<Rightarrow> nat \<Rightarrow> addr"
  os_mmap :: "heap \<Rightarrow> nat \<Rightarrow> addr"
  os_realloc :: "nat \<Rightarrow> bool"

definition HDR :: int where "HDR = 8"

definition FALLBACK_ARENA_SIZE :: nat where "FALLBACK_ARENA_SIZE = 8 * 1024 * 1024"

definition arena_align :: "int \<Rightarrow> int" where
  "arena_align s = (s + 7) AND NOT 7"

definition is_in_arena :: "heap \<Rightarrow> addr \<Rightarrow> bool" where
  "is_in_arena h p \<longleftrightarrow> arena_start h \<noteq> 0 \<and> p \<ge> arena_start h \<and> p < arena_start h + int FALLBACK_ARENA_SIZE"

definition zero_fill :: "memory \<Rightarrow> addr \<Rightarrow> int \<Rightarrow> memory" where
  "zero_fill m a n = (\<lambda>x. if a \<le> x \<and> x < a + n then 0 else m x)"

text \<open>\<^verbatim>\<open>arena_page_alloc\<close>: anonymous pages, zero-filled by the kernel.\<close>

definition arena_page_alloc :: "platform \<Rightarrow> heap \<Rightarrow> addr \<times> heap" where
  "arena_page_alloc P h =
     (let a = os_mmap P h FALLBACK_ARENA_SIZE in
      (a, if a = 0 then h else h\<lparr>mem := zero_fill (mem h) a (int FALLBACK_ARENA_SIZE)\<rparr>))"

definition malloc_block :: "platform \<Rightarrow> heap \<Rightarrow> nat \<Rightarrow> addr \<times> heap" where
  "malloc_block P h n =
     (let p = os_malloc P h n in (p, if p = 0 then h else h\<lparr>blocks := (blocks h)(p \<mapsto> n)\<rparr>))"

definition free_block :: "heap \<Rightarrow> addr \<Rightarrow> heap" where
  "free_block h p = h\<lparr>blocks := (blocks h)(p := None)\<rparr>"

section \<open>Headers\<close>

definition hdr_rc :: "heap \<Rightarrow> addr \<Rightarrow> u32" where
  "hdr_rc h p = load32 (mem h) (p - 8)"

definition hdr_len :: "heap \<Rightarrow> addr \<Rightarrow> u32" where
  "hdr_len h p = load32 (mem h) (p - 4)"

definition write_header_nozero :: "memory \<Rightarrow> addr \<Rightarrow> int \<Rightarrow> memory" where
  "write_header_nozero m base sz = store32 (store32 m base 1) (base + 4) (word_of_int sz)"

definition write_header :: "memory \<Rightarrow> addr \<Rightarrow> int \<Rightarrow> memory" where
  "write_header m base sz = zero_fill (store32 (store32 m base 1) (base + 4) (word_of_int sz)) (base + HDR) sz"

definition audit_size_of :: "heap \<Rightarrow> addr \<Rightarrow> int" where
  "audit_size_of h base = sint (load32 (mem h) (base + 4))"

definition heap_audit_alloc :: "platform \<Rightarrow> heap \<Rightarrow> addr \<Rightarrow> int \<Rightarrow> addr \<Rightarrow> heap" where
  "heap_audit_alloc P h base sz site =
     h\<lparr>aud := audit_alloc (audit_enabled P) (dump_enabled P) (os_realloc P) (aud h) base sz site\<rparr>"

definition heap_audit_free :: "platform \<Rightarrow> heap \<Rightarrow> addr \<Rightarrow> int \<Rightarrow> heap" where
  "heap_audit_free P h base sz =
     h\<lparr>aud := audit_free (audit_enabled P) (dump_enabled P) (aud h) (mem h) base sz\<rparr>"

section \<open>Allocation\<close>

definition ensure_arena :: "platform \<Rightarrow> heap \<Rightarrow> heap" where
  "ensure_arena P h =
     (if arena_start h = 0
      then (let (a, h') = arena_page_alloc P h in h'\<lparr>arena_start := a, arena_current := a\<rparr>)
      else h)"

definition kyte_bytes_alloc :: "platform \<Rightarrow> heap \<Rightarrow> int \<Rightarrow> addr \<Rightarrow> addr \<times> heap" where
  "kyte_bytes_alloc P h0 size0 site =
     (let h = h0\<lparr>alloc_total := alloc_total h0 + 1\<rparr>;
          sz = (if size0 < 0 then 0 else size0) in
      if drop_arena P then
        (let (ptr, h) = malloc_block P h (nat sz + 8) in
         if ptr = 0 then (0, h)
         else (ptr + HDR,
               heap_audit_alloc P (h\<lparr>mem := write_header (mem h) ptr sz\<rparr>) ptr sz site))
      else
        (let h = ensure_arena P h;
             alloc_size = arena_align (sz + HDR);
             curr = arena_current h in
         if arena_start h = 0 \<or> curr + alloc_size > arena_start h + int FALLBACK_ARENA_SIZE then
           (let (ptr, h) = malloc_block P h (nat sz + 8) in
            if ptr = 0 then (0, h)
            else (ptr + HDR, h\<lparr>mem := write_header (mem h) ptr sz\<rparr>))
         else (curr + HDR,
               h\<lparr>mem := write_header_nozero (mem h) curr sz, arena_current := curr + alloc_size\<rparr>)))"

definition kyte_alloc_total :: "heap \<Rightarrow> int" where
  "kyte_alloc_total h = alloc_total h"

definition kyte_arena_mark :: "heap \<Rightarrow> addr" where
  "kyte_arena_mark h = arena_current h"

definition kyte_arena_reset :: "heap \<Rightarrow> addr \<Rightarrow> heap" where
  "kyte_arena_reset h m =
     (if arena_start h \<noteq> 0 \<and> m \<ge> arena_start h \<and> m \<le> arena_current h
      then h\<lparr>arena_current := m\<rparr> else h)"

text \<open>\<^verbatim>\<open>write\<close> is \<^verbatim>\<open>write_header\<close> or \<^verbatim>\<open>write_header_nozero\<close>: the two persistent allocators differ in it only.\<close>

definition alloc_persistent_with :: "(memory \<Rightarrow> addr \<Rightarrow> int \<Rightarrow> memory) \<Rightarrow> platform \<Rightarrow> heap \<Rightarrow> int \<Rightarrow> addr \<Rightarrow> addr \<times> heap" where
  "alloc_persistent_with write P h size0 site =
     (let sz = (if size0 < 0 then 0 else size0);
          (ptr, h) = malloc_block P h (nat sz + 8) in
      if ptr = 0 then (0, h)
      else (ptr + HDR, heap_audit_alloc P (h\<lparr>mem := write (mem h) ptr sz\<rparr>) ptr sz site))"

definition kyte_bytes_alloc_persistent :: "platform \<Rightarrow> heap \<Rightarrow> int \<Rightarrow> addr \<Rightarrow> addr \<times> heap" where
  "kyte_bytes_alloc_persistent = alloc_persistent_with write_header"

definition kyte_bytes_alloc_persistent_nz :: "platform \<Rightarrow> heap \<Rightarrow> int \<Rightarrow> addr \<Rightarrow> addr \<times> heap" where
  "kyte_bytes_alloc_persistent_nz = alloc_persistent_with write_header_nozero"

definition kyte_bytes_persist :: "platform \<Rightarrow> heap \<Rightarrow> addr \<Rightarrow> addr \<Rightarrow> addr \<times> heap" where
  "kyte_bytes_persist P h s site =
     (if s = 0 then (0, h)
      else if sint (hdr_rc h s) \<ge> 0 then (s, h)
      else (let len = sint (hdr_len h s) in
            if len \<le> 0 then kyte_bytes_alloc_persistent P h 0 site
            else (let (out, h') = kyte_bytes_alloc_persistent P h len site in
                  if out = 0 then (0, h')
                  else (out, h'\<lparr>mem := wr (mem h') out (rd (mem h') s (nat len))\<rparr>))))"

definition kyte_bytes_free :: "platform \<Rightarrow> heap \<Rightarrow> addr \<Rightarrow> heap" where
  "kyte_bytes_free P h p =
     (if p = 0 then h
      else if is_in_arena h p then h
      else if sint (hdr_rc h p) < 0 then h
      else free_block (heap_audit_free P h (p - HDR) (audit_size_of h (p - HDR))) (p - HDR))"

definition kyte_coro_alloc :: "platform \<Rightarrow> heap \<Rightarrow> int \<Rightarrow> addr \<times> heap" where
  "kyte_coro_alloc P h sz = malloc_block P h (nat (if sz < 0 then 0 else sz))"

definition kyte_coro_free :: "heap \<Rightarrow> addr \<Rightarrow> heap" where
  "kyte_coro_free h frame = (if frame \<noteq> 0 then free_block h frame else h)"

section \<open>What the C library promises, and the shape of a heap\<close>

definition fresh_region :: "heap \<Rightarrow> addr \<Rightarrow> nat \<Rightarrow> bool" where
  "fresh_region h p n \<longleftrightarrow> p > 0 \<and> (\<forall>q k. blocks h q = Some k \<longrightarrow> apart p n q k)
     \<and> (arena_start h \<noteq> 0 \<longrightarrow> apart p n (arena_start h) FALLBACK_ARENA_SIZE)"

definition malloc_sound :: "platform \<Rightarrow> bool" where
  "malloc_sound P \<longleftrightarrow> (\<forall>h n. os_malloc P h n = 0 \<or> fresh_region h (os_malloc P h n) n)"

definition mmap_sound :: "platform \<Rightarrow> bool" where
  "mmap_sound P \<longleftrightarrow> (\<forall>h n. os_mmap P h n = 0 \<or> fresh_region h (os_mmap P h n) n)"

definition heap_ok :: "heap \<Rightarrow> bool" where
  "heap_ok h \<longleftrightarrow>
     (\<forall>p n. blocks h p = Some n \<longrightarrow> p > 0)
     \<and> (\<forall>p n q k. blocks h p = Some n \<longrightarrow> blocks h q = Some k \<longrightarrow> p \<noteq> q \<longrightarrow> apart p n q k)
     \<and> (arena_start h \<noteq> 0 \<longrightarrow> arena_start h > 0 \<and> arena_start h \<le> arena_current h
          \<and> arena_current h \<le> arena_start h + int FALLBACK_ARENA_SIZE
          \<and> (\<forall>p n. blocks h p = Some n \<longrightarrow> apart p n (arena_start h) FALLBACK_ARENA_SIZE))"

text \<open>The part of the arena not handed out yet still holds the kernel's zeros.\<close>

definition arena_clean :: "heap \<Rightarrow> bool" where
  "arena_clean h \<longleftrightarrow> (arena_start h \<noteq> 0 \<longrightarrow>
     (\<forall>x. arena_current h \<le> x \<and> x < arena_start h + int FALLBACK_ARENA_SIZE \<longrightarrow> mem h x = 0))"

definition heap0 :: heap where
  "heap0 = \<lparr>mem = (\<lambda>_. 0), blocks = Map.empty, arena_start = 0, arena_current = 0, alloc_total = 0,
     aud = audit_init\<rparr>"

text \<open>A platform for closed examples: one block at 4096 and an arena at 65536, where they are free.\<close>

definition demo_platform :: "bool \<Rightarrow> platform" where
  "demo_platform da =
     \<lparr>drop_arena = da, audit_enabled = False, dump_enabled = False,
      os_malloc = (\<lambda>h n. if fresh_region h 4096 n then 4096 else 0),
      os_mmap = (\<lambda>h n. if fresh_region h 65536 n then 65536 else 0),
      os_realloc = (\<lambda>_. True)\<rparr>"

lemma demo_malloc_sound: "malloc_sound (demo_platform d)"
  by (auto simp: malloc_sound_def demo_platform_def)

lemma demo_mmap_sound: "mmap_sound (demo_platform d)"
  by (auto simp: mmap_sound_def demo_platform_def)

lemma heap0_ok: "heap_ok heap0"
  by (simp add: heap_ok_def heap0_def)

lemma heap0_clean: "arena_clean heap0"
  by (simp add: arena_clean_def heap0_def)

section \<open>Reads over the allocator's writes\<close>

lemma load32_zero_fill [mem_simps]:
  assumes "a + 4 \<le> b \<or> b + n \<le> a"
  shows "load32 (zero_fill m b n) a = load32 m a"
proof -
  have "rd (zero_fill m b n) a 4 = rd m a 4"
    using assms by (intro nth_equalityI) (auto simp: zero_fill_def)
  then show ?thesis by (simp add: load32_def)
qed

lemma write_header_fields [mem_simps]:
  "load32 (write_header m b n) b = 1" "load32 (write_header m b n) (b + 4) = word_of_int n"
  by (simp_all add: write_header_def HDR_def mem_simps apart_def)

lemma write_header_nozero_fields [mem_simps]:
  "load32 (write_header_nozero m b n) b = 1" "load32 (write_header_nozero m b n) (b + 4) = word_of_int n"
  by (simp_all add: write_header_nozero_def mem_simps apart_def)

lemma write_header_outside:
  "x < b \<or> b + 8 + n \<le> x \<Longrightarrow> 0 \<le> n \<Longrightarrow> write_header m b n x = m x"
  by (auto simp: write_header_def zero_fill_def store32_def HDR_def wr_outside split: if_splits)

lemma write_header_nozero_outside:
  "x < b \<or> b + 8 \<le> x \<Longrightarrow> write_header_nozero m b n x = m x"
  by (auto simp: write_header_nozero_def store32_def wr_outside)

lemma write_header_payload: "b + 8 \<le> x \<Longrightarrow> x < b + 8 + n \<Longrightarrow> write_header m b n x = 0"
  by (simp add: write_header_def zero_fill_def HDR_def)

lemma heap_audit_simps [simp]:
  "mem (heap_audit_alloc P h b n st) = mem h" "blocks (heap_audit_alloc P h b n st) = blocks h"
  "arena_start (heap_audit_alloc P h b n st) = arena_start h"
  "arena_current (heap_audit_alloc P h b n st) = arena_current h"
  "mem (heap_audit_free P h b n) = mem h" "blocks (heap_audit_free P h b n) = blocks h"
  "arena_start (heap_audit_free P h b n) = arena_start h"
  "arena_current (heap_audit_free P h b n) = arena_current h"
  by (simp_all add: heap_audit_alloc_def heap_audit_free_def)

lemma arena_align_eq: "arena_align s = 8 * ((s + 7) div 8)"
proof -
  have seven: "(7::int) = mask 3" by (simp add: mask_eq_exp_minus_1)
  have "(s + 7) AND NOT (mask 3) = push_bit 3 (drop_bit 3 (s + 7))"
    by (rule bit_eqI) (auto simp: bit_simps)
  then show ?thesis
    unfolding arena_align_def seven by (simp add: push_bit_eq_mult drop_bit_eq_div mask_eq_exp_minus_1)
qed

lemma arena_align_ge: "s \<le> arena_align s" and arena_align_lt: "arena_align s < s + 8"
  and arena_align_dvd: "8 dvd arena_align s"
  unfolding arena_align_eq by simp_all

section \<open>Allocation keeps the heap well-formed\<close>

text \<open>The heap read as storage: everything but the ledger and the birth counter.\<close>

definition same_store :: "heap \<Rightarrow> heap \<Rightarrow> bool" where
  "same_store h k \<longleftrightarrow> mem h = mem k \<and> blocks h = blocks k \<and> arena_start h = arena_start k
     \<and> arena_current h = arena_current k"

lemma fresh_region_cong: "blocks h = blocks k \<Longrightarrow> arena_start h = arena_start k \<Longrightarrow> fresh_region h = fresh_region k"
  by (simp add: fresh_region_def fun_eq_iff)

lemma fresh_region_total [simp]: "fresh_region (h\<lparr>alloc_total := t\<rparr>) = fresh_region h"
  by (rule fresh_region_cong) simp_all

lemma heap_ok_cong:
  "blocks h = blocks k \<Longrightarrow> arena_start h = arena_start k \<Longrightarrow> arena_current h = arena_current k \<Longrightarrow> heap_ok h = heap_ok k"
  by (simp add: heap_ok_def)

lemma heap_ok_malloc:
  assumes "heap_ok h" "fresh_region h p n"
    and "blocks k = (blocks h)(p \<mapsto> n)" "arena_start k = arena_start h" "arena_current k = arena_current h"
  shows "heap_ok k"
  using assms by (auto simp: heap_ok_def fresh_region_def intro: apart_sym)

lemma heap_ok_free: "heap_ok h \<Longrightarrow> heap_ok (free_block h p)"
  by (auto simp: heap_ok_def free_block_def)

lemma ensure_arena_frame:
  "blocks (ensure_arena P h) = blocks h" "aud (ensure_arena P h) = aud h"
  "arena_start h \<noteq> 0 \<Longrightarrow> ensure_arena P h = h"
  by (auto simp: ensure_arena_def arena_page_alloc_def Let_def)

lemma ensure_arena_ok:
  assumes "heap_ok h" "mmap_sound P"
  shows "heap_ok (ensure_arena P h)"
proof (cases "arena_start h = 0 \<and> os_mmap P h FALLBACK_ARENA_SIZE \<noteq> 0")
  case True
  then have "fresh_region h (os_mmap P h FALLBACK_ARENA_SIZE) FALLBACK_ARENA_SIZE"
    using assms(2) unfolding mmap_sound_def by blast
  with True assms(1) show ?thesis
    by (auto simp: ensure_arena_def arena_page_alloc_def Let_def heap_ok_def fresh_region_def intro: apart_sym)
next
  case False
  with assms(1) show ?thesis
    by (auto simp: ensure_arena_def arena_page_alloc_def Let_def heap_ok_def)
qed

lemma ensure_arena_clean:
  "arena_clean h \<Longrightarrow> arena_clean (ensure_arena P h)"
  by (auto simp: ensure_arena_def arena_page_alloc_def Let_def arena_clean_def zero_fill_def)

lemma ensure_arena_mem:
  assumes "mmap_sound P" "blocks h q = Some k" "q \<le> x" "x < q + int k"
  shows "mem (ensure_arena P h) x = mem h x"
proof (cases "arena_start h = 0 \<and> os_mmap P h FALLBACK_ARENA_SIZE \<noteq> 0")
  case True
  then have "fresh_region h (os_mmap P h FALLBACK_ARENA_SIZE) FALLBACK_ARENA_SIZE"
    using assms(1) unfolding mmap_sound_def by blast
  then have "apart (os_mmap P h FALLBACK_ARENA_SIZE) FALLBACK_ARENA_SIZE q k"
    using assms(2) by (simp add: fresh_region_def)
  with True assms(3,4) show ?thesis
    by (auto simp: ensure_arena_def arena_page_alloc_def zero_fill_def apart_def Let_def)
next
  case False
  then show ?thesis by (auto simp: ensure_arena_def arena_page_alloc_def Let_def)
qed

text \<open>
  The two ways an allocation succeeds: a fresh malloc block with a zeroed payload, or the next piece
  of the arena.  \<open>h1\<close> is the heap the chosen path started from.
\<close>

definition alloc_malloc_at :: "heap \<Rightarrow> addr \<Rightarrow> int \<Rightarrow> heap \<Rightarrow> bool" where
  "alloc_malloc_at h1 p n h' \<longleftrightarrow> fresh_region h1 (p - 8) (nat n + 8)
     \<and> mem h' = write_header (mem h1) (p - 8) n \<and> blocks h' = (blocks h1)(p - 8 \<mapsto> nat n + 8)
     \<and> arena_start h' = arena_start h1 \<and> arena_current h' = arena_current h1"

definition alloc_arena_at :: "heap \<Rightarrow> addr \<Rightarrow> int \<Rightarrow> heap \<Rightarrow> bool" where
  "alloc_arena_at h1 p n h' \<longleftrightarrow> arena_start h1 \<noteq> 0 \<and> p = arena_current h1 + 8
     \<and> arena_current h1 + arena_align (n + 8) \<le> arena_start h1 + int FALLBACK_ARENA_SIZE
     \<and> mem h' = write_header_nozero (mem h1) (p - 8) n \<and> blocks h' = blocks h1
     \<and> arena_start h' = arena_start h1 \<and> arena_current h' = arena_current h1 + arena_align (n + 8)"

lemma malloc_block_fresh:
  assumes "malloc_sound P" "malloc_block P h n = (p, h')" "p \<noteq> 0"
  shows "fresh_region h p n \<and> h' = h\<lparr>blocks := (blocks h)(p \<mapsto> n)\<rparr>"
  using assms unfolding malloc_block_def malloc_sound_def Let_def by auto

lemma kyte_bytes_alloc_cases:
  assumes "malloc_sound P" "kyte_bytes_alloc P h sz site = (p, h')" "p \<noteq> 0"
  obtains (block) "drop_arena P" "alloc_malloc_at h p (max 0 sz) h'"
    | (overflow) "\<not> drop_arena P" "alloc_malloc_at (ensure_arena P (h\<lparr>alloc_total := alloc_total h + 1\<rparr>)) p (max 0 sz) h'"
    | (bump) "\<not> drop_arena P" "alloc_arena_at (ensure_arena P (h\<lparr>alloc_total := alloc_total h + 1\<rparr>)) p (max 0 sz) h'"
proof -
  define h0 where "h0 = h\<lparr>alloc_total := alloc_total h + 1\<rparr>"
  define h1 where "h1 = ensure_arena P h0"
  define n where "n = (if sz < 0 then 0 else sz)"
  have n: "n = max 0 sz" by (simp add: n_def)
  have fr: "fresh_region h0 = fresh_region h" by (rule fresh_region_cong) (simp_all add: h0_def)
  note unf = kyte_bytes_alloc_def [of P h sz site] Let_def h0_def [symmetric] n_def [symmetric] h1_def [symmetric]
  show thesis
  proof (cases "drop_arena P")
    case True
    obtain b hb where b: "malloc_block P h0 (nat n + 8) = (b, hb)" by fastforce
    with True assms(2,3) have "b \<noteq> 0" "p = b + 8" and h': "h' = heap_audit_alloc P (hb\<lparr>mem := write_header (mem hb) b n\<rparr>) b n site"
      by (auto simp: unf HDR_def split: if_splits)
    then have "alloc_malloc_at h p (max 0 sz) h'"
      using malloc_block_fresh [OF assms(1) b] by (auto simp: alloc_malloc_at_def n fr h0_def)
    with True show thesis by (rule block)
  next
    case False
    show thesis
    proof (cases "arena_start h1 = 0 \<or> arena_current h1 + arena_align (n + HDR) > arena_start h1 + int FALLBACK_ARENA_SIZE")
      case full: True
      obtain b hb where b: "malloc_block P h1 (nat n + 8) = (b, hb)" by fastforce
      with False full assms(2,3) have "b \<noteq> 0" "p = b + 8" and h': "h' = hb\<lparr>mem := write_header (mem hb) b n\<rparr>"
        by (auto simp: unf HDR_def split: if_splits)
      then have "alloc_malloc_at h1 p (max 0 sz) h'"
        using malloc_block_fresh [OF assms(1) b] by (auto simp: alloc_malloc_at_def n)
      with False show thesis by (intro overflow) (simp_all add: h1_def h0_def)
    next
      case room: False
      with False assms(2) have "p = arena_current h1 + 8"
        and "h' = h1\<lparr>mem := write_header_nozero (mem h1) (arena_current h1) n, arena_current := arena_current h1 + arena_align (n + HDR)\<rparr>"
        by (auto simp: unf HDR_def)
      then have "alloc_arena_at h1 p (max 0 sz) h'"
        using room by (auto simp: alloc_arena_at_def n HDR_def)
      with False show thesis by (intro bump) (simp_all add: h1_def h0_def)
    qed
  qed
qed

lemma alloc_malloc_ok:
  assumes "heap_ok h1" "alloc_malloc_at h1 p n h'"
  shows "heap_ok h'"
  using assms by (auto simp: alloc_malloc_at_def intro: heap_ok_malloc)

lemma alloc_arena_ok:
  assumes "heap_ok h1" "alloc_arena_at h1 p n h'" "0 \<le> n"
  shows "heap_ok h'"
proof -
  have "0 \<le> arena_align (n + 8)" using arena_align_ge [of "n + 8"] assms(3) by simp
  with assms show ?thesis by (auto simp: alloc_arena_at_def heap_ok_def)
qed

lemma alloc_header:
  assumes "alloc_malloc_at h1 p n h' \<or> alloc_arena_at h1 p n h'"
  shows "hdr_rc h' p = 1 \<and> hdr_len h' p = word_of_int n"
proof -
  obtain b where "p = b + 8" by (metis diff_add_cancel)
  then show ?thesis using assms
    by (auto simp: alloc_malloc_at_def alloc_arena_at_def hdr_rc_def hdr_len_def mem_simps add.commute)
qed

end
