(* ===== verification/Kyte_Arc.thy ===== *)
theory Kyte_Arc
  imports Kyte_Heap
begin

text \<open>
  Reference counting and the boxes of \<^verbatim>\<open>src/runtime/alloc.cpp\<close>: \<^verbatim>\<open>kyte_retain\<close>,
  \<^verbatim>\<open>kyte_release\<close> on their plain and their atomic path (the flag
  \<^verbatim>\<open>g_arc_multithreaded\<close> is the argument \<open>mt\<close>), the \<^verbatim>\<open>any\<close> and optional boxes,
  and what the allocator and the counts guarantee together.  A destructor is code the compiler
  emits: it is a parameter, a function on the heap.
\<close>

type_synonym destructor = "(addr \<Rightarrow> heap \<Rightarrow> heap) option"

definition set_rc :: "heap \<Rightarrow> addr \<Rightarrow> u32 \<Rightarrow> heap" where
  "set_rc h p w = h\<lparr>mem := store32 (mem h) (p - HDR) w\<rparr>"

definition check_release_of_dead :: "platform \<Rightarrow> heap \<Rightarrow> addr \<Rightarrow> heap" where
  "check_release_of_dead P h payload =
     (if \<not> audit_enabled P \<or> \<not> dump_enabled P then h
      else if live_contains (aud h) (payload - HDR) then h
      else if sint (load32 (mem h) (payload - HDR)) > 1000000 then h
      else h\<lparr>aud := (aud h)\<lparr>dead_releases := dead_releases (aud h) + 1\<rparr>\<rparr>)"

definition kyte_retain :: "bool \<Rightarrow> heap \<Rightarrow> addr \<Rightarrow> heap" where
  "kyte_retain mt h p =
     (if p = 0 then h
      else if is_in_arena h p then h
      else if \<not> mt then
        (if sint (hdr_rc h p) < 0 then h else set_rc h p (hdr_rc h p + 1))
      else
        (if sint (hdr_rc h p) < 0 then h else set_rc h p (hdr_rc h p + 1)))"

definition kyte_release :: "bool \<Rightarrow> platform \<Rightarrow> destructor \<Rightarrow> heap \<Rightarrow> addr \<Rightarrow> heap" where
  "kyte_release mt P dt h p =
     (if p = 0 then h
      else if is_in_arena h p then h
      else
        (let h = check_release_of_dead P h p in
         if \<not> mt then
           (if sint (hdr_rc h p) < 0 then h
            else (let h = set_rc h p (hdr_rc h p - 1) in
                  if hdr_rc h p = 0 then
                   (let h = set_rc h p (- 999);
                        h = (case dt of None \<Rightarrow> h | Some d \<Rightarrow> d p h);
                        h = heap_audit_free P h (p - HDR) (audit_size_of h (p - HDR)) in
                    free_block h (p - HDR))
                  else h))
         else
           (if sint (hdr_rc h p) < 0 then h
            else (let old = hdr_rc h p; h = set_rc h p (old - 1) in
                  if old = 1 then
                   (let h = set_rc h p (- 999);
                        h = (case dt of None \<Rightarrow> h | Some d \<Rightarrow> d p h);
                        h = heap_audit_free P h (p - HDR) (audit_size_of h (p - HDR)) in
                    free_block h (p - HDR))
                  else h))))"

section \<open>Boxes\<close>

definition kyte_any_box :: "platform \<Rightarrow> heap \<Rightarrow> u64 \<Rightarrow> u64 \<Rightarrow> addr \<Rightarrow> addr \<times> heap" where
  "kyte_any_box P h payload dtor site =
     (let (box, h) = kyte_bytes_alloc P h 16 site in
      if box = 0 then (0, h)
      else (box, h\<lparr>mem := store64 (store64 (mem h) box payload) (box + 8) dtor\<rparr>))"

definition kyte_any_unbox :: "heap \<Rightarrow> addr \<Rightarrow> u64" where
  "kyte_any_unbox h box = (if box = 0 then 0 else load64 (mem h) box)"

text \<open>\<open>code\<close> is what a stored destructor pointer runs.\<close>

definition kyte_any_box_dtor :: "bool \<Rightarrow> platform \<Rightarrow> (u64 \<Rightarrow> addr \<Rightarrow> heap \<Rightarrow> heap) \<Rightarrow> heap \<Rightarrow> addr \<Rightarrow> heap" where
  "kyte_any_box_dtor mt P code h box =
     (if box = 0 then h
      else (let payload = load64 (mem h) box; dtor = load64 (mem h) (box + 8) in
            if dtor \<noteq> 0 then kyte_release mt P (Some (code dtor)) h (addr_of_word payload) else h))"

definition kyte_valopt_box :: "platform \<Rightarrow> heap \<Rightarrow> u64 \<Rightarrow> addr \<Rightarrow> addr \<times> heap" where
  "kyte_valopt_box P h v site =
     (let (box, h) = kyte_bytes_alloc P h 8 site in
      if box = 0 then (0, h) else (box, h\<lparr>mem := store64 (mem h) box v\<rparr>))"

definition kyte_valopt_unbox :: "heap \<Rightarrow> addr \<Rightarrow> u64" where
  "kyte_valopt_unbox h box = (if box = 0 then 0 else load64 (mem h) box)"

section \<open>The interface of a counted object\<close>

text \<open>
  \<open>run_counts\<close> performs a sequence of retains (\<open>True\<close>) and releases (\<open>False\<close>); \<open>balance\<close> is the count it leaves,
  if no release is applied to a count of one and no retain to the largest 32-bit count.  \<open>refcount\<close> is what a client of the counts relies on: in a good heap an increment adds one, a
  decrement of a count above one takes one off, and neither does anything else.  Its lemma: along any
  sequence of retains and releases that never reaches zero, only the count has moved.
\<close>

fun run_counts :: "('h \<Rightarrow> 'h) \<Rightarrow> ('h \<Rightarrow> 'h) \<Rightarrow> bool list \<Rightarrow> 'h \<Rightarrow> 'h" where
  "run_counts inc dec [] h = h"
| "run_counts inc dec (b # bs) h = run_counts inc dec bs (if b then inc h else dec h)"

fun balance :: "int \<Rightarrow> bool list \<Rightarrow> int option" where
  "balance c [] = Some c"
| "balance c (True # bs) = (if c < 2 ^ 31 - 1 then balance (c + 1) bs else None)"
| "balance c (False # bs) = (if c > 1 then balance (c - 1) bs else None)"

locale refcount =
  fixes inc dec :: "heap \<Rightarrow> heap" and cnt :: "heap \<Rightarrow> int"
    and put :: "heap \<Rightarrow> int \<Rightarrow> heap" and good :: "heap \<Rightarrow> bool"
  assumes inc_put: "good h \<Longrightarrow> 0 \<le> cnt h \<Longrightarrow> cnt h < 2 ^ 31 - 1 \<Longrightarrow> inc h = put h (cnt h + 1)"
    and dec_put: "good h \<Longrightarrow> 1 < cnt h \<Longrightarrow> dec h = put h (cnt h - 1)"
    and cnt_put: "- (2 ^ 31) \<le> v \<Longrightarrow> v < 2 ^ 31 \<Longrightarrow> cnt (put h v) = v"
    and put_put: "put (put h v) w = put h w"
    and put_cnt: "put h (cnt h) = h"
    and good_put: "good (put h v) = good h"
begin

lemma run_balance:
  "good h \<Longrightarrow> 0 < cnt h \<Longrightarrow> cnt h < 2 ^ 31 \<Longrightarrow> balance (cnt h) bs = Some c \<Longrightarrow>
     run_counts inc dec bs h = put h c \<and> 0 < c \<and> c < 2 ^ 31"
proof (induction bs arbitrary: h)
  case Nil
  then show ?case using put_cnt [of h] by auto
next
  case (Cons b bs)
  define v where "v = (if b then cnt h + 1 else cnt h - 1)"
  have v: "0 < v" "v < 2 ^ 31" "balance v bs = Some c"
    using Cons.prems by (cases b; auto simp: v_def split: if_splits)+
  have step: "(if b then inc h else dec h) = put h v"
    using Cons.prems by (cases b) (auto simp: v_def inc_put dec_put split: if_splits)
  show ?case
    using Cons.IH [of "put h v"] v Cons.prems(1) by (simp add: step cnt_put good_put put_put)
qed

end

definition countable :: "platform \<Rightarrow> addr \<Rightarrow> heap \<Rightarrow> bool" where
  "countable P p h \<longleftrightarrow> p \<noteq> 0 \<and> \<not> is_in_arena h p
     \<and> (\<not> audit_enabled P \<or> \<not> dump_enabled P \<or> live_contains (aud h) (p - HDR))"

lemma hdr_rc_set [simp]: "hdr_rc (set_rc h p w) p = w"
  by (simp add: hdr_rc_def set_rc_def HDR_def mem_simps)

lemma set_rc_set [simp]: "set_rc (set_rc h p v) p w = set_rc h p w"
  by (simp add: set_rc_def mem_simps)

lemma set_rc_id [simp]: "set_rc h p (hdr_rc h p) = h"
  by (simp add: set_rc_def hdr_rc_def HDR_def mem_simps)

lemma set_rc_frame [simp]:
  "is_in_arena (set_rc h p v) q = is_in_arena h q" "aud (set_rc h p v) = aud h"
  "blocks (set_rc h p v) = blocks h" "countable P p (set_rc h p v) = countable P p h"
  by (simp_all add: set_rc_def is_in_arena_def countable_def)

lemma check_release_countable [simp]: "countable P p h \<Longrightarrow> check_release_of_dead P h p = h"
  by (auto simp: check_release_of_dead_def countable_def)

text \<open>The plain and the atomic path compute the same heap.\<close>

lemma release_paths_agree: "kyte_release True P dt h p = kyte_release False P dt h p"
  by (auto simp: kyte_release_def Let_def)

lemma retain_paths_agree: "kyte_retain True h p = kyte_retain False h p"
  by (auto simp: kyte_retain_def)

lemma kyte_retain_counted:
  "countable P p h \<Longrightarrow> 0 \<le> sint (hdr_rc h p) \<Longrightarrow> kyte_retain mt h p = set_rc h p (hdr_rc h p + 1)"
  by (auto simp: kyte_retain_def countable_def)

lemma kyte_release_counted:
  "countable P p h \<Longrightarrow> 1 < sint (hdr_rc h p) \<Longrightarrow> kyte_release mt P dt h p = set_rc h p (hdr_rc h p - 1)"
proof -
  assume c: "countable P p h" "1 < sint (hdr_rc h p)"
  then have "hdr_rc h p \<noteq> 1" by auto
  with c show ?thesis
    by (cases mt) (auto simp: kyte_release_def Let_def countable_def check_release_of_dead_def)
qed

text \<open>The object's heap when the last count goes: the header says dead, then the destructor has run.\<close>

definition destructed :: "destructor \<Rightarrow> addr \<Rightarrow> heap \<Rightarrow> heap" where
  "destructed dt p h = (case dt of None \<Rightarrow> set_rc h p (- 999) | Some d \<Rightarrow> d p (set_rc h p (- 999)))"

lemma kyte_release_cases:
  "kyte_release mt P dt h p =
     (if p = 0 \<or> is_in_arena h p then h
      else
        (let g = check_release_of_dead P h p in
         if sint (hdr_rc g p) < 0 then g
         else if hdr_rc g p = 1 then
           free_block (heap_audit_free P (destructed dt p g) (p - HDR) (audit_size_of (destructed dt p g) (p - HDR))) (p - HDR)
         else set_rc g p (hdr_rc g p - 1)))"
  by (cases mt; cases dt) (simp_all add: kyte_release_def destructed_def Let_def)

lemma kyte_release_last:
  "countable P p h \<Longrightarrow> hdr_rc h p = 1 \<Longrightarrow> kyte_release mt P dt h p =
     free_block (heap_audit_free P (destructed dt p h) (p - HDR) (audit_size_of (destructed dt p h) (p - HDR))) (p - HDR)"
  by (auto simp: kyte_release_cases Let_def countable_def check_release_of_dead_def)

interpretation arc: refcount "\<lambda>h. kyte_retain mt h p" "\<lambda>h. kyte_release mt P dt h p"
  "\<lambda>h. sint (hdr_rc h p)" "\<lambda>h v. set_rc h p (word_of_int v)" "countable P p"
  for mt P dt p
proof
  fix h v w
  have w: "word_of_int (sint (hdr_rc h p)) = hdr_rc h p" by simp
  show "countable P p h \<Longrightarrow> 0 \<le> sint (hdr_rc h p) \<Longrightarrow> sint (hdr_rc h p) < 2 ^ 31 - 1 \<Longrightarrow>
      kyte_retain mt h p = set_rc h p (word_of_int (sint (hdr_rc h p) + 1))"
    by (simp add: kyte_retain_counted)
  show "countable P p h \<Longrightarrow> 1 < sint (hdr_rc h p) \<Longrightarrow>
      kyte_release mt P dt h p = set_rc h p (word_of_int (sint (hdr_rc h p) - 1))"
    by (simp add: kyte_release_counted)
  show "- (2 ^ 31) \<le> v \<Longrightarrow> v < 2 ^ 31 \<Longrightarrow> sint (hdr_rc (set_rc h p (word_of_int v)) p) = v"
    by (simp add: sint32_of_int)
  show "set_rc (set_rc h p (word_of_int v)) p (word_of_int w) = set_rc h p (word_of_int w)" by simp
  show "set_rc h p (word_of_int (sint (hdr_rc h p))) = h" by simp
  show "countable P p (set_rc h p (word_of_int v)) = countable P p h" by simp
qed

end
