(* ===== verification/Kyte_Heap_Props.thy ===== *)
theory Kyte_Heap_Props
  imports Kyte_Arc
begin

text \<open>
  What the allocator, the counts and the audit guarantee together: the properties of
  \<^verbatim>\<open>src/runtime/alloc.cpp\<close> and the frame lemmas they rest on.
\<close>

section \<open>Frames of an allocation\<close>

lemma alloc_at_mem:
  assumes "alloc_malloc_at h1 p n h' \<or> alloc_arena_at h1 p n h'" "0 \<le> n" "x < p - 8 \<or> p + n \<le> x"
  shows "mem h' x = mem h1 x"
  using assms
  by (auto simp: alloc_malloc_at_def alloc_arena_at_def write_header_outside write_header_nozero_outside)

lemma alloc_at_apart:
  assumes ok: "heap_ok h1" and at: "alloc_malloc_at h1 p n h' \<or> alloc_arena_at h1 p n h'"
    and n: "0 \<le> n" and q: "blocks h1 q = Some k"
  shows "apart (p - 8) (nat n + 8) q k \<and> blocks h' q = Some k \<or> alloc_malloc_at h1 p n h' \<and> k = 0"
  using at
proof
  assume m: "alloc_malloc_at h1 p n h'"
  then have ap: "apart (p - 8) (nat n + 8) q k" using q by (simp add: alloc_malloc_at_def fresh_region_def)
  show ?thesis
  proof (cases "q = p - 8")
    case True
    with ap n have "k = 0" by (auto simp: apart_def)
    with m show ?thesis by simp
  next
    case False
    with m ap q show ?thesis by (simp add: alloc_malloc_at_def)
  qed
next
  assume a: "alloc_arena_at h1 p n h'"
  then have "apart q k (arena_start h1) FALLBACK_ARENA_SIZE"
    using ok q by (simp add: heap_ok_def alloc_arena_at_def)
  moreover have "n + 8 \<le> arena_align (n + 8)" by (rule arena_align_ge)
  ultimately have "apart (p - 8) (nat n + 8) q k"
    using a ok n by (auto simp: alloc_arena_at_def heap_ok_def apart_def)
  with a q show ?thesis by (simp add: alloc_arena_at_def)
qed

text \<open>Blocks of the C heap are never empty: the runtime asks for eight bytes at least.\<close>

definition no_empty_blocks :: "heap \<Rightarrow> bool" where
  "no_empty_blocks h \<longleftrightarrow> (\<forall>q k. blocks h q = Some k \<longrightarrow> k > 0)"

lemma alloc_frame:
  assumes "heap_ok h1" "no_empty_blocks h1" "0 \<le> n"
    and at: "alloc_malloc_at h1 p n h' \<or> alloc_arena_at h1 p n h'" and q: "blocks h1 q = Some k"
  shows "blocks h' q = Some k \<and> apart (p - 8) (nat n + 8) q k \<and> rd (mem h') q k = rd (mem h1) q k"
proof -
  have "k > 0" using assms(2) q by (simp add: no_empty_blocks_def)
  then have ap: "apart (p - 8) (nat n + 8) q k \<and> blocks h' q = Some k"
    using alloc_at_apart [OF assms(1) at assms(3) q] by auto
  have "rd (mem h') q k = rd (mem h1) q k"
    using ap alloc_at_mem [OF at assms(3)] assms(3) by (intro nth_equalityI) (auto simp: apart_def)
  with ap show ?thesis by simp
qed

lemma alloc_arena_frame:
  assumes "heap_ok h1" "0 \<le> n" "arena_start h1 \<noteq> 0"
    and at: "alloc_malloc_at h1 p n h' \<or> alloc_arena_at h1 p n h'"
    and x: "arena_start h1 \<le> x" "x < arena_current h1"
  shows "mem h' x = mem h1 x"
proof (rule alloc_at_mem [OF at assms(2)])
  show "x < p - 8 \<or> p + n \<le> x"
    using at assms(1-3) x
    by (auto simp: alloc_malloc_at_def alloc_arena_at_def fresh_region_def apart_def heap_ok_def)
qed

text \<open>
  \<open>fresh_object h p n k\<close>: going from \<open>h\<close> to \<open>k\<close>, the object with payload \<open>p\<close> of \<open>n\<close> bytes is new
  storage and everything that was live or in the arena before kept its bytes.
\<close>

definition fresh_object :: "heap \<Rightarrow> addr \<Rightarrow> int \<Rightarrow> heap \<Rightarrow> bool" where
  "fresh_object h p n k \<longleftrightarrow> heap_ok k
    \<and> (\<forall>q j. blocks h q = Some j \<longrightarrow> blocks k q = Some j \<and> apart (p - 8) (nat n + 8) q j \<and> rd (mem k) q j = rd (mem h) q j)
    \<and> (arena_start h \<noteq> 0 \<longrightarrow> (\<forall>x. arena_start h \<le> x \<and> x < arena_current h \<longrightarrow>
          mem k x = mem h x \<and> (x < p - 8 \<or> p + n \<le> x)))"

lemma kyte_bytes_alloc_fresh:
  assumes ok: "heap_ok h" "no_empty_blocks h" and P: "malloc_sound P" "mmap_sound P"
    and al: "kyte_bytes_alloc P h sz site = (p, h')" "p \<noteq> 0"
  shows "fresh_object h p (max 0 sz) h' \<and> hdr_rc h' p = 1 \<and> hdr_len h' p = word_of_int (max 0 sz)"
proof -
  define n where "n = max 0 sz"
  have n: "0 \<le> n" by (simp add: n_def)
  obtain h1 where h1: "h1 = h \<or> h1 = ensure_arena P (h\<lparr>alloc_total := alloc_total h + 1\<rparr>)"
    and at: "alloc_malloc_at h1 p n h' \<or> alloc_arena_at h1 p n h'"
    using kyte_bytes_alloc_cases [OF P(1) al] unfolding n_def by metis
  define h0 where "h0 = h\<lparr>alloc_total := alloc_total h + 1\<rparr>"
  have ok0: "heap_ok h0" using ok(1) heap_ok_cong [of h0 h] by (simp add: h0_def)
  have b1: "blocks h1 = blocks h" using h1 by (auto simp: ensure_arena_frame)
  have ok1: "heap_ok h1" using h1 ok(1) ensure_arena_ok [OF ok0 P(2)] by (auto simp: h0_def)
  have ne1: "no_empty_blocks h1" using ok(2) b1 by (simp add: no_empty_blocks_def)
  have mem1: "rd (mem h1) q k = rd (mem h) q k" if "blocks h q = Some k" for q k
    using h1 ensure_arena_mem [OF P(2), of h0 q k] that by (auto simp: h0_def intro: nth_equalityI)
  have ok': "heap_ok h'" using at alloc_malloc_ok [OF ok1] alloc_arena_ok [OF ok1 _ n] by blast
  have hd: "hdr_rc h' p = 1 \<and> hdr_len h' p = word_of_int n" by (rule alloc_header [OF at])
  have fr: "blocks h' q = Some k \<and> apart (p - 8) (nat n + 8) q k \<and> rd (mem h') q k = rd (mem h) q k"
    if "blocks h q = Some k" for q k
    using alloc_frame [OF ok1 ne1 n at, of q k] mem1 that by (simp add: b1)
  have ar: "mem h' x = mem h x \<and> (x < p - 8 \<or> p + n \<le> x)"
    if "arena_start h \<noteq> 0" "arena_start h \<le> x" "x < arena_current h" for x
  proof -
    have same: "arena_start h1 = arena_start h" "arena_current h1 = arena_current h" "mem h1 = mem h"
      using h1 that(1) by (auto simp: ensure_arena_frame)
    have "mem h' x = mem h1 x"
      using that same by (intro alloc_arena_frame [OF ok1 n _ at]) simp_all
    moreover have "x < p - 8 \<or> p + n \<le> x"
      using at ok1 that same n
      by (auto simp: alloc_malloc_at_def alloc_arena_at_def fresh_region_def apart_def heap_ok_def)
    ultimately show ?thesis by (simp add: same)
  qed
  show ?thesis using ok' hd fr ar by (simp add: n_def fresh_object_def)
qed

text \<open>Writing inside the new object disturbs nothing older.\<close>

lemma fresh_object_write:
  assumes "fresh_object h p n k" "0 \<le> n" "\<And>x. x < p - 8 \<or> p + n \<le> x \<Longrightarrow> m x = mem k x"
  shows "fresh_object h p n (k\<lparr>mem := m\<rparr>)"
proof -
  have "rd m q j = rd (mem k) q j" if "apart (p - 8) (nat n + 8) q j" for q j
    using that assms(2,3) by (intro nth_equalityI) (auto simp: apart_def)
  moreover have "heap_ok (k\<lparr>mem := m\<rparr>) = heap_ok k" by (rule heap_ok_cong) simp_all
  ultimately show ?thesis using assms by (auto simp: fresh_object_def)
qed

section \<open>Properties of the allocator\<close>

text \<open>
  An allocation that succeeds returns a payload whose header holds the
  count 1 and the requested length, keeps the heap well-formed, overlaps no live block and no earlier
  object of the arena, and changes no byte of either.
\<close>

theorem alloc_fresh:
  assumes ok: "heap_ok h" "no_empty_blocks h" and P: "malloc_sound P" "mmap_sound P"
    and al: "kyte_bytes_alloc P h sz site = (p, h')" "p \<noteq> 0"
  shows "heap_ok h' \<and> hdr_rc h' p = 1 \<and> hdr_len h' p = word_of_int (max 0 sz)
    \<and> (\<forall>q k. blocks h q = Some k \<longrightarrow> blocks h' q = Some k \<and> apart (p - 8) (nat (max 0 sz) + 8) q k
          \<and> rd (mem h') q k = rd (mem h) q k)
    \<and> (arena_start h \<noteq> 0 \<longrightarrow> (\<forall>x. arena_start h \<le> x \<and> x < arena_current h \<longrightarrow>
          mem h' x = mem h x \<and> (x < p - 8 \<or> p + max 0 sz \<le> x)))"
  using kyte_bytes_alloc_fresh [OF assms] by (simp add: fresh_object_def)

lemma demo_alloc: "\<exists>h'. kyte_bytes_alloc (demo_platform True) heap0 4 0 = (4104, h')"
  by (simp add: kyte_bytes_alloc_def Let_def malloc_block_def demo_platform_def HDR_def fresh_region_def heap0_def)

theorem alloc_fresh_witness:
  "\<exists>h'. kyte_bytes_alloc (demo_platform True) heap0 4 0 = (4104, h') \<and> heap_ok h' \<and> hdr_rc h' 4104 = 1"
proof -
  obtain h' where al: "kyte_bytes_alloc (demo_platform True) heap0 4 0 = (4104, h')"
    using demo_alloc by blast
  have "no_empty_blocks heap0" by (simp add: no_empty_blocks_def heap0_def)
  from alloc_fresh [OF heap0_ok this demo_malloc_sound demo_mmap_sound al] show ?thesis
    using al by auto
qed

lemma malloc_at_clean:
  assumes ok: "heap_ok h1" and cl: "arena_clean h1" and m: "alloc_malloc_at h1 p n h'" and n: "0 \<le> n"
  shows "arena_clean h'"
  unfolding arena_clean_def
proof (intro impI allI)
  fix y
  assume y: "arena_start h' \<noteq> 0" "arena_current h' \<le> y \<and> y < arena_start h' + int FALLBACK_ARENA_SIZE"
  then have same: "arena_start h1 \<noteq> 0" "arena_current h1 \<le> y" "y < arena_start h1 + int FALLBACK_ARENA_SIZE" "arena_start h1 \<le> arena_current h1"
    using m ok by (simp_all add: alloc_malloc_at_def heap_ok_def)
  have "apart (p - 8) (nat n + 8) (arena_start h1) FALLBACK_ARENA_SIZE"
    using m same(1) by (simp add: alloc_malloc_at_def fresh_region_def)
  then have "y < p - 8 \<or> p + n \<le> y" using same n by (auto simp: apart_def)
  then have "mem h' y = mem h1 y" using alloc_at_mem [OF disjI1 [OF m] n] by blast
  then show "mem h' y = 0" using same cl by (simp add: arena_clean_def)
qed

lemma arena_at_clean:
  assumes cl: "arena_clean h1" and a: "alloc_arena_at h1 p n h'" and n: "0 \<le> n"
  shows "arena_clean h'"
  unfolding arena_clean_def
proof (intro impI allI)
  fix y
  assume "arena_start h' \<noteq> 0" "arena_current h' \<le> y \<and> y < arena_start h' + int FALLBACK_ARENA_SIZE"
  moreover have "mem h' y = mem h1 y" if "p \<le> y" for y
    using a that by (simp add: alloc_arena_at_def write_header_nozero_outside)
  ultimately show "mem h' y = 0" using a cl arena_align_ge [of "n + 8"] n by (auto simp: alloc_arena_at_def arena_clean_def)
qed

text \<open>
  As long as the arena has not been rewound, every payload the allocator
  returns is zero, on the malloc path by the explicit clearing and in the arena because its pages
  still hold the kernel's zeros; the allocation keeps the rest of the arena zero.
\<close>

theorem alloc_zeroed:
  assumes ok: "heap_ok h" "arena_clean h" and P: "malloc_sound P" "mmap_sound P"
    and al: "kyte_bytes_alloc P h sz site = (p, h')" "p \<noteq> 0" and x: "p \<le> x" "x < p + sz"
  shows "mem h' x = 0 \<and> arena_clean h'"
proof -
  define n where "n = max 0 sz"
  have n: "0 \<le> n" "x < p + n" using x by (simp_all add: n_def)
  obtain h1 where h1: "h1 = h \<or> h1 = ensure_arena P (h\<lparr>alloc_total := alloc_total h + 1\<rparr>)"
    and at: "alloc_malloc_at h1 p n h' \<or> alloc_arena_at h1 p n h'"
    using kyte_bytes_alloc_cases [OF P(1) al] unfolding n_def by metis
  have cl: "arena_clean h1"
    using h1 ok(2) ensure_arena_clean [of "h\<lparr>alloc_total := alloc_total h + 1\<rparr>" P] by (auto simp: arena_clean_def)
  have "heap_ok (h\<lparr>alloc_total := alloc_total h + 1\<rparr>)" using ok(1) by (simp add: heap_ok_def)
  then have ok1: "heap_ok h1" using ensure_arena_ok [OF _ P(2)] h1 ok(1) by blast
  from at show ?thesis
  proof
    assume m: "alloc_malloc_at h1 p n h'"
    then have "mem h' x = 0" using x n by (simp add: alloc_malloc_at_def write_header_payload)
    then show ?thesis using malloc_at_clean [OF ok1 cl m n(1)] by simp
  next
    assume a: "alloc_arena_at h1 p n h'"
    have "mem h' x = mem h1 x" using a x by (simp add: alloc_arena_at_def write_header_nozero_outside)
    then have "mem h' x = 0" using a x n cl arena_align_ge [of "n + 8"] by (auto simp: alloc_arena_at_def arena_clean_def)
    then show ?thesis using arena_at_clean [OF cl a n(1)] by simp
  qed
qed

theorem alloc_zeroed_witness:
  "\<exists>h'. kyte_bytes_alloc (demo_platform True) heap0 4 0 = (4104, h') \<and> mem h' 4105 = 0"
proof -
  obtain h' where al: "kyte_bytes_alloc (demo_platform True) heap0 4 0 = (4104, h')"
    using demo_alloc by blast
  from alloc_zeroed [OF heap0_ok heap0_clean demo_malloc_sound demo_mmap_sound al, of 4105] show ?thesis
    using al by auto
qed

text \<open>
  Rewinding the arena breaks the zeroing: a byte stored in an object
  allocated after a mark is what the first object allocated after the reset to that mark reads.
  (The arena path of \<^verbatim>\<open>kyte_bytes_alloc\<close> skips the clearing because the arena
  \<^verbatim>\<open>never reuses memory\<close>, which \<^verbatim>\<open>kyte_arena_reset\<close> does.)
\<close>

lemma alloc_bump_step:
  assumes "\<not> drop_arena P" "arena_start h \<noteq> 0" "0 \<le> n"
    and "arena_current h + arena_align (n + 8) \<le> arena_start h + int FALLBACK_ARENA_SIZE"
  shows "kyte_bytes_alloc P h n site =
    (arena_current h + 8,
     h\<lparr>alloc_total := alloc_total h + 1, mem := write_header_nozero (mem h) (arena_current h) n,
       arena_current := arena_current h + arena_align (n + 8)\<rparr>)"
  using assms by (simp add: kyte_bytes_alloc_def Let_def ensure_arena_def HDR_def)

theorem arena_reset_dirty:
  assumes "\<not> drop_arena P" "arena_start h > 0" "arena_start h \<le> arena_current h"
    and "arena_current h + 16 \<le> arena_start h + int FALLBACK_ARENA_SIZE"
    and p: "p = fst (kyte_bytes_alloc P h 1 site)" and h1: "h1 = snd (kyte_bytes_alloc P h 1 site)"
    and h2: "h2 = kyte_arena_reset (h1\<lparr>mem := wr (mem h1) p [b]\<rparr>) (kyte_arena_mark h)"
  shows "fst (kyte_bytes_alloc P h2 1 site) = p \<and> mem (snd (kyte_bytes_alloc P h2 1 site)) p = b"
proof -
  have al: "arena_align (1 + 8) = 16" by (simp add: arena_align_eq)
  note step = alloc_bump_step [where n = 1, unfolded al]
  have first: "kyte_bytes_alloc P h 1 site = (arena_current h + 8,
      h\<lparr>alloc_total := alloc_total h + 1, mem := write_header_nozero (mem h) (arena_current h) 1,
        arena_current := arena_current h + 16\<rparr>)"
    using assms(1-4) by (intro step) simp_all
  have h2_eq: "h2 = h1\<lparr>mem := wr (mem h1) p [b], arena_current := arena_current h\<rparr>"
    using assms(2,3) by (simp add: h2 h1 first kyte_arena_reset_def kyte_arena_mark_def)
  have "kyte_bytes_alloc P h2 1 site = (arena_current h2 + 8,
      h2\<lparr>alloc_total := alloc_total h2 + 1, mem := write_header_nozero (mem h2) (arena_current h2) 1,
        arena_current := arena_current h2 + 16\<rparr>)"
    using assms(1-4) by (intro step) (simp_all add: h2_eq h1 first)
  then show ?thesis
    by (simp add: h2_eq p first write_header_nozero_outside wr_def)
qed

definition demo_arena_heap :: heap where
  "demo_arena_heap = heap0\<lparr>arena_start := 65536, arena_current := 65536\<rparr>"

theorem arena_reset_dirty_witness:
  "\<exists>h2. fst (kyte_bytes_alloc (demo_platform False) h2 1 0) = 65544
     \<and> mem (snd (kyte_bytes_alloc (demo_platform False) h2 1 0)) 65544 = 7"
proof -
  let ?P = "demo_platform False"
  have al: "arena_align 9 = 16" by (simp add: arena_align_eq)
  have p: "65544 = fst (kyte_bytes_alloc ?P demo_arena_heap 1 0)"
    by (subst alloc_bump_step) (simp_all add: al demo_platform_def demo_arena_heap_def FALLBACK_ARENA_SIZE_def)
  have "\<not> drop_arena ?P" by (simp add: demo_platform_def)
  from arena_reset_dirty [OF this _ _ _ p refl refl, of 7] show ?thesis
    by (auto simp: demo_arena_heap_def FALLBACK_ARENA_SIZE_def)
qed

section \<open>Properties of the counts\<close>

lemma audit_free_counts:
  "audit_enabled P \<Longrightarrow> audit_bytes (aud (heap_audit_free P h b n)) = audit_bytes (aud h) - n
     \<and> audit_live (aud (heap_audit_free P h b n)) = audit_live (aud h) - 1"
  "\<not> audit_enabled P \<Longrightarrow> heap_audit_free P h b n = h"
  by (auto simp: heap_audit_free_def audit_free_def live_remove_def dead_ring_record_def Let_def split: option.splits)

text \<open>
  Property C2 (arc_lifetime).  Take an object of the malloc heap with a positive count and any sequence
  of retains and releases in which no release finds the count at 1, leaving the count at \<open>c\<close>.  Only the
  count has moved, and it is \<open>c\<close>.  If \<open>c\<close> is above 1 the next release takes one off and does nothing
  else: no destructor, no free.  If \<open>c\<close> is 1 the next release is the last: the destructor runs exactly
  once, on the heap that differs from the start only in the header's count, marked dead (-999); then the
  block of the object, and no other, is gone from what the destructor left, no byte of memory is written,
  and the audit counts one object less and its payload less when it is on, and is as it was when it is
  off.  This holds on the plain path and on the atomic one.
\<close>

theorem arc_lifetime:
  assumes "countable P p h" "0 < sint (hdr_rc h p)" "balance (sint (hdr_rc h p)) bs = Some c"
  shows "let H = run_counts (\<lambda>h. kyte_retain mt h p) (\<lambda>h. kyte_release mt P dt h p) bs h;
      K = kyte_release mt P dt H p;
      k = (case dt of None \<Rightarrow> set_rc h p (- 999) | Some d \<Rightarrow> d p (set_rc h p (- 999))) in
    H = set_rc h p (word_of_int c) \<and> sint (hdr_rc H p) = c
    \<and> (1 < c \<longrightarrow> K = set_rc h p (word_of_int (c - 1)) \<and> sint (hdr_rc K p) = c - 1)
    \<and> (c = 1 \<longrightarrow> K = k\<lparr>blocks := (blocks k)(p - 8 := None), aud := aud K\<rparr>
        \<and> (audit_enabled P \<longrightarrow> audit_live (aud K) = audit_live (aud k) - 1
              \<and> audit_bytes (aud K) = audit_bytes (aud k) - sint (hdr_len k p))
        \<and> (\<not> audit_enabled P \<longrightarrow> aud K = aud k))"
proof -
  define H where "H = run_counts (\<lambda>h. kyte_retain mt h p) (\<lambda>h. kyte_release mt P dt h p) bs h"
  have "sint (hdr_rc h p) < 2 ^ 31" using sint_lt [of "hdr_rc h p"] by simp
  from arc.run_balance [OF assms(1,2) this assms(3), of mt dt]
  have H: "H = set_rc h p (word_of_int c)" and c: "0 < c" "c < 2 ^ 31" by (simp_all add: H_def)
  have cnt: "countable P p H" "sint (hdr_rc H p) = c" using assms(1) c by (simp_all add: H sint32_of_int)
  have dec: "kyte_release mt P dt H p = set_rc h p (word_of_int (c - 1))" if "1 < c"
    using kyte_release_counted [OF cnt(1), of mt dt] cnt(2) that by (simp add: H)
  have last: "kyte_release mt P dt H p = free_block (heap_audit_free P (destructed dt p h) (p - 8) (sint (hdr_len (destructed dt p h) p))) (p - 8)"
    if "c = 1"
    using kyte_release_last [OF cnt(1), of mt dt] that
    by (cases dt) (simp_all add: H destructed_def audit_size_of_def hdr_len_def HDR_def)
  have "sint (hdr_rc (set_rc h p (word_of_int (c - 1))) p) = c - 1"
    unfolding hdr_rc_set using c by (simp only: sint32_of_int)
  moreover have "sint (hdr_rc H p) = c \<and> H = set_rc h p (word_of_int c)" using H cnt(2) by simp
  ultimately show ?thesis
    unfolding Let_def H_def [symmetric] destructed_def [symmetric]
    using dec last audit_free_counts [of P "destructed dt p h"]
    by (auto simp: free_block_def heap_audit_free_def simp del: of_int_diff)
qed

definition demo_obj :: heap where
  "demo_obj = heap0\<lparr>mem := write_header (\<lambda>_. 0) 4096 4, blocks := [4096 \<mapsto> 12]\<rparr>"

lemma demo_obj_rc: "hdr_rc demo_obj 4104 = 1"
  by (simp add: hdr_rc_def demo_obj_def mem_simps)

lemma demo_obj_countable: "countable (demo_platform d) 4104 demo_obj"
  by (simp add: countable_def demo_platform_def is_in_arena_def demo_obj_def heap0_def)

text \<open>A destructor that counts its runs at 64 and notes the count it finds in the header at 72.\<close>

definition noting :: "addr \<Rightarrow> heap \<Rightarrow> heap" where
  "noting p h = h\<lparr>mem := store32 (store32 (mem h) 64 (load32 (mem h) 64 + 1)) 72 (hdr_rc h p)\<rparr>"

theorem arc_lifetime_witness:
  "let K = kyte_release True (demo_platform True) (Some noting)
     (run_counts (\<lambda>h. kyte_retain True h 4104)
       (\<lambda>h. kyte_release True (demo_platform True) (Some noting) h 4104) [True, True, False, False] demo_obj) 4104
   in blocks K = Map.empty \<and> load32 (mem K) 64 = load32 (mem demo_obj) 64 + 1 \<and> load32 (mem K) 72 = - 999"
proof -
  have one: "sint (hdr_rc demo_obj 4104) = 1" by (simp add: demo_obj_rc)
  define k where "k = noting 4104 (set_rc demo_obj 4104 (- 999))"
  define K where "K = kyte_release True (demo_platform True) (Some noting) (run_counts (\<lambda>h. kyte_retain True h 4104)
       (\<lambda>h. kyte_release True (demo_platform True) (Some noting) h 4104) [True, True, False, False] demo_obj) 4104"
  have "0 < sint (hdr_rc demo_obj 4104)" "balance (sint (hdr_rc demo_obj 4104)) [True, True, False, False] = Some 1"
    unfolding one by simp_all
  from arc_lifetime [OF demo_obj_countable this, of True True "Some noting"]
  have "K = k\<lparr>blocks := (blocks k)(4104 - 8 := None), aud := aud K\<rparr>"
    unfolding Let_def option.case K_def [symmetric] k_def [symmetric] by blast
  then have "\<exists>A. K = k\<lparr>blocks := (blocks k)(4104 - 8 := None), aud := A\<rparr>" ..
  then have K: "blocks K = (blocks k)(4104 - 8 := None)" "mem K = mem k" by auto
  have "load32 (store32 (mem demo_obj) 4096 (- 999)) 64 = load32 (mem demo_obj) 64" by (simp add: mem_simps apart_def)
  then show ?thesis
    unfolding K_def [symmetric] Let_def K by (simp add: k_def noting_def set_rc_def HDR_def hdr_rc_def mem_simps apart_def) (simp add: demo_obj_def)
qed

end
