(* ===== verification/Kyte_Leaks.thy ===== *)
theory Kyte_Leaks
  imports Kyte_Heap_Props
begin

text \<open>
  The leak audit seen over whole runs of a program.  \<open>heap_run\<close> is the closure of the heap operations
  compiled code performs on objects it owns: allocations of every kind, retains, releases with a
  destructor that is itself such a run, explicit frees, and writes into payloads.  \<open>tracked\<close> ties the
  live table of the audit to the blocks \<^verbatim>\<open>malloc\<close> has outstanding; every operation preserves it.
\<close>

definition row_ok :: "heap \<Rightarrow> live_entry \<Rightarrow> bool" where
  "row_ok h e \<longleftrightarrow> 0 \<le> le_size e \<and> blocks h (le_base e) = Some (nat (le_size e) + 8)
     \<and> audit_size_of h (le_base e) = le_size e"

definition tracked :: "heap \<Rightarrow> bool" where
  "tracked h \<longleftrightarrow> heap_ok h \<and> arena_start h = 0 \<and> ledger (aud h) \<and> dead_releases (aud h) = 0
     \<and> le_base ` set (live (aud h)) = dom (blocks h) \<and> (\<forall>e \<in> set (live (aud h)). row_ok h e)"

definition audited :: "platform \<Rightarrow> bool" where
  "audited P \<longleftrightarrow> drop_arena P \<and> audit_enabled P \<and> dump_enabled P \<and> (\<forall>n. os_realloc P n) \<and> malloc_sound P"

definition owned :: "heap \<Rightarrow> addr \<Rightarrow> bool" where
  "owned h p \<longleftrightarrow> p - 8 \<in> dom (blocks h)"

definition in_payload :: "heap \<Rightarrow> addr \<Rightarrow> nat \<Rightarrow> bool" where
  "in_payload h a n \<longleftrightarrow> (\<exists>q k. blocks h q = Some k \<and> q + 8 \<le> a \<and> a + int n \<le> q + int k)"

inductive heap_run :: "platform \<Rightarrow> heap \<Rightarrow> heap \<Rightarrow> bool" for P :: platform where
  start: "heap_run P h h"
| alloc: "heap_run P h k \<Longrightarrow> n < 2 ^ 31 \<Longrightarrow> kyte_bytes_alloc P k n site = (p, k') \<Longrightarrow> heap_run P h k'"
| persistent: "heap_run P h k \<Longrightarrow> n < 2 ^ 31 \<Longrightarrow> kyte_bytes_alloc_persistent P k n site = (p, k') \<Longrightarrow> heap_run P h k'"
| persistent_nz: "heap_run P h k \<Longrightarrow> n < 2 ^ 31 \<Longrightarrow> kyte_bytes_alloc_persistent_nz P k n site = (p, k') \<Longrightarrow> heap_run P h k'"
| retain: "heap_run P h k \<Longrightarrow> owned k p \<Longrightarrow> heap_run P h (kyte_retain mt k p)"
| release: "heap_run P h k \<Longrightarrow> owned k p \<Longrightarrow>
    (\<And>d. dt = Some d \<Longrightarrow> owned (d p (set_rc k p (- 999))) p \<and> heap_run P (set_rc k p (- 999)) (d p (set_rc k p (- 999)))) \<Longrightarrow>
    heap_run P h (kyte_release mt P dt k p)"
| free: "heap_run P h k \<Longrightarrow> owned k p \<Longrightarrow> heap_run P h (kyte_bytes_free P k p)"
| payload: "heap_run P h k \<Longrightarrow> in_payload k a (length bs) \<Longrightarrow> heap_run P h (k\<lparr>mem := wr (mem k) a bs\<rparr>)"

section \<open>Every operation keeps the table exact\<close>

lemma tracked_block: "tracked h \<Longrightarrow> blocks h q = Some k \<Longrightarrow> 8 \<le> k \<and> (\<exists>e \<in> set (live (aud h)). le_base e = q \<and> row_ok h e)"
proof -
  assume tr: "tracked h" and q: "blocks h q = Some k"
  then have "q \<in> le_base ` set (live (aud h))" by (auto simp: tracked_def)
  then obtain e where e: "e \<in> set (live (aud h))" "le_base e = q" by blast
  moreover have "row_ok h e" using tr e by (simp add: tracked_def)
  ultimately show ?thesis using q by (auto simp: row_ok_def)
qed

lemma tracked_owned: "tracked h \<Longrightarrow> owned h p \<Longrightarrow> p > 8 \<and> p \<noteq> 0 \<and> \<not> is_in_arena h p \<and> live_contains (aud h) (p - 8)"
  by (fastforce simp: tracked_def owned_def heap_ok_def is_in_arena_def live_contains_iff)

lemma tracked_mem:
  assumes "tracked h" "\<And>q k. blocks h q = Some k \<Longrightarrow> load32 m (q + 4) = load32 (mem h) (q + 4)"
  shows "tracked (h\<lparr>mem := m\<rparr>)"
  using assms heap_ok_cong [of "h\<lparr>mem := m\<rparr>" h]
  by (auto simp: tracked_def row_ok_def audit_size_of_def)

lemma tracked_wr:
  assumes "tracked h" "\<And>q k. blocks h q = Some k \<Longrightarrow> apart (q + 4) 4 a (length bs)"
  shows "tracked (h\<lparr>mem := wr (mem h) a bs\<rparr>)"
  using assms by (intro tracked_mem) (auto simp: c32.get_wr)

lemma tracked_total [simp]: "tracked (h\<lparr>alloc_total := t\<rparr>) = tracked h"
  using heap_ok_cong [of "h\<lparr>alloc_total := t\<rparr>" h]
  by (simp add: tracked_def row_ok_def audit_size_of_def)

lemma blocks_apart:
  "tracked h \<Longrightarrow> blocks h p = Some n \<Longrightarrow> blocks h q = Some k \<Longrightarrow> p \<noteq> q \<Longrightarrow> apart p n q k"
  unfolding tracked_def heap_ok_def by blast

lemma owned_set_rc [simp]: "owned (set_rc h p w) q = owned h q"
  by (simp add: owned_def)

lemma tracked_set_rc:
  assumes "tracked h" "owned h p"
  shows "tracked (set_rc h p w)"
proof -
  obtain n where n: "blocks h (p - 8) = Some n" using assms(2) by (auto simp: owned_def)
  then have "8 \<le> n" using tracked_block [OF assms(1)] by blast
  have "apart (q + 4) 4 (p - HDR) (length (le_bytes 4 w))" if q: "blocks h q = Some k" for q k
  proof (cases "q = p - 8")
    case True
    then show ?thesis by (simp add: apart_def HDR_def)
  next
    case False
    then have "apart q k (p - 8) n" using blocks_apart [OF assms(1) q n] by simp
    then show ?thesis using \<open>8 \<le> n\<close> tracked_block [OF assms(1) q] by (auto simp: apart_def HDR_def)
  qed
  then show ?thesis using tracked_wr [OF assms(1)] by (simp add: set_rc_def store32_def)
qed

lemma tracked_payload:
  assumes "tracked h" "in_payload h a (length bs)"
  shows "tracked (h\<lparr>mem := wr (mem h) a bs\<rparr>)"
proof (rule tracked_wr [OF assms(1)])
  fix q k
  assume q: "blocks h q = Some k"
  obtain r n where r: "blocks h r = Some n" "r + 8 \<le> a" "a + int (length bs) \<le> r + int n"
    using assms(2) by (auto simp: in_payload_def)
  show "apart (q + 4) 4 a (length bs)"
  proof (cases "q = r")
    case True
    then show ?thesis using r by (simp add: apart_def)
  next
    case False
    then have "apart q k r n" by (rule blocks_apart [OF assms(1) q r(1)])
    then show ?thesis using r tracked_block [OF assms(1) q] by (auto simp: apart_def)
  qed
qed

lemma load32_outside:
  "(\<And>y. x \<le> y \<Longrightarrow> y < x + 4 \<Longrightarrow> m y = m' y) \<Longrightarrow> load32 m x = load32 m' x"
  by (auto simp: load32_def rd_def intro!: arg_cong [where f = le_word])

lemma tracked_new_block:
  assumes tr: "tracked h" and P: "audited P" and n: "0 \<le> n" "n < 2 ^ 31"
    and fresh: "fresh_region h p (nat n + 8)"
    and wr: "write = write_header \<or> write = write_header_nozero"
  shows "tracked (heap_audit_alloc P (h\<lparr>blocks := (blocks h)(p \<mapsto> nat n + 8), mem := write (mem h) p n\<rparr>) p n site)"
    (is "tracked ?k")
proof -
  have new: "p \<notin> dom (blocks h)"
  proof
    assume "p \<in> dom (blocks h)"
    then obtain k where k: "blocks h p = Some k" by blast
    then have "apart p (nat n + 8) p k" using fresh by (simp add: fresh_region_def)
    moreover have "8 \<le> k" using tracked_block [OF tr k] by simp
    ultimately show False using n by (auto simp: apart_def)
  qed
  then have new': "p \<notin> le_base ` set (live (aud h))" using tr by (simp add: tracked_def)
  have led: "ledger (aud ?k)"
    using audit_alloc_ledger [of "aud h" p "os_realloc P" n site] tr new' P
    by (simp add: tracked_def audited_def heap_audit_alloc_def)
  have live: "live (aud ?k) = live (aud h) @ [\<lparr>le_base = p, le_size = n, le_site = site\<rparr>]"
    "dead_releases (aud ?k) = 0"
    using P tr by (auto simp: heap_audit_alloc_def audit_alloc_def live_insert_def Let_def audited_def tracked_def)
  have "heap_ok h" using tr by (simp add: tracked_def)
  then have ok: "heap_ok ?k" by (rule heap_ok_malloc [OF _ fresh]) simp_all
  have size: "audit_size_of ?k p = n"
    using wr n by (auto simp: audit_size_of_def mem_simps sint32_of_int)
  have old: "load32 (mem ?k) (q + 4) = load32 (mem h) (q + 4)" if q: "blocks h q = Some k" for q k
  proof (rule load32_outside)
    fix y
    assume y: "q + 4 \<le> y" "y < q + 4 + 4"
    have "apart p (nat n + 8) q k" using fresh q by (simp add: fresh_region_def)
    with y n tracked_block [OF tr q] have out: "y < p \<or> p + 8 + n \<le> y" by (auto simp: apart_def)
    show "mem ?k y = mem h y"
      using wr write_header_outside [OF out n(1)] write_header_nozero_outside [of y p] out n(1) by auto
  qed
  have rows: "row_ok ?k e" if "e \<in> set (live (aud h))" for e
  proof -
    have re: "row_ok h e" using tr that by (simp add: tracked_def)
    have "le_base e \<noteq> p" using new' that by force
    with re old [of "le_base e"] show ?thesis
      by (simp add: row_ok_def audit_size_of_def)
  qed
  show ?thesis
    using ok led live size n rows tr
    by (auto simp: tracked_def row_ok_def)
qed

lemma malloc_block_cases:
  assumes "malloc_sound P"
  shows "malloc_block P h n = (0, h)
    \<or> (\<exists>p. malloc_block P h n = (p, h\<lparr>blocks := (blocks h)(p \<mapsto> n)\<rparr>) \<and> p \<noteq> 0 \<and> fresh_region h p n)"
  using assms by (auto simp: malloc_block_def Let_def malloc_sound_def fresh_region_def)

lemma tracked_persistent_with:
  assumes "tracked h" "audited P" "n < 2 ^ 31" "alloc_persistent_with write P h n site = (p, k)"
    "write = write_header \<or> write = write_header_nozero"
  shows "tracked k"
proof -
  define sz where "sz = (if n < 0 then 0 else n)"
  have sz: "0 \<le> sz" "sz < 2 ^ 31" using assms(3) by (auto simp: sz_def)
  have "malloc_sound P" using assms(2) by (simp add: audited_def)
  from malloc_block_cases [OF this, of h "nat sz + 8"] show ?thesis
    using assms(4) tracked_new_block [OF assms(1,2) sz _ assms(5), of _ site] assms(1)
    by (auto simp: alloc_persistent_with_def Let_def sz_def [symmetric] split: if_splits)
qed

lemma tracked_alloc:
  assumes "tracked h" "audited P" "n < 2 ^ 31" "kyte_bytes_alloc P h n site = (p, k)"
  shows "tracked k"
proof -
  have "alloc_persistent_with write_header P (h\<lparr>alloc_total := alloc_total h + 1\<rparr>) n site = (p, k)"
    using assms(2,4) by (simp add: kyte_bytes_alloc_def alloc_persistent_with_def audited_def Let_def)
  from tracked_persistent_with [OF _ assms(2,3) this disjI1 [OF refl]] assms(1) show ?thesis by simp
qed

lemma tracked_drop_block:
  assumes tr: "tracked h" and P: "audited P" and own: "owned h p"
  shows "tracked (free_block (heap_audit_free P h (p - HDR) (audit_size_of h (p - HDR))) (p - HDR))"
    (is "tracked ?k")
proof -
  let ?b = "p - HDR"
  obtain n where n: "blocks h ?b = Some n" using own by (auto simp: owned_def HDR_def)
  then obtain e where e: "e \<in> set (live (aud h))" "le_base e = ?b" and re: "row_ok h e"
    using tracked_block [OF tr] by blast
  then have sz: "le_size e = audit_size_of h ?b" by (simp add: row_ok_def)
  have led: "ledger (aud h)" using tr by (simp add: tracked_def)
  note fr = audit_free_ledger [OF led e sz, of "mem h"]
  have aud: "aud ?k = audit_free True True (aud h) (mem h) ?b (audit_size_of h ?b)"
    using P by (simp add: free_block_def heap_audit_free_def audited_def)
  have dist: "distinct (map le_base (live (aud h)))" using led by (simp add: ledger_def)
  have "mset (live (aud h)) = add_mset e (mset (live (aud ?k)))"
    using fr e(1) aud by simp
  then have live: "set (live (aud h)) = insert e (set (live (aud ?k)))"
    by (metis set_mset_add_mset_insert set_mset_mset)
  have gone: "le_base f \<noteq> ?b" if f: "f \<in> set (live (aud ?k))" for f
  proof
    assume "le_base f = ?b"
    have "mset (map le_base (live (aud h))) = add_mset ?b (mset (map le_base (live (aud ?k))))"
      using \<open>mset (live (aud h)) = _\<close> e(2) by simp
    then have "distinct (?b # map le_base (live (aud ?k)))"
      using dist by (metis mset.simps(2) mset_eq_imp_distinct_iff)
    then show False using f \<open>le_base f = ?b\<close> by force
  qed
  have dead: "dead_releases (aud ?k) = 0"
    using tr by (auto simp: aud audit_free_def live_remove_def dead_ring_record_def Let_def tracked_def split: option.splits)
  have "le_base ` set (live (aud ?k)) = dom (blocks ?k)"
  proof -
    have "dom (blocks ?k) = le_base ` insert e (set (live (aud ?k))) - {?b}"
      using tr by (simp only: live [symmetric]) (simp add: free_block_def tracked_def)
    then show ?thesis using gone e(2) by force
  qed
  moreover have "row_ok ?k f" if "f \<in> set (live (aud ?k))" for f
    using that gone [OF that] live tr by (auto simp: row_ok_def tracked_def audit_size_of_def free_block_def)
  moreover have "heap_ok ?k"
    using tr heap_ok_cong [of "heap_audit_free P h ?b (audit_size_of h ?b)" h]
    by (intro heap_ok_free) (simp add: tracked_def)
  ultimately show ?thesis
    using fr aud dead tr by (simp add: tracked_def free_block_def)
qed

lemma check_release_owned: "tracked h \<Longrightarrow> owned h p \<Longrightarrow> check_release_of_dead P h p = h"
  by (auto simp: check_release_of_dead_def HDR_def dest: tracked_owned)

lemma tracked_release:
  assumes tr: "tracked h" and P: "audited P" and own: "owned h p"
    and dt: "\<And>d. dt = Some d \<Longrightarrow> owned (d p (set_rc h p (- 999))) p \<and> tracked (d p (set_rc h p (- 999)))"
  shows "tracked (kyte_release mt P dt h p)"
proof -
  have "owned (destructed dt p h) p \<and> tracked (destructed dt p h)"
    using dt tracked_set_rc [OF tr own] own by (cases dt) (simp_all add: destructed_def)
  then have "tracked (free_block (heap_audit_free P (destructed dt p h) (p - HDR) (audit_size_of (destructed dt p h) (p - HDR))) (p - HDR))"
    using tracked_drop_block [OF _ P] by blast
  then show ?thesis
    using tr tracked_set_rc [OF tr own] check_release_owned [OF tr own, of P] by (simp add: kyte_release_cases Let_def)
qed

lemma heap_run_tracked:
  assumes "heap_run P h k" "audited P" "tracked h"
  shows "tracked k"
  using assms
proof (induction rule: heap_run.induct)
  case (release h k p dt mt)
  have t: "tracked k" using release by blast
  show ?case
    using release tracked_set_rc [OF t release.hyps(2)] by (intro tracked_release [OF t]) blast+
next
  case (retain h k p mt)
  then show ?case by (auto simp: kyte_retain_def intro: tracked_set_rc)
next
  case (free h k p)
  then have "tracked k" by blast
  then show ?case
    using free tracked_drop_block [of k P p] tracked_owned [of k p] by (simp add: kyte_bytes_free_def)
next
  case (persistent h k n site p k')
  then show ?case
    using tracked_persistent_with [of k P n write_header] by (simp add: kyte_bytes_alloc_persistent_def)
next
  case (persistent_nz h k n site p k')
  then show ?case
    using tracked_persistent_with [of k P n write_header_nozero] by (simp add: kyte_bytes_alloc_persistent_nz_def)
qed (blast intro: tracked_alloc tracked_payload)+

lemma heap0_tracked: "tracked heap0"
  by (simp add: tracked_def heap0_ok, simp add: heap0_def audit_init_def ledger_def)

section \<open>Properties\<close>

text \<open>
  Property C3 (audit_exact).  In an audited build whose \<^verbatim>\<open>realloc\<close> succeeds, along every run of
  heap operations from the empty heap (releases run destructors that are themselves such runs), the
  audit's figure is the number of blocks outstanding: the report is zero exactly when every object
  was given back, the byte counter is the payload outstanding, and no release is ever reported as a
  release of a dead object.
\<close>

theorem audit_exact:
  assumes "audited P" "heap_run P heap0 h"
  shows "kyte_arc_audit_report (audit_enabled P) (aud h) = int (card (dom (blocks h)))
    \<and> (kyte_arc_audit_report (audit_enabled P) (aud h) = 0 \<longleftrightarrow> blocks h = Map.empty)
    \<and> audit_bytes (aud h) = (\<Sum>e\<leftarrow>live (aud h). int (the (blocks h (le_base e))) - 8)
    \<and> dead_releases (aud h) = 0"
proof -
  have tr: "tracked h" by (rule heap_run_tracked [OF assms(2,1) heap0_tracked])
  then have led: "ledger (aud h)" and dom: "dom (blocks h) = le_base ` set (live (aud h))"
    by (simp_all add: tracked_def)
  have card: "card (dom (blocks h)) = length (live (aud h))"
    using led unfolding dom ledger_def by (metis distinct_card length_map set_map)
  have bytes: "map le_size (live (aud h)) = map (\<lambda>e. int (the (blocks h (le_base e))) - 8) (live (aud h))"
    using tr by (auto simp: tracked_def row_ok_def)
  have "blocks h = Map.empty \<longleftrightarrow> live (aud h) = []"
    using dom by (metis dom_eq_empty_conv image_is_empty set_empty)
  then show ?thesis
    using led card assms(1) tr bytes
    by (auto simp: kyte_arc_audit_report_def ledger_def audited_def tracked_def)
qed

definition audit_platform :: platform where
  "audit_platform = (demo_platform True)\<lparr>audit_enabled := True, dump_enabled := True\<rparr>"

lemma audit_platform_audited: "audited audit_platform"
  by (simp add: audited_def audit_platform_def demo_platform_def malloc_sound_def)

theorem audit_exact_witness:
  "kyte_arc_audit_report True (aud (snd (kyte_bytes_alloc audit_platform heap0 5 0)))
     = int (card (dom (blocks (snd (kyte_bytes_alloc audit_platform heap0 5 0)))))"
proof -
  have "heap_run audit_platform heap0 (snd (kyte_bytes_alloc audit_platform heap0 5 0))"
    by (rule heap_run.alloc [OF heap_run.start, where n = 5 and site = 0]) (simp_all add: prod_eq_iff)
  from audit_exact [OF audit_platform_audited this] show ?thesis
    by (simp add: audit_platform_def demo_platform_def)
qed

text \<open>
  The survivor dump names every leak once: the histogram it sorts
  has one row per allocation site, its rows add up to the number and the bytes of the survivors, and
  what is printed are the min(40, rows) largest rows in decreasing order of bytes.
\<close>

theorem leak_report_sound:
  shows "distinct (map sa_site (site_histogram es))
    \<and> tally (site_histogram es) = (int (length es), sum_list (map le_size es))
    \<and> mset (leak_by_site es) \<subseteq># mset (site_histogram es)
    \<and> sorted_wrt (\<lambda>x y. sa_bytes y \<le> sa_bytes x) (leak_by_site es)
    \<and> (\<forall>x \<in># mset (site_histogram es) - mset (leak_by_site es). \<forall>y \<in> set (leak_by_site es). sa_bytes x \<le> sa_bytes y)
    \<and> length (leak_by_site es) = min (length (site_histogram es)) 40"
  using print_rows_top [of "site_histogram es" 0 0] site_histogram_distinct [of "[]" es]
    site_histogram_tally [of "[]" es]
  by (simp add: leak_by_site_def site_histogram_def tally_def)

theorem leak_report_sound_witness:
  "length (leak_by_site [\<lparr>le_base = 1, le_size = 5, le_site = 7\<rparr>]) = min (length (site_histogram [\<lparr>le_base = 1, le_size = 5, le_site = 7\<rparr>])) 40"
  using leak_report_sound [of "[\<lparr>le_base = 1, le_size = 5, le_site = 7\<rparr>]"] by blast

end
