(* ===== verification/Kyte_Digits.thy ===== *)
theory Kyte_Digits
  imports Kyte_Prelude
begin

text \<open>
  Decimal digits as bytes, shared by the integer and the decimal formatters: the digits a
  \<^verbatim>\<open>do { *t++ = '0' + n % 10; n /= 10; } while (n)\<close> loop produces (last digit first), and the value
  a string of digits denotes.
\<close>

fun digits_rev :: "nat \<Rightarrow> bytes" where
  "digits_rev n = (48 + of_nat (n mod 10)) # (if n div 10 \<noteq> 0 then digits_rev (n div 10) else [])"

declare digits_rev.simps [simp del]

definition digit_of :: "u8 \<Rightarrow> nat" where
  "digit_of c = unat c - 48"

definition is_digit :: "u8 \<Rightarrow> bool" where
  "is_digit c \<longleftrightarrow> 48 \<le> c \<and> c \<le> 57"

definition digits_val :: "bytes \<Rightarrow> nat" where
  "digits_val bs = foldl (\<lambda>a c. a * 10 + digit_of c) 0 bs"

lemma digits_val_Nil [simp]: "digits_val [] = 0"
  by (simp add: digits_val_def)

lemma digits_val_snoc [simp]: "digits_val (bs @ [c]) = digits_val bs * 10 + digit_of c"
  by (simp add: digits_val_def)

lemma foldl_digits: "foldl (\<lambda>a c. a * 10 + digit_of c) a bs = a * 10 ^ length bs + digits_val bs"
  by (induction bs rule: rev_induct) (simp_all add: algebra_simps)

lemma digits_val_append: "digits_val (xs @ ys) = digits_val xs * 10 ^ length ys + digits_val ys"
  using foldl_digits [of "digits_val xs" ys] by (simp add: digits_val_def [of "xs @ ys"] digits_val_def [of xs])

lemma digits_val_Cons: "digits_val (c # bs) = digit_of c * 10 ^ length bs + digits_val bs"
  using digits_val_append [of "[c]" bs] by (simp add: digits_val_def)

lemma unat_digit: "k < 10 \<Longrightarrow> unat (48 + of_nat k :: u8) = 48 + k"
  by (simp add: unat_word_ariths unat_of_nat)

lemma digit_of_digit [simp]: "k < 10 \<Longrightarrow> digit_of (48 + of_nat k) = k"
  by (simp add: digit_of_def unat_digit)

lemma is_digit_digit [simp]: "k < 10 \<Longrightarrow> is_digit (48 + of_nat k)"
  by (simp add: is_digit_def word_le_nat_alt unat_digit)

lemma digits_val_zeros [simp]: "digits_val (replicate n 48) = 0"
  by (induction n) (simp_all add: digits_val_Cons digit_of_def)

lemma digits_val_digits_rev [simp]: "digits_val (rev (digits_rev n)) = n"
  by (induction n rule: digits_rev.induct) (simp add: digits_rev.simps [of "n" for n])

lemma digits_rev_digits: "c \<in> set (digits_rev n) \<Longrightarrow> is_digit c"
proof (induction n rule: digits_rev.induct)
  case (1 n)
  then show ?case by (auto simp: digits_rev.simps [of n] split: if_splits)
qed

lemma digits_rev_nonempty [simp]: "digits_rev n \<noteq> []"
  by (simp add: digits_rev.simps)

lemma length_digits_rev_le: "0 < k \<Longrightarrow> n < 10 ^ k \<Longrightarrow> length (digits_rev n) \<le> k"
proof (induction n arbitrary: k rule: digits_rev.induct)
  case (1 n)
  show ?case
  proof (cases "n div 10 = 0")
    case True
    then show ?thesis using "1.prems" by (simp add: digits_rev.simps [of n])
  next
    case False
    then obtain j where j: "k = Suc j" "0 < j"
      using "1.prems" by (cases k; cases "k - 1") auto
    have "n div 10 < 10 ^ j" using "1.prems" j by (simp add: div_less_iff_less_mult mult.commute)
    then show ?thesis using "1.IH" [OF False j(2)] False j by (simp add: digits_rev.simps [of n])
  qed
qed

lemma digits_rev_bound: "n < 10 ^ length (digits_rev n)"
proof (induction n rule: digits_rev.induct)
  case (1 n)
  show ?case
  proof (cases "n div 10 = 0")
    case True
    then show ?thesis by (simp add: digits_rev.simps [of n])
  next
    case False
    then have "n div 10 < 10 ^ length (digits_rev (n div 10))" by (rule "1.IH")
    then have "n < 10 * 10 ^ length (digits_rev (n div 10))" by (simp add: div_less_iff_less_mult mult.commute)
    then show ?thesis using False by (simp add: digits_rev.simps [of n])
  qed
qed

lemma digits_rev_lower: "0 < n \<Longrightarrow> 10 ^ (length (digits_rev n) - 1) \<le> n"
proof (induction n rule: digits_rev.induct)
  case (1 n)
  show ?case
  proof (cases "n div 10 = 0")
    case True
    then show ?thesis using "1.prems" by (simp add: digits_rev.simps [of n])
  next
    case False
    then have "10 ^ (length (digits_rev (n div 10)) - 1) \<le> n div 10" using "1.IH" by simp
    then have "10 * 10 ^ (length (digits_rev (n div 10)) - 1) \<le> n" by linarith
    moreover have "length (digits_rev (n div 10)) = Suc (length (digits_rev (n div 10)) - 1)" by simp
    ultimately have "10 ^ length (digits_rev (n div 10)) \<le> n" by (metis power_Suc)
    then show ?thesis using False by (simp add: digits_rev.simps [of n])
  qed
qed

text \<open>The leading digit is zero for zero only.\<close>

lemma last_digits_rev: "last (digits_rev n) = 48 \<longleftrightarrow> n = 0"
proof (induction n rule: digits_rev.induct)
  case (1 n)
  show ?case
  proof (cases "n div 10 = 0")
    case True
    then have n: "n < 10" by simp
    have "(48 + of_nat n = (48 :: u8)) \<longleftrightarrow> n = 0"
      using unat_digit [OF n] by auto
    with True n show ?thesis by (simp add: digits_rev.simps [of n])
  next
    case False
    with "1.IH" [OF False] show ?thesis by (auto simp: digits_rev.simps [of n])
  qed
qed

end
