(* ===== verification/Kyte_Str.thy ===== *)
theory Kyte_Str
  imports Kyte_Leaks Kyte_Digits
begin

text \<open>
  Kyte strings: \<^verbatim>\<open>src/runtime/runtime_str.h\<close> and the string operations of
  \<^verbatim>\<open>src/runtime/core.cpp\<close>.  A string is an object whose header length is the logical length and
  whose payload has one more byte, a terminating NUL: \<^verbatim>\<open>kyte_from_bytes\<close> allocates
  \<open>len + 1\<close> bytes and then rewrites the header.  A C string lives in a \<^verbatim>\<open>malloc\<close> block without a
  header; its length is found by \<^verbatim>\<open>strlen\<close>, which runs on until it meets a zero.
\<close>

text \<open>What a \<^verbatim>\<open>const char *src\<close> argument may be: null, a buffer of the caller, or heap memory.\<close>

datatype source = Null | Buf bytes | At addr

fun src_bytes :: "memory \<Rightarrow> source \<Rightarrow> nat \<Rightarrow> bytes" where
  "src_bytes m Null n = []"
| "src_bytes m (Buf bs) n = take n bs"
| "src_bytes m (At a) n = rd m a n"

definition set_len :: "heap \<Rightarrow> addr \<Rightarrow> int \<Rightarrow> heap" where
  "set_len h p len = h\<lparr>mem := store32 (mem h) (p - 4) (word_of_int len)\<rparr>"

definition kyte_to_cstr :: "platform \<Rightarrow> heap \<Rightarrow> addr \<Rightarrow> addr \<times> heap" where
  "kyte_to_cstr P h s =
     (if s = 0 then (0, h)
      else (let len = sint (hdr_len h s);
                len = (if len < 0 then 0 else len);
                (out, h) = malloc_block P h (nat len + 1) in
            if out = 0 then (0, h)
            else (out, h\<lparr>mem := wr (wr (mem h) out (rd (mem h) s (nat len))) (out + len) [0]\<rparr>)))"

definition kyte_free_cstr :: "heap \<Rightarrow> addr \<Rightarrow> addr \<Rightarrow> heap" where
  "kyte_free_cstr h kyte_str c = (if c \<noteq> 0 \<and> c \<noteq> kyte_str then free_block h c else h)"

definition kyte_from_bytes :: "platform \<Rightarrow> heap \<Rightarrow> source \<Rightarrow> int \<Rightarrow> addr \<Rightarrow> (addr \<times> heap) outcome" where
  "kyte_from_bytes P h src len0 site =
     (let len = (if len0 < 0 then 0 else len0) in
      if len > 0x7fffffff then Trap
      else (let (p, h) = kyte_bytes_alloc P h (len + 1) site in
            if p = 0 then Ok (0, h)
            else (let h = (if src \<noteq> Null \<and> len > 0
                           then h\<lparr>mem := wr (mem h) p (src_bytes (mem h) src (nat len))\<rparr> else h);
                      h = h\<lparr>mem := wr (mem h) (p + len) [0]\<rparr> in
                  Ok (p, set_len h p len))))"

text \<open>\<^verbatim>\<open>strlen\<close>: None when no zero byte follows.\<close>

partial_function (option) strlen_from :: "memory \<Rightarrow> addr \<Rightarrow> nat \<Rightarrow> nat option" where
  "strlen_from m a i = (if m (a + int i) = 0 then Some i else strlen_from m a (Suc i))"

definition strlen :: "memory \<Rightarrow> addr \<Rightarrow> nat option" where
  "strlen m a = strlen_from m a 0"

definition kyte_from_cstr :: "platform \<Rightarrow> heap \<Rightarrow> addr \<Rightarrow> addr \<Rightarrow> (addr \<times> heap) outcome" where
  "kyte_from_cstr P h c site =
     (if c = 0 then Ok (0, h)
      else (case strlen (mem h) c of
              None \<Rightarrow> Trap
            | Some n \<Rightarrow> kyte_from_bytes P h (At c) (int n) site))"

definition kyte_ffi_from_cstr :: "platform \<Rightarrow> heap \<Rightarrow> addr \<Rightarrow> addr \<Rightarrow> (addr \<times> heap) outcome" where
  "kyte_ffi_from_cstr P h c site =
     (if c = 0 then kyte_from_bytes P h (Buf []) 0 site else kyte_from_cstr P h c site)"

definition kyte_str_alloc :: "platform \<Rightarrow> heap \<Rightarrow> int \<Rightarrow> addr \<Rightarrow> addr \<times> heap" where
  "kyte_str_alloc P h len0 site =
     (let len = (if len0 < 0 then 0 else len0);
          (p, h) = kyte_bytes_alloc P h (len + 1) site in
      if p = 0 then (0, h)
      else (p, set_len (h\<lparr>mem := wr (mem h) (p + len) [0]\<rparr>) p len))"

text \<open>\<open>lit\<close> is the address of the literal \<^verbatim>\<open>""\<close> returned when memory runs out.\<close>

definition kyte_string_from :: "platform \<Rightarrow> heap \<Rightarrow> addr \<Rightarrow> bytes \<Rightarrow> int \<Rightarrow> addr \<Rightarrow> (addr \<times> heap) outcome" where
  "kyte_string_from P h lit c len site =
     bind_outcome (kyte_from_bytes P h (Buf c) len site)
       (\<lambda>(s, h). Ok (if s \<noteq> 0 then s else lit, h))"

section \<open>Numbers as text\<close>

text \<open>The do-while loop of \<^verbatim>\<open>kyte_i64_fmt\<close>: the digits, last one first.\<close>

function fmt_digits :: "u64 \<Rightarrow> bytes" where
  "fmt_digits u = (48 + ucast (u mod 10)) # (if u div 10 \<noteq> 0 then fmt_digits (u div 10) else [])"
  by pat_completeness auto
termination
proof (relation "measure unat")
  fix u :: u64
  assume nz: "u div 10 \<noteq> 0"
  have q: "unat (u div 10) = unat u div 10" by (simp add: unat_div)
  with nz have "unat u div 10 \<noteq> 0" by (metis unat_eq_zero)
  then show "(u div 10, u) \<in> measure unat" using q by simp
qed simp

declare fmt_digits.simps [simp del]

definition kyte_i64_fmt :: "int \<Rightarrow> bytes" where
  "kyte_i64_fmt v =
     (let u = (if v < 0 then word_of_int (- (v + 1)) + 1 else word_of_int v) in
      (if v < 0 then [45] else []) @ rev (fmt_digits u))"

definition kyte_i64_to_string :: "platform \<Rightarrow> heap \<Rightarrow> addr \<Rightarrow> int \<Rightarrow> addr \<Rightarrow> (addr \<times> heap) outcome" where
  "kyte_i64_to_string P h lit v site =
     (let buf = kyte_i64_fmt v in kyte_string_from P h lit buf (int (length buf)) site)"

definition kyte_bool_to_string :: "platform \<Rightarrow> heap \<Rightarrow> int \<Rightarrow> addr \<Rightarrow> (addr \<times> heap) outcome" where
  "kyte_bool_to_string P h v site =
     (if v \<noteq> 0 then kyte_from_bytes P h (Buf [116, 114, 117, 101]) 4 site
      else kyte_from_bytes P h (Buf [102, 97, 108, 115, 101]) 5 site)"

text \<open>\<^verbatim>\<open>kyte_write_hex\<close>: the bytes written to stderr; the loop fills \<^verbatim>\<open>h\<close> backwards.\<close>

function hex_digits :: "u64 \<Rightarrow> bytes" where
  "hex_digits v =
     (if v > 0
      then (let nib = v AND 0xF in (if nib < 10 then 48 + ucast nib else 97 + ucast nib - 10) # hex_digits (drop_bit 4 v))
      else [])"
  by pat_completeness auto
termination
proof (relation "measure unat")
  fix v :: u64
  assume "0 < v"
  then have "0 < unat v" by (simp add: word_less_nat_alt)
  moreover have "unat (drop_bit 4 v) = unat v div 16" by (simp add: drop_bit_eq_div unat_div)
  ultimately show "(drop_bit 4 v, v) \<in> measure unat" by simp
qed simp

declare hex_digits.simps [simp del]

definition kyte_write_hex :: "u64 \<Rightarrow> bytes" where
  "kyte_write_hex v = [48, 120] @ rev (if v = 0 then [48] else hex_digits v)"

text \<open>
  The trace without symbols: one \<^verbatim>\<open>0x%llx\<close> line per address, at most 64 and only while
  the next line fits in the 1280 bytes of \<^verbatim>\<open>line\<close>.
\<close>

fun stacktrace_lines :: "u64 list \<Rightarrow> nat \<Rightarrow> bytes \<Rightarrow> bytes" where
  "stacktrace_lines [] i line = line"
| "stacktrace_lines (a # as) i line =
     (if i < 64 then
        (let w = kyte_write_hex a @ [10] in
         if length line + length w \<ge> 1280 then line else stacktrace_lines as (Suc i) (line @ w))
      else line)"

text \<open>Out of memory, a non-empty trace is copied to address zero, which stops the process.\<close>

definition kyte_stacktrace_str :: "platform \<Rightarrow> heap \<Rightarrow> bytes \<Rightarrow> addr \<Rightarrow> (addr \<times> heap) outcome" where
  "kyte_stacktrace_str P h data site =
     (let (buf, h) = kyte_bytes_alloc P h (int (length data)) site in
      if data = [] then Ok (buf, h)
      else if buf = 0 then Trap
      else Ok (buf, h\<lparr>mem := wr (mem h) buf data\<rparr>))"

definition kyte_stacktrace_from_addrs :: "platform \<Rightarrow> heap \<Rightarrow> u64 list \<Rightarrow> addr \<Rightarrow> (addr \<times> heap) outcome" where
  "kyte_stacktrace_from_addrs P h addrs site = kyte_stacktrace_str P h (stacktrace_lines addrs 0 []) site"

text \<open>\<^verbatim>\<open>kyte_pg_be_i64\<close>: a big-endian signed integer of 1 to 8 bytes from the wire.\<close>

definition kyte_pg_be_i64 :: "memory \<Rightarrow> addr \<Rightarrow> int \<Rightarrow> u64" where
  "kyte_pg_be_i64 m ptr len =
     (if ptr = 0 \<or> len \<le> 0 \<or> len > 8 then 0
      else (let acc = foldl (\<lambda>acc b. push_bit 8 acc OR ucast b) 0 (rd m ptr (nat len)) in
            if len < 8 then
              (let signbit = push_bit (nat len * 8 - 1) 1 in
               if acc AND signbit \<noteq> 0 then acc OR NOT (push_bit (nat len * 8) 1 - 1) else acc)
            else acc))"

section \<open>Arguments, test messages and closures\<close>

text \<open>\<^verbatim>\<open>kyte_set_args\<close>, \<^verbatim>\<open>kyte_arg_count\<close> and \<^verbatim>\<open>kyte_arg_at\<close>: \<open>argv\<close> is null or the addresses of C strings.\<close>

record process_args =
  g_argc :: int
  g_argv :: "addr list option"

definition kyte_set_args :: "int \<Rightarrow> addr list option \<Rightarrow> process_args" where
  "kyte_set_args argc argv = \<lparr>g_argc = argc, g_argv = argv\<rparr>"

definition kyte_arg_count :: "process_args \<Rightarrow> int" where
  "kyte_arg_count A = g_argc A"

definition kyte_arg_at :: "process_args \<Rightarrow> platform \<Rightarrow> heap \<Rightarrow> int \<Rightarrow> addr \<Rightarrow> (addr \<times> heap) outcome" where
  "kyte_arg_at A P h i site =
     (if i < 0 \<or> i \<ge> g_argc A then kyte_from_bytes P h (Buf []) 0 site
      else (case g_argv A of
              None \<Rightarrow> kyte_from_bytes P h (Buf []) 0 site
            | Some argv \<Rightarrow> kyte_from_cstr P h (argv ! nat i) site))"

record test_state =
  t_failed :: bool
  t_msg :: bytes
  t_current :: bytes

definition kyte_test_reset :: "test_state \<Rightarrow> test_state" where
  "kyte_test_reset t = t\<lparr>t_failed := False, t_msg := []\<rparr>"

text \<open>\<open>name\<close> is the C string, without its NUL; 255 bytes of it are kept.\<close>

definition kyte_test_begin :: "test_state \<Rightarrow> bytes option \<Rightarrow> test_state" where
  "kyte_test_begin t name = (case name of None \<Rightarrow> t\<lparr>t_current := []\<rparr> | Some s \<Rightarrow> t\<lparr>t_current := take 255 s\<rparr>)"

text \<open>\<^verbatim>\<open>kyte_test_fail\<close> up to its \<^verbatim>\<open>_Exit(1)\<close>: what it leaves in the message buffer.\<close>

definition kyte_test_fail :: "test_state \<Rightarrow> heap \<Rightarrow> addr \<Rightarrow> test_state" where
  "kyte_test_fail t h msg =
     (let t = t\<lparr>t_failed := True\<rparr> in
      if msg \<noteq> 0 then
        (let n = sint (hdr_len h msg);
             len = (if n < 0 then 0 else if n > 1023 then 1023 else n) in
         t\<lparr>t_msg := rd (mem h) msg (nat len)\<rparr>)
      else t\<lparr>t_msg := []\<rparr>)"

definition kyte_test_did_fail :: "test_state \<Rightarrow> int" where
  "kyte_test_did_fail t = (if t_failed t then 1 else 0)"

text \<open>The message as a Kyte object: up to its first NUL; \<open>lit\<close> is the literal returned without memory.\<close>

definition kyte_test_fail_message :: "test_state \<Rightarrow> platform \<Rightarrow> heap \<Rightarrow> addr \<Rightarrow> addr \<Rightarrow> addr \<times> heap" where
  "kyte_test_fail_message t P h lit site =
     (let s = takeWhile (\<lambda>c. c \<noteq> 0) (t_msg t);
          (p, h) = kyte_bytes_alloc P h (int (length s)) site in
      if p = 0 then (lit, h) else (p, h\<lparr>mem := wr (mem h) p s\<rparr>))"

text \<open>\<open>code\<close> is the machine code behind a function pointer.\<close>

definition kyte_invoke_str_closure ::
  "(u64 \<Rightarrow> u64 \<Rightarrow> u64 \<Rightarrow> heap \<Rightarrow> (u64 \<times> heap) outcome) \<Rightarrow> platform \<Rightarrow> heap \<Rightarrow> addr \<Rightarrow> u64 \<Rightarrow> addr \<Rightarrow> (u64 \<times> heap) outcome" where
  "kyte_invoke_str_closure code P h box arg site =
     (if box = 0
      then bind_outcome (kyte_from_bytes P h (Buf []) 0 site) (\<lambda>(p, h). Ok (word_of_addr p, h))
      else code (load64 (mem h) box) (load64 (mem h) (box + 8)) arg h)"

definition kyte_invoke_void_closure :: "(u64 \<Rightarrow> u64 \<Rightarrow> heap \<Rightarrow> heap outcome) \<Rightarrow> heap \<Rightarrow> addr \<Rightarrow> heap outcome" where
  "kyte_invoke_void_closure code h box =
     (if box = 0 then Ok h else code (load64 (mem h) box) (load64 (mem h) (box + 8)) h)"

section \<open>The pool of I/O records\<close>

record op_pool =
  pool :: "addr list"
  pool_size :: int

definition KYTE_OP_POOL_MAX :: nat where "KYTE_OP_POOL_MAX = 256"

text \<open>The pool's array filled from the left, used as a stack: the head of the list is its last element.\<close>

definition kyte_op_alloc :: "platform \<Rightarrow> op_pool \<Rightarrow> heap \<Rightarrow> int \<Rightarrow> addr \<times> op_pool \<times> heap" where
  "kyte_op_alloc P q h sz =
     (let (q, h) = (if sz \<noteq> pool_size q
                    then (q\<lparr>pool := [], pool_size := sz\<rparr>, foldl free_block h (rev (pool q)))
                    else (q, h)) in
      case pool q of
        op # rest \<Rightarrow> (op, q\<lparr>pool := rest\<rparr>, h)
      | [] \<Rightarrow> (let (p, h) = malloc_block P h (nat sz) in (p, q, h)))"

definition kyte_op_free :: "op_pool \<Rightarrow> heap \<Rightarrow> addr \<Rightarrow> op_pool \<times> heap" where
  "kyte_op_free q h op =
     (if op = 0 then (q, h)
      else if length (pool q) < KYTE_OP_POOL_MAX then (q\<lparr>pool := op # pool q\<rparr>, h)
      else (q, free_block h op))"

end
