(* ===== verification/Kyte_Str_Props.thy ===== *)
theory Kyte_Str_Props
  imports Kyte_Str
begin

text \<open>
  What the string operations of \<^verbatim>\<open>core.cpp\<close> and \<^verbatim>\<open>runtime_str.h\<close> guarantee: the
  object a constructor returns, the passage through C strings, the integer formatter against a
  parser, the sign extension of the wire reader, and the discipline of the record pool.
\<close>

definition good_heap :: "platform \<Rightarrow> heap \<Rightarrow> bool" where
  "good_heap P h \<longleftrightarrow> heap_ok h \<and> no_empty_blocks h \<and> malloc_sound P \<and> mmap_sound P"

text \<open>\<open>kyte_string h p bs\<close>: \<open>p\<close> is a string object of count 1 with the bytes \<open>bs\<close> and its NUL.\<close>

definition kyte_string :: "heap \<Rightarrow> addr \<Rightarrow> bytes \<Rightarrow> bool" where
  "kyte_string h p bs \<longleftrightarrow> hdr_rc h p = 1 \<and> hdr_len h p = word_of_int (int (length bs))
     \<and> rd (mem h) p (length bs) = bs \<and> mem h (p + int (length bs)) = 0"

text \<open>A source whose bytes an allocation cannot move: a buffer, or bytes of a live block.\<close>

fun src_ok :: "heap \<Rightarrow> source \<Rightarrow> nat \<Rightarrow> bool" where
  "src_ok h Null n = (n = 0)"
| "src_ok h (Buf bs) n = (n \<le> length bs)"
| "src_ok h (At a) n = (\<exists>q k. blocks h q = Some k \<and> q \<le> a \<and> a + int n \<le> q + int k)"

lemma length_src_bytes: "src_ok h src n \<Longrightarrow> length (src_bytes m src n) = n"
  by (cases src) auto

lemma src_bytes_fresh:
  assumes "src_ok h src n" "fresh_object h p k h'"
  shows "src_bytes (mem h') src n = src_bytes (mem h) src n"
proof (cases src)
  case (At a)
  then obtain q j where q: "blocks h q = Some j" "q \<le> a" "a + int n \<le> q + int j" using assms(1) by auto
  then have same: "rd (mem h') q j = rd (mem h) q j" using assms(2) by (simp add: fresh_object_def)
  have "mem h' x = mem h x" if "q \<le> x" "x < q + int j" for x
  proof -
    have "rd (mem h') q j ! nat (x - q) = rd (mem h) q j ! nat (x - q)" by (simp only: same)
    then show ?thesis using that by simp
  qed
  then have "rd (mem h') a n = rd (mem h) a n" using q by (intro nth_equalityI) auto
  then show ?thesis by (simp add: At)
qed simp_all

lemma hdr_len_set_len [simp]: "hdr_len (set_len h p n) p = word_of_int n"
  by (simp add: hdr_len_def set_len_def mem_simps)

lemma hdr_rc_set_len [simp]: "hdr_rc (set_len h p n) p = hdr_rc h p"
  by (simp add: hdr_rc_def set_len_def mem_simps apart_def)

lemma mem_set_len: "x < p - 4 \<or> p \<le> x \<Longrightarrow> mem (set_len h p n) x = mem h x"
  by (auto simp: set_len_def store32_def wr_outside)

lemma hdr_rc_wr: "p \<le> a \<Longrightarrow> hdr_rc (h\<lparr>mem := wr m a bs\<rparr>) p = load32 m (p - 8)"
  by (simp add: hdr_rc_def c32.get_wr apart_def)

text \<open>The shared tail of the string constructors: content, NUL, length.\<close>

lemma finish_string:
  assumes fr: "fresh_object h p (int (length bs) + 1) k" and rc: "hdr_rc k p = 1"
  shows "fresh_object h p (int (length bs) + 1)
      (set_len (k\<lparr>mem := wr (wr (mem k) p bs) (p + int (length bs)) [0]\<rparr>) p (int (length bs)))
    \<and> kyte_string (set_len (k\<lparr>mem := wr (wr (mem k) p bs) (p + int (length bs)) [0]\<rparr>) p (int (length bs))) p bs"
    (is "?F \<and> ?S")
proof
  let ?m = "wr (wr (mem k) p bs) (p + int (length bs)) [0]"
  have "fresh_object h p (int (length bs) + 1) (k\<lparr>mem := store32 ?m (p - 4) (word_of_int (int (length bs)))\<rparr>)"
    by (rule fresh_object_write [OF fr]) (auto simp: store32_def wr_outside)
  then show ?F by (simp add: set_len_def)
  have body: "rd (store32 ?m (p - 4) w) p (length bs) = bs" for w
    by (simp add: store32_def mem_simps apart_def)
  have nul: "store32 ?m (p - 4) w (p + int (length bs)) = 0" for w
    by (simp add: store32_def wr_outside) (simp add: wr_def)
  have "hdr_rc (k\<lparr>mem := ?m\<rparr>) p = 1"
    using rc by (simp add: hdr_rc_def c32.get_wr apart_def)
  with body nul show ?S
    by (simp add: kyte_string_def) (simp add: set_len_def)
qed

lemma from_bytes_string:
  assumes good: "good_heap P h" and fb: "kyte_from_bytes P h src len site = Ok (p, h')" "p \<noteq> 0"
    and src: "src_ok h src (nat len)"
  shows "fresh_object h p (max 0 len + 1) h' \<and> kyte_string h' p (src_bytes (mem h) src (nat len))"
proof -
  define n where "n = (if len < 0 then 0 else len)"
  obtain k where al: "kyte_bytes_alloc P h (n + 1) site = (p, k)"
    and h': "h' = set_len ((if src \<noteq> Null \<and> n > 0 then k\<lparr>mem := wr (mem k) p (src_bytes (mem k) src (nat n))\<rparr> else k)
        \<lparr>mem := wr (mem (if src \<noteq> Null \<and> n > 0 then k\<lparr>mem := wr (mem k) p (src_bytes (mem k) src (nat n))\<rparr> else k)) (p + n) [0]\<rparr>) p n"
    using fb by (auto simp: kyte_from_bytes_def Let_def n_def [symmetric] split: prod.splits if_splits)
  have n: "0 \<le> n" "n = max 0 len" "nat n = nat len" by (auto simp: n_def)
  have "fresh_object h p (max 0 (n + 1)) k \<and> hdr_rc k p = 1 \<and> hdr_len k p = word_of_int (max 0 (n + 1))"
    using good kyte_bytes_alloc_fresh [OF _ _ _ _ al fb(2)] by (simp add: good_heap_def)
  then have fr: "fresh_object h p (n + 1) k" and rc: "hdr_rc k p = 1" using n by simp_all
  define bs where "bs = src_bytes (mem h) src (nat n)"
  have bs: "src_bytes (mem k) src (nat n) = bs"
    using src_bytes_fresh [OF _ fr, of src "nat n"] src by (simp only: bs_def n(3))
  have lbs: "int (length bs) = n" using length_src_bytes [OF src] n(1,3) by (simp only: bs_def)
  have nil: "\<not> (src \<noteq> Null \<and> n > 0) \<Longrightarrow> bs = []" using lbs src n(1) by (cases src) (auto simp: bs_def rd_def)
  have "h' = set_len (k\<lparr>mem := wr (wr (mem k) p bs) (p + int (length bs)) [0]\<rparr>) p (int (length bs))"
    using nil by (auto simp: h' bs lbs wr_nil)
  then show ?thesis
    using finish_string [of h p bs k] fr rc lbs n(2,3) by (simp add: bs_def)
qed

text \<open>
  A string built from bytes is a fresh object of count 1 whose
  header holds the logical length (not the allocated one), whose payload is the source followed by a
  NUL inside the allocation, and no live object has changed; above the 31-bit limit the constructor
  kills the process instead of returning a truncated length.
\<close>

theorem from_bytes_object:
  assumes "good_heap P h" "src_ok h src (nat len)"
    and "kyte_from_bytes P h src len site = r"
  shows "(len > 0x7fffffff \<longrightarrow> r = Trap)
    \<and> (\<forall>p h'. r = Ok (p, h') \<longrightarrow> p \<noteq> 0 \<longrightarrow>
         kyte_string h' p (src_bytes (mem h) src (nat len))
         \<and> sint (hdr_len h' p) = max 0 len
         \<and> heap_ok h'
         \<and> (\<forall>q k. blocks h q = Some k \<longrightarrow> blocks h' q = Some k
              \<and> apart (p - 8) (nat (max 0 len) + 9) q k \<and> rd (mem h') q k = rd (mem h) q k))"
proof (intro conjI impI allI)
  show "r = Trap" if "len > 0x7fffffff"
    using that assms(3) by (auto simp: kyte_from_bytes_def)
next
  fix p h'
  assume r: "r = Ok (p, h')" and p: "p \<noteq> 0"
  have fs: "fresh_object h p (max 0 len + 1) h' \<and> kyte_string h' p (src_bytes (mem h) src (nat len))"
    using from_bytes_string [OF assms(1) _ p assms(2)] assms(3) r by simp
  then show "kyte_string h' p (src_bytes (mem h) src (nat len))" by simp
  have "len \<le> 0x7fffffff" using assms(3) r by (auto simp: kyte_from_bytes_def Let_def split: if_splits)
  moreover have "hdr_len h' p = word_of_int (max 0 len)"
    using fs length_src_bytes [OF assms(2)] by (simp add: kyte_string_def)
  ultimately show "sint (hdr_len h' p) = max 0 len" by (simp add: sint32_of_int)
  show "heap_ok h'" using fs by (simp add: fresh_object_def)
  fix q k
  assume "blocks h q = Some k"
  then have "blocks h' q = Some k \<and> apart (p - 8) (nat (max 0 len + 1) + 8) q k \<and> rd (mem h') q k = rd (mem h) q k"
    using fs unfolding fresh_object_def by blast
  moreover have "nat (max 0 len + 1) + 8 = nat (max 0 len) + 9" by (simp add: nat_add_distrib)
  ultimately show "blocks h' q = Some k" "apart (p - 8) (nat (max 0 len) + 9) q k" "rd (mem h') q k = rd (mem h) q k"
    by simp_all
qed

lemma demo_good: "good_heap (demo_platform True) heap0"
  by (simp add: good_heap_def heap0_ok no_empty_blocks_def demo_malloc_sound demo_mmap_sound) (simp add: heap0_def)

lemma demo_from_bytes:
  "0 \<le> n \<Longrightarrow> n < 100 \<Longrightarrow> \<exists>h'. kyte_from_bytes (demo_platform True) heap0 (Buf bs) n 0 = Ok (4104, h')"
  by (simp add: kyte_from_bytes_def kyte_bytes_alloc_def Let_def malloc_block_def demo_platform_def HDR_def
      fresh_region_def heap0_def)

theorem from_bytes_object_witness:
  "\<exists>h'. kyte_from_bytes (demo_platform True) heap0 (Buf [65, 66]) 2 0 = Ok (4104, h') \<and> kyte_string h' 4104 [65, 66]"
proof -
  obtain h' where fb: "kyte_from_bytes (demo_platform True) heap0 (Buf [65, 66]) 2 0 = Ok (4104, h')"
    using demo_from_bytes [of 2 "[65, 66]"] by auto
  have "src_ok heap0 (Buf [65, 66]) (nat 2)" by simp
  from from_bytes_object [OF demo_good this fb] fb show ?thesis by auto
qed

section \<open>C strings\<close>

lemma strlen_from_eq:
  "(\<And>j. i \<le> j \<Longrightarrow> j < n \<Longrightarrow> m (a + int j) \<noteq> 0) \<Longrightarrow> m (a + int n) = 0 \<Longrightarrow> i \<le> n \<Longrightarrow> strlen_from m a i = Some n"
proof (induction "n - i" arbitrary: i)
  case 0
  then show ?case by (simp add: strlen_from.simps)
next
  case (Suc k)
  then have "m (a + int i) \<noteq> 0" by simp
  then show ?case using Suc by (simp add: strlen_from.simps [of m a i])
qed

lemma strlen_content:
  assumes "rd m a (length bs) = bs" "m (a + int (length bs)) = 0" "0 \<notin> set bs"
  shows "strlen m a = Some (length bs)"
  unfolding strlen_def
proof (rule strlen_from_eq)
  fix j
  assume "j < length bs"
  then have "m (a + int j) = bs ! j" using nth_rd [of j "length bs" m a] assms(1) by simp
  then show "m (a + int j) \<noteq> 0" using assms(3) \<open>j < length bs\<close> by (metis nth_mem)
qed (use assms in simp_all)

lemma cstr_copy:
  assumes good: "good_heap P h" and s: "kyte_string h s bs" "0 \<notin> set bs" "length bs < 2 ^ 31" "s \<noteq> 0"
    and live: "blocks h (s - 8) = Some (length bs + 9)"
    and c: "kyte_to_cstr P h s = (c, h1)" "c \<noteq> 0"
  shows "good_heap P h1 \<and> rd (mem h1) c (length bs) = bs \<and> strlen (mem h1) c = Some (length bs)
    \<and> blocks h1 = (blocks h)(c \<mapsto> length bs + 1)
    \<and> blocks (kyte_free_cstr h1 s c) = (blocks h)(c := None)"
proof -
  have len: "sint (hdr_len h s) = int (length bs)"
    using s(1,3) sint32_of_int [of "int (length bs)"] by (simp add: kyte_string_def)
  have body: "rd (mem h) s (length bs) = bs" using s(1) by (simp add: kyte_string_def)
  have P: "malloc_sound P" "mmap_sound P" using good by (simp_all add: good_heap_def)
  obtain h0 where mb: "malloc_block P h (length bs + 1) = (c, h0)"
    and h1: "h1 = h0\<lparr>mem := wr (wr (mem h0) c (rd (mem h0) s (length bs))) (c + int (length bs)) [0]\<rparr>"
    using c s(4) by (auto simp: kyte_to_cstr_def len Let_def split: prod.splits if_splits)
  have fr: "fresh_region h c (length bs + 1)" and h0: "h0 = h\<lparr>blocks := (blocks h)(c \<mapsto> length bs + 1)\<rparr>"
    using malloc_block_fresh [OF P(1) mb c(2)] by blast+
  have b1: "blocks h1 = (blocks h)(c \<mapsto> length bs + 1)" by (simp add: h1 h0)
  have m1: "mem h1 = wr (wr (mem h) c bs) (c + int (length bs)) [0]" by (simp add: h1 h0 body)
  have cont: "rd (mem h1) c (length bs) = bs" "mem h1 (c + int (length bs)) = 0"
    by (simp_all add: m1 mem_simps apart_def) (simp add: wr_def)
  then have sl: "strlen (mem h1) c = Some (length bs)" using s(2) by (rule strlen_content)
  have ne: "no_empty_blocks h1" using good b1 by (simp add: good_heap_def no_empty_blocks_def)
  have "heap_ok h" using good by (simp add: good_heap_def)
  then have "heap_ok h1" by (rule heap_ok_malloc [OF _ fr b1]) (simp_all add: h1 h0)
  then have "good_heap P h1" using ne P by (simp add: good_heap_def)
  moreover have "c \<noteq> s"
  proof
    assume "c = s"
    have "apart c (length bs + 1) (s - 8) (length bs + 9)" using fr live by (simp add: fresh_region_def)
    then show False using \<open>c = s\<close> by (simp add: apart_def)
  qed
  ultimately show ?thesis
    using sl b1 c(2) cont(1) by (simp add: kyte_free_cstr_def free_block_def)
qed

text \<open>
  Passing a string without NUL bytes to C and back gives an equal
  string in a new object: \<^verbatim>\<open>kyte_to_cstr\<close> leaves a NUL-terminated copy of exactly the logical
  length whatever follows the source, \<^verbatim>\<open>strlen\<close> returns on it, and
  \<^verbatim>\<open>kyte_from_cstr\<close> rebuilds the bytes.
\<close>

theorem cstr_roundtrip:
  assumes good: "good_heap P h" and s: "kyte_string h s bs" "0 \<notin> set bs" "length bs < 2 ^ 31" "s \<noteq> 0"
    and live: "blocks h (s - 8) = Some (length bs + 9)"
    and c: "kyte_to_cstr P h s = (c, h1)" "c \<noteq> 0"
    and f: "kyte_from_cstr P h1 c site = Ok (s2, h2)" "s2 \<noteq> 0"
  shows "kyte_string h2 s2 bs \<and> strlen (mem h1) c = Some (length bs)
    \<and> blocks h1 = (blocks h)(c \<mapsto> length bs + 1)
    \<and> blocks (kyte_free_cstr h1 s c) = (blocks h)(c := None)"
proof -
  have copy: "good_heap P h1" "rd (mem h1) c (length bs) = bs" "strlen (mem h1) c = Some (length bs)"
    "blocks h1 = (blocks h)(c \<mapsto> length bs + 1)" "blocks (kyte_free_cstr h1 s c) = (blocks h)(c := None)"
    using cstr_copy [OF good s live c] by simp_all
  have "kyte_from_bytes P h1 (At c) (int (length bs)) site = Ok (s2, h2)"
    using f c(2) copy(3) by (simp add: kyte_from_cstr_def)
  moreover have "src_ok h1 (At c) (nat (int (length bs)))"
    by (auto simp: copy(4) intro!: exI [of _ c])
  ultimately have "kyte_string h2 s2 (src_bytes (mem h1) (At c) (nat (int (length bs))))"
    using from_bytes_string [OF copy(1) _ f(2)] by blast
  then show ?thesis using copy by simp
qed

definition str_platform :: platform where
  "str_platform = (demo_platform True)\<lparr>os_malloc :=
     (\<lambda>h n. if fresh_region h 4096 n then 4096 else if fresh_region h 8192 n then 8192
           else if fresh_region h 12288 n then 12288 else 0)\<rparr>"

lemma str_platform_sound: "malloc_sound str_platform" "mmap_sound str_platform"
  by (auto simp: str_platform_def malloc_sound_def mmap_sound_def demo_platform_def)

lemma str_platform_malloc:
  "arena_start h = 0 \<Longrightarrow> blocks h = Map.empty \<Longrightarrow> os_malloc str_platform h n = 4096"
  "arena_start h = 0 \<Longrightarrow> blocks h = [4096 \<mapsto> k] \<Longrightarrow> 0 < n \<Longrightarrow> 0 < k \<Longrightarrow> k < 4096 \<Longrightarrow> os_malloc str_platform h n = 8192"
  "arena_start h = 0 \<Longrightarrow> blocks h = [4096 \<mapsto> k, 8192 \<mapsto> j] \<Longrightarrow> 0 < n \<Longrightarrow> 0 < k \<Longrightarrow> k < 4096 \<Longrightarrow> 0 < j \<Longrightarrow> j < 4096 \<Longrightarrow>
     os_malloc str_platform h n = 12288"
proof -
  show "arena_start h = 0 \<Longrightarrow> blocks h = Map.empty \<Longrightarrow> os_malloc str_platform h n = 4096"
    "arena_start h = 0 \<Longrightarrow> blocks h = [4096 \<mapsto> k] \<Longrightarrow> 0 < n \<Longrightarrow> 0 < k \<Longrightarrow> k < 4096 \<Longrightarrow> os_malloc str_platform h n = 8192"
    by (auto simp: str_platform_def fresh_region_def apart_def)
  assume h: "arena_start h = 0" "blocks h = [4096 \<mapsto> k, 8192 \<mapsto> j]" "0 < n" "0 < k" "k < 4096" "0 < j" "j < 4096"
  have "\<not> fresh_region h 4096 n" "\<not> fresh_region h 8192 n"
    using h unfolding fresh_region_def apart_def by (auto intro: exI [of _ 4096] exI [of _ 8192])
  moreover have "fresh_region h 12288 n" using h by (simp add: fresh_region_def apart_def)
  ultimately
  show "os_malloc str_platform h n = 12288" by (simp add: str_platform_def)
qed

lemma str_platform_flags [simp]: "drop_arena str_platform" "\<not> audit_enabled str_platform"
  by (simp_all add: str_platform_def demo_platform_def)

lemma from_bytes_block:
  assumes "drop_arena P" "0 \<le> len" "len \<le> 0x7fffffff" "\<And>k. blocks k = blocks h \<Longrightarrow> arena_start k = arena_start h \<Longrightarrow> os_malloc P k (nat len + 9) = b" "b > 0"
  shows "\<exists>k. kyte_from_bytes P h src len site = Ok (b + 8, k) \<and> blocks k = (blocks h)(b \<mapsto> nat len + 9) \<and> arena_start k = arena_start h"
proof -
  have sz: "nat (len + 1) + 8 = nat len + 9" using assms(2) by simp
  have "os_malloc P (h\<lparr>alloc_total := alloc_total h + 1\<rparr>) (nat len + 9) = b" using assms(4) by simp
  then have "\<exists>k. kyte_bytes_alloc P h (len + 1) site = (b + 8, k) \<and> blocks k = (blocks h)(b \<mapsto> nat len + 9) \<and> arena_start k = arena_start h"
    using assms(1,2,5) by (simp add: kyte_bytes_alloc_def Let_def sz malloc_block_def HDR_def)
  then show ?thesis using assms(2,3,5) by (auto simp: kyte_from_bytes_def Let_def set_len_def)
qed

lemma demo_str:
  obtains h where "kyte_string h 4104 [72, 105]" "good_heap str_platform h" "blocks h = [4096 \<mapsto> 11]" "arena_start h = 0"
proof -
  have z: "arena_start heap0 = 0" "blocks heap0 = Map.empty" by (simp_all add: heap0_def)
  obtain h where fb: "kyte_from_bytes str_platform heap0 (Buf [72, 105]) 2 0 = Ok (4104, h)"
    and b: "blocks h = [4096 \<mapsto> 11]" "arena_start h = 0"
    using from_bytes_block [of str_platform 2 heap0 4096 "Buf [72, 105]" 0] z by (auto simp: str_platform_malloc)
  have good: "good_heap str_platform heap0"
    by (simp add: good_heap_def str_platform_sound heap0_ok no_empty_blocks_def z)
  have "src_ok heap0 (Buf [72, 105]) (nat 2)" by simp
  from from_bytes_string [OF good fb _ this] have "fresh_object heap0 4104 3 h" "kyte_string h 4104 [72, 105]" by simp_all
  then show thesis
    using that b by (simp add: good_heap_def str_platform_sound no_empty_blocks_def fresh_object_def)
qed

theorem cstr_roundtrip_witness:
  "\<exists>h h1 h2. kyte_to_cstr str_platform h 4104 = (8192, h1)
     \<and> kyte_from_cstr str_platform h1 8192 0 = Ok (12296, h2) \<and> kyte_string h2 12296 [72, 105]"
proof -
  obtain h where s: "kyte_string h 4104 [72, 105]" and good: "good_heap str_platform h"
    and b: "blocks h = [4096 \<mapsto> 11]" and a: "arena_start h = 0" by (rule demo_str)
  have len: "hdr_len h 4104 = 2" and body: "rd (mem h) 4104 2 = [72, 105]"
    using s by (simp_all add: kyte_string_def numeral_2_eq_2)
  define h1 where "h1 = h\<lparr>blocks := [4096 \<mapsto> 11, 8192 \<mapsto> 3], mem := wr (wr (mem h) 8192 [72, 105]) 8194 [0]\<rparr>"
  have c: "kyte_to_cstr str_platform h 4104 = (8192, h1)"
    using a b by (simp add: kyte_to_cstr_def len Let_def malloc_block_def str_platform_malloc body h1_def)
  have sl: "strlen (mem h1) 8192 = Some 2"
  proof -
    have "rd (mem h1) 8192 (length [72 :: u8, 105]) = [72, 105]" "mem h1 (8192 + int (length [72 :: u8, 105])) = 0"
      by (simp_all add: h1_def mem_simps apart_def) (simp add: wr_def)
    from strlen_content [OF this] show ?thesis by simp
  qed
  obtain h2 where f: "kyte_from_cstr str_platform h1 8192 0 = Ok (12296, h2)"
  proof -
    have h1: "arena_start h1 = 0" "blocks h1 = [4096 \<mapsto> 11, 8192 \<mapsto> 3]" by (simp_all add: h1_def a)
    then obtain h2 where "kyte_from_bytes str_platform h1 (At 8192) 2 0 = Ok (12296, h2)"
      using from_bytes_block [of str_platform 2 h1 12288 "At 8192" 0] by (auto simp: str_platform_malloc)
    with that show thesis by (simp add: kyte_from_cstr_def sl)
  qed
  have "blocks h (4104 - 8) = Some (length [72 :: u8, 105] + 9)" by (simp add: b)
  from cstr_roundtrip [OF good s _ _ _ this c _ f] c f show ?thesis by auto
qed

section \<open>The integer formatter\<close>

lemma fmt_digits_rev: "fmt_digits u = digits_rev (unat u)"
proof (induction u rule: fmt_digits.induct)
  case (1 u)
  have "ucast (u mod 10) = (of_nat (unat (u mod 10)) :: u8)" by simp
  then have "ucast (u mod 10) = (of_nat (unat u mod 10) :: u8)" by (simp add: unat_mod)
  moreover have "u div 10 \<noteq> 0 \<longleftrightarrow> unat u div 10 \<noteq> 0"
  proof -
    have "unat (u div 10) = unat u div 10" by (simp add: unat_div)
    then show ?thesis by (metis unat_eq_zero)
  qed
  ultimately show ?case
    using 1 by (simp add: fmt_digits.simps [of u] digits_rev.simps [of "unat u"] unat_div)
qed

definition parse_i64 :: "bytes \<Rightarrow> int" where
  "parse_i64 bs = (if bs \<noteq> [] \<and> hd bs = 45 then - int (digits_val (tl bs)) else int (digits_val bs))"

lemma magnitude:
  assumes "- (2 ^ 63) \<le> v" "v < 2 ^ 63"
  shows "unat (if v < 0 then word_of_int (- (v + 1)) + 1 else word_of_int v :: u64) = nat \<bar>v\<bar>"
proof (cases "v < 0")
  case True
  then have "word_of_int (- (v + 1)) + 1 = (word_of_int (- v) :: u64)" by simp
  moreover have "unat (word_of_int (- v) :: u64) = nat (- v)"
    using True assms by (subst unsigned_of_int) (simp add: take_bit_int_eq_self)
  ultimately show ?thesis using True by (simp only: if_True abs_if)
next
  case False
  then show ?thesis using assms by (simp add: unsigned_of_int take_bit_int_eq_self)
qed

lemma hd_rev_last: "xs \<noteq> [] \<Longrightarrow> hd (rev xs) = last xs"
  by (simp add: hd_rev)

lemma i64_text:
  assumes "- (2 ^ 63) \<le> v" "v < 2 ^ 63"
  shows "parse_i64 (kyte_i64_fmt v) = v \<and> length (kyte_i64_fmt v) \<le> 20
    \<and> (\<exists>ds. kyte_i64_fmt v = (if v < 0 then [45] else []) @ ds \<and> ds \<noteq> []
         \<and> list_all is_digit ds \<and> (hd ds = 48 \<longrightarrow> v = 0))"
proof -
  define ds where "ds = rev (digits_rev (nat \<bar>v\<bar>))"
  have eq: "kyte_i64_fmt v = (if v < 0 then [45] else []) @ ds"
    using magnitude [OF assms] by (simp add: kyte_i64_fmt_def Let_def fmt_digits_rev ds_def)
  have val: "int (digits_val ds) = \<bar>v\<bar>" by (simp add: ds_def)
  have ne: "ds \<noteq> []" by (simp add: ds_def)
  have dig: "list_all is_digit ds" by (auto simp: ds_def list_all_iff digits_rev_digits)
  then have "is_digit (hd ds)" using ne by (auto simp: list_all_iff)
  then have "hd ds \<noteq> 45" by (auto simp: is_digit_def)
  then have "parse_i64 (kyte_i64_fmt v) = v" using val ne by (auto simp: parse_i64_def eq)
  moreover have "nat \<bar>v\<bar> < 10 ^ 19" using assms by simp
  then have "length ds \<le> 19" using length_digits_rev_le [of 19 "nat \<bar>v\<bar>"] by (simp add: ds_def)
  moreover have "hd ds = 48 \<longrightarrow> v = 0" by (simp add: ds_def hd_rev_last last_digits_rev)
  ultimately show ?thesis using eq ne dig by auto
qed

text \<open>
  Property C7 (i64_fmt_roundtrip).  For every 64-bit integer the formatter writes an optional minus
  sign and decimal digits that read back to that integer, without a leading zero (so without a
  negative zero), in at most 20 bytes: the 24-byte buffers of its callers cannot overflow.
\<close>

theorem i64_fmt_roundtrip:
  assumes "- (2 ^ 63) \<le> v" "v < 2 ^ 63"
  shows "parse_i64 (kyte_i64_fmt v) = v \<and> length (kyte_i64_fmt v) \<le> 20
    \<and> (\<exists>ds. kyte_i64_fmt v = (if v < 0 then [45] else []) @ ds \<and> ds \<noteq> []
         \<and> list_all is_digit ds \<and> (hd ds = 48 \<longrightarrow> v = 0))"
  by (rule i64_text [OF assms])

theorem i64_fmt_roundtrip_witness: "parse_i64 (kyte_i64_fmt (- 9223372036854775808)) = - 9223372036854775808"
  using i64_fmt_roundtrip [of "- 9223372036854775808"] by simp

section \<open>Integers from the wire\<close>

definition be_val :: "bytes \<Rightarrow> int" where
  "be_val bs = foldl (\<lambda>a b. a * 256 + uint b) 0 bs"

lemma be_val_snoc [simp]: "be_val (bs @ [b]) = be_val bs * 256 + uint b" and be_val_Nil [simp]: "be_val [] = 0"
  by (simp_all add: be_val_def)

lemma be_val_bounds: "0 \<le> be_val bs \<and> be_val bs < 256 ^ length bs"
proof (induction bs rule: rev_induct)
  case (snoc b bs)
  have "uint b < 256" using uint_lt2p [of b] by simp
  with snoc show ?case by (simp add: uint_nonnegative)
qed simp

lemma be_acc: "length bs \<le> 8 \<Longrightarrow> foldl (\<lambda>acc b. push_bit 8 acc OR ucast b) 0 bs = (word_of_int (be_val bs) :: u64)"
proof (induction bs rule: rev_induct)
  case (snoc b bs)
  have "push_bit 8 w OR ucast b = push_bit 8 w + (ucast b :: u64)" for w
    by (rule disjunctive_add [symmetric]) (auto simp: bit_simps dest: bit_imp_le_length)
  then show ?case using snoc by (simp add: push_bit_eq_mult mult.commute)
qed simp

lemma be_sign_extend:
  fixes acc :: u64
  assumes n: "0 < n" "n < 8" and acc: "acc = word_of_int v" "0 \<le> v" "v < 256 ^ n"
  shows "(if acc AND push_bit (n * 8 - 1) 1 \<noteq> 0 then acc OR NOT (push_bit (n * 8) 1 - 1) else acc)
    = word_of_int (signed_take_bit (n * 8 - 1) v)"
proof -
  have p: "(256 :: int) ^ n = 2 ^ (n * 8)" by (simp add: mult.commute [of n 8] power_mult)
  have v: "take_bit (n * 8) v = v" using acc(2,3) by (simp add: p take_bit_int_eq_self)
  have high: "\<not> bit v k" if "n * 8 \<le> k" for k
    using that by (subst v [symmetric]) (simp add: bit_take_bit_iff)
  have "acc AND push_bit (n * 8 - 1) 1 \<noteq> 0 \<longleftrightarrow> bit v (n * 8 - 1)"
  proof -
    have "acc AND push_bit (n * 8 - 1) 1 = 0 \<longleftrightarrow> \<not> bit acc (n * 8 - 1)"
      using and_exp_eq_0_iff_not_bit [of acc "n * 8 - 1"] by (simp add: push_bit_of_1)
    moreover have "n * 8 - 1 < LENGTH(64)" using n by simp
    ultimately show ?thesis by (simp only: acc(1) bit_word_of_int_iff) simp
  qed
  moreover have "push_bit (n * 8) 1 - 1 = (mask (n * 8) :: u64)"
    by (simp add: mask_eq_exp_minus_1 push_bit_of_1)
  moreover have "(if bit v (n * 8 - 1) then acc OR NOT (mask (n * 8)) else acc) = word_of_int (signed_take_bit (n * 8 - 1) v)"
  proof (rule bit_word_eqI)
    fix k
    assume k: "k < LENGTH(64)"
    consider "k < n * 8 - 1" | "k = n * 8 - 1" | "n * 8 \<le> k" using n by linarith
    then show "bit (if bit v (n * 8 - 1) then acc OR NOT (mask (n * 8)) else acc) k
        = bit (word_of_int (signed_take_bit (n * 8 - 1) v) :: u64) k"
      using k n high [of k] by cases (auto simp: acc(1) bit_simps bit_signed_take_bit_iff min_def)
  qed
  ultimately show ?thesis by (simp only:)
qed

lemma pg_be_word:
  assumes "ptr \<noteq> 0" "0 < n" "n \<le> 8" and v: "v = be_val (rd m ptr n)"
  shows "kyte_pg_be_i64 m ptr (int n) = word_of_int (signed_take_bit (8 * n - 1) v)"
proof -
  have b: "0 \<le> v" "v < 256 ^ n" using be_val_bounds [of "rd m ptr n"] by (simp_all add: v)
  have acc: "foldl (\<lambda>acc b. push_bit 8 acc OR ucast b) 0 (rd m ptr n) = (word_of_int v :: u64)"
    using be_acc [of "rd m ptr n"] assms(3) by (simp add: v)
  show ?thesis
  proof (cases "n = 8")
    case True
    have bits: "bit v (if 63 \<le> k then 63 else k) = bit v k" if "k < 64" for k
      using that by (cases "k = 63") auto
    have "word_of_int v = (word_of_int (signed_take_bit 63 v) :: u64)"
      by (rule bit_word_eqI) (simp add: bit_simps bit_signed_take_bit_iff min_def bits)
    with True assms(1) show ?thesis
      by (simp add: kyte_pg_be_i64_def Let_def acc [unfolded True])
  next
    case False
    then have n: "n < 8" and c: "\<not> (ptr = 0 \<or> int n \<le> 0 \<or> int n > 8)" "int n < 8" using assms by simp_all
    show ?thesis
      using be_sign_extend [OF assms(2) n refl b]
      unfolding kyte_pg_be_i64_def Let_def nat_int acc if_not_P [OF c(1)] if_P [OF c(2)] mult.commute [of 8 n] .
  qed
qed

lemma signed_take_bit_cut:
  fixes v :: int
  assumes "0 < k" "0 \<le> v" "v < 2 ^ k"
  shows "signed_take_bit (k - 1) v = (if v < 2 ^ (k - 1) then v else v - 2 ^ k)"
proof -
  have s: "Suc (k - 1) = k" using assms(1) by simp
  then have two: "(2 :: int) ^ k = 2 * 2 ^ (k - 1)" by (metis power_Suc)
  show ?thesis
  proof (cases "v < 2 ^ (k - 1)")
    case True
    then show ?thesis using assms(2) by (simp add: signed_take_bit_int_eq_self)
  next
    case False
    have "take_bit k (v + 2 ^ (k - 1)) = take_bit k (v + 2 ^ (k - 1) - 2 ^ k)" by (simp add: take_bit_eq_mod)
    also have "\<dots> = v + 2 ^ (k - 1) - 2 ^ k" using False assms(3) two by (intro take_bit_int_eq_self) simp_all
    finally show ?thesis using False two by (simp only: signed_take_bit_eq_take_bit_shift s if_False)
  qed
qed

text \<open>
  Reading a big-endian integer of 1 to 8 bytes returns the value of
  the bytes as a two's complement number of that width, for every content; other widths give 0.
\<close>

theorem pg_be_i64_signed:
  assumes "ptr \<noteq> 0" "0 < n" "n \<le> 8"
  shows "sint (kyte_pg_be_i64 m ptr (int n)) =
    (let v = be_val (rd m ptr n) in if v < 2 ^ (8 * n - 1) then v else v - 2 ^ (8 * n))"
proof -
  define v where "v = be_val (rd m ptr n)"
  have v: "0 \<le> v" "v < 2 ^ (8 * n)" using be_val_bounds [of "rd m ptr n"] by (simp_all add: v_def power_mult)
  have "sint (kyte_pg_be_i64 m ptr (int n)) = signed_take_bit 63 (signed_take_bit (8 * n - 1) v)"
    using pg_be_word [OF assms v_def] by (simp add: sint_sbintrunc')
  also have "\<dots> = signed_take_bit (8 * n - 1) v"
  proof -
    have "n = 8 \<or> 8 * n - 1 < 63" using assms(3) by linarith
    then show ?thesis by (auto simp: signed_take_bit_signed_take_bit min_def)
  qed
  finally show ?thesis using signed_take_bit_cut [of "8 * n" v] v assms(2) by (simp add: v_def Let_def)
qed

theorem pg_be_i64_signed_witness: "sint (kyte_pg_be_i64 (\<lambda>_. 255) 1 2) = - 1"
  using pg_be_i64_signed [of 1 2 "\<lambda>_. 255"] by (simp add: be_val_def rd_def upt_rec)

section \<open>Strings and the audit\<close>

lemma release_last_audit:
  assumes "audited P" "countable P p h" "hdr_rc h p = 1"
  shows "kyte_release mt P None h p =
    free_block (heap_audit_free P (set_rc h p (- 999)) (p - 8) (sint (hdr_len h p))) (p - 8)"
proof -
  have "load32 (mem (set_rc h p (- 999))) (p - 4) = load32 (mem h) (p - 4)"
    by (simp add: set_rc_def HDR_def mem_simps apart_def)
  then show ?thesis
    using assms by (simp add: kyte_release_last destructed_def audit_size_of_def hdr_len_def HDR_def)
qed

lemma audit_bytes_free:
  "audited P \<Longrightarrow> audit_bytes (aud (heap_audit_free P h b n)) = audit_bytes (aud h) - n
     \<and> audit_live (aud (heap_audit_free P h b n)) = audit_live (aud h) - 1"
  by (auto simp: heap_audit_free_def audit_free_def live_remove_def dead_ring_record_def Let_def audited_def
      split: option.splits)

lemma audit_bytes_alloc:
  assumes "audited P" "kyte_bytes_alloc P h n site = (p, k)" "p \<noteq> 0" "0 \<le> n"
  shows "audit_bytes (aud k) = audit_bytes (aud h) + n \<and> audit_live (aud k) = audit_live (aud h) + 1
    \<and> live_contains (aud k) (p - 8) \<and> arena_start k = arena_start h"
  using assms
  by (auto simp: kyte_bytes_alloc_def Let_def audited_def malloc_block_def heap_audit_alloc_def audit_alloc_def
      live_insert_def live_contains_iff HDR_def split: if_splits)

text \<open>
  The byte counter of the audit does not balance on strings: the
  birth of a string counts its NUL, the rewritten header does not, so creating and releasing a string
  leaves \<^verbatim>\<open>g_audit_bytes\<close> one higher while the count of live objects is back where it was.
\<close>

theorem string_audit_drift:
  assumes "audited P" "arena_start h = 0" "kyte_from_bytes P h src len site = Ok (p, k)" "p \<noteq> 0"
    and "good_heap P h" "src_ok h src (nat len)"
  shows "audit_bytes (aud (kyte_release mt P None k p)) = audit_bytes (aud h) + 1
    \<and> audit_live (aud (kyte_release mt P None k p)) = audit_live (aud h)"
proof -
  define n where "n = max 0 len"
  have small: "n \<le> 0x7fffffff" using assms(3) by (auto simp: kyte_from_bytes_def n_def split: if_splits)
  obtain k0 where al: "kyte_bytes_alloc P h (n + 1) site = (p, k0)" and k: "aud k = aud k0" "arena_start k = arena_start k0"
    using assms(3,4) small
    by (auto simp: kyte_from_bytes_def Let_def n_def set_len_def max_def split: prod.splits if_splits)
  have "0 \<le> n + 1" by (simp add: n_def)
  note ab = audit_bytes_alloc [OF assms(1) al assms(4) this]
  have str: "kyte_string k p (src_bytes (mem h) src (nat len))"
    using from_bytes_string [OF assms(5) assms(3,4,6)] by simp
  have rc: "hdr_rc k p = 1" and "hdr_len k p = word_of_int n"
    using str length_src_bytes [OF assms(6)] by (simp_all add: kyte_string_def n_def)
  then have len: "sint (hdr_len k p) = n" using small by (simp add: sint32_of_int n_def)
  have "countable P p k"
    using ab k assms(2,4) by (simp add: countable_def is_in_arena_def HDR_def)
  from release_last_audit [OF assms(1) this rc] show ?thesis
    using audit_bytes_free [OF assms(1)] ab k by (simp add: len free_block_def set_rc_def)
qed

theorem string_audit_drift_witness:
  "\<exists>k. kyte_from_bytes audit_platform heap0 (Buf [65, 66]) 2 0 = Ok (4104, k)
     \<and> audit_bytes (aud (kyte_release False audit_platform None k 4104)) = 1
     \<and> audit_live (aud (kyte_release False audit_platform None k 4104)) = 0"
proof -
  have z: "arena_start heap0 = 0" "blocks heap0 = Map.empty" by (simp_all add: heap0_def)
  have m: "malloc_sound audit_platform" "mmap_sound audit_platform"
    using audit_platform_audited
    by (simp_all add: audited_def) (auto simp: mmap_sound_def audit_platform_def demo_platform_def)
  have good: "good_heap audit_platform heap0"
    by (simp add: good_heap_def heap0_ok no_empty_blocks_def z m)
  have "\<exists>k. kyte_from_bytes audit_platform heap0 (Buf [65, 66]) 2 0 = Ok (4096 + 8, k) \<and> blocks k = (blocks heap0)(4096 \<mapsto> nat 2 + 9) \<and> arena_start k = arena_start heap0"
    by (rule from_bytes_block) (simp_all add: audit_platform_def demo_platform_def fresh_region_def z)
  then obtain k where fb: "kyte_from_bytes audit_platform heap0 (Buf [65, 66]) 2 0 = Ok (4104, k)" by auto
  have "src_ok heap0 (Buf [65, 66]) (nat 2)" by simp
  from string_audit_drift [OF audit_platform_audited z(1) fb _ good this] fb show ?thesis
    by (simp add: heap0_def audit_init_def)
qed

section \<open>The record pool\<close>

definition pool_ok :: "op_pool \<Rightarrow> heap \<Rightarrow> bool" where
  "pool_ok q h \<longleftrightarrow> length (pool q) \<le> KYTE_OP_POOL_MAX \<and> distinct (pool q)
     \<and> (\<forall>op \<in> set (pool q). op \<noteq> 0 \<and> blocks h op = Some (nat (pool_size q)))"

lemma foldl_free_blocks:
  "blocks (foldl free_block h xs) = (\<lambda>p. if p \<in> set xs then None else blocks h p)
   \<and> arena_start (foldl free_block h xs) = arena_start h"
  by (induction xs arbitrary: h) (auto simp: free_block_def fun_eq_iff)

text \<open>
  The record pool never hands out a record twice or a record of another
  size: from a sound pool, an allocation returns memory of the requested size that is not pooled any
  more and leaves a sound pool (also across a change of the record size, which returns every pooled
  record to \<^verbatim>\<open>malloc\<close>), and giving back a record of the pool's size keeps it sound and within
  its 256 slots.
\<close>

theorem op_pool_sound:
  assumes P: "malloc_sound P" and ok: "pool_ok q h" and pos: "0 < sz"
    and al: "kyte_op_alloc P q h sz = (op, q1, h1)" "op \<noteq> 0"
  shows "pool_ok q1 h1 \<and> pool_size q1 = sz \<and> op \<notin> set (pool q1) \<and> blocks h1 op = Some (nat sz)
    \<and> (case kyte_op_free q1 h1 op of (q2, h2) \<Rightarrow> pool_ok q2 h2
         \<and> (op \<in> set (pool q2) \<or> blocks h2 op = None))"
proof -
  define q0 h0 where "q0 = (if sz \<noteq> pool_size q then q\<lparr>pool := [], pool_size := sz\<rparr> else q)"
    and "h0 = (if sz \<noteq> pool_size q then foldl free_block h (rev (pool q)) else h)"
  have q0: "pool_ok q0 h0" "pool_size q0 = sz" using ok by (auto simp: q0_def h0_def pool_ok_def)
  have al0: "(case pool q0 of op # rest \<Rightarrow> (op, q0\<lparr>pool := rest\<rparr>, h0)
      | [] \<Rightarrow> (let (p, h) = malloc_block P h0 (nat sz) in (p, q0, h))) = (op, q1, h1)"
    using al(1) unfolding kyte_op_alloc_def q0_def h0_def by (cases "sz = pool_size q") simp_all
  have main: "pool_ok q1 h1 \<and> pool_size q1 = sz \<and> op \<notin> set (pool q1) \<and> blocks h1 op = Some (nat sz)"
  proof (cases "pool q0")
    case Nil
    then have "malloc_block P h0 (nat sz) = (op, h1)" "q1 = q0" using al0 by (auto split: prod.splits)
    with malloc_block_fresh [OF P _ al(2)] have "h1 = h0\<lparr>blocks := (blocks h0)(op \<mapsto> nat sz)\<rparr>" by blast
    with Nil q0 \<open>q1 = q0\<close> show ?thesis by (simp add: pool_ok_def)
  next
    case (Cons x xs)
    then have "op = x" "q1 = q0\<lparr>pool := xs\<rparr>" "h1 = h0" using al0 by auto
    with Cons q0 show ?thesis by (auto simp: pool_ok_def)
  qed
  then show ?thesis
    using al(2) by (auto simp: kyte_op_free_def pool_ok_def KYTE_OP_POOL_MAX_def free_block_def)
qed

theorem op_pool_sound_witness:
  "blocks (snd (snd (kyte_op_alloc str_platform \<lparr>pool = [4096], pool_size = 64\<rparr> (heap0\<lparr>blocks := [4096 \<mapsto> 64]\<rparr>) 64))) 4096 = Some 64"
proof -
  let ?q = "\<lparr>pool = [4096], pool_size = 64\<rparr> :: op_pool" and ?h = "heap0\<lparr>blocks := [4096 \<mapsto> 64]\<rparr>"
  have "pool_ok ?q ?h" by (simp add: pool_ok_def KYTE_OP_POOL_MAX_def)
  moreover have "kyte_op_alloc str_platform ?q ?h 64 = (4096, \<lparr>pool = [], pool_size = 64\<rparr>, ?h)"
    by (simp add: kyte_op_alloc_def)
  ultimately show ?thesis using op_pool_sound [OF str_platform_sound(1), of ?q ?h 64 4096] by auto
qed

end
