(* ===== verification/Kyte_Bytes.thy ===== *)
theory Kyte_Bytes
  imports Kyte_Arc
begin

text \<open>
  The bulk primitives of \<^verbatim>\<open>src/runtime/alloc.cpp\<close> over raw addresses: copy, fill, compare, find
  and the word-at-a-time XOR behind the AES-GCM key stream.  They act on the bare \<open>memory\<close>.  Of
  \<^verbatim>\<open>memcmp\<close> the C library fixes the sign of the result only, so the model returns -1, 0 or 1.
\<close>

definition kyte_bytes_copy :: "memory \<Rightarrow> addr \<Rightarrow> addr \<Rightarrow> int \<Rightarrow> memory" where
  "kyte_bytes_copy m dst src len =
     (if dst = 0 \<or> src = 0 \<or> len \<le> 0 then m else wr m dst (rd m src (nat len)))"

definition kyte_mem_set :: "memory \<Rightarrow> addr \<Rightarrow> u64 \<Rightarrow> int \<Rightarrow> memory" where
  "kyte_mem_set m dst byte_val len =
     (if dst = 0 \<or> len \<le> 0 then m else wr m dst (replicate (nat len) (ucast (byte_val AND 0xff))))"

fun memcmp :: "bytes \<Rightarrow> bytes \<Rightarrow> int" where
  "memcmp (x # xs) (y # ys) = (if x < y then - 1 else if y < x then 1 else memcmp xs ys)"
| "memcmp _ _ = 0"

definition kyte_mem_cmp :: "memory \<Rightarrow> addr \<Rightarrow> addr \<Rightarrow> int \<Rightarrow> int" where
  "kyte_mem_cmp m a b len =
     (if len \<le> 0 then 0
      else if a = 0 \<or> b = 0 then (if a = b then 0 else if a \<noteq> 0 then 1 else - 1)
      else memcmp (rd m a (nat len)) (rd m b (nat len)))"

definition kyte_mem_find :: "memory \<Rightarrow> addr \<Rightarrow> u64 \<Rightarrow> int \<Rightarrow> int" where
  "kyte_mem_find m p byte_val len =
     (if p = 0 \<or> len \<le> 0 then - 1
      else (let k = scan (\<lambda>c. c = ucast (byte_val AND 0xff)) (rd m p (nat len)) 0 in
            if k < nat len then int k else - 1))"

text \<open>The two loops of \<^verbatim>\<open>kyte_mem_xor\<close>: eight bytes at a time, then the tail.\<close>

function xor_words :: "memory \<Rightarrow> addr \<Rightarrow> addr \<Rightarrow> addr \<Rightarrow> nat \<Rightarrow> nat \<Rightarrow> memory \<times> nat" where
  "xor_words m d a b n i =
     (if i + 8 \<le> n
      then (let wx = (le_word (rd m (a + int i) 8) :: u64) XOR le_word (rd m (b + int i) 8) in
            xor_words (wr m (d + int i) (le_bytes 8 wx)) d a b n (i + 8))
      else (m, i))"
  by pat_completeness auto
termination
  by (relation "measure (\<lambda>(m, d, a, b, n, i). n - i)") auto

function xor_tail :: "memory \<Rightarrow> addr \<Rightarrow> addr \<Rightarrow> addr \<Rightarrow> nat \<Rightarrow> nat \<Rightarrow> memory" where
  "xor_tail m d a b n i =
     (if i < n then xor_tail (m(d + int i := m (a + int i) XOR m (b + int i))) d a b n (Suc i) else m)"
  by pat_completeness auto
termination
  by (relation "measure (\<lambda>(m, d, a, b, n, i). n - i)") auto

declare xor_words.simps [simp del] xor_tail.simps [simp del]

definition kyte_mem_xor :: "memory \<Rightarrow> addr \<Rightarrow> addr \<Rightarrow> addr \<Rightarrow> int \<Rightarrow> memory" where
  "kyte_mem_xor m dst a b len =
     (if dst = 0 \<or> a = 0 \<or> b = 0 \<or> len \<le> 0 then m
      else (let (m', i) = xor_words m dst a b (nat len) 0 in xor_tail m' dst a b (nat len) i))"

section \<open>Comparison\<close>

lemma memcmp_eq_0: "length xs = length ys \<Longrightarrow> memcmp xs ys = 0 \<longleftrightarrow> xs = ys"
  by (induction xs ys rule: memcmp.induct) auto

lemma memcmp_swap: "memcmp ys xs = - memcmp xs ys"
proof (induction xs ys rule: memcmp.induct)
  case (1 x xs y ys)
  have "x < y \<Longrightarrow> \<not> y < x" by simp
  with 1 show ?case by (cases "x = y") auto
qed simp_all

lemma memcmp_neg:
  "length xs = length ys \<Longrightarrow> memcmp xs ys < 0 \<longleftrightarrow>
     (\<exists>i<length xs. (\<forall>j<i. xs ! j = ys ! j) \<and> xs ! i < ys ! i)"
proof (induction xs ys rule: memcmp.induct)
  case (1 x xs y ys)
  have "(\<exists>i<length (x # xs). (\<forall>j<i. (x # xs) ! j = (y # ys) ! j) \<and> (x # xs) ! i < (y # ys) ! i)
    \<longleftrightarrow> x < y \<or> (x = y \<and> (\<exists>i<length xs. (\<forall>j<i. xs ! j = ys ! j) \<and> xs ! i < ys ! i))"
    (is "?L \<longleftrightarrow> ?R")
  proof
    assume ?L
    then obtain i where i: "i < length (x # xs)" "\<forall>j<i. (x # xs) ! j = (y # ys) ! j" "(x # xs) ! i < (y # ys) ! i"
      by blast
    show ?R
    proof (cases i)
      case 0
      then show ?thesis using i by simp
    next
      case (Suc k)
      have "x = y" using i(2) Suc by (metis nth_Cons_0 zero_less_Suc)
      moreover have "\<forall>j<k. xs ! j = ys ! j" using i(2) Suc by (metis Suc_less_eq nth_Cons_Suc)
      ultimately show ?thesis using i Suc by auto
    qed
  next
    assume ?R
    then show ?L
    proof
      assume "x < y"
      then show ?L by (intro exI [of _ 0]) simp
    next
      assume "x = y \<and> (\<exists>i<length xs. (\<forall>j<i. xs ! j = ys ! j) \<and> xs ! i < ys ! i)"
      then obtain i where "x = y" "i < length xs" "\<forall>j<i. xs ! j = ys ! j" "xs ! i < ys ! i" by blast
      then show ?L by (intro exI [of _ "Suc i"]) (auto simp: less_Suc_eq_0_disj)
    qed
  qed
  with 1 show ?case by auto
qed simp_all

section \<open>The word-at-a-time XOR\<close>

definition xor_bytes :: "bytes \<Rightarrow> bytes \<Rightarrow> bytes" where
  "xor_bytes xs ys = map2 (XOR) xs ys"

lemma length_xor_bytes [simp]: "length (xor_bytes xs ys) = min (length xs) (length ys)"
  by (simp add: xor_bytes_def)

lemma xor_bytes_append:
  "length xs = length ys \<Longrightarrow> xor_bytes (xs @ xs') (ys @ ys') = xor_bytes xs ys @ xor_bytes xs' ys'"
  by (simp add: xor_bytes_def)

lemma xor_bytes_self_inverse: "length xs = length ys \<Longrightarrow> xor_bytes (xor_bytes xs ys) ys = xs"
  by (rule nth_equalityI) (auto simp: xor_bytes_def xor.assoc)

lemma le_bytes_xor: "le_bytes n (v XOR w) = xor_bytes (le_bytes n v) (le_bytes n w)"
  by (rule nth_equalityI)
     (auto simp: xor_bytes_def intro!: bit_word_eqI simp: bit_simps)

lemma xor_word_bytes:
  "length xs = 8 \<Longrightarrow> length ys = 8 \<Longrightarrow> le_bytes 8 ((le_word xs :: u64) XOR le_word ys) = xor_bytes xs ys"
  by (simp add: le_bytes_xor le_bytes_le_word)

text \<open>A source region the destination may share exactly, or not touch at all.\<close>

definition same_or_apart :: "addr \<Rightarrow> addr \<Rightarrow> nat \<Rightarrow> bool" where
  "same_or_apart d a n \<longleftrightarrow> d = a \<or> apart d n a n"

lemma rd_ahead:
  assumes "same_or_apart d a n" "length bs = i" "i + k \<le> n"
  shows "rd (wr m d bs) (a + int i) k = rd m (a + int i) k"
  using assms by (intro rd_wr_apart) (auto simp: same_or_apart_def apart_def)

text \<open>The memory after the first \<open>i\<close> bytes.\<close>

definition xored :: "memory \<Rightarrow> addr \<Rightarrow> addr \<Rightarrow> addr \<Rightarrow> nat \<Rightarrow> memory" where
  "xored m d a b i = wr m d (xor_bytes (rd m a i) (rd m b i))"

lemma xored_step:
  assumes "same_or_apart d a n" "same_or_apart d b n" "i + k \<le> n"
  shows "wr (xored m d a b i) (d + int i)
           (xor_bytes (rd (xored m d a b i) (a + int i) k) (rd (xored m d a b i) (b + int i) k)) = xored m d a b (i + k)"
proof -
  have "rd (xored m d a b i) (a + int i) k = rd m (a + int i) k"
    "rd (xored m d a b i) (b + int i) k = rd m (b + int i) k"
    unfolding xored_def using assms by (simp_all add: rd_ahead)
  then show ?thesis by (simp add: xored_def rd_split xor_bytes_append wr_append)
qed

lemma xor_words_xored:
  assumes "same_or_apart d a n" "same_or_apart d b n" "i \<le> n"
  shows "\<exists>j. i \<le> j \<and> j \<le> n \<and> n < j + 8 \<and> xor_words (xored m d a b i) d a b n i = (xored m d a b j, j)"
  using assms(3)
proof (induction "n - i" arbitrary: i rule: less_induct)
  case less
  show ?case
  proof (cases "i + 8 \<le> n")
    case True
    have "xor_words (xored m d a b i) d a b n i = xor_words (xored m d a b (i + 8)) d a b n (i + 8)"
      using xored_step [OF assms(1,2) True, of m] True
      by (simp add: xor_words.simps [of _ d a b n i] Let_def xor_word_bytes)
    moreover obtain j where "i + 8 \<le> j" "j \<le> n" "n < j + 8"
      "xor_words (xored m d a b (i + 8)) d a b n (i + 8) = (xored m d a b j, j)"
    proof -
      have "n - (i + 8) < n - i" using True by simp
      from less.hyps [OF this True] that show thesis by blast
    qed
    ultimately show ?thesis by (intro exI [of _ j]) simp
  next
    case False
    then show ?thesis using less.prems by (intro exI [of _ i]) (simp add: xor_words.simps)
  qed
qed

lemma wr_single: "wr m x [v] = m(x := v)"
  by (auto simp: wr_def fun_eq_iff)

lemma xor_tail_xored:
  assumes "same_or_apart d a n" "same_or_apart d b n" "i \<le> n"
  shows "xor_tail (xored m d a b i) d a b n i = xored m d a b n"
  using assms(3)
proof (induction "n - i" arbitrary: i rule: less_induct)
  case less
  show ?case
  proof (cases "i < n")
    case True
    let ?x = "xored m d a b i"
    have one: "rd ?x (c + int i) 1 = [?x (c + int i)]" for c by (simp add: rd_def)
    have "?x(d + int i := ?x (a + int i) XOR ?x (b + int i)) = xored m d a b (Suc i)"
      using xored_step [OF assms(1,2), of i 1 m] True unfolding one
      by (simp add: xor_bytes_def wr_single)
    then show ?thesis using less.hyps [of "Suc i"] True by (simp add: xor_tail.simps [of ?x])
  next
    case False
    then show ?thesis using less.prems by (simp add: xor_tail.simps)
  qed
qed

lemma kyte_mem_xor_eq:
  assumes "same_or_apart dst a (nat len)" "same_or_apart dst b (nat len)" "dst \<noteq> 0" "a \<noteq> 0" "b \<noteq> 0" "len > 0"
  shows "kyte_mem_xor m dst a b len = xored m dst a b (nat len)"
proof -
  have "xored m dst a b 0 = m" by (simp add: xored_def xor_bytes_def rd_def wr_nil)
  then obtain j where "j \<le> nat len" "xor_words m dst a b (nat len) 0 = (xored m dst a b j, j)"
    using xor_words_xored [OF assms(1,2), of 0 m] by auto
  then show ?thesis using assms by (simp add: kyte_mem_xor_def xor_tail_xored)
qed

section \<open>Properties\<close>

text \<open>
  When each source either is the destination or does not overlap it,
  the word-at-a-time XOR writes exactly the byte-wise XOR of the two sources and nothing else, for
  every length; and applying the same key a second time in place restores the first source.
\<close>

theorem mem_xor_bytewise:
  assumes "same_or_apart dst a (nat len)" "apart dst (nat len) b (nat len)" "dst \<noteq> 0" "a \<noteq> 0" "b \<noteq> 0" "len > 0"
  shows "rd (kyte_mem_xor m dst a b len) dst (nat len) = xor_bytes (rd m a (nat len)) (rd m b (nat len))
    \<and> (\<forall>x. x < dst \<or> dst + len \<le> x \<longrightarrow> kyte_mem_xor m dst a b len x = m x)
    \<and> rd (kyte_mem_xor (kyte_mem_xor m dst a b len) dst dst b len) dst (nat len) = rd m a (nat len)"
proof -
  have b: "same_or_apart dst b (nat len)" using assms(2) by (simp add: same_or_apart_def)
  note first = kyte_mem_xor_eq [OF assms(1) b assms(3-6)]
  have "same_or_apart dst dst (nat len)" by (simp add: same_or_apart_def)
  note second = kyte_mem_xor_eq [OF this b assms(3) assms(3,5,6)]
  have key: "rd (xored m dst a b (nat len)) b (nat len) = rd m b (nat len)"
    using assms(2) by (simp add: xored_def mem_simps apart_sym)
  show ?thesis
    using assms(6) by (simp add: first second xored_def [of "xored _ _ _ _ _"] key)
      (simp add: xored_def mem_simps xor_bytes_self_inverse)
qed

definition demo_ram :: memory where
  "demo_ram = (\<lambda>x. word_of_int x)"

theorem mem_xor_bytewise_witness:
  "rd (kyte_mem_xor demo_ram 100 200 300 11) 100 11
     = xor_bytes (map (\<lambda>i. word_of_int (200 + int i)) [0..<11]) (map (\<lambda>i. word_of_int (300 + int i)) [0..<11])"
proof -
  have "same_or_apart 100 200 (nat 11)" "apart 100 (nat 11) 300 (nat 11)"
    by (simp_all add: same_or_apart_def apart_def)
  from mem_xor_bytewise [OF this, THEN conjunct1, of demo_ram] show ?thesis
    by (simp add: rd_def demo_ram_def)
qed

text \<open>
  For non-null ranges the comparison is the lexicographic order of the
  bytes: zero exactly when the ranges hold the same bytes, negative exactly when at the first
  difference the left byte is smaller, and swapping the operands negates it.
\<close>

theorem mem_cmp_order:
  assumes "a \<noteq> 0" "b \<noteq> 0"
  shows "(kyte_mem_cmp m a b len = 0 \<longleftrightarrow> rd m a (nat len) = rd m b (nat len))
    \<and> kyte_mem_cmp m b a len = - kyte_mem_cmp m a b len
    \<and> (kyte_mem_cmp m a b len < 0 \<longleftrightarrow>
         (\<exists>i<nat len. (\<forall>j<i. m (a + int j) = m (b + int j)) \<and> m (a + int i) < m (b + int i)))"
proof -
  let ?x = "rd m a (nat len)" and ?y = "rd m b (nat len)"
  have cmp: "kyte_mem_cmp m a b len = memcmp ?x ?y" "kyte_mem_cmp m b a len = memcmp ?y ?x"
    using assms by (simp_all add: kyte_mem_cmp_def rd_def)
  have at: "((\<forall>j<i. ?x ! j = ?y ! j) \<and> ?x ! i < ?y ! i)
      = ((\<forall>j<i. m (a + int j) = m (b + int j)) \<and> m (a + int i) < m (b + int i))" if "i < nat len" for i
    using that by simp
  have "memcmp ?x ?y < 0 \<longleftrightarrow>
      (\<exists>i<nat len. (\<forall>j<i. ?x ! j = ?y ! j) \<and> ?x ! i < ?y ! i)"
    using memcmp_neg [of ?x ?y] by simp
  also have "\<dots> \<longleftrightarrow> (\<exists>i<nat len. (\<forall>j<i. m (a + int j) = m (b + int j)) \<and> m (a + int i) < m (b + int i))"
    using at by blast
  finally have lt: "memcmp ?x ?y < 0 \<longleftrightarrow>
      (\<exists>i<nat len. (\<forall>j<i. m (a + int j) = m (b + int j)) \<and> m (a + int i) < m (b + int i))" .
  show ?thesis
    unfolding cmp using lt memcmp_swap [of ?y ?x] memcmp_eq_0 [of ?x ?y] by (simp only: length_rd)
qed

theorem mem_cmp_order_witness: "kyte_mem_cmp demo_ram 10 20 5 = - kyte_mem_cmp demo_ram 20 10 5"
  using mem_cmp_order [of 10 20 demo_ram 5] by simp

lemma kyte_mem_find_spec:
  assumes "p \<noteq> 0" "len > 0"
  shows "case kyte_mem_find m p v len of k \<Rightarrow>
    (if k < 0 then k = - 1 \<and> (\<forall>j<nat len. m (p + int j) \<noteq> ucast (v AND 0xff))
     else k < len \<and> m (p + k) = ucast (v AND 0xff) \<and> (\<forall>j<nat k. m (p + int j) \<noteq> ucast (v AND 0xff)))"
proof -
  let ?P = "\<lambda>c. c = ucast (v AND 0xff) :: bool"
  let ?k = "scan ?P (rd m p (nat len)) 0"
  have miss: "\<And>j. j < ?k \<Longrightarrow> j < nat len \<Longrightarrow> \<not> ?P (m (p + int j))"
    using scan_miss [of 0 _ ?P "rd m p (nat len)"] by simp
  have le: "?k \<le> nat len" using scan_ge [of 0 "rd m p (nat len)" ?P] by simp
  show ?thesis
  proof (cases "?k < nat len")
    case True
    then have "?P (m (p + int ?k))" using scan_hit [of ?P "rd m p (nat len)" 0] by simp
    with True miss assms show ?thesis by (auto simp: kyte_mem_find_def Let_def)
  next
    case False
    with miss le assms show ?thesis by (auto simp: kyte_mem_find_def Let_def)
  qed
qed

end
