(* ===== verification/Kyte_Html.thy ===== *)
theory Kyte_Html
  imports Kyte_Str_Props Kyte_Bytes
begin

text \<open>
  The HTML boundary of \<^verbatim>\<open>src/runtime/core.cpp\<close>: the scan for the five metacharacters, byte by
  byte (\<^verbatim>\<open>kyte_html_scan\<close>) and eight bytes at a time (\<^verbatim>\<open>kyte_html_find_meta\<close>), the
  escaper \<^verbatim>\<open>kyte_html_escape\<close>, and the URL filter \<^verbatim>\<open>kyte_url_sanitize\<close>.  The scan
  counts in a C \<^verbatim>\<open>int\<close>: where \<^verbatim>\<open>i + 8\<close> overflows it is \<open>Trap\<close>.
\<close>

definition is_meta :: "u8 \<Rightarrow> bool" where
  "is_meta c \<longleftrightarrow> c = 38 \<or> c = 60 \<or> c = 62 \<or> c = 34 \<or> c = 39"

function kyte_html_scan :: "memory \<Rightarrow> addr \<Rightarrow> int \<Rightarrow> int \<Rightarrow> int" where
  "kyte_html_scan m s i n =
     (if i < n then if is_meta (m (s + i)) then i else kyte_html_scan m s (i + 1) n else n)"
  by pat_completeness auto
termination
  by (relation "measure (\<lambda>(m, s, i, n). nat (n - i))") auto

declare kyte_html_scan.simps [simp del]

section \<open>Eight bytes at a time\<close>

definition ones :: u64 where "ones = 0x0101010101010101"
definition high :: u64 where "high = 0x8080808080808080"

text \<open>The zero-byte test \<^verbatim>\<open>(x - ones) & ~x & high\<close>, and its union over the five needles.\<close>

definition zero_lanes :: "u64 \<Rightarrow> u64" where
  "zero_lanes x = (x - ones) AND NOT x AND high"

definition meta_lanes :: "u64 \<Rightarrow> u64" where
  "meta_lanes w = zero_lanes (w XOR ones * 38) OR zero_lanes (w XOR ones * 60) OR zero_lanes (w XOR ones * 62)
     OR zero_lanes (w XOR ones * 34) OR zero_lanes (w XOR ones * 39)"

text \<open>\<^verbatim>\<open>__builtin_ctzll\<close> of a non-zero word: the number of zero bits below its lowest one.\<close>

definition ctz :: "u64 \<Rightarrow> nat" where
  "ctz w = length (takeWhile Not (map (bit w) [0..<64]))"

text \<open>
  The loop counter is a C \<^verbatim>\<open>int\<close>: the test \<^verbatim>\<open>i + 8 <= len\<close> overflows, which C++ leaves
  undefined, once \<^verbatim>\<open>i\<close> is within eight of the largest \<^verbatim>\<open>int\<close>.
\<close>

function find_meta_from :: "memory \<Rightarrow> addr \<Rightarrow> int \<Rightarrow> int \<Rightarrow> int outcome" where
  "find_meta_from m p i len =
     (if i + 8 \<ge> 2 ^ 31 then Trap
      else if i + 8 \<le> len then
        (let l = meta_lanes (le_word (rd m (p + i) 8)) in
         if l \<noteq> 0 then Ok (i + int (ctz l div 8)) else find_meta_from m p (i + 8) len)
      else Ok (kyte_html_scan m p i len))"
  by pat_completeness auto
termination
  by (relation "measure (\<lambda>(m, p, i, len). nat (len - i))") auto

declare find_meta_from.simps [simp del]

definition kyte_html_find_meta :: "memory \<Rightarrow> addr \<Rightarrow> int \<Rightarrow> int \<Rightarrow> int outcome" where
  "kyte_html_find_meta m base start len =
     (if base = 0 \<or> len \<le> 0 then Ok len
      else find_meta_from m base (if start < 0 then 0 else start) len)"

section \<open>Escaping\<close>

definition esc_byte :: "u8 \<Rightarrow> bytes" where
  "esc_byte c =
     (if c = 38 then [38, 97, 109, 112, 59]
      else if c = 60 then [38, 108, 116, 59]
      else if c = 62 then [38, 103, 116, 59]
      else if c = 34 then [38, 113, 117, 111, 116, 59]
      else if c = 39 then [38, 35, 51, 57, 59]
      else [c])"

text \<open>The first pass: the length; the second: the bytes, written at the running offset \<open>w\<close>.\<close>

definition esc_cost :: "u8 \<Rightarrow> int" where
  "esc_cost c = (if c = 38 then 5 else if c = 60 then 4 else if c = 62 then 4 else if c = 34 then 6
                 else if c = 39 then 5 else 1)"

fun esc_length :: "memory \<Rightarrow> addr \<Rightarrow> nat list \<Rightarrow> int \<Rightarrow> int" where
  "esc_length m p [] out = out"
| "esc_length m p (i # is) out = esc_length m p is (out + esc_cost (m (p + int i)))"

fun esc_write :: "memory \<Rightarrow> addr \<Rightarrow> addr \<Rightarrow> nat list \<Rightarrow> int \<Rightarrow> memory" where
  "esc_write m p out [] w = m"
| "esc_write m p out (i # is) w =
     (let e = esc_byte (m (p + int i)) in esc_write (wr m (out + w) e) p out is (w + int (length e)))"

definition kyte_html_escape :: "platform \<Rightarrow> heap \<Rightarrow> addr \<Rightarrow> addr \<Rightarrow> (addr \<times> heap) outcome" where
  "kyte_html_escape P h s site =
     (if s = 0 then Ok (s, h)
      else (let len = sint (hdr_len h s) in
        if len \<le> 0 then Ok (s, h)
        else bind_outcome (kyte_html_find_meta (mem h) s 0 len) (\<lambda>k.
          if k \<ge> len then Ok (s, h)
          else (let out_len = esc_length (mem h) s [0..<nat len] 0;
                    (box, h) = kyte_bytes_alloc P h out_len site in
                if box = 0 then Ok (s, h)
                else Ok (box, h\<lparr>mem := esc_write (mem h) s box [0..<nat len] 0\<rparr>)))))"

section \<open>URLs\<close>

definition is_alpha :: "u8 \<Rightarrow> bool" where
  "is_alpha c \<longleftrightarrow> (97 \<le> c \<and> c \<le> 122) \<or> (65 \<le> c \<and> c \<le> 90)"

definition scheme_char :: "u8 \<Rightarrow> bool" where
  "scheme_char c \<longleftrightarrow> is_alpha c \<or> (48 \<le> c \<and> c \<le> 57) \<or> c = 43 \<or> c = 46 \<or> c = 45"

definition lower :: "u8 \<Rightarrow> u8" where
  "lower c = (if 65 \<le> c \<and> c \<le> 90 then c - 65 + 97 else c)"

text \<open>The loop of \<^verbatim>\<open>scheme_is\<close> and of the \<^verbatim>\<open>image/\<close> test: lower-cased bytes against a name.\<close>

definition lower_at :: "bytes \<Rightarrow> nat \<Rightarrow> bytes \<Rightarrow> bool" where
  "lower_at p i name = list_all (\<lambda>k. i + k < length p \<and> lower (p ! (i + k)) = name ! k) [0..<length name]"

definition scheme_is :: "bytes \<Rightarrow> nat \<Rightarrow> nat \<Rightarrow> bytes \<Rightarrow> bool" where
  "scheme_is p i j name \<longleftrightarrow> j - i = length name \<and> lower_at p i name"

definition javascript :: bytes where "javascript = [106, 97, 118, 97, 115, 99, 114, 105, 112, 116]"
definition vbscript :: bytes where "vbscript = [118, 98, 115, 99, 114, 105, 112, 116]"
definition data_scheme :: bytes where "data_scheme = [100, 97, 116, 97]"
definition image_prefix :: bytes where "image_prefix = [105, 109, 97, 103, 101, 47]"

text \<open>What the function decides from the bytes of the string; \<open>False\<close> covers its early returns.\<close>

definition dangerous_url :: "bytes \<Rightarrow> bool" where
  "dangerous_url p =
     (let len = length p; i = scan (\<lambda>c. \<not> c \<le> 0x20) p 0 in
      if i \<ge> len \<or> \<not> is_alpha (p ! i) then False
      else (let j = scan (\<lambda>c. c = 58 \<or> \<not> scheme_char c) p i in
        if j \<ge> len \<or> p ! j \<noteq> 58 then False
        else scheme_is p i j javascript \<or> scheme_is p i j vbscript
          \<or> (scheme_is p i j data_scheme \<and> \<not> lower_at p (j + 1) image_prefix)))"

definition kyte_url_sanitize :: "platform \<Rightarrow> heap \<Rightarrow> addr \<Rightarrow> addr \<Rightarrow> addr \<times> heap" where
  "kyte_url_sanitize P h s site =
     (if s = 0 then (s, h)
      else (let len = sint (hdr_len h s) in
        if len \<le> 0 then (s, h)
        else if \<not> dangerous_url (rd (mem h) s (nat len)) then (s, h)
        else (let (box, h) = kyte_bytes_alloc P h 1 site in
              if box = 0 then (s, h) else (box, h\<lparr>mem := wr (mem h) box [35]\<rparr>))))"

section \<open>The lanes of the word-wise scan\<close>

lemma le_word_append_Cons: "(le_word (b # bs) :: 'a::len word) = ucast b + push_bit 8 (le_word bs)"
  unfolding le_word.simps
  by (rule disjunctive_add [symmetric]) (auto simp: bit_simps dest: bit_imp_le_length)

lemma le_word_xor:
  "length xs = length ys \<Longrightarrow> (le_word xs :: 'a::len word) XOR le_word ys = le_word (xor_bytes xs ys)"
  by (rule bit_word_eqI) (auto simp: bit_xor_iff bit_le_word xor_bytes_def)

lemma ones_mult: "ones * ucast (c :: u8) = le_word (replicate 8 c)"
  by (simp add: ones_def numeral_eq_Suc le_word_append_Cons push_bit_eq_mult del: le_word.simps(2))

lemma high_lanes: "bit high k \<longleftrightarrow> k < 64 \<and> k mod 8 = 7"
proof -
  have "high = ones * ucast (0x80 :: u8)" by (simp add: high_def ones_def)
  then have h: "high = le_word (replicate 8 0x80)" using ones_mult [of "0x80"] by (rule trans)
  have hi: "bit (0x80 :: u8) i \<longleftrightarrow> i = 7" for i
  proof -
    have "bit (2 ^ 7 :: u8) i \<longleftrightarrow> i = 7" by (subst bit_exp_iff) auto
    then show ?thesis by simp
  qed
  have "bit high k \<longleftrightarrow> k < 64 \<and> k div 8 < 8 \<and> bit (replicate 8 (0x80 :: u8) ! (k div 8)) (k mod 8)"
    unfolding h by (simp add: bit_le_word)
  then show ?thesis using hi [of "k mod 8"] by (cases "k div 8 < 8") auto
qed

text \<open>Subtracting one from every lane: a lane below which no lane is zero borrows nothing.\<close>

definition lanes_minus_one :: "bytes \<Rightarrow> u64" where
  "lanes_minus_one bs = le_word bs - le_word (replicate (length bs) 1)"

lemma lanes_minus_one_Cons:
  "lanes_minus_one (b # bs) = (ucast b - 1) + push_bit 8 (lanes_minus_one bs)"
  by (simp add: lanes_minus_one_def le_word_append_Cons push_bit_eq_mult algebra_simps del: le_word.simps(2))

lemma low_lane: "i < 8 \<Longrightarrow> bit ((ucast b - 1) + push_bit 8 y :: u64) i = bit (b - 1 :: u8) i"
proof -
  assume i: "i < 8"
  have "ucast ((ucast b - 1) + push_bit 8 y :: u64) = (b - 1 :: u8)"
  proof -
    have "(ucast b - 1) + push_bit 8 y = (word_of_int (uint b - 1 + uint y * 256) :: u64)"
      by (simp add: push_bit_eq_mult)
    moreover have dn: "is_down (ucast :: 64 word \<Rightarrow> 8 word)" by (simp add: is_down)
    ultimately have "ucast ((ucast b - 1) + push_bit 8 y :: u64) = (word_of_int (uint b - 1 + uint y * 256) :: u8)"
      using ucast_down_wi [OF dn, of "uint b - 1 + uint y * 256"] by simp
    also have "\<dots> = word_of_int (uint b - 1)"
      by (rule word_of_int_eq_iff [THEN iffD2]) (simp add: take_bit_eq_mod mod_add_right_eq)
    finally show ?thesis by simp
  qed
  then have "bit (ucast ((ucast b - 1) + push_bit 8 y :: u64) :: u8) i = bit (b - 1) i" by simp
  then show ?thesis using i by (simp add: bit_ucast_iff)
qed

lemma or_push: "ucast (c :: u8) + push_bit 8 y = ucast c OR push_bit 8 (y :: u64)"
  by (rule disjunctive_add) (auto simp: bit_simps dest: bit_imp_le_length)

lemma high_lane:
  "b \<noteq> (0 :: u8) \<Longrightarrow> i + 8 < 64 \<Longrightarrow> bit ((ucast b - 1) + push_bit 8 y :: u64) (i + 8) = bit y i"
proof -
  assume b: "b \<noteq> 0" and i: "i + 8 < 64"
  have "ucast b - 1 = (ucast (b - 1) :: u64)"
  proof -
    have u: "unat (b - 1) = unat b - 1" using b by (simp add: unat_minus_one)
    have "ucast (b - 1) = (of_nat (unat (b - 1)) :: u64)" by simp
    also have "\<dots> = of_nat (unat b) - 1" using b unfolding u by (subst of_nat_diff) (auto simp: unat_gt_0 Suc_le_eq)
    finally show ?thesis by simp
  qed
  then have "(ucast b - 1) + push_bit 8 y = ucast (b - 1) OR push_bit 8 y"
    using or_push [of "b - 1" y] by simp
  moreover have "\<not> bit (b - 1) (i + 8)" by (auto dest: bit_imp_le_length)
  ultimately show ?thesis using i by (simp add: bit_simps)
qed

lemma bit_lanes_minus_one:
  "length bs \<le> 8 \<Longrightarrow> j < length bs \<Longrightarrow> (\<forall>i<j. bs ! i \<noteq> 0) \<Longrightarrow>
     bit (lanes_minus_one bs) (8 * j + 7) = bit (bs ! j - 1) 7"
proof (induction bs arbitrary: j)
  case (Cons b bs)
  show ?case
  proof (cases j)
    case 0
    then show ?thesis by (simp add: lanes_minus_one_Cons low_lane)
  next
    case (Suc i)
    then have "b \<noteq> 0" and rest: "\<forall>k<i. bs ! k \<noteq> 0" using Cons.prems(3) by fastforce+
    moreover have lt: "(8 * i + 7) + 8 < 64" using Cons.prems Suc by simp
    ultimately have "bit (lanes_minus_one (b # bs)) ((8 * i + 7) + 8) = bit (lanes_minus_one bs) (8 * i + 7)"
      unfolding lanes_minus_one_Cons by (intro high_lane)
    also have "\<dots> = bit (bs ! i - 1) 7" using Cons.IH [of i] Cons.prems Suc rest by simp
    finally show ?thesis using Suc by (simp add: add.commute)
  qed
qed simp

lemma borrow_iff_zero: "bit (b - 1 :: u8) 7 \<and> \<not> bit b 7 \<longleftrightarrow> b = 0"
proof -
  have b7: "bit (c :: u8) 7 \<longleftrightarrow> 128 \<le> unat c" for c
  proof -
    have "unat c < 256" using unsigned_less [of c, where 'a = nat] by simp
    then have "unat c div 128 = 0 \<or> unat c div 128 = 1" by linarith
    moreover have "bit c 7 \<longleftrightarrow> bit (unat c) 7" by (simp add: bit_unsigned_iff)
    moreover have "bit (unat c) 7 \<longleftrightarrow> odd (unat c div 128)" using bit_iff_odd [of "unat c" 7] by simp
    ultimately show ?thesis by auto
  qed
  show ?thesis
  proof (cases "b = 0")
    case False
    then have "unat (b - 1) = unat b - 1" by (simp add: unat_minus_one)
    then show ?thesis using False by (auto simp: b7)
  qed simp
qed

text \<open>The test finds the first zero lane: below it no lane is marked, and it is.\<close>

lemma zero_lanes_bit:
  assumes "length bs = 8" "j < 8" "\<forall>i<j. bs ! i \<noteq> 0"
  shows "bit (zero_lanes (le_word bs)) (8 * j + 7) \<longleftrightarrow> bs ! j = 0"
proof -
  have "(1 :: u8) = ucast (1 :: u8)" by simp
  have "ones = le_word (replicate (length bs) 1)" using ones_mult [of 1] assms(1) by simp
  then have "le_word bs - ones = lanes_minus_one bs" by (simp add: lanes_minus_one_def)
  moreover have "bit (lanes_minus_one bs) (8 * j + 7) = bit (bs ! j - 1) 7"
    using bit_lanes_minus_one [of bs j] assms by simp
  moreover have "bit (le_word bs :: u64) (8 * j + 7) = bit (bs ! j) 7"
    using assms by (simp add: bit_le_word)
  moreover have "8 * j + 7 < 64" "(8 * j + 7) mod 8 = 7" using assms(2) by simp_all
  ultimately show ?thesis
    using borrow_iff_zero [of "bs ! j"] by (simp add: zero_lanes_def bit_and_iff bit_not_iff high_lanes)
qed

lemma zero_lanes_only: "bit (zero_lanes x) k \<Longrightarrow> k < 64 \<and> k mod 8 = 7"
  by (simp add: zero_lanes_def bit_and_iff high_lanes)

lemma xor_zero_iff: "x XOR y = 0 \<longleftrightarrow> x = (y :: u8)"
proof
  assume z: "x XOR y = 0"
  have "x = (x XOR y) XOR y" by (simp add: xor.assoc)
  also have "\<dots> = y" unfolding z by simp
  finally show "x = y" .
qed simp

lemma needle_bit:
  assumes "length bs = 8" "j < 8" "\<forall>i<j. bs ! i \<noteq> c"
  shows "bit (zero_lanes (le_word bs XOR ones * ucast c)) (8 * j + 7) \<longleftrightarrow> bs ! j = c"
proof -
  let ?xs = "xor_bytes bs (replicate 8 c)"
  have "le_word bs XOR ones * ucast c = le_word ?xs"
    using assms(1) by (simp only: ones_mult) (rule le_word_xor, simp)
  moreover have at: "?xs ! i = 0 \<longleftrightarrow> bs ! i = c" if "i < 8" for i
    using that assms(1) by (simp add: xor_bytes_def xor_zero_iff)
  moreover have "\<forall>i<j. ?xs ! i \<noteq> 0" using assms at by simp
  ultimately show ?thesis using zero_lanes_bit [of ?xs j] assms by simp
qed

lemma meta_lanes_eq:
  "meta_lanes w = zero_lanes (w XOR ones * ucast (38 :: u8)) OR zero_lanes (w XOR ones * ucast (60 :: u8))
     OR zero_lanes (w XOR ones * ucast (62 :: u8)) OR zero_lanes (w XOR ones * ucast (34 :: u8))
     OR zero_lanes (w XOR ones * ucast (39 :: u8))"
  by (simp add: meta_lanes_def)

lemma meta_lanes_bit:
  assumes "length bs = 8" "j < 8" "\<forall>i<j. \<not> is_meta (bs ! i)"
  shows "bit (meta_lanes (le_word bs)) (8 * j + 7) \<longleftrightarrow> is_meta (bs ! j)"
proof -
  have "bit (zero_lanes (le_word bs XOR ones * ucast c)) (8 * j + 7) \<longleftrightarrow> bs ! j = c" if "is_meta c" for c
    by (intro needle_bit [OF assms(1,2)]) (use assms(3) that in blast)
  then show ?thesis
    unfolding meta_lanes_eq bit_or_iff by (simp only: is_meta_def simp_thms)
qed

lemma meta_lanes_only: "bit (meta_lanes w) k \<Longrightarrow> k < 64 \<and> k mod 8 = 7"
  using zero_lanes_only by (auto simp: meta_lanes_def bit_or_iff)

lemma ctz_eqI:
  assumes "bit w n" "\<And>i. i < n \<Longrightarrow> \<not> bit w i"
  shows "ctz (w :: u64) = n"
proof -
  have n: "n < 64" using assms(1) bit_imp_le_length by fastforce
  have "[0..<64] = [0..<n] @ n # [Suc n..<64]"
    using n by (metis upt_add_eq_append less_imp_le_nat le_add_diff_inverse upt_conv_Cons zero_le)
  moreover have "takeWhile Not (map (bit w) [0..<n] @ True # ys) = map (bit w) [0..<n]" for ys
    using assms(2) by (subst takeWhile_append2) auto
  ultimately show ?thesis using assms(1) by (simp add: ctz_def)
qed

lemma lane_of: "k mod 8 = 7 \<Longrightarrow> k < 64 \<Longrightarrow> \<exists>j<8. k = 8 * j + (7 :: nat)"
proof -
  assume "k mod 8 = 7" "k < 64"
  moreover have "k = 8 * (k div 8) + k mod 8" by simp
  ultimately show ?thesis by (intro exI [of _ "k div 8"]) simp
qed

lemma meta_lanes_first:
  assumes "length bs = 8"
  shows "if meta_lanes (le_word bs) = 0 then \<forall>j<8. \<not> is_meta (bs ! j)
    else (let j = ctz (meta_lanes (le_word bs)) div 8 in
          j < 8 \<and> is_meta (bs ! j) \<and> (\<forall>i<j. \<not> is_meta (bs ! i)))"
proof (cases "\<exists>j<8. is_meta (bs ! j)")
  case True
  then obtain j where j: "j < 8" "is_meta (bs ! j)" "\<forall>i<j. \<not> is_meta (bs ! i)"
    using exists_least_iff [of "\<lambda>j. j < 8 \<and> is_meta (bs ! j)"] by (metis less_trans)
  have hit: "bit (meta_lanes (le_word bs)) (8 * j + 7)" using meta_lanes_bit [OF assms j(1,3)] j(2) by simp
  have "\<not> bit (meta_lanes (le_word bs)) k" if k: "k < 8 * j + 7" for k
  proof
    assume b: "bit (meta_lanes (le_word bs)) k"
    then obtain i where i: "i < 8" "k = 8 * i + 7" using meta_lanes_only lane_of by blast
    then have "i < j" using k by simp
    then show False using b meta_lanes_bit [OF assms i(1)] j(3) i(2) by simp
  qed
  then have "ctz (meta_lanes (le_word bs)) = 8 * j + 7" using hit by (intro ctz_eqI) simp_all
  moreover have "meta_lanes (le_word bs) \<noteq> 0" using hit by auto
  ultimately show ?thesis using j by (simp add: Let_def)
next
  case False
  have "meta_lanes (le_word bs) = 0"
  proof (rule bit_word_eqI)
    fix k
    show "bit (meta_lanes (le_word bs)) k = bit (0 :: u64) k"
      using False meta_lanes_bit [OF assms] meta_lanes_only [of "le_word bs" k] lane_of [of k] by auto
  qed
  with False show ?thesis by simp
qed

section \<open>The word-wise scan is the byte-wise scan\<close>

lemma html_scan_skip:
  assumes "i \<le> k" "k \<le> n" "\<And>x. i \<le> x \<Longrightarrow> x < k \<Longrightarrow> \<not> is_meta (m (p + x))"
  shows "kyte_html_scan m p i n = kyte_html_scan m p k n"
  using assms
proof (induction "nat (k - i)" arbitrary: i)
  case (Suc d)
  then have "i < k" by simp
  then have "kyte_html_scan m p i n = kyte_html_scan m p (i + 1) n"
    using Suc.prems by (simp add: kyte_html_scan.simps [of m p i n])
  also have "\<dots> = kyte_html_scan m p k n" using Suc \<open>i < k\<close> by simp
  finally show ?case .
qed simp

lemma html_scan_bounds: "i \<le> n \<Longrightarrow> i \<le> kyte_html_scan m s i n \<and> kyte_html_scan m s i n \<le> n"
proof (induction m s i n rule: kyte_html_scan.induct)
  case (1 m s i n)
  then show ?case by (subst (1 2) kyte_html_scan.simps) auto
qed

text \<open>The greatest \<^verbatim>\<open>int\<close> the counter can reach from \<open>i\<close> in steps of eight.\<close>

definition last_block :: "int \<Rightarrow> int" where
  "last_block i = 2 ^ 31 - 1 - (2 ^ 31 - 1 - i) mod 8"

lemma mod_eight:
  "8 \<le> d \<Longrightarrow> d mod 8 \<le> d - 8" "d \<le> 7 \<Longrightarrow> d \<le> d mod 8" "(d - 8) mod 8 = d mod 8" "d mod 8 \<le> 7"
  for d :: int
  by presburger+

lemma last_block_bounds: "2 ^ 31 - 8 \<le> last_block i" "last_block (i + 8) = last_block i"
  "i + 8 < 2 ^ 31 \<Longrightarrow> i + 8 \<le> last_block i" "2 ^ 31 \<le> i + 8 \<Longrightarrow> last_block i \<le> i"
  using mod_eight [of "2 ^ 31 - 1 - i"] by (simp_all add: last_block_def algebra_simps)

lemma find_meta_from_eq:
  "i \<le> len \<Longrightarrow> find_meta_from m p i len =
     (if kyte_html_scan m p i len < last_block i then Ok (kyte_html_scan m p i len) else Trap)"
proof (induction m p i len rule: find_meta_from.induct)
  case (1 m p i len)
  let ?bs = "rd m (p + i) 8"
  let ?l = "meta_lanes (le_word ?bs)"
  consider "2 ^ 31 \<le> i + 8" | "i + 8 < 2 ^ 31" "len < i + 8" | "i + 8 < 2 ^ 31" "i + 8 \<le> len" by linarith
  then show ?case
  proof cases
    case 1
    then show ?thesis
      using last_block_bounds(4) [of i] html_scan_bounds [OF \<open>i \<le> len\<close>, of m p] by (simp add: find_meta_from.simps [of m p i len])
  next
    case 2
    then show ?thesis
      using last_block_bounds(3) [of i] html_scan_bounds [OF \<open>i \<le> len\<close>, of m p] by (simp add: find_meta_from.simps [of m p i len])
  next
    case room: 3
    show ?thesis
    proof (cases "?l = 0")
      case z: True
      then have none: "\<forall>j<8. \<not> is_meta (?bs ! j)" using meta_lanes_first [of ?bs] by simp
      have "\<not> is_meta (m (p + x))" if "i \<le> x" "x < i + 8" for x
        using none [rule_format, of "nat (x - i)"] that by simp
      then have "kyte_html_scan m p i len = kyte_html_scan m p (i + 8) len"
        using room by (intro html_scan_skip) simp_all
      moreover have "find_meta_from m p i len = find_meta_from m p (i + 8) len"
        using room z by (simp add: find_meta_from.simps [of m p i len])
      ultimately show ?thesis using 1(1) [OF _ _ refl] z room by (simp add: last_block_bounds(2))
    next
      case nz: False
      define j where "j = ctz ?l div 8"
      have j: "j < 8" "is_meta (?bs ! j)" "\<forall>i<j. \<not> is_meta (?bs ! i)"
        using meta_lanes_first [of ?bs] nz unfolding j_def [symmetric] Let_def if_not_P [OF nz]
        by (simp_all only: length_rd) blast+
      have "\<not> is_meta (m (p + x))" if "i \<le> x" "x < i + int j" for x
        using j(3) [rule_format, of "nat (x - i)"] that j(1) by simp
      then have "kyte_html_scan m p i len = kyte_html_scan m p (i + int j) len"
        using room j(1) by (intro html_scan_skip) simp_all
      also have "\<dots> = i + int j"
        using j room by (simp add: kyte_html_scan.simps [of m p "i + int j"] add.assoc)
      finally show ?thesis
        using nz room j(1) last_block_bounds(3) [OF room(1)] by (simp add: find_meta_from.simps [of m p i len] j_def [symmetric] Let_def)
    qed
  qed
qed

end
