(* ===== verification/Kyte_Html_Props.thy ===== *)
theory Kyte_Html_Props
  imports Kyte_Html
begin

text \<open>
  What the HTML boundary guarantees: the word-wise scan finds the first metacharacter, the escaper's
  two passes agree and its output is safe and reversible, and exactly which URLs the filter rejects
  (with one family it lets through although browsers run it).
\<close>

section \<open>The scans\<close>

lemma html_scan_hit: "kyte_html_scan m s i n < n \<Longrightarrow> is_meta (m (s + kyte_html_scan m s i n))"
proof (induction m s i n rule: kyte_html_scan.induct)
  case (1 m s i n)
  then show ?case by (auto simp: kyte_html_scan.simps [of m s i n] split: if_splits)
qed

lemma html_scan_miss: "i \<le> j \<Longrightarrow> j < kyte_html_scan m s i n \<Longrightarrow> \<not> is_meta (m (s + j))"
proof (induction m s i n rule: kyte_html_scan.induct)
  case (1 m s i n)
  then show ?case
    by (cases "j = i") (auto simp: kyte_html_scan.simps [of m s i n] split: if_splits)
qed

text \<open>
  Property C4 (html_find_meta_first).  The eight-bytes-at-a-time scan is the byte loop, for every
  memory content, start and length: it returns the first index at or after the start that holds one
  of the five metacharacters, and the length when there is none.  The exact limit of this is the C
  \<^verbatim>\<open>int\<close> that counts: the scan is undefined (\<^verbatim>\<open>i + 8\<close> overflows) precisely when that
  index is not below \<open>last_block\<close> of the start, one of the eight greatest integers an \<^verbatim>\<open>int\<close>
  holds; every length below \<open>2 ^ 31 - 8\<close> is safe.
\<close>

theorem html_find_meta_first:
  assumes "base \<noteq> 0" "0 < len" "start \<le> len"
  shows "let k = kyte_html_scan m base (max 0 start) len in
      kyte_html_find_meta m base start len = (if k < last_block (max 0 start) then Ok k else Trap)
      \<and> (len < 2 ^ 31 - 8 \<longrightarrow> kyte_html_find_meta m base start len = Ok k)
      \<and> max 0 start \<le> k \<and> k \<le> len \<and> (k < len \<longrightarrow> is_meta (m (base + k)))
      \<and> (\<forall>j. max 0 start \<le> j \<and> j < k \<longrightarrow> \<not> is_meta (m (base + j)))"
proof -
  define k where "k = kyte_html_scan m base (max 0 start) len"
  have le: "max 0 start \<le> len" using assms by simp
  then have eq: "kyte_html_find_meta m base start len = (if k < last_block (max 0 start) then Ok k else Trap)"
    using assms by (simp add: kyte_html_find_meta_def find_meta_from_eq max_def k_def)
  have b: "max 0 start \<le> k" "k \<le> len" using html_scan_bounds [OF le, of m base] by (simp_all add: k_def)
  have "len < 2 ^ 31 - 8 \<longrightarrow> k < last_block (max 0 start)" using b(2) last_block_bounds(1) [of "max 0 start"] by linarith
  then show ?thesis
    unfolding Let_def k_def [symmetric]
    using eq b html_scan_hit [of m base "max 0 start" len] html_scan_miss [of "max 0 start" _ m base len]
    by (simp add: k_def [symmetric])
qed

theorem html_find_meta_first_witness:
  "kyte_html_find_meta (\<lambda>x. if x = 109 then 60 else 65) 100 0 20 = Ok 9"
proof -
  let ?m = "\<lambda>x::int. if x = 109 then 60 else 65 :: u8"
  have "kyte_html_find_meta ?m 100 0 20 = Ok (kyte_html_scan ?m 100 0 20)"
    using html_find_meta_first [of 100 20 0 ?m] unfolding Let_def by fastforce
  also have "\<dots> = Ok 9" by (simp add: kyte_html_scan.simps is_meta_def)
  finally show ?thesis .
qed

section \<open>The escaper\<close>

definition escape :: "bytes \<Rightarrow> bytes" where
  "escape bs = concat (map esc_byte bs)"

lemma esc_cost_length: "esc_cost c = int (length (esc_byte c))"
  by (simp add: esc_cost_def esc_byte_def)

lemma esc_length_eq:
  "esc_length m p is out = out + int (length (escape (map (\<lambda>i. m (p + int i)) is)))"
  by (induction "is" arbitrary: out) (simp_all add: esc_cost_length escape_def)

text \<open>The writing pass leaves the concatenation when the source is not in the written range.\<close>

lemma esc_write_eq:
  assumes "0 \<le> w" "\<And>i. i \<in> set is \<Longrightarrow> p + int i < out \<or> out + w + int (length (escape (map (\<lambda>i. m (p + int i)) is))) \<le> p + int i"
  shows "esc_write m p out is w = wr m (out + w) (escape (map (\<lambda>i. m (p + int i)) is))"
  using assms
proof (induction "is" arbitrary: m w)
  case Nil
  then show ?case by (simp add: escape_def wr_nil)
next
  case (Cons i "is")
  define e where "e = esc_byte (m (p + int i))"
  let ?m = "wr m (out + w) e"
  let ?tl = "escape (map (\<lambda>i. m (p + int i)) is)"
  have len: "length (escape (map (\<lambda>i. m (p + int i)) (i # is))) = length e + length ?tl"
    by (simp add: escape_def e_def)
  have same: "?m (p + int j) = m (p + int j)" if "j \<in> set is" for j
    using Cons.prems(1) Cons.prems(2) [of j] that len by (intro wr_outside) auto
  then have map_eq: "map (\<lambda>i. ?m (p + int i)) is = map (\<lambda>i. m (p + int i)) is" by simp
  have "esc_write ?m p out is (w + int (length e))
      = wr ?m (out + (w + int (length e))) (escape (map (\<lambda>i. ?m (p + int i)) is))"
  proof (rule Cons.IH)
    show "0 \<le> w + int (length e)" using Cons.prems(1) by simp
    fix j
    assume "j \<in> set is"
    then show "p + int j < out \<or> out + (w + int (length e)) + int (length (escape (map (\<lambda>i. ?m (p + int i)) is))) \<le> p + int j"
      using Cons.prems(2) [of j] len by (simp add: map_eq algebra_simps)
  qed
  then have "esc_write m p out (i # is) w = wr ?m (out + w + int (length e)) ?tl"
    by (simp add: Let_def e_def [symmetric] map_eq add.assoc)
  also have "\<dots> = wr m (out + w) (e @ ?tl)" by (simp add: wr_append)
  finally show ?case by (simp add: escape_def e_def)
qed

text \<open>Reading escaped text back.\<close>

function unescape :: "bytes \<Rightarrow> bytes" where
  "unescape bs =
     (if bs = [] then []
      else if take 5 bs = esc_byte 38 then 38 # unescape (drop 5 bs)
      else if take 4 bs = esc_byte 60 then 60 # unescape (drop 4 bs)
      else if take 4 bs = esc_byte 62 then 62 # unescape (drop 4 bs)
      else if take 6 bs = esc_byte 34 then 34 # unescape (drop 6 bs)
      else if take 5 bs = esc_byte 39 then 39 # unescape (drop 5 bs)
      else hd bs # unescape (tl bs))"
  by pat_completeness auto
termination
  by (relation "measure length") auto

declare unescape.simps [simp del]

lemma unescape_entities:
  "unescape (esc_byte 38 @ r) = 38 # unescape r" "unescape (esc_byte 60 @ r) = 60 # unescape r"
  "unescape (esc_byte 62 @ r) = 62 # unescape r" "unescape (esc_byte 34 @ r) = 34 # unescape r"
  "unescape (esc_byte 39 @ r) = 39 # unescape r"
  by (subst unescape.simps, simp add: esc_byte_def)+

lemma unescape_esc_byte: "unescape (esc_byte c @ r) = c # unescape r"
proof (cases "is_meta c")
  case True
  then show ?thesis unfolding is_meta_def using unescape_entities by blast
next
  case False
  then have e: "esc_byte c = [c]" and c: "c \<noteq> 38" by (auto simp: is_meta_def esc_byte_def)
  have "unescape (c # r) = c # unescape r" using c by (subst unescape.simps) (simp add: esc_byte_def)
  then show ?thesis by (simp add: e)
qed

lemma unescape_escape: "unescape (escape bs) = bs"
proof (induction bs)
  case Nil
  then show ?case by (simp add: escape_def unescape.simps)
next
  case (Cons c bs)
  then show ?case by (simp add: escape_def unescape_esc_byte)
qed

lemma esc_byte_safe: "\<forall>c \<in> set (esc_byte b). c \<noteq> 60 \<and> c \<noteq> 62 \<and> c \<noteq> 34 \<and> c \<noteq> 39"
  by (simp add: esc_byte_def)

lemma escape_safe: "c \<in> set (escape bs) \<Longrightarrow> c \<noteq> 60 \<and> c \<noteq> 62 \<and> c \<noteq> 34 \<and> c \<noteq> 39"
  using esc_byte_safe by (force simp: escape_def)

lemma escape_id: "(\<forall>c \<in> set bs. \<not> is_meta c) \<Longrightarrow> escape bs = bs"
  by (induction bs) (auto simp: escape_def esc_byte_def is_meta_def)

text \<open>A string in live memory.\<close>

definition live_string :: "heap \<Rightarrow> addr \<Rightarrow> bytes \<Rightarrow> bool" where
  "live_string h s bs \<longleftrightarrow> s \<noteq> 0 \<and> hdr_len h s = word_of_int (int (length bs)) \<and> length bs < 2 ^ 31
     \<and> rd (mem h) s (length bs) = bs \<and> src_ok h (At s) (length bs)"

lemma live_string_len: "live_string h s bs \<Longrightarrow> sint (hdr_len h s) = int (length bs)"
  using sint32_of_int [of "int (length bs)"] by (simp add: live_string_def)

lemma live_string_at: "live_string h s bs \<Longrightarrow> i < length bs \<Longrightarrow> mem h (s + int i) = bs ! i"
  by (metis live_string_def nth_rd)

lemma map_bytes: "live_string h s bs \<Longrightarrow> map (\<lambda>i. mem h (s + int i)) [0..<length bs] = bs"
  by (rule nth_equalityI) (simp_all add: live_string_at)

text \<open>
  The strings the scan of the escaper can finish: all but those of the last eight lengths an
  \<^verbatim>\<open>int\<close> holds that have no metacharacter in front.
\<close>

definition scan_fits :: "bytes \<Rightarrow> bool" where
  "scan_fits bs \<longleftrightarrow> length bs < 2 ^ 31 - 8 \<or> (\<exists>c \<in> set (take (2 ^ 31 - 8) bs). is_meta c)"

lemma scan_from_start:
  assumes s: "live_string h s bs"
  defines "k \<equiv> kyte_html_scan (mem h) s 0 (int (length bs))"
  shows "k < int (length bs) \<longleftrightarrow> (\<exists>c \<in> set bs. is_meta c)" "k < 2 ^ 31 - 8 \<longleftrightarrow> scan_fits bs"
proof -
  have b: "0 \<le> k" "k \<le> int (length bs)" using html_scan_bounds [of 0 "int (length bs)" "mem h" s] by (simp_all add: k_def)
  have hit: "nat k < length bs \<Longrightarrow> is_meta (bs ! nat k)"
    using html_scan_hit [of "mem h" s 0 "int (length bs)"] live_string_at [OF s, of "nat k"] b by (simp add: k_def)
  have miss: "\<not> is_meta (bs ! i)" if "i < nat k" for i
    using html_scan_miss [of 0 "int i" "mem h" s "int (length bs)"] live_string_at [OF s, of i] that b by (simp add: k_def)
  have upto: "nat k < n \<longleftrightarrow> length bs < n \<or> (\<exists>c \<in> set (take n bs). is_meta c)" if "nat k < length bs \<or> nat k = length bs" for n
  proof
    assume n: "nat k < n"
    show "length bs < n \<or> (\<exists>c \<in> set (take n bs). is_meta c)"
    proof (cases "nat k < length bs")
      case True
      then have "bs ! nat k \<in> set (take n bs)" using n by (auto simp: in_set_conv_nth)
      then show ?thesis using hit True by blast
    qed (use that n in simp)
  next
    assume "length bs < n \<or> (\<exists>c \<in> set (take n bs). is_meta c)"
    then show "nat k < n"
    proof
      assume "\<exists>c \<in> set (take n bs). is_meta c"
      then obtain i where "i < n" "i < length bs" "is_meta (bs ! i)" by (auto simp: in_set_conv_nth)
      then show ?thesis using miss [of i] by (metis linorder_not_less order_le_less_trans)
    qed (use that in auto)
  qed
  have cases: "nat k < length bs \<or> nat k = length bs" using b by linarith
  show "k < int (length bs) \<longleftrightarrow> (\<exists>c \<in> set bs. is_meta c)" using upto [OF cases, of "length bs"] b by auto
  have "k < 2 ^ 31 - 8 \<longleftrightarrow> nat k < 2 ^ 31 - 8" using b by (simp add: nat_less_iff)
  then show "k < 2 ^ 31 - 8 \<longleftrightarrow> scan_fits bs" unfolding scan_fits_def using upto [OF cases] by blast
qed

lemma escape_scan:
  assumes "live_string h s bs" "bs \<noteq> []"
  shows "kyte_html_find_meta (mem h) s 0 (int (length bs)) =
    (if scan_fits bs then Ok (kyte_html_scan (mem h) s 0 (int (length bs))) else Trap)"
proof -
  have "last_block 0 = 2 ^ 31 - 8" by (simp add: last_block_def)
  then show ?thesis
    using assms scan_from_start(2) [OF assms(1)] by (simp add: kyte_html_find_meta_def find_meta_from_eq live_string_def)
qed

text \<open>The three ways the escaper goes: undefined, the string itself, or one allocation and one pass of writing.\<close>

lemma html_escape_trap:
  assumes "live_string h s bs" "\<not> scan_fits bs"
  shows "kyte_html_escape P h s site = Trap"
proof -
  have "bs \<noteq> []" using assms(2) by (auto simp: scan_fits_def)
  then show ?thesis
    using escape_scan [OF assms(1)] live_string_len [OF assms(1)] assms by (simp add: kyte_html_escape_def live_string_def)
qed

lemma html_escape_plain:
  assumes "live_string h s bs" "\<forall>c \<in> set bs. \<not> is_meta c" "scan_fits bs"
  shows "kyte_html_escape P h s site = Ok (s, h)"
  using escape_scan [OF assms(1)] live_string_len [OF assms(1)] scan_from_start(1) [OF assms(1)] assms
  by (cases bs) (auto simp: kyte_html_escape_def live_string_def not_less)

lemma esc_write_fresh:
  assumes s: "live_string h s bs" and fr: "fresh_object h box (int (length (escape bs))) k"
  shows "esc_write (mem k) s box [0..<length bs] 0 = wr (mem k) box (escape bs)"
proof -
  have keep: "src_bytes (mem k) (At s) (length bs) = src_bytes (mem h) (At s) (length bs)"
    using s fr by (intro src_bytes_fresh) (simp_all add: live_string_def)
  have at: "mem k (s + int i) = bs ! i" if "i < length bs" for i
    using keep s that nth_rd [of i "length bs" "mem k" s] by (simp add: live_string_def)
  have map_k: "map (\<lambda>i. mem k (s + int i)) [0..<length bs] = bs"
    by (rule nth_equalityI) (simp_all add: at)
  obtain q j where q: "blocks h q = Some j" "q \<le> s" "s + int (length bs) \<le> q + int j"
    using s by (auto simp: live_string_def)
  have "apart (box - 8) (nat (int (length (escape bs))) + 8) q j" using fr q(1) by (simp add: fresh_object_def)
  then have outside: "s + int i < box \<or> box + 0 + int (length (escape bs)) \<le> s + int i" if "i \<in> set [0..<length bs]" for i
    using q that by (auto simp: apart_def)
  show ?thesis using esc_write_eq [of 0 "[0..<length bs]" s box "mem k"] outside by (simp add: map_k)
qed

lemma html_escape_alloc:
  assumes good: "good_heap P h" and s: "live_string h s bs" and meta: "\<exists>c \<in> set bs. is_meta c" "scan_fits bs"
    and al: "kyte_bytes_alloc P h (int (length (escape bs))) site = (box, k)"
  shows "kyte_html_escape P h s site = Ok (if box = 0 then (s, k) else (box, k\<lparr>mem := wr (mem k) box (escape bs)\<rparr>))"
proof -
  have ne: "bs \<noteq> []" "s \<noteq> 0" using meta s by (auto simp: live_string_def)
  have out: "esc_length (mem h) s [0..<length bs] 0 = int (length (escape bs))"
    by (simp add: esc_length_eq map_bytes [OF s])
  have "fresh_object h box (int (length (escape bs))) k" if "box \<noteq> 0"
    using good kyte_bytes_alloc_fresh [OF _ _ _ _ al that] by (simp add: good_heap_def)
  then have "box \<noteq> 0 \<Longrightarrow> esc_write (mem k) s box [0..<length bs] 0 = wr (mem k) box (escape bs)"
    using esc_write_fresh [OF s] by blast
  then show ?thesis
    using escape_scan [OF s ne(1)] scan_from_start(1) [OF s] meta ne live_string_len [OF s]
    by (simp add: kyte_html_escape_def Let_def out al)
qed

text \<open>A text written into a fresh allocation, and the string that was there before.\<close>

lemma boxed_text:
  assumes good: "good_heap P h" and al: "kyte_bytes_alloc P h (int (length cs)) site = (box, k)" "box \<noteq> 0"
    and n: "length cs < 2 ^ 31" and h': "h' = k\<lparr>mem := wr (mem k) box cs\<rparr>"
  shows "fresh_object h box (int (length cs)) h'" "sint (hdr_len h' box) = int (length cs)" "rd (mem h') box (length cs) = cs"
    and "live_string h s bs \<Longrightarrow> bs \<noteq> [] \<Longrightarrow> cs \<noteq> [] \<Longrightarrow> box \<noteq> s \<and> rd (mem h') s (length bs) = bs"
proof -
  have fr: "fresh_object h box (int (length cs)) k" and hl: "hdr_len k box = word_of_int (int (length cs))"
    using good kyte_bytes_alloc_fresh [OF _ _ _ _ al] by (simp_all add: good_heap_def)
  show fr': "fresh_object h box (int (length cs)) h'"
    unfolding h' by (rule fresh_object_write [OF fr]) (auto simp: wr_outside)
  have "hdr_len h' box = word_of_int (int (length cs))" using hl by (simp add: h' hdr_len_def c32.get_wr apart_def)
  then show "sint (hdr_len h' box) = int (length cs)" using n sint32_of_int [of "int (length cs)"] by simp
  show "rd (mem h') box (length cs) = cs" by (simp add: h' mem_simps)
  assume s: "live_string h s bs" "bs \<noteq> []" "cs \<noteq> []"
  have keep: "src_bytes (mem h') (At s) (length bs) = src_bytes (mem h) (At s) (length bs)"
    using s fr' by (intro src_bytes_fresh) (simp_all add: live_string_def)
  obtain q j where q: "blocks h q = Some j" "q \<le> s" "s + int (length bs) \<le> q + int j"
    using s(1) by (auto simp: live_string_def)
  moreover have "apart (box - 8) (length cs + 8) q j" using fr q(1) by (simp add: fresh_object_def)
  moreover have "0 < length cs" "0 < length bs" using s by simp_all
  ultimately have "box \<noteq> s" unfolding apart_def by linarith
  then show "box \<noteq> s \<and> rd (mem h') s (length bs) = bs" using s(1) keep by (simp add: live_string_def)
qed

text \<open>
  Property C5 (html_escape_safe).  Escaping a live string without metacharacters returns the string
  itself and allocates nothing.  With a metacharacter the escaper allocates the length of the escaped
  text.  When the allocator gives it \<open>box\<close>, it returns \<open>box\<close>, which is a new object and not the input: its
  length header is that length, it holds exactly the escaped text, no byte of it is less-than,
  greater-than or one of the two quotes, reading the entities of what is in memory back gives the
  input, and the input and every other live object are unchanged.  Only when the allocator gives
  nothing does it hand back the input.  A string its scan cannot finish is undefined.
\<close>

theorem html_escape_safe:
  assumes good: "good_heap P h" and s: "live_string h s bs" and n: "length (escape bs) < 2 ^ 31"
    and al: "kyte_bytes_alloc P h (int (length (escape bs))) site = (box, k)"
  shows "(\<not> scan_fits bs \<longrightarrow> kyte_html_escape P h s site = Trap)
    \<and> (scan_fits bs \<and> (\<forall>c \<in> set bs. \<not> is_meta c) \<longrightarrow> kyte_html_escape P h s site = Ok (s, h))
    \<and> (scan_fits bs \<and> (\<exists>c \<in> set bs. is_meta c) \<and> box \<noteq> 0 \<longrightarrow>
         (\<exists>h'. kyte_html_escape P h s site = Ok (box, h') \<and> box \<noteq> s
            \<and> fresh_object h box (int (length (escape bs))) h'
            \<and> sint (hdr_len h' box) = int (length (escape bs))
            \<and> rd (mem h') box (length (escape bs)) = escape bs
            \<and> (\<forall>i < length (escape bs). mem h' (box + int i) \<notin> {60, 62, 34, 39})
            \<and> unescape (rd (mem h') box (length (escape bs))) = bs
            \<and> rd (mem h') s (length bs) = bs))
    \<and> (scan_fits bs \<and> (\<exists>c \<in> set bs. is_meta c) \<and> box = 0 \<longrightarrow> kyte_html_escape P h s site = Ok (s, k))"
proof (intro conjI impI; (elim conjE)?)
  assume f: "scan_fits bs" "\<exists>c \<in> set bs. is_meta c" and box: "box \<noteq> 0"
  define h' where "h' = k\<lparr>mem := wr (mem k) box (escape bs)\<rparr>"
  have ne: "bs \<noteq> []" "escape bs \<noteq> []" using f(2) by (cases bs; simp add: escape_def esc_byte_def)+
  note new = boxed_text(1-3) [OF good al box n h'_def] boxed_text(4) [OF good al box n h'_def s ne]
  have "mem h' (box + int i) \<notin> {60, 62, 34, 39}" if "i < length (escape bs)" for i
    using escape_safe [of _ bs] nth_mem [OF that] nth_rd [OF that, of "mem h'" box] new(3) by auto
  then show "\<exists>h'. kyte_html_escape P h s site = Ok (box, h') \<and> box \<noteq> s
            \<and> fresh_object h box (int (length (escape bs))) h'
            \<and> sint (hdr_len h' box) = int (length (escape bs))
            \<and> rd (mem h') box (length (escape bs)) = escape bs
            \<and> (\<forall>i < length (escape bs). mem h' (box + int i) \<notin> {60, 62, 34, 39})
            \<and> unescape (rd (mem h') box (length (escape bs))) = bs
            \<and> rd (mem h') s (length bs) = bs"
    using html_escape_alloc [OF good s f(2,1) al] box new unescape_escape [of bs]
    by (intro exI [of _ h']) (simp add: h'_def [symmetric])
qed (use html_escape_trap [OF s] html_escape_plain [OF s] html_escape_alloc [OF good s _ _ al] in simp_all)

lemma live_string_of:
  "kyte_string h p bs \<Longrightarrow> p \<noteq> 0 \<Longrightarrow> length bs < 2 ^ 31 \<Longrightarrow> blocks h q = Some k \<Longrightarrow> q \<le> p \<Longrightarrow>
     p + int (length bs) \<le> q + int k \<Longrightarrow> live_string h p bs"
  by (auto simp: live_string_def kyte_string_def)

text \<open>A heap whose one object is the live string \<open>bs\<close>, for the closed instances; the next allocation succeeds.\<close>

lemma demo_string:
  assumes "length bs < 4000"
  obtains h where "live_string h 4104 bs" "good_heap str_platform h" "\<And>n. \<exists>k. kyte_bytes_alloc str_platform h n 0 = (8200, k)"
proof -
  let ?n = "int (length bs)"
  have z: "arena_start heap0 = 0" "blocks heap0 = Map.empty" by (simp_all add: heap0_def)
  have n: "?n \<le> 0x7fffffff" using assms by simp
  obtain h where fb: "kyte_from_bytes str_platform heap0 (Buf bs) ?n 0 = Ok (4104, h)"
    and b: "blocks h = [4096 \<mapsto> length bs + 9]" "arena_start h = 0"
    using from_bytes_block [OF str_platform_flags(1) _ n, of heap0 4096 "Buf bs" 0] z by (auto simp: str_platform_malloc)
  have good: "good_heap str_platform heap0"
    by (simp add: good_heap_def str_platform_sound heap0_ok no_empty_blocks_def z)
  have "src_ok heap0 (Buf bs) (nat ?n)" by simp
  from from_bytes_string [OF good fb _ this] have fs: "fresh_object heap0 4104 (?n + 1) h" "kyte_string h 4104 bs" by simp_all
  have "live_string h 4104 bs" by (rule live_string_of [OF fs(2), of 4096 "length bs + 9"]) (use assms b in simp_all)
  moreover have "good_heap str_platform h"
    using fs(1) b by (simp add: good_heap_def str_platform_sound no_empty_blocks_def fresh_object_def)
  moreover have "\<exists>k. kyte_bytes_alloc str_platform h n 0 = (8200, k)" for n
    using assms b by (simp add: kyte_bytes_alloc_def Let_def malloc_block_def str_platform_malloc HDR_def)
  ultimately show thesis using that by blast
qed

theorem html_escape_safe_witness:
  "\<exists>h h'. live_string h 4104 [72, 60] \<and> kyte_html_escape str_platform h 4104 0 = Ok (8200, h')
     \<and> rd (mem h') 8200 5 = [72, 38, 108, 116, 59] \<and> rd (mem h') 4104 2 = [72, 60]"
proof -
  have "length [72, 60 :: u8] < 4000" by simp
  then obtain h where s: "live_string h 4104 [72, 60]" and good: "good_heap str_platform h"
    and al: "\<And>n. \<exists>k. kyte_bytes_alloc str_platform h n 0 = (8200, k)" by (metis demo_string)
  have esc: "escape [72, 60] = [72, 38, 108, 116, 59]" by (simp add: escape_def esc_byte_def)
  then have n: "length (escape [72, 60]) < 2 ^ 31" "length [72, 60 :: u8] = 2" by simp_all
  have "scan_fits [72, 60]" "\<exists>c \<in> set [72, 60 :: u8]. is_meta c" by (simp_all add: scan_fits_def is_meta_def)
  moreover obtain k where "kyte_bytes_alloc str_platform h (int (length (escape [72, 60]))) 0 = (8200, k)" using al by blast
  ultimately have "\<exists>h'. kyte_html_escape str_platform h 4104 0 = Ok (8200, h')
      \<and> rd (mem h') 8200 (length (escape [72, 60])) = escape [72, 60] \<and> rd (mem h') 4104 (length [72, 60 :: u8]) = [72, 60]"
    using html_escape_safe [OF good s n(1)] by fastforce
  moreover have "length [72, 38, 108, 116, 59 :: u8] = 5" by simp
  ultimately show ?thesis using s unfolding esc n(2) by metis
qed

section \<open>The URL filter\<close>

lemma alpha_not_space: "is_alpha c \<Longrightarrow> \<not> c \<le> 0x20"
  by (auto simp: is_alpha_def word_le_nat_alt)

lemma colon_not_scheme: "\<not> scheme_char 58"
  by (simp add: scheme_char_def is_alpha_def)

lemma lower_at_iff:
  "name \<noteq> [] \<Longrightarrow> lower_at p i name \<longleftrightarrow> i + length name \<le> length p \<and> map lower (take (length name) (drop i p)) = name"
proof -
  assume ne: "name \<noteq> []"
  have "lower_at p i name \<longleftrightarrow> (\<forall>k<length name. i + k < length p \<and> lower (p ! (i + k)) = name ! k)"
    by (auto simp: lower_at_def list_all_iff)
  also have "\<dots> \<longleftrightarrow> i + length name \<le> length p \<and> (\<forall>k<length name. lower (p ! (i + k)) = name ! k)"
  proof
    assume all: "\<forall>k<length name. i + k < length p \<and> lower (p ! (i + k)) = name ! k"
    have "length name - 1 < length name" using ne by simp
    then have "i + (length name - 1) < length p" using all by blast
    then show "i + length name \<le> length p \<and> (\<forall>k<length name. lower (p ! (i + k)) = name ! k)"
      using all \<open>length name - 1 < length name\<close> by auto
  qed auto
  also have "\<dots> \<longleftrightarrow> i + length name \<le> length p \<and> map lower (take (length name) (drop i p)) = name"
    by (auto simp: list_eq_iff_nth_eq)
  finally show ?thesis .
qed

lemma image_prefix_len: "length image_prefix = 6" "image_prefix \<noteq> []"
  by (simp_all add: image_prefix_def)

text \<open>The shape of a URL the filter must stop, stated without indices.\<close>

definition script_url :: "bytes \<Rightarrow> bool" where
  "script_url p \<longleftrightarrow> (\<exists>ws sch rest. p = ws @ sch @ 58 # rest \<and> (\<forall>c \<in> set ws. c \<le> 0x20)
     \<and> sch \<noteq> [] \<and> is_alpha (hd sch) \<and> (\<forall>c \<in> set sch. scheme_char c)
     \<and> (map lower sch = javascript \<or> map lower sch = vbscript
        \<or> (map lower sch = data_scheme \<and> \<not> (6 \<le> length rest \<and> map lower (take 6 rest) = image_prefix))))"

lemma scan_start:
  assumes "\<forall>c \<in> set ws. c \<le> (0x20 :: u8)" "sch \<noteq> []" "is_alpha (hd sch)"
  shows "scan (\<lambda>c. \<not> c \<le> 0x20) (ws @ sch @ r) 0 = length ws"
  using assms alpha_not_space [of "hd sch"]
  by (intro scan_eqI) (auto simp: nth_append hd_conv_nth nth_mem)

lemma scan_scheme:
  assumes "\<forall>c \<in> set sch. scheme_char c" "c = 58 \<or> \<not> scheme_char c"
  shows "scan (\<lambda>c. c = 58 \<or> \<not> scheme_char c) (ws @ sch @ c # r) (length ws) = length ws + length sch"
proof (rule scan_eqI)
  fix j
  assume "length ws \<le> j" "j < length ws + length sch"
  then have "(ws @ sch @ c # r) ! j = sch ! (j - length ws)" "j - length ws < length sch"
    by (auto simp: nth_append)
  then have "scheme_char ((ws @ sch @ c # r) ! j)" using assms(1) by (metis nth_mem)
  then show "\<not> ((ws @ sch @ c # r) ! j = 58 \<or> \<not> scheme_char ((ws @ sch @ c # r) ! j))"
    using colon_not_scheme by auto
qed (use assms(2) in \<open>simp_all add: nth_append\<close>)

lemma dangerous_script:
  assumes "script_url p"
  shows "dangerous_url p"
proof -
  obtain ws sch rest where p: "p = ws @ sch @ 58 # rest" and ws: "\<forall>c \<in> set ws. c \<le> 0x20"
    and sch: "sch \<noteq> []" "is_alpha (hd sch)" "\<forall>c \<in> set sch. scheme_char c"
    and bad: "map lower sch = javascript \<or> map lower sch = vbscript
        \<or> (map lower sch = data_scheme \<and> \<not> (6 \<le> length rest \<and> map lower (take 6 rest) = image_prefix))"
    using assms unfolding script_url_def by blast
  have i: "scan (\<lambda>c. \<not> c \<le> 0x20) p 0 = length ws" unfolding p by (rule scan_start [OF ws sch(1,2)])
  have j: "scan (\<lambda>c. c = 58 \<or> \<not> scheme_char c) p (length ws) = length ws + length sch"
    unfolding p by (rule scan_scheme [OF sch(3)]) simp
  have hd: "p ! length ws = hd sch" "p ! (length ws + length sch) = 58" "length ws < length p"
    "length ws + length sch < length p"
    using sch(1) by (simp_all add: p nth_append hd_conv_nth)
  have is_name: "scheme_is p (length ws) (length ws + length sch) name \<longleftrightarrow> map lower sch = name" if "name \<noteq> []" for name
    using that by (auto simp: scheme_is_def lower_at_iff p)
  have img: "lower_at p (length ws + length sch + 1) image_prefix \<longleftrightarrow> 6 \<le> length rest \<and> map lower (take 6 rest) = image_prefix"
    using lower_at_iff [OF image_prefix_len(2), of p "length ws + length sch + 1"] by (auto simp: image_prefix_len p)
  show ?thesis
    using bad hd sch(2) is_name [of javascript] is_name [of vbscript] is_name [of data_scheme] img
    unfolding dangerous_url_def Let_def i j
    by (auto simp: javascript_def vbscript_def data_scheme_def)
qed

text \<open>A URL cut at two positions, and what a scan passes over.\<close>

lemma cut_at:
  assumes "i < j" "j < length p"
  shows "p = take i p @ drop i (take j p) @ p ! j # drop (Suc j) p"
proof -
  have "take i p @ drop i (take j p) = take j p"
    using assms(1) by (metis append_take_drop_id less_imp_le min.absorb1 take_take)
  then show ?thesis using id_take_nth_drop [OF assms(2)] by (metis append.assoc)
qed

lemma scan_passed:
  assumes "c \<in> set (drop i (take (scan P p i) p))" "scan P p i < length p"
  shows "\<not> P c"
proof -
  obtain k where "k < length (drop i (take (scan P p i) p))" "c = drop i (take (scan P p i) p) ! k"
    using assms(1) by (metis in_set_conv_nth)
  then have "i + k < scan P p i" "c = p ! (i + k)" using assms(2) by auto
  then show ?thesis using scan_miss [of i "i + k" P p] assms(2) by simp
qed

lemma script_dangerous:
  assumes "dangerous_url p"
  shows "script_url p"
proof -
  define i where "i = scan (\<lambda>c. \<not> c \<le> (0x20 :: u8)) p 0"
  define j where "j = scan (\<lambda>c. c = 58 \<or> \<not> scheme_char c) p i"
  have i: "i < length p" "is_alpha (p ! i)" and j: "j < length p" "p ! j = 58"
    and bad: "scheme_is p i j javascript \<or> scheme_is p i j vbscript
        \<or> (scheme_is p i j data_scheme \<and> \<not> lower_at p (j + 1) image_prefix)"
    using assms unfolding dangerous_url_def Let_def i_def [symmetric] j_def [symmetric] by (auto split: if_splits)
  have ij: "i < j"
  proof -
    have "i \<le> j" using scan_ge [of i p] i(1) by (simp add: j_def)
    moreover have "p ! i \<noteq> 58" using i(2) by (auto simp: is_alpha_def)
    ultimately show ?thesis using j(2) by (cases "i = j") auto
  qed
  define ws sch rest where "ws = take i p" and "sch = drop i (take j p)" and "rest = drop (j + 1) p"
  have lsch: "length sch = j - i" "sch \<noteq> []" using ij j(1) by (auto simp: sch_def)
  have p: "p = ws @ sch @ 58 # rest" using cut_at [OF ij j(1)] j(2) by (simp add: ws_def sch_def rest_def)
  have "\<forall>c \<in> set ws. c \<le> 0x20"
    using scan_passed [where i = 0 and P = "\<lambda>c. \<not> c \<le> 0x20" and p = p, folded i_def] i(1) by (auto simp: ws_def)
  moreover have "is_alpha (hd sch)" using i ij j(1) by (simp add: sch_def hd_drop_conv_nth)
  moreover have "\<forall>c \<in> set sch. scheme_char c"
    using scan_passed [where i = i and P = "\<lambda>c. c = 58 \<or> \<not> scheme_char c" and p = p, folded j_def] j(1) by (auto simp: sch_def)
  moreover have "map lower sch = javascript \<or> map lower sch = vbscript
      \<or> (map lower sch = data_scheme \<and> \<not> (6 \<le> length rest \<and> map lower (take 6 rest) = image_prefix))"
  proof -
    have name: "map lower sch = nm" if "scheme_is p i j nm" "nm \<noteq> []" for nm
      using that lsch(1) ij by (auto simp: scheme_is_def lower_at_iff sch_def drop_take)
    have "lower_at p (j + 1) image_prefix \<longleftrightarrow> 6 \<le> length rest \<and> map lower (take 6 rest) = image_prefix"
      using j(1) lower_at_iff [OF image_prefix_len(2), of p "j + 1"] by (auto simp: image_prefix_len rest_def)
    moreover have "javascript \<noteq> []" "vbscript \<noteq> []" "data_scheme \<noteq> []"
      by (simp_all add: javascript_def vbscript_def data_scheme_def)
    ultimately show ?thesis using bad name by blast
  qed
  ultimately show ?thesis unfolding script_url_def using p lsch(2) by blast
qed

lemma dangerous_iff: "dangerous_url bs \<longleftrightarrow> script_url bs"
  using dangerous_script script_dangerous by blast

lemma url_sanitize_alloc:
  assumes s: "live_string h s bs" and al: "kyte_bytes_alloc P h 1 site = (box, k)"
  shows "kyte_url_sanitize P h s site =
      (if dangerous_url bs \<and> box \<noteq> 0 then (box, k\<lparr>mem := wr (mem k) box [35]\<rparr>)
       else if dangerous_url bs then (s, k) else (s, h))"
proof (cases "bs = []")
  case True
  then show ?thesis using live_string_len [OF s] by (simp add: kyte_url_sanitize_def) (simp add: dangerous_url_def)
next
  case False
  then have "\<not> int (length bs) \<le> 0" by simp
  moreover have "rd (mem h) s (length bs) = bs" "s \<noteq> 0" using s by (simp_all add: live_string_def)
  ultimately show ?thesis
    unfolding kyte_url_sanitize_def Let_def live_string_len [OF s] nat_int by (simp add: al)
qed

text \<open>
  Property C6 (url_sanitize_exact).  The filter rejects a URL exactly when, after leading bytes up to
  the space, it starts with a scheme that is, in any letter case, javascript or vbscript, or data not
  followed by image/.  A URL it accepts is returned unchanged and nothing is allocated.  For one it
  rejects it asks for one byte; when the allocator gives it \<open>box\<close>, it returns \<open>box\<close>: a new object, not the
  input, of length one, holding the hash sign, and the input is unchanged.  Only when the allocator
  gives nothing does the rejected URL come back.
\<close>

theorem url_sanitize_exact:
  assumes good: "good_heap P h" and s: "live_string h s bs" and al: "kyte_bytes_alloc P h 1 site = (box, k)"
  shows "(dangerous_url bs \<longleftrightarrow> script_url bs)
    \<and> (\<not> script_url bs \<longrightarrow> kyte_url_sanitize P h s site = (s, h))
    \<and> (script_url bs \<and> box \<noteq> 0 \<longrightarrow>
         (\<exists>h'. kyte_url_sanitize P h s site = (box, h') \<and> box \<noteq> s \<and> fresh_object h box 1 h'
            \<and> sint (hdr_len h' box) = 1 \<and> rd (mem h') box 1 = [35] \<and> rd (mem h') s (length bs) = bs))
    \<and> (script_url bs \<and> box = 0 \<longrightarrow> kyte_url_sanitize P h s site = (s, k))"
proof (intro conjI impI; (elim conjE)?)
  show "dangerous_url bs \<longleftrightarrow> script_url bs" by (rule dangerous_iff)
  assume bad: "script_url bs" and box: "box \<noteq> 0"
  then have "bs \<noteq> []" by (auto simp: script_url_def)
  moreover have "kyte_bytes_alloc P h (int (length [35 :: u8])) site = (box, k)" "length [35 :: u8] < 2 ^ 31" using al by simp_all
  ultimately show "\<exists>h'. kyte_url_sanitize P h s site = (box, h') \<and> box \<noteq> s \<and> fresh_object h box 1 h'
            \<and> sint (hdr_len h' box) = 1 \<and> rd (mem h') box 1 = [35] \<and> rd (mem h') s (length bs) = bs"
    using boxed_text [OF good _ box, of "[35]" site k, OF _ _ refl] s bad box url_sanitize_alloc [OF s al]
    by (intro exI [of _ "k\<lparr>mem := wr (mem k) box [35]\<rparr>"]) (simp add: dangerous_iff)
qed (use url_sanitize_alloc [OF s al] dangerous_iff [of bs] in simp_all)

text \<open>
  The filter stops at the first byte that cannot be in a scheme
  and calls the URL relative, while browsers delete tabs and line breaks before they parse: a
  rejected URL becomes an accepted one when a tab, line feed or carriage return is put anywhere after
  the first letter of its scheme.
\<close>

theorem url_filter_tab_bypass:
  assumes "\<forall>c \<in> set ws. c \<le> 0x20" "a \<noteq> []" "is_alpha (hd a)" "\<forall>c \<in> set a. scheme_char c"
    and "t = 9 \<or> t = 10 \<or> t = 13"
  shows "\<not> dangerous_url (ws @ a @ t # rest)"
proof -
  let ?p = "ws @ a @ t # rest"
  have t: "\<not> scheme_char t" "t \<noteq> 58" using assms(5) by (auto simp: scheme_char_def is_alpha_def)
  have i: "scan (\<lambda>c. \<not> c \<le> 0x20) ?p 0 = length ws" by (rule scan_start [OF assms(1-3)])
  have j: "scan (\<lambda>c. c = 58 \<or> \<not> scheme_char c) ?p (length ws) = length ws + length a"
    by (rule scan_scheme [OF assms(4)]) (simp add: t)
  have "?p ! (length ws + length a) = t" by (simp add: nth_append)
  then show ?thesis unfolding dangerous_url_def Let_def i j using t by simp
qed

theorem url_filter_tab_bypass_witness:
  "dangerous_url (javascript @ [58, 49]) \<and> \<not> dangerous_url ([106, 97, 118, 97] @ 9 # [115, 99, 114, 105, 112, 116, 58, 49])
   \<and> filter (\<lambda>c. c \<noteq> 9) ([106, 97, 118, 97] @ 9 # [115, 99, 114, 105, 112, 116, 58, 49]) = javascript @ [58, 49]"
proof (intro conjI)
  have "script_url (javascript @ [58, 49])"
    unfolding script_url_def
    by (intro exI [of _ "[]"] exI [of _ javascript] exI [of _ "[49]"])
       (simp add: javascript_def is_alpha_def scheme_char_def lower_def)
  then show "dangerous_url (javascript @ [58, 49])" by (rule dangerous_script)
  show "\<not> dangerous_url ([106, 97, 118, 97] @ 9 # [115, 99, 114, 105, 112, 116, 58, 49])"
    using url_filter_tab_bypass [of "[]" "[106, 97, 118, 97]" 9 "[115, 99, 114, 105, 112, 116, 58, 49]"]
    by (simp add: is_alpha_def scheme_char_def)
  show "filter (\<lambda>c. c \<noteq> 9) ([106, 97, 118, 97] @ 9 # [115, 99, 114, 105, 112, 116, 58, 49]) = javascript @ [58, 49]"
    by (simp add: javascript_def)
qed

text \<open>\<^verbatim>\<open>javascript:1\<close> is replaced, \<^verbatim>\<open>H<\<close> is let through.\<close>

theorem url_sanitize_exact_witness:
  "\<exists>h h' g. live_string h 4104 (javascript @ [58, 49]) \<and> kyte_url_sanitize str_platform h 4104 0 = (8200, h') \<and> rd (mem h') 8200 1 = [35]
     \<and> live_string g 4104 [72, 60] \<and> kyte_url_sanitize str_platform g 4104 0 = (4104, g)"
proof -
  have bad: "script_url (javascript @ [58, 49])"
    unfolding script_url_def
    by (intro exI [of _ "[]"] exI [of _ javascript] exI [of _ "[49]"])
       (simp add: javascript_def is_alpha_def scheme_char_def lower_def)
  have "\<not> dangerous_url [72, 60]"
    by (simp add: dangerous_url_def Let_def scan.simps is_alpha_def scheme_char_def)
  then have fine: "\<not> script_url [72, 60]" by (simp add: dangerous_iff)
  have "length (javascript @ [58, 49]) < 4000" "length [72, 60 :: u8] < 4000" by (simp_all add: javascript_def)
  then obtain h g where h: "live_string h 4104 (javascript @ [58, 49])" "good_heap str_platform h" "\<exists>k. kyte_bytes_alloc str_platform h 1 0 = (8200, k)"
    and g: "live_string g 4104 [72, 60]" "good_heap str_platform g" "\<exists>k. kyte_bytes_alloc str_platform g 1 0 = (8200, k)"
    by (metis demo_string)
  then obtain k j where al: "kyte_bytes_alloc str_platform h 1 0 = (8200, k)" "kyte_bytes_alloc str_platform g 1 0 = (8200, j)" by blast
  have "\<exists>h'. kyte_url_sanitize str_platform h 4104 0 = (8200, h') \<and> rd (mem h') 8200 1 = [35]"
    using url_sanitize_exact [OF h(2,1) al(1)] bad by auto
  moreover have "kyte_url_sanitize str_platform g 4104 0 = (4104, g)"
    using url_sanitize_exact [OF g(2,1) al(2)] fine by blast
  ultimately show ?thesis using h(1) g(1) by blast
qed

end
