(* ===== verification/Kyte_Store.thy ===== *)
theory Kyte_Store
  imports Kyte_Html_Props
begin

text \<open>
  The strings of a running program as an abstract store: a finite map from the address of a live
  string to its count and its bytes.  The allocator, the counts, the constructors of strings, the two
  HTML operations and the passage through C strings of \<^verbatim>\<open>src/runtime/alloc.cpp\<close>, \<^verbatim>\<open>runtime_str.h\<close> and
  \<^verbatim>\<open>core.cpp\<close> refine it, command by command and along every run, in the build every target of
  \<^verbatim>\<open>build.zig\<close> uses (\<^verbatim>\<open>KYTE_DROP_ARENA\<close>: no arena).
\<close>

type_synonym store = "addr \<rightharpoonup> int \<times> bytes"

section \<open>Live objects\<close>

text \<open>A string object of count \<open>c\<close> that owns the block under it.\<close>

definition object_at :: "heap \<Rightarrow> addr \<Rightarrow> int \<Rightarrow> bytes \<Rightarrow> bool" where
  "object_at h p c bs \<longleftrightarrow> p \<noteq> 0 \<and> 0 < c \<and> c < 2 ^ 31 \<and> sint (hdr_rc h p) = c
     \<and> hdr_len h p = word_of_int (int (length bs)) \<and> length bs < 2 ^ 31 \<and> rd (mem h) p (length bs) = bs
     \<and> (\<exists>k. blocks h (p - 8) = Some k \<and> length bs + 8 \<le> k \<and> 8 < k)"

text \<open>
  The relation.  \<open>h0\<close> is the heap the program started its run with: its blocks (static data among them)
  belong to others, are still there and hold what they held; every other block is the block of a string of the store.
\<close>

definition refines :: "platform \<Rightarrow> heap \<Rightarrow> heap \<Rightarrow> store \<Rightarrow> bool" where
  "refines P h0 h \<sigma> \<longleftrightarrow> good_heap P h \<and> drop_arena P \<and> arena_start h = 0
     \<and> (\<forall>p c bs. \<sigma> p = Some (c, bs) \<longrightarrow> object_at h p c bs \<and> blocks h0 (p - 8) = None)
     \<and> (\<forall>q k. blocks h0 q = Some k \<longrightarrow> blocks h q = Some k \<and> rd (mem h) q k = rd (mem h0) q k)
     \<and> (\<forall>q. blocks h q \<noteq> None \<longrightarrow> blocks h0 q \<noteq> None \<or> \<sigma> (q + 8) \<noteq> None)"

lemma refines_start:
  "good_heap P h \<Longrightarrow> drop_arena P \<Longrightarrow> arena_start h = 0 \<Longrightarrow> refines P h h Map.empty"
  by (simp add: refines_def)

text \<open>When the store is empty again, the heap has exactly the blocks it started with.\<close>

lemma refines_empty:
  assumes "refines P h0 h Map.empty"
  shows "blocks h = blocks h0"
proof (rule ext)
  fix q
  show "blocks h q = blocks h0 q"
    using assms by (cases "blocks h0 q"; cases "blocks h q") (auto simp: refines_def)
qed

lemma rd_sub:
  assumes "rd m' q k = rd m q k" "q \<le> a" "a + int n \<le> q + int k"
  shows "rd m' a n = rd m a n"
proof (rule nth_equalityI)
  fix i
  assume i: "i < length (rd m' a n)"
  have "rd m' q k ! nat (a - q + int i) = rd m q k ! nat (a - q + int i)" by (simp only: assms(1))
  then show "rd m' a n ! i = rd m a n ! i" using i assms(2,3) by simp
qed simp

lemma object_frame:
  assumes "object_at h p c bs" "blocks h (p - 8) = Some k"
    and "blocks h' (p - 8) = Some k" "rd (mem h') (p - 8) k = rd (mem h) (p - 8) k"
  shows "object_at h' p c bs"
proof -
  have k: "length bs + 8 \<le> k" using assms(1,2) by (auto simp: object_at_def)
  have "rd (mem h') (p - 8) 4 = rd (mem h) (p - 8) 4" "rd (mem h') (p - 4) 4 = rd (mem h) (p - 4) 4"
    "rd (mem h') p (length bs) = rd (mem h) p (length bs)"
    using k by (auto intro!: rd_sub [OF assms(4)])
  then show ?thesis using assms by (auto simp: object_at_def hdr_rc_def hdr_len_def load32_def)
qed

text \<open>A step that moves no block of the store and none of the others' keeps the relation.\<close>

lemma refines_same:
  assumes "refines P h0 h \<sigma>" "good_heap P h'" "arena_start h' = 0" "blocks h' = blocks h"
    and "\<And>q k. blocks h q = Some k \<Longrightarrow> rd (mem h') q k = rd (mem h) q k"
  shows "refines P h0 h' \<sigma>"
proof -
  have "object_at h' p c bs" if "\<sigma> p = Some (c, bs)" for p c bs
  proof -
    have "object_at h p c bs" using assms(1) that by (simp add: refines_def)
    moreover from this obtain k where "blocks h (p - 8) = Some k" by (auto simp: object_at_def)
    ultimately show ?thesis using object_frame assms(4,5) by simp
  qed
  then show ?thesis using assms by (auto simp: refines_def)
qed

section \<open>A new object\<close>

lemma alloc_drop:
  assumes "drop_arena P" "malloc_sound P" "kyte_bytes_alloc P h n site = (p, k)"
  shows "arena_start k = arena_start h \<and> arena_current k = arena_current h
    \<and> (if p = 0 then mem k = mem h \<and> blocks k = blocks h else blocks k = (blocks h)(p - 8 \<mapsto> nat (max 0 n) + 8))"
proof -
  have "os_malloc P g j = 0 \<or> 0 < os_malloc P g j" for g j
    using assms(2) by (auto simp: malloc_sound_def fresh_region_def)
  then show ?thesis using assms(1,3)
    by (fastforce simp: kyte_bytes_alloc_def Let_def malloc_block_def HDR_def max_def split: if_splits)
qed

lemma alloc_none:
  assumes "refines P h0 h \<sigma>" "kyte_bytes_alloc P h n site = (0, k)"
  shows "refines P h0 k \<sigma>"
proof -
  have same: "arena_start k = arena_start h" "arena_current k = arena_current h" "mem k = mem h" "blocks k = blocks h"
    using alloc_drop [OF _ _ assms(2)] assms(1) by (simp_all add: refines_def good_heap_def)
  then have "good_heap P k"
    using assms(1) heap_ok_cong [of k h] by (simp add: refines_def good_heap_def no_empty_blocks_def)
  then show ?thesis using assms(1) same by (intro refines_same [OF assms(1)]) (simp_all add: refines_def)
qed

text \<open>Written inside a fresh block, a string joins the store at an address that was not in it.\<close>

lemma refines_new:
  assumes r: "refines P h0 h \<sigma>" and fr: "fresh_object h p n h'" and n: "0 \<le> n"
    and b: "blocks h' = (blocks h)(p - 8 \<mapsto> nat n + 8)" "arena_start h' = 0" and obj: "object_at h' p 1 bs"
  shows "refines P h0 h' (\<sigma>(p \<mapsto> (1, bs))) \<and> \<sigma> p = None
    \<and> (\<forall>q k x. blocks h q = Some k \<longrightarrow> q < x \<longrightarrow> x \<le> q + int k \<longrightarrow> p \<noteq> x)"
proof -
  have keep: "blocks h' q = Some j \<and> apart (p - 8) (nat n + 8) q j \<and> rd (mem h') q j = rd (mem h) q j"
    if "blocks h q = Some j" for q j
    using fr that by (simp add: fresh_object_def)
  have ne: "0 < j" if "blocks h q = Some j" for q j
    using r that by (simp add: refines_def good_heap_def no_empty_blocks_def)
  have new: "blocks h (p - 8) = None"
    using keep [of "p - 8"] ne [of "p - 8"] n by (cases "blocks h (p - 8)") (auto simp: apart_def)
  have \<sigma>: "object_at h q c cs" "blocks h0 (q - 8) = None" if "\<sigma> q = Some (c, cs)" for q c cs
    using r that by (simp_all add: refines_def)
  have none: "\<sigma> p = None"
    using \<sigma>(1) [of p] new by (cases "\<sigma> p") (auto simp: object_at_def)
  have old: "object_at h' q c cs" if "\<sigma> q = Some (c, cs)" for q c cs
  proof -
    from \<sigma>(1) [OF that] obtain k where k: "blocks h (q - 8) = Some k" by (auto simp: object_at_def)
    show ?thesis using object_frame [OF \<sigma>(1) [OF that] k] keep [OF k] by simp
  qed
  have "good_heap P h'"
    using r fr b(1) by (simp add: refines_def good_heap_def fresh_object_def no_empty_blocks_def)
  moreover have "blocks h0 (p - 8) = None"
    using r new by (cases "blocks h0 (p - 8)") (auto simp: refines_def)
  moreover have "blocks h' q = Some k \<and> rd (mem h') q k = rd (mem h0) q k" if "blocks h0 q = Some k" for q k
    using r keep [of q k] that by (simp add: refines_def)
  moreover have "blocks h0 q \<noteq> None \<or> (\<sigma>(p \<mapsto> (1, bs))) (q + 8) \<noteq> None" if "blocks h' q \<noteq> None" for q
    using r that b(1) by (cases "q = p - 8") (auto simp: refines_def split: if_splits)
  ultimately have "refines P h0 h' (\<sigma>(p \<mapsto> (1, bs)))"
    using r b(2) obj old \<sigma>(2) by (auto simp: refines_def)
  moreover have "p \<noteq> x" if "blocks h q = Some k" "q < x" "x \<le> q + int k" for q k x
    using keep [OF that(1)] that(2,3) n by (auto simp: apart_def)
  ultimately show ?thesis using none by blast
qed

lemma refines_alloc:
  assumes r: "refines P h0 h \<sigma>" and al: "kyte_bytes_alloc P h n site = (p, k)" "p \<noteq> 0" and n: "0 \<le> n"
  shows "fresh_object h p n k \<and> blocks k = (blocks h)(p - 8 \<mapsto> nat n + 8) \<and> arena_start k = 0
    \<and> hdr_rc k p = 1 \<and> hdr_len k p = word_of_int n"
proof -
  have g: "heap_ok h" "no_empty_blocks h" "malloc_sound P" "mmap_sound P" "drop_arena P" "arena_start h = 0"
    using r by (simp_all add: refines_def good_heap_def)
  show ?thesis
    using kyte_bytes_alloc_fresh [OF g(1-4) al] alloc_drop [OF g(5,3) al(1)] al(2) n g(6) by (simp add: max_def)
qed

lemma src_ok_live: "refines P h0 h \<sigma> \<Longrightarrow> \<sigma> s = Some (c, bs) \<Longrightarrow> i + n \<le> length bs \<Longrightarrow> src_ok h (At (s + int i)) n"
  by (fastforce simp: refines_def object_at_def)

lemma live_string_store: "refines P h0 h \<sigma> \<Longrightarrow> \<sigma> s = Some (c, bs) \<Longrightarrow> live_string h s bs"
  using src_ok_live [of P h0 h \<sigma> s c bs 0 "length bs"] by (auto simp: live_string_def refines_def object_at_def)

text \<open>Every constructor of strings ends in \<^verbatim>\<open>kyte_from_bytes\<close>.\<close>

lemma refines_from_bytes:
  assumes r: "refines P h0 h \<sigma>" and src: "src_ok h src n" and n: "n < 2 ^ 31"
  obtains p k where "kyte_from_bytes P h src (int n) site = Ok (p, k)"
    and "if p = 0 then refines P h0 k \<sigma> else refines P h0 k (\<sigma>(p \<mapsto> (1, src_bytes (mem h) src n))) \<and> \<sigma> p = None
      \<and> (\<forall>q j x. blocks h q = Some j \<longrightarrow> q < x \<longrightarrow> x \<le> q + int j \<longrightarrow> p \<noteq> x)"
proof -
  obtain p k0 where al: "kyte_bytes_alloc P h (int n + 1) site = (p, k0)" by fastforce
  have len: "\<not> int n > 0x7fffffff" "\<not> int n < 0" using n by simp_all
  show thesis
  proof (cases "p = 0")
    case True
    then have "kyte_from_bytes P h src (int n) site = Ok (0, k0)"
      using al len unfolding kyte_from_bytes_def Let_def by simp
    with True al alloc_none [OF r] show thesis by (intro that) auto
  next
    case False
    obtain k where fb: "kyte_from_bytes P h src (int n) site = Ok (p, k)"
      using al len False unfolding kyte_from_bytes_def Let_def by simp
    have same: "blocks k = blocks k0" "arena_start k = arena_start k0"
      using fb al len False unfolding kyte_from_bytes_def Let_def by (auto simp: set_len_def)
    have "good_heap P h" using r by (simp add: refines_def)
    from from_bytes_string [OF this fb False] src
    have fr: "fresh_object h p (int n + 1) k" and str: "kyte_string k p (src_bytes (mem h) src n)"
      by (simp_all add: max_def)
    have b: "blocks k = (blocks h)(p - 8 \<mapsto> nat (int n + 1) + 8)" "arena_start k = 0"
      using refines_alloc [OF r al False] same by simp_all
    have "object_at k p 1 (src_bytes (mem h) src n)"
      using str b(1) n False length_src_bytes [OF src] by (auto simp: object_at_def kyte_string_def)
    from refines_new [OF r fr _ b this] show thesis using that [OF fb] False by simp
  qed
qed

section \<open>Counts\<close>

lemma refines_set_rc:
  assumes r: "refines P h0 h \<sigma>" and p: "\<sigma> p = Some (c, bs)" and c': "0 < c'" "c' < 2 ^ 31"
  shows "refines P h0 (set_rc h p (word_of_int c')) (\<sigma>(p \<mapsto> (c', bs)))"
proof -
  let ?k = "set_rc h p (word_of_int c')"
  have obj: "object_at h p c bs" using r p by (simp add: refines_def)
  then obtain n where n: "blocks h (p - 8) = Some n" "length bs + 8 \<le> n" by (auto simp: object_at_def)
  have out: "mem ?k x = mem h x" if "x < p - 8 \<or> p - 4 \<le> x" for x
    using that by (simp add: set_rc_def store32_def HDR_def) (auto simp: wr_outside)
  have apart: "rd (mem ?k) q j = rd (mem h) q j" if "blocks h q = Some j" "q \<noteq> p - 8" for q j
  proof -
    have "apart q j (p - 8) n" using r n(1) that by (simp add: refines_def good_heap_def heap_ok_def)
    then show ?thesis using n(2) by (intro nth_equalityI) (auto simp: apart_def intro!: out)
  qed
  have "rd (mem ?k) p (length bs) = rd (mem h) p (length bs)"
    by (rule nth_equalityI) (auto intro!: out)
  moreover have "hdr_len ?k p = hdr_len h p" by (simp add: hdr_len_def set_rc_def HDR_def mem_simps apart_def)
  ultimately have self: "object_at ?k p c' bs"
    using obj c' by (simp add: object_at_def sint32_of_int)
  have "heap_ok ?k" using r heap_ok_cong [of ?k h] by (simp add: refines_def good_heap_def set_rc_def)
  then have "good_heap P ?k" using r by (simp add: refines_def good_heap_def no_empty_blocks_def)
  moreover have "object_at ?k q d ds" if "\<sigma> q = Some (d, ds)" "q \<noteq> p" for q d ds
  proof -
    have q: "object_at h q d ds" using r that by (simp add: refines_def)
    then obtain j where j: "blocks h (q - 8) = Some j" by (auto simp: object_at_def)
    show ?thesis by (rule object_frame [OF q j]) (use apart [OF j] j that(2) in simp_all)
  qed
  moreover have "rd (mem ?k) q j = rd (mem h0) q j" if q: "blocks h0 q = Some j" for q j
  proof -
    have "blocks h q = Some j" "rd (mem h) q j = rd (mem h0) q j" using r q by (simp_all add: refines_def)
    moreover have "q \<noteq> p - 8" using r p q by (auto simp: refines_def)
    ultimately show ?thesis using apart by simp
  qed
  moreover have "arena_start ?k = 0" using r by (simp add: refines_def set_rc_def)
  ultimately show ?thesis
    using r self p by (auto simp: refines_def)
qed

lemma refines_retain:
  assumes r: "refines P h0 h \<sigma>" and p: "\<sigma> p = Some (c, bs)" and c: "c + 1 < 2 ^ 31"
  shows "refines P h0 (kyte_retain mt h p) (\<sigma>(p \<mapsto> (c + 1, bs)))"
proof -
  have obj: "object_at h p c bs" "arena_start h = 0" using r p by (simp_all add: refines_def)
  then have rc: "word_of_int c = hdr_rc h p" and pos: "p \<noteq> 0" "0 < c" "sint (hdr_rc h p) = c"
    by (auto simp: object_at_def)
  have "kyte_retain mt h p = set_rc h p (hdr_rc h p + 1)"
    using pos obj(2) by (auto simp: kyte_retain_def is_in_arena_def)
  also have "\<dots> = set_rc h p (word_of_int (c + 1))" by (simp add: rc [symmetric])
  finally show ?thesis using refines_set_rc [OF r p, of "c + 1"] pos c by simp
qed

text \<open>The ledger of the audit may change; the storage does not depend on it.\<close>

lemma refines_aud:
  assumes "refines P h0 h \<sigma>"
  shows "refines P h0 (h\<lparr>aud := a\<rparr>) \<sigma>"
proof (rule refines_same [OF assms])
  have "heap_ok (h\<lparr>aud := a\<rparr>) = heap_ok h" by (rule heap_ok_cong) simp_all
  then show "good_heap P (h\<lparr>aud := a\<rparr>)" using assms by (simp add: refines_def good_heap_def no_empty_blocks_def)
qed (use assms in \<open>simp_all add: refines_def\<close>)

lemma check_release_aud: "check_release_of_dead P h p = h\<lparr>aud := aud (check_release_of_dead P h p)\<rparr>"
  by (simp add: check_release_of_dead_def)

lemma refines_free:
  assumes r: "refines P h0 h \<sigma>" and p: "\<sigma> p = Some (c, bs)"
  shows "refines P h0 (free_block h (p - 8)) (\<sigma>(p := None))"
proof -
  let ?k = "free_block h (p - 8)"
  have "heap_ok ?k" using r by (simp add: refines_def good_heap_def heap_ok_free)
  then have "good_heap P ?k" using r by (auto simp: refines_def good_heap_def no_empty_blocks_def free_block_def)
  moreover have "object_at ?k q d ds" if "\<sigma> q = Some (d, ds)" "q \<noteq> p" for q d ds
  proof -
    have q: "object_at h q d ds" using r that by (simp add: refines_def)
    then show ?thesis using that(2) by (simp add: object_at_def free_block_def hdr_rc_def hdr_len_def)
  qed
  moreover have "q \<noteq> p - 8" if "blocks h0 q = Some j" for q j using r p that by (auto simp: refines_def)
  ultimately show ?thesis using r by (auto simp: refines_def free_block_def)
qed

lemma refines_release:
  assumes r: "refines P h0 h \<sigma>" and p: "\<sigma> p = Some (c, bs)"
  shows "refines P h0 (kyte_release mt P None h p) (if c = 1 then \<sigma>(p := None) else \<sigma>(p \<mapsto> (c - 1, bs)))"
proof -
  define g where "g = check_release_of_dead P h p"
  have rg: "refines P h0 g \<sigma>" unfolding g_def by (subst check_release_aud) (rule refines_aud [OF r])
  then have obj: "object_at g p c bs" "arena_start h = 0" using p r by (simp_all add: refines_def)
  then have rc: "word_of_int c = hdr_rc g p" and pos: "p \<noteq> 0" "0 < c" "c < 2 ^ 31" "sint (hdr_rc g p) = c"
    by (auto simp: object_at_def)
  have one: "hdr_rc g p = 1 \<longleftrightarrow> c = 1" using rc pos sint32_of_int [of 1] by auto
  have dec: "hdr_rc g p - 1 = word_of_int (c - 1)" by (simp add: rc [symmetric])
  have step: "kyte_release mt P None h p =
      (if c = 1 then free_block (heap_audit_free P (set_rc g p (- 999)) (p - HDR) (audit_size_of (set_rc g p (- 999)) (p - HDR))) (p - HDR)
       else set_rc g p (word_of_int (c - 1)))"
    using pos obj(2) one dec
    by (auto simp: kyte_release_cases is_in_arena_def g_def [symmetric] Let_def destructed_def)
  show ?thesis
  proof (cases "c = 1")
    case False
    then show ?thesis using step refines_set_rc [OF rg p, of "c - 1"] pos by simp
  next
    case True
    define d where "d = free_block (heap_audit_free P (set_rc g p (- 999)) (p - HDR) (audit_size_of (set_rc g p (- 999)) (p - HDR))) (p - HDR)"
    have k: "mem d = store32 (mem g) (p - 8) (- 999)" "blocks d = (blocks g)(p - 8 := None)" "arena_start d = arena_start g"
      by (simp_all add: d_def HDR_def free_block_def set_rc_def mem_simps)
    obtain n where n: "blocks g (p - 8) = Some n" "length bs + 8 \<le> n" using obj(1) by (auto simp: object_at_def)
    have "refines P h0 d (\<sigma>(p := None))"
    proof (rule refines_same [OF refines_free [OF rg p]])
      show "blocks d = blocks (free_block g (p - 8))" by (simp add: k free_block_def)
      show "arena_start d = 0" using rg by (simp add: k refines_def)
      have "heap_ok (free_block g (p - 8))" using rg by (simp add: refines_def good_heap_def heap_ok_free)
      then have "heap_ok d" using rg by (simp add: heap_ok_def k free_block_def refines_def)
      then show "good_heap P d" using rg by (auto simp: refines_def good_heap_def no_empty_blocks_def k)
      fix q j
      assume "blocks (free_block g (p - 8)) q = Some j"
      then have q: "q \<noteq> p - 8" "blocks g q = Some j" by (auto simp: free_block_def split: if_splits)
      then have "apart q j (p - 8) n" using rg n(1) by (simp add: refines_def good_heap_def heap_ok_def)
      then have "apart q j (p - 8) 4" using n(2) by (auto simp: apart_def)
      then show "rd (mem d) q j = rd (mem (free_block g (p - 8))) q j"
        by (simp add: k free_block_def c32.rd_put)
    qed
    then show ?thesis using True step by (simp add: d_def)
  qed
qed

section \<open>Escaping, filtering, lending to C\<close>

text \<open>The copy of a fresh object's content: the store with the new string at \<open>p\<close>, unless memory ran out.\<close>

lemma refines_boxed:
  assumes r: "refines P h0 h \<sigma>" and al: "kyte_bytes_alloc P h (int (length bs)) site = (box, k)" "box \<noteq> 0"
    and n: "length bs < 2 ^ 31" "bs \<noteq> []"
  shows "refines P h0 (k\<lparr>mem := wr (mem k) box bs\<rparr>) (\<sigma>(box \<mapsto> (1, bs))) \<and> \<sigma> box = None
    \<and> (\<forall>q j x. blocks h q = Some j \<longrightarrow> q < x \<longrightarrow> x \<le> q + int j \<longrightarrow> box \<noteq> x)"
proof -
  let ?k = "k\<lparr>mem := wr (mem k) box bs\<rparr>"
  have a: "fresh_object h box (int (length bs)) k" "blocks k = (blocks h)(box - 8 \<mapsto> nat (int (length bs)) + 8)" "arena_start k = 0"
    "hdr_rc k box = 1" "hdr_len k box = word_of_int (int (length bs))"
    using refines_alloc [OF r al] by simp_all
  have fr: "fresh_object h box (int (length bs)) ?k"
    by (rule fresh_object_write [OF a(1)]) (auto simp: wr_outside)
  have "hdr_rc ?k box = 1" "hdr_len ?k box = word_of_int (int (length bs))" "rd (mem ?k) box (length bs) = bs"
    using a(4,5) by (simp_all add: hdr_rc_def hdr_len_def c32.get_wr apart_def mem_simps)
  then have "object_at ?k box 1 bs" using al(2) n a(2) by (simp add: object_at_def)
  from refines_new [OF r fr _ _ _ this] a show ?thesis by simp
qed

lemma object_apart: "refines P h0 h \<sigma> \<Longrightarrow> \<sigma> s = Some (c, bs) \<Longrightarrow> \<exists>j. blocks h (s - 8) = Some j \<and> s < s - 8 + int j"
  by (fastforce simp: refines_def object_at_def)

lemma refines_escape:
  assumes r: "refines P h0 h \<sigma>" and s: "\<sigma> s = Some (c, bs)" and n: "length (escape bs) < 2 ^ 31" "scan_fits bs"
  obtains p k where "kyte_html_escape P h s site = Ok (p, k)"
    and "p = s \<and> refines P h0 k \<sigma> \<or> p \<noteq> s \<and> p \<noteq> 0 \<and> \<sigma> p = None \<and> (\<exists>b \<in> set bs. is_meta b) \<and> refines P h0 k (\<sigma>(p \<mapsto> (1, escape bs)))"
proof (cases "\<exists>b \<in> set bs. is_meta b")
  case False
  then show thesis using html_escape_plain [OF live_string_store [OF r s] _ n(2)] r that by blast
next
  case True
  obtain box k where al: "kyte_bytes_alloc P h (int (length (escape bs))) site = (box, k)" by fastforce
  have "good_heap P h" using r by (simp add: refines_def)
  note alloc = html_escape_alloc [OF this live_string_store [OF r s] True n(2) al]
  show thesis
  proof (cases "box = 0")
    case z: True
    then show thesis using alloc alloc_none [OF r] al that by simp
  next
    case False
    have "escape bs \<noteq> []" using True by (cases bs) (auto simp: escape_def esc_byte_def)
    note new = refines_boxed [OF r al False n(1) this]
    have "box \<noteq> s" using new s by auto
    then show thesis using that [of box "k\<lparr>mem := wr (mem k) box (escape bs)\<rparr>"] alloc False new True by simp
  qed
qed

lemma refines_sanitize:
  assumes r: "refines P h0 h \<sigma>" and s: "\<sigma> s = Some (c, bs)"
  obtains p k where "kyte_url_sanitize P h s site = (p, k)"
    and "p = s \<and> refines P h0 k \<sigma> \<or> p \<noteq> s \<and> p \<noteq> 0 \<and> \<sigma> p = None \<and> script_url bs \<and> refines P h0 k (\<sigma>(p \<mapsto> (1, [35])))"
proof -
  obtain box k where al: "kyte_bytes_alloc P h 1 site = (box, k)" by fastforce
  note alloc = url_sanitize_alloc [OF live_string_store [OF r s] al]
  show thesis
  proof (cases "dangerous_url bs \<and> box \<noteq> 0")
    case False
    then show thesis using alloc alloc_none [OF r] al r that by (cases "dangerous_url bs") simp_all
  next
    case True
    have al1: "kyte_bytes_alloc P h (int (length [35 :: u8])) site = (box, k)" using al by simp
    have "length [35 :: u8] < 2 ^ 31" by simp
    note new = refines_boxed [OF r al1 conjunct2 [OF True] this, simplified]
    have "box \<noteq> s" using new s by auto
    then show thesis using that [of box "k\<lparr>mem := wr (mem k) box [35]\<rparr>"] alloc True new dangerous_iff [of bs] by simp
  qed
qed

text \<open>What C reads at an address: the bytes before the first zero.\<close>

definition c_text :: "memory \<Rightarrow> addr \<Rightarrow> bytes option" where
  "c_text m a = map_option (rd m a) (strlen m a)"

lemma c_text_eq:
  assumes "rd m a (length bs) = bs" "m (a + int (length bs)) = 0"
  shows "c_text m a = Some (takeWhile (\<lambda>b. b \<noteq> 0) bs)"
proof -
  let ?n = "length (takeWhile (\<lambda>b. b \<noteq> 0) bs)"
  have at: "m (a + int i) = bs ! i" if "i < length bs" for i using nth_rd [OF that, of m a] assms(1) by simp
  have le: "?n \<le> length bs" by (rule length_takeWhile_le)
  have "strlen m a = Some ?n"
    unfolding strlen_def
  proof (rule strlen_from_eq)
    fix j
    assume j: "j < ?n"
    have "bs ! j \<noteq> 0" using set_takeWhileD [OF nth_mem [OF j]] takeWhile_nth [OF j] by simp
    then show "m (a + int j) \<noteq> 0" using at j le by simp
  next
    show "m (a + int ?n) = 0"
    proof (cases "?n = length bs")
      case True
      then show ?thesis using assms(2) by simp
    next
      case False
      then have "?n < length bs" using le by simp
      then show ?thesis using at [of ?n] nth_length_takeWhile [of "\<lambda>b. b \<noteq> 0" bs] by simp
    qed
  qed simp
  moreover have "rd m a ?n = takeWhile (\<lambda>b. b \<noteq> 0) bs"
    by (rule nth_equalityI) (use le at in \<open>simp_all add: takeWhile_nth\<close>)
  ultimately show ?thesis by (simp add: c_text_def)
qed

lemma refines_lend:
  assumes r: "refines P h0 h \<sigma>" and s: "\<sigma> s = Some (c, bs)" and cs: "kyte_to_cstr P h s = (a, k)"
  shows "refines P h0 (kyte_free_cstr k s a) \<sigma> \<and> (a = 0 \<or> c_text (mem k) a = Some (takeWhile (\<lambda>b. b \<noteq> 0) bs))"
proof -
  have ls: "live_string h s bs" by (rule live_string_store [OF r s])
  then have s0: "s \<noteq> 0" "sint (hdr_len h s) = int (length bs)" "rd (mem h) s (length bs) = bs"
    using live_string_len [OF ls] by (simp_all add: live_string_def)
  show ?thesis
  proof (cases "a = 0")
    case True
    have "os_malloc P h (length bs + 1) = 0"
      using cs s0 True by (auto simp: kyte_to_cstr_def malloc_block_def Let_def split: if_splits)
    then have "k = h" using cs s0 by (simp add: kyte_to_cstr_def malloc_block_def Let_def)
    then show ?thesis using r True by (simp add: kyte_free_cstr_def)
  next
    case False
    obtain g where mb: "malloc_block P h (length bs + 1) = (a, g)"
      and k: "k = g\<lparr>mem := wr (wr (mem g) a bs) (a + int (length bs)) [0]\<rparr>"
      using cs False s0 by (auto simp: kyte_to_cstr_def Let_def malloc_block_def split: if_splits)
    have "malloc_sound P" using r by (simp add: refines_def good_heap_def)
    then have fr: "fresh_region h a (length bs + 1)" and g: "g = h\<lparr>blocks := (blocks h)(a \<mapsto> length bs + 1)\<rparr>"
      using malloc_block_fresh [OF _ mb False] by blast+
    have "rd (mem k) a (length bs) = bs" "mem k (a + int (length bs)) = 0"
      by (simp_all add: k mem_simps apart_def) (simp add: wr_def)
    then have ct: "c_text (mem k) a = Some (takeWhile (\<lambda>b. b \<noteq> 0) bs)" by (rule c_text_eq)
    have ne: "0 < j" "apart a (length bs + 1) q j" if "blocks h q = Some j" for q j
      using r fr that by (simp_all add: refines_def good_heap_def no_empty_blocks_def fresh_region_def)
    have new: "blocks h a = None" using ne [of a] by (cases "blocks h a") (auto simp: apart_def)
    obtain j where "blocks h (s - 8) = Some j" "s < s - 8 + int j" using object_apart [OF r s] by blast
    then have "a \<noteq> s" using ne [of "s - 8" j] by (auto simp: apart_def)
    then have free: "blocks (kyte_free_cstr k s a) = blocks h" "mem (kyte_free_cstr k s a) = mem k"
      "arena_start (kyte_free_cstr k s a) = arena_start h" "arena_current (kyte_free_cstr k s a) = arena_current h"
      using False new by (auto simp: kyte_free_cstr_def free_block_def k g fun_eq_iff)
    have keep: "rd (mem k) q j = rd (mem h) q j" if "blocks h q = Some j" for q j
    proof -
      have "apart q j a (length bs)" "apart q j (a + int (length bs)) (length [0 :: u8])"
        using ne(2) [OF that] by (auto simp: apart_def)
      then show ?thesis by (simp only: k g) (simp add: rd_wr_apart)
    qed
    have "heap_ok (kyte_free_cstr k s a)" using r heap_ok_cong free by (metis refines_def good_heap_def)
    then have "good_heap P (kyte_free_cstr k s a)"
      using r free(1) by (simp add: refines_def good_heap_def no_empty_blocks_def)
    then have "refines P h0 (kyte_free_cstr k s a) \<sigma>"
      using r free keep by (intro refines_same [OF r]) (simp_all add: refines_def)
    then show ?thesis using ct by simp
  qed
qed

section \<open>The commands of a program\<close>

text \<open>
  What compiled code does with strings: build one from bytes of its own, from a part of a live
  string or from an integer, escape or filter one, take and drop a count, lend one to C for the
  duration of a call, compare two.  \<open>lit\<close> is the address of the literal \<^verbatim>\<open>""\<close> of \<^verbatim>\<open>runtime_str.h\<close>.
\<close>

datatype command =
    Make bytes | Slice addr nat nat | Int_Text int | Escape addr | Sanitize addr
  | Retain addr | Release addr | Lend addr | Compare addr addr nat

datatype answer = Handle addr | Number int | C_Bytes "bytes option" | Done

fun exec :: "platform \<Rightarrow> bool \<Rightarrow> addr \<Rightarrow> addr \<Rightarrow> command \<Rightarrow> heap \<Rightarrow> (answer \<times> heap) outcome" where
  "exec P mt lit site (Make bs) h = bind_outcome (kyte_from_bytes P h (Buf bs) (int (length bs)) site) (\<lambda>(p, k). Ok (Handle p, k))"
| "exec P mt lit site (Slice s i n) h = bind_outcome (kyte_from_bytes P h (At (s + int i)) (int n) site) (\<lambda>(p, k). Ok (Handle p, k))"
| "exec P mt lit site (Int_Text v) h = bind_outcome (kyte_i64_to_string P h lit v site) (\<lambda>(p, k). Ok (Handle p, k))"
| "exec P mt lit site (Escape s) h = bind_outcome (kyte_html_escape P h s site) (\<lambda>(p, k). Ok (Handle p, k))"
| "exec P mt lit site (Sanitize s) h = (let (p, k) = kyte_url_sanitize P h s site in Ok (Handle p, k))"
| "exec P mt lit site (Retain s) h = Ok (Done, kyte_retain mt h s)"
| "exec P mt lit site (Release s) h = Ok (Done, kyte_release mt P None h s)"
| "exec P mt lit site (Lend s) h =
     (let (a, k) = kyte_to_cstr P h s in Ok (C_Bytes (if a = 0 then None else c_text (mem k) a), kyte_free_cstr k s a))"
| "exec P mt lit site (Compare s t n) h = Ok (Number (kyte_mem_cmp (mem h) s t (int n)), h)"

text \<open>The abstract side: what a program may ask, what it may be told, and the store after the answer.\<close>

definition content :: "store \<Rightarrow> addr \<Rightarrow> bytes" where
  "content \<sigma> s = (case \<sigma> s of None \<Rightarrow> [] | Some (c, bs) \<Rightarrow> bs)"

definition is_live :: "store \<Rightarrow> addr \<Rightarrow> bool" where
  "is_live \<sigma> s \<longleftrightarrow> \<sigma> s \<noteq> None"

fun allowed :: "store \<Rightarrow> command \<Rightarrow> bool" where
  "allowed \<sigma> (Make bs) = (length bs < 2 ^ 31)"
| "allowed \<sigma> (Slice s i n) = (is_live \<sigma> s \<and> i + n \<le> length (content \<sigma> s))"
| "allowed \<sigma> (Int_Text v) = (- (2 ^ 63) \<le> v \<and> v < 2 ^ 63)"
| "allowed \<sigma> (Escape s) = (is_live \<sigma> s \<and> length (escape (content \<sigma> s)) < 2 ^ 31 \<and> scan_fits (content \<sigma> s))"
| "allowed \<sigma> (Sanitize s) = is_live \<sigma> s"
| "allowed \<sigma> (Retain s) = (case \<sigma> s of None \<Rightarrow> False | Some (c, bs) \<Rightarrow> c + 1 < 2 ^ 31)"
| "allowed \<sigma> (Release s) = is_live \<sigma> s"
| "allowed \<sigma> (Lend s) = is_live \<sigma> s"
| "allowed \<sigma> (Compare s t n) = (is_live \<sigma> s \<and> is_live \<sigma> t \<and> n \<le> length (content \<sigma> s) \<and> n \<le> length (content \<sigma> t))"

text \<open>A handle is either \<open>q\<close>, the answer that makes nothing new, or the address of a string that was not live.\<close>

definition new_or :: "store \<Rightarrow> addr \<Rightarrow> answer \<Rightarrow> bool" where
  "new_or \<sigma> q r \<longleftrightarrow> (case r of Handle p \<Rightarrow> p = q \<or> p \<noteq> 0 \<and> \<sigma> p = None | _ \<Rightarrow> False)"

fun legal :: "addr \<Rightarrow> store \<Rightarrow> command \<Rightarrow> answer \<Rightarrow> bool" where
  "legal lit \<sigma> (Make bs) r = new_or \<sigma> 0 r"
| "legal lit \<sigma> (Slice s i n) r = new_or \<sigma> 0 r"
| "legal lit \<sigma> (Int_Text v) r = new_or \<sigma> lit r"
| "legal lit \<sigma> (Escape s) r = (new_or \<sigma> s r \<and> (r = Handle s \<or> (\<exists>b \<in> set (content \<sigma> s). is_meta b)))"
| "legal lit \<sigma> (Sanitize s) r = (new_or \<sigma> s r \<and> (r = Handle s \<or> script_url (content \<sigma> s)))"
| "legal lit \<sigma> (Retain s) r = (r = Done)"
| "legal lit \<sigma> (Release s) r = (r = Done)"
| "legal lit \<sigma> (Lend s) r = (r = C_Bytes None \<or> r = C_Bytes (Some (takeWhile (\<lambda>b. b \<noteq> 0) (content \<sigma> s))))"
| "legal lit \<sigma> (Compare s t n) r = (r = Number (memcmp (take n (content \<sigma> s)) (take n (content \<sigma> t))))"

definition joined :: "store \<Rightarrow> addr \<Rightarrow> answer \<Rightarrow> bytes \<Rightarrow> store" where
  "joined \<sigma> q r bs = (case r of Handle p \<Rightarrow> if p = q then \<sigma> else \<sigma>(p \<mapsto> (1, bs)) | _ \<Rightarrow> \<sigma>)"

fun advance :: "addr \<Rightarrow> store \<Rightarrow> command \<Rightarrow> answer \<Rightarrow> store" where
  "advance lit \<sigma> (Make bs) r = joined \<sigma> 0 r bs"
| "advance lit \<sigma> (Slice s i n) r = joined \<sigma> 0 r (take n (drop i (content \<sigma> s)))"
| "advance lit \<sigma> (Int_Text v) r = joined \<sigma> lit r (kyte_i64_fmt v)"
| "advance lit \<sigma> (Escape s) r = joined \<sigma> s r (escape (content \<sigma> s))"
| "advance lit \<sigma> (Sanitize s) r = joined \<sigma> s r [35]"
| "advance lit \<sigma> (Retain s) r = (case \<sigma> s of None \<Rightarrow> \<sigma> | Some (c, bs) \<Rightarrow> \<sigma>(s \<mapsto> (c + 1, bs)))"
| "advance lit \<sigma> (Release s) r =
     (case \<sigma> s of None \<Rightarrow> \<sigma> | Some (c, bs) \<Rightarrow> if c = 1 then \<sigma>(s := None) else \<sigma>(s \<mapsto> (c - 1, bs)))"
| "advance lit \<sigma> (Lend s) r = \<sigma>"
| "advance lit \<sigma> (Compare s t n) r = \<sigma>"

text \<open>A run: the answers given, and the heap or the stop it ended in.\<close>

fun run :: "platform \<Rightarrow> bool \<Rightarrow> addr \<Rightarrow> addr \<Rightarrow> command list \<Rightarrow> heap \<Rightarrow> answer list \<times> heap outcome" where
  "run P mt lit site [] h = ([], Ok h)"
| "run P mt lit site (c # cs) h =
     (case exec P mt lit site c h of
        Ok (r, k) \<Rightarrow> (let (rs, e) = run P mt lit site cs k in (r # rs, e))
      | Panic msg \<Rightarrow> ([], Panic msg)
      | Trap \<Rightarrow> ([], Trap))"

fun obeys :: "addr \<Rightarrow> store \<Rightarrow> command list \<Rightarrow> answer list \<Rightarrow> bool" where
  "obeys lit \<sigma> [] rs = True"
| "obeys lit \<sigma> (c # cs) [] = allowed \<sigma> c"
| "obeys lit \<sigma> (c # cs) (r # rs) = (allowed \<sigma> c \<and> obeys lit (advance lit \<sigma> c r) cs rs)"

fun conforms :: "addr \<Rightarrow> store \<Rightarrow> command list \<Rightarrow> answer list \<Rightarrow> bool" where
  "conforms lit \<sigma> [] rs = (rs = [])"
| "conforms lit \<sigma> (c # cs) [] = False"
| "conforms lit \<sigma> (c # cs) (r # rs) = (legal lit \<sigma> c r \<and> conforms lit (advance lit \<sigma> c r) cs rs)"

fun store_after :: "addr \<Rightarrow> store \<Rightarrow> command list \<Rightarrow> answer list \<Rightarrow> store" where
  "store_after lit \<sigma> (c # cs) (r # rs) = store_after lit (advance lit \<sigma> c r) cs rs"
| "store_after lit \<sigma> cs rs = \<sigma>"

definition static_at :: "heap \<Rightarrow> addr \<Rightarrow> bool" where
  "static_at h a \<longleftrightarrow> (\<exists>q j. blocks h q = Some j \<and> q < a \<and> a \<le> q + int j)"

section \<open>Refinement\<close>

definition steps_to :: "platform \<Rightarrow> heap \<Rightarrow> addr \<Rightarrow> store \<Rightarrow> command \<Rightarrow> (answer \<times> heap) outcome \<Rightarrow> bool" where
  "steps_to P h0 lit \<sigma> c e \<longleftrightarrow> (\<exists>r k. e = Ok (r, k) \<and> legal lit \<sigma> c r \<and> refines P h0 k (advance lit \<sigma> c r))"

lemma live_content: "is_live \<sigma> s \<Longrightarrow> \<exists>c. \<sigma> s = Some (c, content \<sigma> s)"
  by (auto simp: is_live_def content_def)

lemma step_make:
  assumes "refines P h0 h \<sigma>" "allowed \<sigma> (Make bs)"
  shows "steps_to P h0 lit \<sigma> (Make bs) (exec P mt lit site (Make bs) h)"
proof -
  have n: "length bs < 2 ^ 31" using assms(2) by simp
  have "src_ok h (Buf bs) (length bs)" by simp
  then show ?thesis
    by (rule refines_from_bytes [OF assms(1) _ n, of _ site]) (auto simp: steps_to_def new_or_def joined_def split: if_splits)
qed

lemma step_slice:
  assumes r: "refines P h0 h \<sigma>" and a: "allowed \<sigma> (Slice s i n)"
  shows "steps_to P h0 lit \<sigma> (Slice s i n) (exec P mt lit site (Slice s i n) h)"
proof -
  obtain c where c: "\<sigma> s = Some (c, content \<sigma> s)" using a live_content by auto
  have obj: "rd (mem h) s (length (content \<sigma> s)) = content \<sigma> s" "length (content \<sigma> s) < 2 ^ 31"
    using r c by (auto simp: refines_def object_at_def)
  have n: "i + n \<le> length (content \<sigma> s)" "n < 2 ^ 31" using a obj(2) by simp_all
  have bytes: "src_bytes (mem h) (At (s + int i)) n = take n (drop i (content \<sigma> s))"
  proof (rule nth_equalityI)
    fix j
    assume "j < length (src_bytes (mem h) (At (s + int i)) n)"
    then have "j < n" by simp
    moreover from this have "mem h (s + int (i + j)) = content \<sigma> s ! (i + j)"
      using nth_rd [of "i + j" "length (content \<sigma> s)" "mem h" s] obj(1) n(1) by simp
    ultimately show "src_bytes (mem h) (At (s + int i)) n ! j = take n (drop i (content \<sigma> s)) ! j"
      using n(1) by (simp add: add.assoc)
  qed (use n in simp)
  show ?thesis
    by (rule refines_from_bytes [OF r src_ok_live [OF r c n(1)] n(2), of site])
       (auto simp: steps_to_def new_or_def joined_def bytes simp del: src_bytes.simps split: if_splits)
qed

lemma step_int:
  assumes r: "refines P h0 h \<sigma>" and a: "allowed \<sigma> (Int_Text v)" and lit: "static_at h0 lit"
  shows "steps_to P h0 lit \<sigma> (Int_Text v) (exec P mt lit site (Int_Text v) h)"
proof -
  let ?t = "kyte_i64_fmt v"
  have "length ?t \<le> 20" using i64_text [of v] a by simp
  then have n: "length ?t < 2 ^ 31" by simp
  have "src_ok h (Buf ?t) (length ?t)" by simp
  then obtain p k where fb: "kyte_from_bytes P h (Buf ?t) (int (length ?t)) site = Ok (p, k)"
    and pk: "if p = 0 then refines P h0 k \<sigma> else refines P h0 k (\<sigma>(p \<mapsto> (1, src_bytes (mem h) (Buf ?t) (length ?t)))) \<and> \<sigma> p = None
      \<and> (\<forall>q j x. blocks h q = Some j \<longrightarrow> q < x \<longrightarrow> x \<le> q + int j \<longrightarrow> p \<noteq> x)"
    by (rule refines_from_bytes [OF r _ n])
  have "p \<noteq> lit" if "p \<noteq> 0"
    using lit pk that r by (fastforce simp: static_at_def refines_def)
  then show ?thesis
    using fb pk by (auto simp: steps_to_def kyte_i64_to_string_def kyte_string_from_def new_or_def joined_def split: if_splits)
qed

lemma step_html:
  assumes r: "refines P h0 h \<sigma>"
  shows "allowed \<sigma> (Escape s) \<Longrightarrow> steps_to P h0 lit \<sigma> (Escape s) (exec P mt lit site (Escape s) h)"
    and "allowed \<sigma> (Sanitize s) \<Longrightarrow> steps_to P h0 lit \<sigma> (Sanitize s) (exec P mt lit site (Sanitize s) h)"
proof -
  assume a: "allowed \<sigma> (Escape s)"
  then obtain c where c: "\<sigma> s = Some (c, content \<sigma> s)" using live_content by auto
  show "steps_to P h0 lit \<sigma> (Escape s) (exec P mt lit site (Escape s) h)"
    by (rule refines_escape [OF r c, of site]) (use a in \<open>auto simp: steps_to_def new_or_def joined_def\<close>)
next
  assume "allowed \<sigma> (Sanitize s)"
  then obtain c where c: "\<sigma> s = Some (c, content \<sigma> s)" using live_content by auto
  show "steps_to P h0 lit \<sigma> (Sanitize s) (exec P mt lit site (Sanitize s) h)"
    by (rule refines_sanitize [OF r c, of site]) (auto simp: steps_to_def new_or_def joined_def)
qed

lemma step_counts:
  assumes r: "refines P h0 h \<sigma>"
  shows "allowed \<sigma> (Retain s) \<Longrightarrow> steps_to P h0 lit \<sigma> (Retain s) (exec P mt lit site (Retain s) h)"
    and "allowed \<sigma> (Release s) \<Longrightarrow> steps_to P h0 lit \<sigma> (Release s) (exec P mt lit site (Release s) h)"
  using refines_retain [OF r] refines_release [OF r]
  by (fastforce simp: steps_to_def is_live_def split: option.splits)+

lemma step_reads:
  assumes r: "refines P h0 h \<sigma>"
  shows "allowed \<sigma> (Lend s) \<Longrightarrow> steps_to P h0 lit \<sigma> (Lend s) (exec P mt lit site (Lend s) h)"
    and "allowed \<sigma> (Compare s t n) \<Longrightarrow> steps_to P h0 lit \<sigma> (Compare s t n) (exec P mt lit site (Compare s t n) h)"
proof -
  assume "allowed \<sigma> (Lend s)"
  then obtain c where c: "\<sigma> s = Some (c, content \<sigma> s)" using live_content by auto
  obtain a k where "kyte_to_cstr P h s = (a, k)" by fastforce
  then show "steps_to P h0 lit \<sigma> (Lend s) (exec P mt lit site (Lend s) h)"
    using refines_lend [OF r c] by (auto simp: steps_to_def)
next
  assume a: "allowed \<sigma> (Compare s t n)"
  have obj: "x \<noteq> 0 \<and> rd (mem h) x n = take n (content \<sigma> x)" if "is_live \<sigma> x" "n \<le> length (content \<sigma> x)" for x
  proof -
    obtain c where "\<sigma> x = Some (c, content \<sigma> x)" using live_content [OF \<open>is_live \<sigma> x\<close>] by blast
    then have "x \<noteq> 0" and body: "rd (mem h) x (length (content \<sigma> x)) = content \<sigma> x"
      using r by (auto simp: refines_def object_at_def)
    have "rd (mem h) x n = take n (rd (mem h) x (length (content \<sigma> x)))"
      using that(2) by (intro nth_equalityI) simp_all
    then show ?thesis using \<open>x \<noteq> 0\<close> body by simp
  qed
  then have "kyte_mem_cmp (mem h) s t (int n) = memcmp (take n (content \<sigma> s)) (take n (content \<sigma> t))"
    using a obj [of s] obj [of t] by (cases "n = 0") (simp_all add: kyte_mem_cmp_def)
  then show "steps_to P h0 lit \<sigma> (Compare s t n) (exec P mt lit site (Compare s t n) h)"
    using r by (simp add: steps_to_def)
qed

lemma exec_refines:
  assumes "refines P h0 h \<sigma>" "allowed \<sigma> c" "static_at h0 lit"
  shows "steps_to P h0 lit \<sigma> c (exec P mt lit site c h)"
proof (cases c)
  case (Int_Text v)
  then show ?thesis using step_int [OF assms(1) _ assms(3)] assms(2) by simp
qed (use assms(1,2) in \<open>simp_all only: step_make step_slice step_html step_counts step_reads\<close>)

lemma run_refines:
  assumes "refines P h0 h \<sigma>" "static_at h0 lit" "obeys lit \<sigma> cs (fst (run P mt lit site cs h))"
  shows "\<exists>rs k. run P mt lit site cs h = (rs, Ok k) \<and> conforms lit \<sigma> cs rs \<and> refines P h0 k (store_after lit \<sigma> cs rs)"
  using assms(1,3)
proof (induction cs arbitrary: h \<sigma>)
  case (Cons c cs)
  have "allowed \<sigma> c" using Cons.prems(2) by (cases "fst (run P mt lit site (c # cs) h)") simp_all
  then obtain r k where s: "exec P mt lit site c h = Ok (r, k)" "legal lit \<sigma> c r" "refines P h0 k (advance lit \<sigma> c r)"
    using exec_refines [OF Cons.prems(1) _ assms(2)] unfolding steps_to_def by blast
  then have "obeys lit (advance lit \<sigma> c r) cs (fst (run P mt lit site cs k))"
    using Cons.prems(2) by (auto simp: Let_def split: prod.splits)
  from Cons.IH [OF s(3) this] s show ?case by auto
qed simp

text \<open>
  Property C1 (store_refined).  Strings behave as an abstract store.  Take any program that builds
  strings, cuts, formats, escapes, filters, shares, drops, lends and compares them, and touches only
  strings that are live (and escapes only what the scan of the escaper is defined on, see C4); run it from any good heap.  Then the runtime never stops it; every answer is
  one the store allows (a handle is new or the one that says nothing was made, texts and comparisons
  are those of the contents); at the end every string of the store is an object with exactly its
  bytes and its count; whatever else was in the heap is still there, unchanged; and once the program has dropped
  every string the heap has the blocks it began with: nothing leaks, nothing is freed twice.
\<close>

theorem store_refined:
  assumes "good_heap P h" "drop_arena P" "arena_start h = 0" "static_at h lit"
    and "obeys lit Map.empty cs (fst (run P mt lit site cs h))"
  shows "\<exists>rs k. run P mt lit site cs h = (rs, Ok k) \<and> conforms lit Map.empty cs rs
    \<and> (\<forall>p c bs. store_after lit Map.empty cs rs p = Some (c, bs) \<longrightarrow>
          p \<noteq> 0 \<and> sint (hdr_rc k p) = c \<and> 0 < c \<and> sint (hdr_len k p) = int (length bs) \<and> rd (mem k) p (length bs) = bs)
    \<and> (\<forall>q j. blocks h q = Some j \<longrightarrow> blocks k q = Some j \<and> rd (mem k) q j = rd (mem h) q j)
    \<and> (store_after lit Map.empty cs rs = Map.empty \<longrightarrow> blocks k = blocks h)"
proof -
  obtain rs k where run: "run P mt lit site cs h = (rs, Ok k)" "conforms lit Map.empty cs rs"
    and ref: "refines P h k (store_after lit Map.empty cs rs)"
    using run_refines [OF refines_start [OF assms(1-3)] assms(4,5)] by blast
  have "sint (hdr_len k p) = int (length bs)" if "store_after lit Map.empty cs rs p = Some (c, bs)" for p c bs
    using live_string_len [OF live_string_store [OF ref that]] .
  moreover have "p \<noteq> 0 \<and> sint (hdr_rc k p) = c \<and> 0 < c \<and> rd (mem k) p (length bs) = bs"
    if "store_after lit Map.empty cs rs p = Some (c, bs)" for p c bs
    using ref that by (simp add: refines_def object_at_def)
  moreover have "blocks k q = Some j \<and> rd (mem k) q j = rd (mem h) q j" if "blocks h q = Some j" for q j
    using ref that by (simp add: refines_def)
  moreover have "blocks k = blocks h" if "store_after lit Map.empty cs rs = Map.empty"
    using ref that refines_empty by simp
  ultimately show ?thesis using run by blast
qed

text \<open>One string is built, shared, lent to C, and dropped twice, beside a block of static data.\<close>

theorem store_refined_witness:
  "let h = heap0\<lparr>blocks := [64 \<mapsto> 16]\<rparr>;
       cs = [Make [72, 0, 60], Retain 4104, Lend 4104, Release 4104, Release 4104] in
   \<exists>rs k x. run str_platform True 72 0 cs h = (rs, Ok k) \<and> blocks k = [64 \<mapsto> 16]
     \<and> rs = [Handle 4104, Done, x, Done, Done] \<and> x \<in> {C_Bytes None, C_Bytes (Some [72])}"
proof -
  let ?h = "heap0\<lparr>blocks := [64 \<mapsto> 16]\<rparr>" and ?cs = "[Make [72, 0, 60], Retain 4104, Lend 4104, Release 4104, Release 4104]"
  have h: "arena_start ?h = 0" "blocks ?h = [64 \<mapsto> 16]" by (simp_all add: heap0_def)
  have good: "good_heap str_platform ?h"
    using h by (auto simp: good_heap_def str_platform_sound heap_ok_def no_empty_blocks_def)
  have "os_malloc str_platform k (nat 3 + 9) = 4096" if "blocks k = blocks ?h" "arena_start k = arena_start ?h" for k
    using that h by (simp add: str_platform_def fresh_region_def apart_def)
  then obtain k where "kyte_from_bytes str_platform ?h (Buf [72, 0, 60]) 3 0 = Ok (4104, k)"
    using from_bytes_block [of str_platform 3 ?h 4096 "Buf [72, 0, 60]" 0] by auto
  then have mk: "exec str_platform True 72 0 (Make [72, 0, 60]) ?h = Ok (Handle 4104, k)" by simp
  obtain a g where tc: "kyte_to_cstr str_platform (kyte_retain True k 4104) 4104 = (a, g)" by fastforce
  define x where "x = (if a = 0 then None else c_text (mem g) a)"
  have rs: "fst (run str_platform True 72 0 ?cs ?h) = [Handle 4104, Done, C_Bytes x, Done, Done]"
    by (simp add: mk tc x_def del: exec.simps(1))
  have st: "static_at ?h 72" unfolding static_at_def h(2) by (intro exI [of _ 64] exI [of _ 16]) simp
  have ob: "obeys 72 Map.empty ?cs (fst (run str_platform True 72 0 ?cs ?h))"
    unfolding rs by (simp add: joined_def is_live_def)
  obtain k where run: "run str_platform True 72 0 ?cs ?h = (fst (run str_platform True 72 0 ?cs ?h), Ok k)"
    and cf: "conforms 72 Map.empty ?cs (fst (run str_platform True 72 0 ?cs ?h))"
    and bl: "store_after 72 Map.empty ?cs (fst (run str_platform True 72 0 ?cs ?h)) = Map.empty \<longrightarrow> blocks k = blocks ?h"
    using store_refined [OF good str_platform_flags(1) h(1) st ob] by auto
  have "C_Bytes x \<in> {C_Bytes None, C_Bytes (Some [72])}"
    using cf unfolding rs by (simp add: joined_def content_def)
  moreover have "blocks k = [64 \<mapsto> 16]" using bl h(2) unfolding rs by (simp add: joined_def)
  ultimately show ?thesis using run unfolding rs Let_def by blast
qed

end
