(* ===== verification/Kyte_Decimal.thy ===== *)
theory Kyte_Decimal
  imports Kyte_Str_Props
begin

text \<open>
  The decimal type of \<^verbatim>\<open>src/runtime/decimal.cpp\<close>: 34 significant digits in the 128-bit layout
  of IEEE 754 decimal (sign bit, 14-bit biased exponent, 113-bit binary coefficient).  A coefficient
  is a natural number with the wrap-around of \<^verbatim>\<open>unsigned __int128\<close> written out (\<open>wrap128\<close>) where a
  product or a sum is formed; an exponent is an \<^verbatim>\<open>int\<close>.  A signed overflow of an exponent
  (undefined in C++), a store through a null pointer, a division by zero of the machine and a write
  past \<^verbatim>\<open>out[80]\<close> are \<open>Trap\<close>.
\<close>

record kdec =
  ksign :: bool
  kcoeff :: nat
  kexp :: int
  kspecial :: bool

definition KYTE_DEC128_BIAS :: int where "KYTE_DEC128_BIAS = 6176"
definition KYTE_DEC128_MAX_DIGITS :: nat where "KYTE_DEC128_MAX_DIGITS = 34"
definition KYTE_DEC128_MAX_BIASED :: int where "KYTE_DEC128_MAX_BIASED = 12287"

definition wrap128 :: "nat \<Rightarrow> nat" where
  "wrap128 n = n mod 2 ^ 128"

fun dec_num_digits :: "nat \<Rightarrow> nat" where
  "dec_num_digits v = (if v div 10 > 0 then Suc (dec_num_digits (v div 10)) else 1)"

declare dec_num_digits.simps [simp del]

fun pow10_loop :: "nat \<Rightarrow> nat \<Rightarrow> nat" where
  "pow10_loop 0 r = r"
| "pow10_loop (Suc k) r = pow10_loop k (wrap128 (r * 10))"

definition dec_pow10 :: "int \<Rightarrow> nat" where
  "dec_pow10 k = pow10_loop (nat k) 1"

definition dec_round_drop :: "nat \<Rightarrow> int \<Rightarrow> nat" where
  "dec_round_drop coeff k =
     (if k \<le> 0 then coeff
      else if k \<ge> 39 then 0
      else (let div10 = dec_pow10 k;
                q = coeff div div10;
                r = coeff mod div10;
                half = div10 div 2 in
            if r > half then q + 1
            else if r = half \<and> odd q then q + 1
            else q))"

section \<open>The 128-bit layout\<close>

definition kyte_dec128_pack :: "bool \<Rightarrow> nat \<Rightarrow> int \<Rightarrow> u128" where
  "kyte_dec128_pack sign coeff exp =
     (let biased = exp + KYTE_DEC128_BIAS;
          biased = (if biased < 0 then 0 else biased);
          biased = (if biased > KYTE_DEC128_MAX_BIASED then KYTE_DEC128_MAX_BIASED else biased) in
      (of_nat coeff AND (push_bit 113 1 - 1))
      OR push_bit 113 (word_of_int biased AND 0x3FFF)
      OR (if sign then push_bit 127 1 else 0))"

text \<open>What the 16 bytes denote: \<^verbatim>\<open>dec_decode\<close> after its \<^verbatim>\<open>memcpy\<close>.\<close>

definition dec_unpack :: "u128 \<Rightarrow> kdec" where
  "dec_unpack v =
     (let sign = (drop_bit 127 v \<noteq> 0) in
      if drop_bit 125 v AND 3 = 3 then \<lparr>ksign = sign, kcoeff = 0, kexp = 0, kspecial = True\<rparr>
      else \<lparr>ksign = sign, kcoeff = unat (v AND (push_bit 113 1 - 1)),
             kexp = uint (drop_bit 113 v AND 0x3FFF) - KYTE_DEC128_BIAS, kspecial = False\<rparr>)"

definition dec_decode :: "memory \<Rightarrow> addr \<Rightarrow> kdec" where
  "dec_decode m p = dec_unpack (le_word (rd m p 16))"

text \<open>The rounding \<^verbatim>\<open>dec_encode\<close> does before it packs.\<close>

definition dec_norm :: "kdec \<Rightarrow> kdec" where
  "dec_norm d =
     (let nd = dec_num_digits (kcoeff d);
          d = (if nd > KYTE_DEC128_MAX_DIGITS then
                 (let drp = int (nd - KYTE_DEC128_MAX_DIGITS);
                      d = d\<lparr>kcoeff := dec_round_drop (kcoeff d) drp, kexp := kexp d + drp\<rparr> in
                  if dec_num_digits (kcoeff d) > KYTE_DEC128_MAX_DIGITS
                  then d\<lparr>kcoeff := dec_round_drop (kcoeff d) 1, kexp := kexp d + 1\<rparr> else d)
               else d) in
      if kcoeff d = 0 then d\<lparr>ksign := False\<rparr> else d)"

definition dec_store :: "platform \<Rightarrow> heap \<Rightarrow> u128 \<Rightarrow> addr \<Rightarrow> (addr \<times> heap) outcome" where
  "dec_store P h v site =
     (let (ptr, h) = kyte_bytes_alloc P h 16 site in
      if ptr = 0 then Trap else Ok (ptr, h\<lparr>mem := wr (mem h) ptr (le_bytes 16 v)\<rparr>))"

definition dec_bits :: "kdec \<Rightarrow> u128" where
  "dec_bits d = (let d = dec_norm d in kyte_dec128_pack (ksign d) (kcoeff d) (kexp d))"

definition dec_encode :: "platform \<Rightarrow> heap \<Rightarrow> kdec \<Rightarrow> addr \<Rightarrow> (addr \<times> heap) outcome" where
  "dec_encode P h d site = dec_store P h (dec_bits d) site"

definition kdec_zero :: kdec where
  "kdec_zero = \<lparr>ksign = False, kcoeff = 0, kexp = 0, kspecial = False\<rparr>"

definition dec_zero :: "platform \<Rightarrow> heap \<Rightarrow> addr \<Rightarrow> (addr \<times> heap) outcome" where
  "dec_zero P h site = dec_store P h (kyte_dec128_pack False 0 0) site"

section \<open>Arithmetic on decoded values\<close>

function strip_loop :: "nat \<Rightarrow> int \<Rightarrow> int \<Rightarrow> nat \<times> int" where
  "strip_loop coeff exp pref =
     (if exp < pref \<and> coeff \<noteq> 0 \<and> coeff mod 10 = 0 then strip_loop (coeff div 10) (exp + 1) pref
      else (coeff, exp))"
  by pat_completeness auto
termination
  by (relation "measure (\<lambda>(coeff, exp, pref). coeff)") auto

declare strip_loop.simps [simp del]

definition dec_strip_to :: "kdec \<Rightarrow> int \<Rightarrow> kdec" where
  "dec_strip_to d pref = (let (c, e) = strip_loop (kcoeff d) (kexp d) pref in d\<lparr>kcoeff := c, kexp := e\<rparr>)"

definition align_exp :: "kdec \<Rightarrow> kdec \<Rightarrow> int" where
  "align_exp a b =
     (let E = (if kexp a < kexp b then kexp a else kexp b);
          amsd = kexp a + int (dec_num_digits (kcoeff a));
          bmsd = kexp b + int (dec_num_digits (kcoeff b));
          msd = (if amsd > bmsd then amsd else bmsd);
          minE = msd - 37 in
      if E < minE then minE else E)"

definition align_to :: "int \<Rightarrow> kdec \<Rightarrow> kdec" where
  "align_to E a =
     (if kexp a > E then a\<lparr>kcoeff := wrap128 (kcoeff a * dec_pow10 (kexp a - E)), kexp := E\<rparr>
      else if kexp a < E then a\<lparr>kcoeff := dec_round_drop (kcoeff a) (E - kexp a), kexp := E\<rparr>
      else a)"

definition dec_align :: "kdec \<Rightarrow> kdec \<Rightarrow> kdec \<times> kdec" where
  "dec_align a b = (let E = align_exp a b in (align_to E a, align_to E b))"

text \<open>The sum before it is encoded; None is the special-value exit to \<^verbatim>\<open>dec_zero\<close>.\<close>

definition add_value :: "kdec \<Rightarrow> kdec \<Rightarrow> kdec option" where
  "add_value a0 b0 =
     (if kspecial a0 \<or> kspecial b0 then None
      else (let (a, b) = dec_align a0 b0 in
            Some (if ksign a = ksign b
                  then \<lparr>ksign = ksign a, kcoeff = wrap128 (kcoeff a + kcoeff b), kexp = kexp a, kspecial = False\<rparr>
                  else if kcoeff a \<ge> kcoeff b
                  then \<lparr>ksign = ksign a, kcoeff = kcoeff a - kcoeff b, kexp = kexp a, kspecial = False\<rparr>
                  else \<lparr>ksign = ksign b, kcoeff = kcoeff b - kcoeff a, kexp = kexp a, kspecial = False\<rparr>)))"

definition dec_result :: "platform \<Rightarrow> heap \<Rightarrow> kdec option \<Rightarrow> addr \<Rightarrow> (addr \<times> heap) outcome" where
  "dec_result P h r site = (case r of None \<Rightarrow> dec_zero P h site | Some d \<Rightarrow> dec_encode P h d site)"

definition dec_add_signed :: "platform \<Rightarrow> heap \<Rightarrow> kdec \<Rightarrow> kdec \<Rightarrow> addr \<Rightarrow> (addr \<times> heap) outcome" where
  "dec_add_signed P h a b site = dec_result P h (add_value a b) site"

definition kyte_decimal_add :: "platform \<Rightarrow> heap \<Rightarrow> addr \<Rightarrow> addr \<Rightarrow> addr \<Rightarrow> (addr \<times> heap) outcome" where
  "kyte_decimal_add P h a b site = dec_add_signed P h (dec_decode (mem h) a) (dec_decode (mem h) b) site"

definition negate :: "kdec \<Rightarrow> kdec" where
  "negate d = d\<lparr>ksign := \<not> ksign d\<rparr>"

definition kyte_decimal_sub :: "platform \<Rightarrow> heap \<Rightarrow> addr \<Rightarrow> addr \<Rightarrow> addr \<Rightarrow> (addr \<times> heap) outcome" where
  "kyte_decimal_sub P h a b site = dec_add_signed P h (dec_decode (mem h) a) (negate (dec_decode (mem h) b)) site"

text \<open>The operand-shortening loop of the multiplication.\<close>

lemma dec_pow10_1: "dec_pow10 1 = 10"
  by (simp add: dec_pow10_def wrap128_def)

lemma dec_round_drop_1: "0 < c \<Longrightarrow> dec_round_drop c 1 < c"
proof -
  assume c: "0 < c"
  have "dec_round_drop c 1 = (if c mod 10 > 5 then c div 10 + 1 else if c mod 10 = 5 \<and> odd (c div 10) then c div 10 + 1 else c div 10)"
    by (simp add: dec_round_drop_def dec_pow10_1 Let_def)
  moreover have "c = 10 * (c div 10) + c mod 10" by simp
  ultimately show ?thesis using c by (auto split: if_splits)
qed

function mul_trim :: "nat \<Rightarrow> int \<Rightarrow> nat \<Rightarrow> int \<Rightarrow> nat \<times> int \<times> nat \<times> int" where
  "mul_trim xc xe yc ye =
     (if xc \<noteq> 0 \<and> yc \<noteq> 0 \<and> dec_num_digits xc + dec_num_digits yc > KYTE_DEC128_MAX_DIGITS then
        (if dec_num_digits xc \<ge> dec_num_digits yc
         then mul_trim (dec_round_drop xc 1) (xe + 1) yc ye
         else mul_trim xc xe (dec_round_drop yc 1) (ye + 1))
      else (xc, xe, yc, ye))"
  by pat_completeness auto
termination
  by (relation "measure (\<lambda>(xc, xe, yc, ye). xc + yc)") (auto simp: dec_round_drop_1)

declare mul_trim.simps [simp del]

definition mul_value :: "kdec \<Rightarrow> kdec \<Rightarrow> kdec option" where
  "mul_value x y =
     (if kspecial x \<or> kspecial y then None
      else (let (xc, xe, yc, ye) = mul_trim (kcoeff x) (kexp x) (kcoeff y) (kexp y) in
            Some \<lparr>ksign = (ksign x \<noteq> ksign y), kcoeff = wrap128 (xc * yc), kexp = xe + ye, kspecial = False\<rparr>))"

definition kyte_decimal_mul :: "platform \<Rightarrow> heap \<Rightarrow> addr \<Rightarrow> addr \<Rightarrow> addr \<Rightarrow> (addr \<times> heap) outcome" where
  "kyte_decimal_mul P h a b site = dec_result P h (mul_value (dec_decode (mem h) a) (dec_decode (mem h) b)) site"

definition div_value :: "kdec \<Rightarrow> kdec \<Rightarrow> kdec option outcome" where
  "div_value x y =
     (if kspecial x \<or> kspecial y then Ok None
      else if kcoeff y = 0 then Panic ''decimal divide by zero''
      else if kcoeff x = 0 then Ok None
      else (let P = int KYTE_DEC128_MAX_DIGITS + 1 - int (dec_num_digits (kcoeff x));
                maxP = 38 - int (dec_num_digits (kcoeff x));
                P = (if P < 0 then 0 else P);
                P = (if P > maxP then maxP else P);
                num = wrap128 (kcoeff x * dec_pow10 P);
                q = num div kcoeff y;
                rem = num mod kcoeff y;
                twice = wrap128 (rem * 2);
                q = (if twice > kcoeff y then q + 1 else if twice = kcoeff y \<and> odd q then q + 1 else q) in
            Ok (Some (dec_strip_to \<lparr>ksign = (ksign x \<noteq> ksign y), kcoeff = q, kexp = kexp x - kexp y - P, kspecial = False\<rparr>
                        (kexp x - kexp y)))))"

definition kyte_decimal_div :: "platform \<Rightarrow> heap \<Rightarrow> addr \<Rightarrow> addr \<Rightarrow> addr \<Rightarrow> (addr \<times> heap) outcome" where
  "kyte_decimal_div P h a b site =
     bind_outcome (div_value (dec_decode (mem h) a) (dec_decode (mem h) b)) (\<lambda>r. dec_result P h r site)"

definition mod_value :: "kdec \<Rightarrow> kdec \<Rightarrow> kdec option outcome" where
  "mod_value x0 y0 =
     (if kspecial x0 \<or> kspecial y0 then Ok None
      else if kcoeff y0 = 0 then Panic ''decimal modulo by zero''
      else (let (x, y) = dec_align x0 y0 in
            if kcoeff y = 0 then Trap
            else Ok (Some \<lparr>ksign = ksign x, kcoeff = kcoeff x mod kcoeff y, kexp = kexp x, kspecial = False\<rparr>)))"

definition kyte_decimal_mod :: "platform \<Rightarrow> heap \<Rightarrow> addr \<Rightarrow> addr \<Rightarrow> addr \<Rightarrow> (addr \<times> heap) outcome" where
  "kyte_decimal_mod P h a b site =
     bind_outcome (mod_value (dec_decode (mem h) a) (dec_decode (mem h) b)) (\<lambda>r. dec_result P h r site)"

section \<open>Integers and comparison\<close>

definition from_int_value :: "int \<Rightarrow> kdec" where
  "from_int_value n =
     (let mag = (if n < 0 then word_of_int (- (n + 1)) + 1 else word_of_int n :: u64) in
      \<lparr>ksign = (n < 0), kcoeff = unat mag, kexp = 0, kspecial = False\<rparr>)"

definition kyte_decimal_from_int :: "platform \<Rightarrow> heap \<Rightarrow> int \<Rightarrow> addr \<Rightarrow> (addr \<times> heap) outcome" where
  "kyte_decimal_from_int P h n site = dec_encode P h (from_int_value n) site"

definition imax :: nat where "imax = 9223372036854775807"
definition imin_mag :: nat where "imin_mag = 9223372036854775808"

text \<open>The scaling loop of \<^verbatim>\<open>kyte_decimal_to_int\<close>.\<close>

fun scale_up :: "nat \<Rightarrow> nat \<Rightarrow> nat outcome" where
  "scale_up 0 mag = Ok mag"
| "scale_up (Suc k) mag = (if mag > imin_mag then Panic ''decimal to int overflow'' else scale_up k (wrap128 (mag * 10)))"

definition to_int_value :: "kdec \<Rightarrow> int outcome" where
  "to_int_value d =
     (if kspecial d then Ok 0
      else bind_outcome
        (if kexp d > 0 then scale_up (nat (kexp d)) (kcoeff d)
         else if kexp d < 0 then
           (let k = - kexp d in Ok (if k \<ge> 39 then 0 else kcoeff d div dec_pow10 k))
         else Ok (kcoeff d))
        (\<lambda>mag.
          if ksign d then
            (if mag > imin_mag then Panic ''decimal to int overflow''
             else if mag = imin_mag then Ok (- 9223372036854775807 - 1)
             else Ok (- int mag))
          else if mag > imax then Panic ''decimal to int overflow''
          else Ok (int mag)))"

definition kyte_decimal_to_int :: "heap \<Rightarrow> addr \<Rightarrow> int outcome" where
  "kyte_decimal_to_int h ptr = to_int_value (dec_decode (mem h) ptr)"

definition cmp_value :: "kdec \<Rightarrow> kdec \<Rightarrow> int" where
  "cmp_value x0 y0 =
     (if kspecial x0 \<or> kspecial y0 then 0
      else (let xz = (kcoeff x0 = 0); yz = (kcoeff y0 = 0) in
        if xz \<and> yz then 0
        else (let xs = (if xz then 0 else if ksign x0 then - 1 else 1 :: int);
                  ys = (if yz then 0 else if ksign y0 then - 1 else 1) in
          if xs \<noteq> ys then (if xs < ys then - 1 else 1)
          else (let (x, y) = dec_align x0 y0;
                    mag = (if kcoeff x < kcoeff y then - 1 else if kcoeff x > kcoeff y then 1 else 0) in
                if xs < 0 then - mag else mag))))"

definition kyte_decimal_cmp :: "heap \<Rightarrow> addr \<Rightarrow> addr \<Rightarrow> int" where
  "kyte_decimal_cmp h a b = cmp_value (dec_decode (mem h) a) (dec_decode (mem h) b)"

end
