(* ===== verification/Kyte_Decimal_Text.thy ===== *)
theory Kyte_Decimal_Text
  imports Kyte_Decimal
begin

text \<open>
  Decimal literals and decimal text: \<^verbatim>\<open>dec_parse_bounded\<close> and
  \<^verbatim>\<open>kyte_decimal_to_string\<close> of \<^verbatim>\<open>src/runtime/decimal.cpp\<close>.  The parser's running state is a
  record; a byte the loop stops at is left in front of the rest.  The formatter builds its text in a
  stack buffer of 80 bytes; writing past it is \<open>Trap\<close>.
\<close>

record parse_state =
  p_coeff :: nat
  p_digits :: nat
  p_frac :: int
  p_dot :: bool
  p_round :: "nat option"
  p_sticky :: bool

definition parse_start :: parse_state where
  "parse_start = \<lparr>p_coeff = 0, p_digits = 0, p_frac = 0, p_dot = False, p_round = None, p_sticky = False\<rparr>"

definition take_digit :: "parse_state \<Rightarrow> nat \<Rightarrow> parse_state" where
  "take_digit st dv =
     (if p_digits st < KYTE_DEC128_MAX_DIGITS then
        st\<lparr>p_coeff := wrap128 (p_coeff st * 10 + dv), p_digits := Suc (p_digits st),
           p_frac := (if p_dot st then p_frac st + 1 else p_frac st)\<rparr>
      else
        (let st = (if \<not> p_dot st then st\<lparr>p_frac := p_frac st - 1\<rparr> else st) in
         case p_round st of
           None \<Rightarrow> st\<lparr>p_round := Some dv\<rparr>
         | Some r \<Rightarrow> (if dv \<noteq> 0 then st\<lparr>p_sticky := True\<rparr> else st)))"

fun parse_mant :: "parse_state \<Rightarrow> bytes \<Rightarrow> parse_state \<times> bytes" where
  "parse_mant st [] = (st, [])"
| "parse_mant st (c # cs) =
     (if c = 95 then parse_mant st cs
      else if c = 46 then (if p_dot st then (st, c # cs) else parse_mant (st\<lparr>p_dot := True\<rparr>) cs)
      else if c = 101 \<or> c = 69 then (st, c # cs)
      else if \<not> is_digit c then (st, c # cs)
      else parse_mant (take_digit st (digit_of c)) cs)"

definition parse_round :: "parse_state \<Rightarrow> nat \<times> int" where
  "parse_round st =
     (let coeff = p_coeff st; exp = - p_frac st in
      case p_round st of
        None \<Rightarrow> (coeff, exp)
      | Some r \<Rightarrow>
          (if r > 5 \<or> (r = 5 \<and> (p_sticky st \<or> odd coeff)) then
             (let coeff = wrap128 (coeff + 1) in
              if dec_num_digits coeff > KYTE_DEC128_MAX_DIGITS then (coeff div 10, exp + 1) else (coeff, exp))
           else (coeff, exp)))"

text \<open>The digits of the exponent; None when \<^verbatim>\<open>int ev\<close> overflows.\<close>

definition fits_int :: "int \<Rightarrow> bool" where
  "fits_int v \<longleftrightarrow> - (2 ^ 31) \<le> v \<and> v < 2 ^ 31"

fun parse_ev :: "int \<Rightarrow> bytes \<Rightarrow> int option" where
  "parse_ev ev [] = Some ev"
| "parse_ev ev (c # cs) =
     (if is_digit c then
        (let ev' = ev * 10 + int (digit_of c) in if fits_int ev' then parse_ev ev' cs else None)
      else Some ev)"

definition parse_exponent :: "int \<Rightarrow> bytes \<Rightarrow> int option" where
  "parse_exponent exp p =
     (case p of
        c # cs \<Rightarrow>
          (if c = 101 \<or> c = 69 then
             (let (esign, cs) = (case cs of
                  d # ds \<Rightarrow> if d = 43 then (1, ds) else if d = 45 then (- 1, ds) else (1, cs)
                | [] \<Rightarrow> (1, cs)) in
              case parse_ev 0 cs of
                None \<Rightarrow> None
              | Some ev \<Rightarrow> (if fits_int (exp + esign * ev) then Some (exp + esign * ev) else None))
           else Some exp)
      | [] \<Rightarrow> Some exp)"

definition dec_parse :: "bytes option \<Rightarrow> kdec outcome" where
  "dec_parse input =
     (case input of
        None \<Rightarrow> Ok kdec_zero
      | Some s \<Rightarrow>
          (let p = dropWhile (\<lambda>c. c = 32) s;
               (sign, p) = (case p of
                   c # cs \<Rightarrow> if c = 43 then (False, cs) else if c = 45 then (True, cs) else (False, p)
                 | [] \<Rightarrow> (False, p));
               (st, rest) = parse_mant parse_start p;
               (coeff, exp) = parse_round st in
           case parse_exponent exp rest of
             None \<Rightarrow> Trap
           | Some exp \<Rightarrow> Ok \<lparr>ksign = sign, kcoeff = coeff, kexp = exp, kspecial = False\<rparr>))"

definition dec_parse_bounded :: "platform \<Rightarrow> heap \<Rightarrow> addr \<Rightarrow> int \<Rightarrow> addr \<Rightarrow> (addr \<times> heap) outcome" where
  "dec_parse_bounded P h s len site =
     (let (ptr, h) = kyte_bytes_alloc P h 16 site in
      if ptr = 0 then Trap
      else bind_outcome (dec_parse (if s = 0 \<or> len \<le> 0 then None else Some (rd (mem h) s (nat len))))
        (\<lambda>d. Ok (ptr, h\<lparr>mem := wr (mem h) ptr (le_bytes 16 (kyte_dec128_pack (ksign d) (kcoeff d) (kexp d)))\<rparr>)))"

definition kyte_decimal_from_string :: "platform \<Rightarrow> heap \<Rightarrow> addr \<Rightarrow> addr \<Rightarrow> (addr \<times> heap) outcome" where
  "kyte_decimal_from_string P h s site =
     (if s = 0 then dec_parse_bounded P h 0 0 site
      else (case strlen (mem h) s of None \<Rightarrow> Trap | Some n \<Rightarrow> dec_parse_bounded P h s (int n) site))"

definition kyte_decimal_from_string_n :: "platform \<Rightarrow> heap \<Rightarrow> addr \<Rightarrow> int \<Rightarrow> addr \<Rightarrow> (addr \<times> heap) outcome" where
  "kyte_decimal_from_string_n P h s len site = dec_parse_bounded P h s len site"

section \<open>Text\<close>

fun dec_digs :: "nat \<Rightarrow> bytes" where
  "dec_digs coeff = (if coeff > 0 then (48 + of_nat (coeff mod 10)) # dec_digs (coeff div 10) else [])"

declare dec_digs.simps [simp del]

text \<open>The loop that emits the digits with a point after the first \<open>point\<close> of them.\<close>

fun emit_digits :: "int \<Rightarrow> int \<Rightarrow> bytes \<Rightarrow> bytes" where
  "emit_digits point emitted [] = []"
| "emit_digits point emitted (d # ds) =
     d # (if emitted + 1 = point \<and> ds \<noteq> [] then [46] else []) @ emit_digits point (emitted + 1) ds"

definition dec_text :: "kdec \<Rightarrow> bytes" where
  "dec_text d =
     (let digs = (if kcoeff d = 0 then [48] else dec_digs (kcoeff d));
          nd = int (length digs);
          exp = kexp d;
          point = nd + exp in
      (if ksign d \<and> \<not> (nd = 1 \<and> hd digs = 48) then [45] else [])
      @ (if exp \<ge> 0 then rev digs @ replicate (nat exp) 48
         else if point \<le> 0 then [48, 46] @ replicate (nat (- point)) 48 @ rev digs
         else emit_digits point 0 (rev digs)))"

definition kyte_decimal_to_string :: "platform \<Rightarrow> heap \<Rightarrow> addr \<Rightarrow> addr \<Rightarrow> (addr \<times> heap) outcome" where
  "kyte_decimal_to_string P h ptr site =
     (let d = dec_decode (mem h) ptr in
      if kspecial d then kyte_from_bytes P h (Buf [48]) 1 site
      else (let out = dec_text d in
            if length out \<ge> 80 then Trap
            else kyte_from_bytes P h (Buf out) (int (length out)) site))"

end
