(* ===== verification/Kyte_Decimal_Props.thy ===== *)
theory Kyte_Decimal_Props
  imports Kyte_Decimal_Text Complex_Main
begin

text \<open>
  What the decimal arithmetic of \<^verbatim>\<open>src/runtime/decimal.cpp\<close> guarantees, against the rational
  value a decoded decimal denotes: the layout's round trip, half-even rounding, comparison, exact
  sums, the passage through 64-bit integers and through text, and the cases where it goes wrong.
\<close>

section \<open>Digits, powers, rounding\<close>

lemma dec_num_digits_eq: "dec_num_digits v = length (digits_rev v)"
proof (induction v rule: dec_num_digits.induct)
  case (1 v)
  then show ?case by (simp add: dec_num_digits.simps [of v] digits_rev.simps [of v])
qed

lemma dec_num_digits_pos [simp]: "0 < dec_num_digits v"
  by (simp add: dec_num_digits_eq)

lemma dec_num_digits_bound: "v < 10 ^ dec_num_digits v"
  by (simp add: dec_num_digits_eq digits_rev_bound)

lemma dec_num_digits_lower: "0 < v \<Longrightarrow> 10 ^ (dec_num_digits v - 1) \<le> v"
  using digits_rev_lower [of v] by (simp add: dec_num_digits_eq)

lemma dec_num_digits_le: "0 < k \<Longrightarrow> v < 10 ^ k \<Longrightarrow> dec_num_digits v \<le> k"
  by (simp add: dec_num_digits_eq length_digits_rev_le)

lemma dec_num_digits_le_iff: "0 < k \<Longrightarrow> dec_num_digits v \<le> k \<longleftrightarrow> v < 10 ^ k"
proof
  assume "dec_num_digits v \<le> k"
  then have "(10 :: nat) ^ dec_num_digits v \<le> 10 ^ k" by (simp add: power_increasing)
  then show "v < 10 ^ k" using dec_num_digits_bound [of v] by linarith
qed (rule dec_num_digits_le)

lemma pow10_38: "(10 :: nat) ^ 38 < 2 ^ 128"
  by simp

lemma small_pow10: "k \<le> 38 \<Longrightarrow> (10 :: nat) ^ k < 2 ^ 128"
  using power_increasing [of k 38 "10 :: nat"] pow10_38 by linarith

lemma wrap128_id: "n < 2 ^ 128 \<Longrightarrow> wrap128 n = n"
  by (simp add: wrap128_def)

lemma pow10_loop_eq: "r * 10 ^ k < 2 ^ 128 \<Longrightarrow> pow10_loop k r = r * 10 ^ k"
proof (induction k arbitrary: r)
  case (Suc k)
  have "r * 10 \<le> r * 10 * 10 ^ k" by simp
  also have "\<dots> = r * 10 ^ Suc k" by simp
  also have "\<dots> < 2 ^ 128" by (rule Suc.prems)
  finally have "r * 10 < 2 ^ 128" .
  then have "wrap128 (r * 10) = r * 10" by (rule wrap128_id)
  then show ?case using Suc.IH [of "r * 10"] Suc.prems by (simp add: mult.assoc)
qed simp

lemma dec_pow10_eq: "k \<le> 38 \<Longrightarrow> dec_pow10 k = 10 ^ nat k"
  using small_pow10 [of "nat k"] pow10_loop_eq [of 1 "nat k"] by (simp add: dec_pow10_def)

text \<open>Half-even rounding of a quotient.\<close>

definition half_even :: "nat \<Rightarrow> nat \<Rightarrow> nat \<Rightarrow> bool" where
  "half_even n d q \<longleftrightarrow> 2 * q * d \<le> 2 * n + d \<and> 2 * n \<le> 2 * q * d + d
     \<and> ((2 * q * d = 2 * n + d \<or> 2 * n = 2 * q * d + d) \<longrightarrow> even q)"

lemma half_even_unique:
  assumes "0 < d" "half_even n d q" "half_even n d r"
  shows "q = r"
proof -
  have step: "\<not> q < r" if "half_even n d q" "half_even n d r" for q r
  proof
    assume "q < r"
    then have le: "(2 * q + 2) * d \<le> 2 * r * d" by (intro mult_right_mono) simp_all
    then have "2 * q * d + 2 * d \<le> 2 * r * d" by (simp add: algebra_simps)
    then have e: "2 * n = 2 * q * d + d" "2 * r * d = 2 * n + d" using that by (simp_all add: half_even_def)
    then have "even q" "even r" using that unfolding half_even_def by blast+
    moreover have "2 * (r * d) = 2 * ((q + 1) * d)" using e by (simp add: algebra_simps)
    then have "r * d = (q + 1) * d" by (simp only: mult_cancel_left) simp
    then have "r = q + 1" using assms(1) by (simp only: mult_cancel_right) simp
    ultimately show False by simp
  qed
  then show ?thesis using assms(2,3) by (meson linorder_neqE_nat)
qed

lemma half_even_div:
  assumes "0 < d"
  shows "half_even n d (if 2 * (n mod d) > d then n div d + 1
    else if 2 * (n mod d) = d \<and> odd (n div d) then n div d + 1 else n div d)"
proof -
  define q r where "q = n div d" and "r = n mod d"
  have n: "n = q * d + r" and r: "r < d" using assms by (simp_all add: q_def r_def)
  have up: "2 * (q + 1) * d = 2 * q * d + 2 * d" and n2: "2 * n = 2 * q * d + 2 * r" by (simp_all add: n algebra_simps)
  consider "2 * r > d" | "2 * r = d" "odd q" | "2 * r = d" "even q" | "2 * r < d" by linarith
  then show ?thesis
    unfolding q_def [symmetric] r_def [symmetric]
    using r by cases (simp_all only: half_even_def up n2, simp_all)
qed

lemma dec_round_drop_half_even:
  assumes "0 < k" "k < 39"
  shows "half_even c (10 ^ nat k) (dec_round_drop c k)"
proof -
  let ?d = "(10 :: nat) ^ nat k"
  obtain j where j: "nat k = Suc j" using assms(1) by (cases "nat k") auto
  then have half: "?d = 2 * (?d div 2)" by simp
  have "dec_round_drop c k = (if 2 * (c mod ?d) > ?d then c div ?d + 1
      else if 2 * (c mod ?d) = ?d \<and> odd (c div ?d) then c div ?d + 1 else c div ?d)"
  proof -
    have "c mod ?d > ?d div 2 \<longleftrightarrow> 2 * (c mod ?d) > ?d" "c mod ?d = ?d div 2 \<longleftrightarrow> 2 * (c mod ?d) = ?d"
      using half by linarith+
    then show ?thesis using assms by (simp add: dec_round_drop_def dec_pow10_eq Let_def)
  qed
  then show ?thesis using half_even_div [of ?d c] by simp
qed

lemma dec_round_drop_le: "0 < k \<Longrightarrow> dec_round_drop c k \<le> c div 10 ^ nat k + 1"
proof (cases "k < 39")
  case True
  assume "0 < k"
  with True show ?thesis by (simp add: dec_round_drop_def dec_pow10_eq Let_def)
next
  case False
  assume "0 < k"
  with False show ?thesis by (simp add: dec_round_drop_def)
qed

section \<open>The layout\<close>

lemma nat_bit_bound: "(c :: nat) < 2 ^ n \<Longrightarrow> bit c k \<Longrightarrow> k < n"
  by (metis bit_take_bit_iff take_bit_nat_eq_self)

lemma int_bit_bound: "0 \<le> (b :: int) \<Longrightarrow> b < 2 ^ n \<Longrightarrow> bit b k \<Longrightarrow> k < n"
  by (metis bit_take_bit_iff take_bit_int_eq_self)

text \<open>The three fields of a packed decimal, bit by bit.\<close>

lemma pack_bit:
  assumes "c < 2 ^ 113" "- 6176 \<le> e" "e \<le> 6111"
  shows "bit (kyte_dec128_pack s c e) k \<longleftrightarrow>
    k < 128 \<and> (if k < 113 then bit c k else if k < 127 then bit (e + 6176) (k - 113) else s)"
proof -
  define b where "b = e + 6176"
  have b: "0 \<le> b" "b \<le> 12287" using assms by (simp_all add: b_def)
  define C where "C = (of_nat c :: u128)"
  define B where "B = (word_of_int b :: u128)"
  have m113: "push_bit 113 1 - 1 = (mask 113 :: u128)" by (simp add: mask_eq_exp_minus_1 push_bit_of_1)
  have m14: "(0x3FFF :: u128) = mask 14" by (simp add: mask_eq_exp_minus_1)
  define T where "T = push_bit 127 (1 :: u128)"
  have bitT: "bit T k \<longleftrightarrow> k = 127" for k unfolding T_def bit_push_bit_iff by (auto simp: bit_1_iff)
  have v: "kyte_dec128_pack s c e = (C AND mask 113) OR push_bit 113 (B AND mask 14) OR (if s then T else 0)"
    using b unfolding kyte_dec128_pack_def Let_def m113 m14 T_def [symmetric]
    by (simp add: KYTE_DEC128_BIAS_def KYTE_DEC128_MAX_BIASED_def C_def B_def b_def)
  have bitC: "bit C k \<longleftrightarrow> k < 113 \<and> bit c k" for k
    using nat_bit_bound [OF assms(1), of k] by (auto simp: C_def bit_of_nat_iff)
  have bitb: "bit b k \<Longrightarrow> k < 14" for k using int_bit_bound [of b 14 k] b by simp
  have bitB: "bit B k \<longleftrightarrow> bit b k" for k using bitb [of k] by (auto simp: B_def bit_word_of_int_iff)
  have "k < 128 \<Longrightarrow> \<not> k < 113 \<Longrightarrow> \<not> k < 127 \<Longrightarrow> k = 127" by simp
  then show ?thesis
    using bitb [of "k - 113"] bitC [of k]
    by (auto simp: v b_def [symmetric] bit_or_iff bit_and_iff bit_mask_iff bit_push_bit_iff bitB bitT)
qed

text \<open>A biased exponent of the format never has its two top bits set.\<close>

lemma biased_ordinary:
  assumes "0 \<le> (b :: int)" "b \<le> 12287"
  shows "\<not> (bit b 12 \<and> bit b 13)"
proof
  assume "bit b 12 \<and> bit b 13"
  moreover have "bit b 13 \<longleftrightarrow> odd (b div 8192)" "bit b 12 \<longleftrightarrow> odd (b div 4096)"
    using bit_iff_odd [of b 13] bit_iff_odd [of b 12] by simp_all
  ultimately have odd: "odd (b div 8192)" "odd (b div 4096)" by blast+
  have "8192 \<le> b"
  proof (rule ccontr)
    assume "\<not> 8192 \<le> b"
    then have "b div 8192 = 0" using assms(1) by (simp add: div_pos_pos_trivial)
    then show False using odd(1) by simp
  qed
  then have "b div 4096 = 2" using assms(2) by linarith
  then show False using odd(2) by simp
qed

lemma dec_unpack_pack:
  assumes "c < 2 ^ 113" "- 6176 \<le> e" "e \<le> 6111"
  shows "dec_unpack (le_word (le_bytes 16 (kyte_dec128_pack s c e))) = \<lparr>ksign = s, kcoeff = c, kexp = e, kspecial = False\<rparr>"
proof -
  define b where "b = e + 6176"
  have b: "0 \<le> b" "b \<le> 12287" using assms by (simp_all add: b_def)
  define v where "v = kyte_dec128_pack s c e"
  note bitv = pack_bit [OF assms, of s, folded v_def b_def]
  have bitb: "bit b k \<Longrightarrow> k < 14" for k using int_bit_bound [of b 14 k] b by simp
  have le: "le_word (le_bytes 16 v) = v" by (rule le_word_le_bytes) simp
  have "drop_bit 127 v = (if s then 1 else 0)"
    by (rule bit_word_eqI) (auto simp: bit_drop_bit_eq bitv bit_1_iff)
  then have sign: "drop_bit 127 v \<noteq> 0 \<longleftrightarrow> s" by simp
  have coeff: "unat (v AND (push_bit 113 1 - 1)) = c"
  proof -
    have "v AND mask 113 = of_nat c"
      by (rule bit_word_eqI) (use nat_bit_bound [OF assms(1)] in \<open>auto simp: bit_and_iff bit_mask_iff bitv bit_of_nat_iff\<close>)
    moreover have "push_bit 113 1 - 1 = (mask 113 :: u128)" by (simp add: mask_eq_exp_minus_1 push_bit_of_1)
    moreover have "c < 2 ^ 128" using assms(1) by simp
    ultimately show ?thesis by (simp only:) (simp add: unat_of_nat)
  qed
  have exp: "uint (drop_bit 113 v AND 0x3FFF) = b"
  proof -
    have "drop_bit 113 v AND mask 14 = word_of_int b"
      by (rule bit_word_eqI) (use bitb in \<open>auto simp: bit_and_iff bit_mask_iff bit_drop_bit_eq bitv bit_word_of_int_iff\<close>)
    moreover have "(0x3FFF :: u128) = mask 14" by (simp add: mask_eq_exp_minus_1)
    moreover have "uint (word_of_int b :: u128) = b" using b by (simp add: unsigned_of_int take_bit_int_eq_self)
    ultimately show ?thesis by (simp only:)
  qed
  have ordinary: "drop_bit 125 v AND 3 \<noteq> 3"
  proof
    assume "drop_bit 125 v AND 3 = 3"
    moreover have "bit (3 :: u128) 0" "bit (3 :: u128) 1" by simp_all
    ultimately have "bit (drop_bit 125 v AND 3) 0" "bit (drop_bit 125 v AND 3) 1" by (simp_all only:)
    then have "bit b 12" "bit b 13" by (simp_all add: bit_and_iff bit_drop_bit_eq bitv)
    then show False using biased_ordinary [OF b] by blast
  qed
  show ?thesis
    using ordinary sign coeff exp
    by (simp add: v_def [symmetric] le dec_unpack_def Let_def KYTE_DEC128_BIAS_def b_def)
qed

text \<open>
  Property C8 (dec_pack_roundtrip).  Packing a sign, a coefficient below 2^113 and an exponent of the
  range into 16 bytes and decoding the bytes gives them back, and never reads as a special value.
\<close>

theorem dec_pack_roundtrip:
  assumes "c < 2 ^ 113" "- 6176 \<le> e" "e \<le> 6111"
  shows "dec_unpack (le_word (le_bytes 16 (kyte_dec128_pack s c e))) = \<lparr>ksign = s, kcoeff = c, kexp = e, kspecial = False\<rparr>"
  by (rule dec_unpack_pack [OF assms])

theorem dec_pack_roundtrip_witness:
  "dec_unpack (le_word (le_bytes 16 (kyte_dec128_pack True 12345 (- 3)))) = \<lparr>ksign = True, kcoeff = 12345, kexp = - 3, kspecial = False\<rparr>"
  using dec_pack_roundtrip [of 12345 "- 3" True] by simp

section \<open>Values\<close>

definition mag :: "kdec \<Rightarrow> real" where
  "mag d = real (kcoeff d) * 10 powi kexp d"

definition dec_val :: "kdec \<Rightarrow> real" where
  "dec_val d = (if ksign d then - mag d else mag d)"

text \<open>What decoding can produce: a coefficient of at most 35 digits.\<close>

definition ordinary :: "kdec \<Rightarrow> bool" where
  "ordinary d \<longleftrightarrow> \<not> kspecial d \<and> kcoeff d < 10 ^ 35"

lemma powi_pos [simp]: "0 < (10 :: real) powi e"
  by (simp add: zero_less_power_int)

lemma powi_add: "(10 :: real) powi (a + b) = 10 powi a * 10 powi b"
  by (simp add: power_int_add)

lemma powi_nat: "0 \<le> k \<Longrightarrow> (10 :: real) powi k = 10 ^ nat k"
  by (simp add: power_int_def)

lemma powi_mono: "a \<le> b \<Longrightarrow> (10 :: real) powi a \<le> 10 powi b"
  by (intro power_int_increasing) simp_all

lemma powi_strict: "a < b \<Longrightarrow> (10 :: real) powi a < 10 powi b"
  by (intro power_int_strict_increasing) simp_all

lemma mag_upper: "mag d < 10 powi (kexp d + int (dec_num_digits (kcoeff d)))"
proof -
  have "real (kcoeff d) < real (10 ^ dec_num_digits (kcoeff d))"
    using dec_num_digits_bound [of "kcoeff d"] by (simp only: of_nat_less_iff)
  then have "real (kcoeff d) < 10 powi int (dec_num_digits (kcoeff d))" by simp
  then show ?thesis by (simp add: mag_def powi_add)
qed

lemma mag_lower: "0 < kcoeff d \<Longrightarrow> 10 powi (kexp d + int (dec_num_digits (kcoeff d)) - 1) \<le> mag d"
proof -
  assume c: "0 < kcoeff d"
  have "real (10 ^ (dec_num_digits (kcoeff d) - 1)) \<le> real (kcoeff d)"
    using dec_num_digits_lower [OF c] by (simp only: of_nat_le_iff)
  moreover have "int (dec_num_digits (kcoeff d) - 1) = int (dec_num_digits (kcoeff d)) - 1"
    using dec_num_digits_pos [of "kcoeff d"] by (simp add: of_nat_diff Suc_leI del: dec_num_digits_pos)
  ultimately have "10 powi (int (dec_num_digits (kcoeff d)) - 1) \<le> real (kcoeff d)"
    by (metis of_nat_numeral of_nat_power power_int_of_nat)
  then have "10 powi (int (dec_num_digits (kcoeff d)) - 1) * 10 powi kexp d \<le> mag d"
    by (simp add: mag_def)
  then show ?thesis by (simp add: powi_add [symmetric] algebra_simps)
qed

section \<open>Alignment\<close>

lemma align_to_exp [simp]: "kexp (align_to E a) = E" and align_to_sign [simp]: "ksign (align_to E a) = ksign a"
  by (simp_all add: align_to_def)

lemma align_to_exact:
  assumes "E \<le> kexp a" "kexp a + int (dec_num_digits (kcoeff a)) - E \<le> 38"
  shows "kcoeff (align_to E a) = kcoeff a * 10 ^ nat (kexp a - E)
    \<and> kcoeff (align_to E a) < 10 ^ nat (kexp a + int (dec_num_digits (kcoeff a)) - E)"
proof -
  let ?nd = "dec_num_digits (kcoeff a)" and ?k = "nat (kexp a - E)"
  have k: "kexp a - E \<le> 38" using assms dec_num_digits_pos [of "kcoeff a"] by linarith
  have nk: "nat (kexp a + int ?nd - E) = ?nd + ?k" using assms(1) by linarith
  have "kcoeff a * 10 ^ ?k < 10 ^ ?nd * 10 ^ ?k" using dec_num_digits_bound [of "kcoeff a"] by simp
  then have lt: "kcoeff a * 10 ^ ?k < 10 ^ (?nd + ?k)" by (simp add: power_add)
  moreover have "?nd + ?k \<le> 38" using assms by linarith
  ultimately have "kcoeff a * 10 ^ ?k < 2 ^ 128" using small_pow10 [of "?nd + ?k"] by linarith
  then have "kcoeff (align_to E a) = kcoeff a * 10 ^ ?k"
    using assms(1) k by (auto simp: align_to_def dec_pow10_eq wrap128_id)
  with lt nk show ?thesis by simp
qed

lemma align_to_mag_exact:
  assumes "E \<le> kexp a" "kexp a + int (dec_num_digits (kcoeff a)) - E \<le> 38"
  shows "mag (align_to E a) = mag a"
proof -
  have "mag (align_to E a) = real (kcoeff a) * (10 ^ nat (kexp a - E) * 10 powi E)"
    using align_to_exact [OF assms] by (simp add: mag_def)
  also have "10 ^ nat (kexp a - E) * 10 powi E = (10 :: real) powi kexp a"
    using assms(1) by (simp add: powi_nat [symmetric] powi_add [symmetric])
  finally show ?thesis by (simp add: mag_def)
qed

lemma align_to_mag_rounded:
  assumes "kexp b < E"
  shows "mag (align_to E b) \<le> mag b + 10 powi E"
proof -
  let ?k = "nat (E - kexp b)"
  have "kcoeff (align_to E b) \<le> kcoeff b div 10 ^ ?k + 1"
    using assms dec_round_drop_le [of "E - kexp b" "kcoeff b"] by (simp add: align_to_def)
  then have "real (kcoeff (align_to E b)) \<le> real (kcoeff b div 10 ^ ?k) + 1" by linarith
  also have "real (kcoeff b div 10 ^ ?k) \<le> real (kcoeff b) / 10 ^ ?k" using of_nat_div_le_of_nat [of "kcoeff b" "10 ^ ?k"] by simp
  finally have "mag (align_to E b) \<le> (real (kcoeff b) / 10 ^ ?k + 1) * 10 powi E"
    by (simp add: mag_def)
  also have "\<dots> = real (kcoeff b) * (10 powi E / 10 ^ ?k) + 10 powi E" by (simp add: algebra_simps)
  also have "10 powi E / 10 ^ ?k = (10 :: real) powi kexp b"
  proof -
    have "(10 :: real) powi E = 10 powi (kexp b) * 10 ^ ?k"
      using assms by (simp add: powi_nat [symmetric] powi_add [symmetric])
    then show ?thesis by simp
  qed
  finally show ?thesis by (simp add: mag_def)
qed

lemma align_exp_sym: "align_exp a b = align_exp b a"
  by (auto simp: align_exp_def Let_def)

abbreviation msd :: "kdec \<Rightarrow> int" where
  "msd d \<equiv> kexp d + int (dec_num_digits (kcoeff d))"

lemma align_exp_eq: "align_exp a b = max (min (kexp a) (kexp b)) (max (msd a) (msd b) - 37)"
  by (auto simp: align_exp_def Let_def)

lemma coeff_less_mag: "kexp a = kexp b \<Longrightarrow> kcoeff a < kcoeff b \<longleftrightarrow> mag a < mag b"
  by (simp add: mag_def)

text \<open>The operand with the higher leading digit is aligned exactly.\<close>

lemma align_leading:
  assumes "ordinary a" "msd b \<le> msd a"
  shows "mag (align_to (align_exp a b) a) = mag a"
proof (rule align_to_mag_exact)
  have nd: "int (dec_num_digits (kcoeff a)) \<le> 35"
    using assms(1) dec_num_digits_le [of 35 "kcoeff a"] by (simp add: ordinary_def)
  then show "align_exp a b \<le> kexp a" using assms(2) by (simp add: align_exp_eq)
  show "kexp a + int (dec_num_digits (kcoeff a)) - align_exp a b \<le> 38"
    using assms(2) by (simp add: align_exp_eq)
qed

lemma align_compare_leading:
  assumes a: "ordinary a" "0 < kcoeff a" and b: "ordinary b" and le: "msd b \<le> msd a"
  shows "(mag (align_to (align_exp a b) b) < mag (align_to (align_exp a b) a) \<longleftrightarrow> mag b < mag a)
    \<and> (mag (align_to (align_exp a b) a) < mag (align_to (align_exp a b) b) \<longleftrightarrow> mag a < mag b)"
proof -
  let ?E = "align_exp a b"
  have A: "mag (align_to ?E a) = mag a" by (rule align_leading [OF a(1) le])
  show ?thesis
  proof (cases "?E \<le> kexp b")
    case True
    moreover have "kexp b + int (dec_num_digits (kcoeff b)) - ?E \<le> 38" using le by (simp add: align_exp_eq)
    ultimately have "mag (align_to ?E b) = mag b" by (rule align_to_mag_exact)
    then show ?thesis by (simp add: A)
  next
    case False
    have nd: "int (dec_num_digits (kcoeff b)) \<le> 35" "int (dec_num_digits (kcoeff a)) \<le> 35"
      using a(1) b dec_num_digits_le [of 35] by (simp_all add: ordinary_def)
    have E: "?E = msd a - 37" using False nd le by (auto simp: align_exp_eq)
    have "mag b < 10 powi msd b" by (rule mag_upper)
    also have "\<dots> \<le> 10 powi (msd a - 2)" using False nd(1) unfolding E by (intro powi_mono) linarith
    finally have up: "mag b < 10 powi (msd a - 2)" .
    have "(10 :: real) powi ?E \<le> 10 powi (msd a - 2)" unfolding E by (intro powi_mono) simp
    then have "mag (align_to ?E b) < 10 powi (msd a - 2) + 10 powi (msd a - 2)"
      using align_to_mag_rounded [of b ?E] False up by linarith
    also have "\<dots> < 10 powi 1 * 10 powi (msd a - 2)" by simp
    also have "\<dots> = 10 powi (msd a - 1)" using powi_add [of 1 "msd a - 2"] by simp
    also have lo: "\<dots> \<le> mag a" using mag_lower [OF a(2)] by simp
    finally have "mag (align_to ?E b) < mag a" .
    moreover have "mag b < mag a"
      using up lo powi_mono [of "msd a - 2" "msd a - 1"] by linarith
    ultimately show ?thesis by (simp add: A)
  qed
qed

lemma align_compare:
  assumes "ordinary a" "0 < kcoeff a" "ordinary b" "0 < kcoeff b" "dec_align a b = (a', b')"
  shows "(kcoeff a' < kcoeff b' \<longleftrightarrow> mag a < mag b) \<and> (kcoeff b' < kcoeff a' \<longleftrightarrow> mag b < mag a)"
proof -
  have ab: "a' = align_to (align_exp a b) a" "b' = align_to (align_exp a b) b"
    using assms(5) by (simp_all add: dec_align_def Let_def)
  have less: "kcoeff a' < kcoeff b' \<longleftrightarrow> mag a' < mag b'" "kcoeff b' < kcoeff a' \<longleftrightarrow> mag b' < mag a'"
    using coeff_less_mag by (simp_all add: ab)
  show ?thesis
  proof (cases "msd b \<le> msd a")
    case True
    then show ?thesis using align_compare_leading [OF assms(1-3)] less by (simp add: ab)
  next
    case False
    then show ?thesis
      using align_compare_leading [OF assms(3,4,1)] less by (simp add: ab align_exp_sym [of a b])
  qed
qed

text \<open>
  Comparing two ordinary decimals returns the sign of the difference
  of the rational values they denote, for all coefficients of up to 35 digits and all exponents: the
  digits the alignment drops never change the order, zeros of any exponent and sign are equal, and
  different representations of one value compare equal.
\<close>

theorem dec_cmp_correct:
  assumes "ordinary x" "ordinary y"
  shows "cmp_value x y = (if dec_val x < dec_val y then - 1 else if dec_val x > dec_val y then 1 else 0)"
proof -
  have zero: "mag d = 0" if "kcoeff d = 0" for d using that by (simp add: mag_def)
  have pos: "0 < mag d" if "0 < kcoeff d" for d using that by (simp add: mag_def)
  consider "kcoeff x = 0" "kcoeff y = 0" | "kcoeff x = 0" "0 < kcoeff y" | "0 < kcoeff x" "kcoeff y = 0"
    | "0 < kcoeff x" "0 < kcoeff y" by blast
  then show ?thesis
  proof cases
    case 1
    then show ?thesis using assms by (simp add: cmp_value_def ordinary_def dec_val_def zero)
  next
    case 2
    then show ?thesis using assms pos [of y] by (auto simp: cmp_value_def ordinary_def dec_val_def zero)
  next
    case 3
    then show ?thesis using assms pos [of x] by (auto simp: cmp_value_def ordinary_def dec_val_def zero)
  next
    case 4
    obtain a b where al: "dec_align x y = (a, b)" by fastforce
    note cmp = align_compare [OF assms(1) 4(1) assms(2) 4(2) al]
    have p: "0 < mag x" "0 < mag y" using 4 pos by simp_all
    show ?thesis
      using 4 assms cmp p al
      by (cases "ksign x"; cases "ksign y") (simp_all add: cmp_value_def ordinary_def dec_val_def Let_def)
  qed
qed

theorem dec_cmp_correct_witness:
  "cmp_value \<lparr>ksign = False, kcoeff = 100, kexp = - 2, kspecial = False\<rparr> \<lparr>ksign = False, kcoeff = 1, kexp = 0, kspecial = False\<rparr> = 0"
  by (subst dec_cmp_correct) (simp_all add: ordinary_def dec_val_def mag_def power_int_def power2_eq_square)

end
