(* ===== verification/Kyte_Decimal_Arith.thy ===== *)
theory Kyte_Decimal_Arith
  imports Kyte_Decimal_Props
begin

text \<open>
  The four operations of the decimal type against real arithmetic: how far a sum, a product or a
  quotient can be from the exact one, when it is exact, what the final rounding to 34 digits does,
  and closed instances where the result is wrong.
\<close>

section \<open>Rounding as a distance\<close>

lemma half_even_real:
  assumes "half_even n d q" "0 < d"
  shows "\<bar>real q - real n / real d\<bar> \<le> 1 / 2"
proof -
  have "2 * real q * real d \<le> 2 * real n + real d" "2 * real n \<le> 2 * real q * real d + real d"
    using assms(1) unfolding half_even_def by (metis of_nat_add of_nat_le_iff of_nat_mult of_nat_numeral)+
  then have "real q * real d - real n \<le> real d / 2" "real n - real q * real d \<le> real d / 2" by linarith+
  then have "\<bar>real q * real d - real n\<bar> \<le> real d / 2" by linarith
  moreover have "real q - real n / real d = (real q * real d - real n) / real d"
    using assms(2) by (simp add: field_simps)
  ultimately show ?thesis using assms(2) by (simp add: field_simps)
qed

lemma powi_shift: "e < E \<Longrightarrow> (10 :: real) powi e * 10 ^ nat (E - e) = 10 powi E"
  by (simp add: powi_nat [symmetric] powi_add [symmetric])

lemma align_to_error:
  assumes "kcoeff b < 10 ^ 35"
  shows "kexp b < E \<Longrightarrow> \<bar>mag (align_to E b) - mag b\<bar> \<le> 10 powi E / 2"
proof -
  assume lt: "kexp b < E"
  let ?k = "nat (E - kexp b)"
  have mb: "mag b = real (kcoeff b) / 10 ^ ?k * 10 powi E"
    using powi_shift [OF lt] by (simp add: mag_def flip: powi_shift [OF lt])
  have ma: "mag (align_to E b) = real (dec_round_drop (kcoeff b) (E - kexp b)) * 10 powi E"
    using lt by (simp add: mag_def align_to_def)
  have "\<bar>real (dec_round_drop (kcoeff b) (E - kexp b)) - real (kcoeff b) / 10 ^ ?k\<bar> \<le> 1 / 2"
  proof (cases "E - kexp b < 39")
    case True
    then show ?thesis
      using half_even_real [OF dec_round_drop_half_even [of "E - kexp b" "kcoeff b"]] lt by simp
  next
    case False
    then have "(10 :: real) ^ 39 \<le> 10 ^ ?k" by (intro power_increasing) simp_all
    moreover have "real (kcoeff b) < real (10 ^ 35)" using assms by (simp only: of_nat_less_iff)
    then have "real (kcoeff b) < 10 ^ 35" by simp
    moreover have "(2 :: real) * 10 ^ 35 \<le> 10 ^ 39" by simp
    ultimately have "2 * real (kcoeff b) \<le> 10 ^ ?k" by linarith
    then have "real (kcoeff b) / 10 ^ ?k \<le> 1 / 2" by (simp add: field_simps)
    moreover have "dec_round_drop (kcoeff b) (E - kexp b) = 0" using False by (simp add: dec_round_drop_def)
    ultimately show ?thesis by simp
  qed
  then have "\<bar>(real (dec_round_drop (kcoeff b) (E - kexp b)) - real (kcoeff b) / 10 ^ ?k) * 10 powi E\<bar> \<le> 1 / 2 * 10 powi E"
    by (simp add: abs_mult)
  then show ?thesis by (simp add: ma mb left_diff_distrib)
qed

lemma aligned_small:
  assumes "ordinary a" "msd a - 37 \<le> E"
  shows "kcoeff (align_to E a) < 10 ^ 38"
proof (cases "E \<le> kexp a")
  case True
  have small: "nat (msd a - E) \<le> 38" using assms(2) by simp
  have "msd a - E \<le> 38" using assms(2) by simp
  with align_to_exact [OF True] have "kcoeff (align_to E a) < 10 ^ nat (msd a - E)" by simp
  also have "\<dots> \<le> 10 ^ 38" using small by (rule power_increasing) simp
  finally show ?thesis .
next
  case False
  then have "kcoeff (align_to E a) \<le> kcoeff a div 10 ^ nat (E - kexp a) + 1"
    using dec_round_drop_le [of "E - kexp a" "kcoeff a"] by (simp add: align_to_def)
  also have "\<dots> \<le> kcoeff a + 1" by simp
  also have "\<dots> < 10 ^ 38" using assms(1) by (simp add: ordinary_def)
  finally show ?thesis .
qed

section \<open>Sums\<close>

lemma add_value_aligned:
  assumes "ordinary a" "ordinary b"
  shows "\<exists>r. add_value a b = Some r \<and> \<not> kspecial r \<and> kexp r = align_exp a b
    \<and> kcoeff r < 2 * 10 ^ 38
    \<and> dec_val r = dec_val (align_to (align_exp a b) a) + dec_val (align_to (align_exp a b) b)"
proof -
  let ?E = "align_exp a b"
  have small: "kcoeff (align_to ?E a) < 10 ^ 38" "kcoeff (align_to ?E b) < 10 ^ 38"
    by (rule aligned_small [OF assms(1)], simp add: align_exp_eq)
       (rule aligned_small [OF assms(2)], simp add: align_exp_eq)
  then have "kcoeff (align_to ?E a) + kcoeff (align_to ?E b) < 2 ^ 128" by simp
  then have w: "wrap128 (kcoeff (align_to ?E a) + kcoeff (align_to ?E b)) = kcoeff (align_to ?E a) + kcoeff (align_to ?E b)"
    by (rule wrap128_id)
  have ord: "\<not> kspecial a" "\<not> kspecial b" using assms by (simp_all add: ordinary_def)
  define x y where "x = align_to ?E a" and "y = align_to ?E b"
  have ab: "dec_align a b = (x, y)" by (simp add: dec_align_def Let_def x_def y_def)
  have e: "kexp x = ?E" "kexp y = ?E" by (simp_all add: x_def y_def)
  note sw = small [folded x_def y_def] w [folded x_def y_def]
  let ?r = "\<lambda>s c. \<lparr>ksign = s, kcoeff = c, kexp = ?E, kspecial = False\<rparr>"
  consider "ksign x = ksign y" | "ksign x \<noteq> ksign y" "kcoeff y \<le> kcoeff x" | "ksign x \<noteq> ksign y" "kcoeff x < kcoeff y"
    by linarith
  then show ?thesis
  proof cases
    case 1
    then have "add_value a b = Some (?r (ksign x) (kcoeff x + kcoeff y))"
      using sw(3) by (simp add: add_value_def ord ab e)
    moreover have "dec_val (?r (ksign x) (kcoeff x + kcoeff y)) = dec_val x + dec_val y"
      using 1 by (simp add: dec_val_def mag_def e algebra_simps)
    ultimately show ?thesis using sw(1,2) unfolding x_def [symmetric] y_def [symmetric] by (intro exI [of _ "?r (ksign x) (kcoeff x + kcoeff y)"]) simp
  next
    case 2
    then have "add_value a b = Some (?r (ksign x) (kcoeff x - kcoeff y))"
      by (simp add: add_value_def ord ab e)
    moreover have "dec_val (?r (ksign x) (kcoeff x - kcoeff y)) = dec_val x + dec_val y"
      using 2 by (cases "ksign x") (simp_all add: dec_val_def mag_def e of_nat_diff algebra_simps)
    ultimately show ?thesis using sw(1,2) unfolding x_def [symmetric] y_def [symmetric] by (intro exI [of _ "?r (ksign x) (kcoeff x - kcoeff y)"]) simp
  next
    case 3
    then have "add_value a b = Some (?r (ksign y) (kcoeff y - kcoeff x))"
      by (simp add: add_value_def ord ab e)
    moreover have "dec_val (?r (ksign y) (kcoeff y - kcoeff x)) = dec_val x + dec_val y"
      using 3 by (cases "ksign x") (simp_all add: dec_val_def mag_def e of_nat_diff algebra_simps)
    ultimately show ?thesis using sw(1,2) unfolding x_def [symmetric] y_def [symmetric] by (intro exI [of _ "?r (ksign y) (kcoeff y - kcoeff x)"]) simp
  qed
qed

lemma dec_val_align_error:
  assumes "ordinary b"
  shows "kexp b < E \<Longrightarrow> \<bar>dec_val (align_to E b) - dec_val b\<bar> \<le> 10 powi E / 2"
  using align_to_error [of b E] assms by (auto simp: dec_val_def ordinary_def abs_minus_commute)

lemma dec_val_align_exact:
  "E \<le> kexp a \<Longrightarrow> msd a - E \<le> 38 \<Longrightarrow> dec_val (align_to E a) = dec_val a"
  using align_to_mag_exact [of E a] by (simp add: dec_val_def)

lemma dec_bits_zero: "kcoeff d = 0 \<Longrightarrow> dec_bits d = kyte_dec128_pack False 0 (kexp d)"
proof -
  assume z: "kcoeff d = 0"
  have "dec_num_digits 0 = 1" by (simp add: dec_num_digits_eq digits_rev.simps)
  then show ?thesis by (simp add: dec_bits_def dec_norm_def z KYTE_DEC128_MAX_DIGITS_def)
qed

lemma add_value_comm:
  assumes "add_value a b = Some r"
  shows "map_option dec_bits (add_value b a) = Some (dec_bits r)"
proof -
  define x y where "x = align_to (align_exp a b) a" and "y = align_to (align_exp a b) b"
  have sp: "\<not> kspecial a" "\<not> kspecial b" using assms by (auto simp: add_value_def split: if_splits)
  have ab: "dec_align a b = (x, y)" "dec_align b a = (y, x)"
    by (simp_all add: dec_align_def Let_def x_def y_def align_exp_sym [of b a])
  have e: "kexp x = kexp y" by (simp add: x_def y_def)
  show ?thesis
  proof (cases "ksign x = ksign y \<or> kcoeff x \<noteq> kcoeff y")
    case True
    then have "add_value b a = add_value a b"
      using sp by (auto simp: add_value_def ab e add.commute)
    then show ?thesis using assms by simp
  next
    case False
    then have "add_value b a = Some \<lparr>ksign = ksign y, kcoeff = 0, kexp = kexp x, kspecial = False\<rparr>"
      "r = \<lparr>ksign = ksign x, kcoeff = 0, kexp = kexp x, kspecial = False\<rparr>"
      using assms sp by (auto simp: add_value_def ab e)
    then show ?thesis by (simp add: dec_bits_zero)
  qed
qed

text \<open>
  Property C9 (dec_add_error).  The sum the alignment computes is exact whenever no operand has digits
  below the 37th place under the higher leading digit, and otherwise at most half a unit of that place
  away from the exact sum when the operand with the higher leading digit is the one kept; addition is
  commutative bit for bit; subtracting a number from itself gives zero.
\<close>

theorem dec_add_error:
  assumes "ordinary a" "ordinary b"
  shows "\<exists>r. add_value a b = Some r
    \<and> (max (msd a) (msd b) - 37 \<le> min (kexp a) (kexp b) \<longrightarrow> dec_val r = dec_val a + dec_val b)
    \<and> \<bar>dec_val r - (dec_val a + dec_val b)\<bar> \<le> 10 powi (max (msd a) (msd b) - 37) / 2
    \<and> map_option dec_bits (add_value b a) = Some (dec_bits r)
    \<and> (\<exists>z. add_value a (negate a) = Some z \<and> kcoeff z = 0)"
proof -
  let ?E = "align_exp a b"
  obtain r where r: "add_value a b = Some r"
    and val: "dec_val r = dec_val (align_to ?E a) + dec_val (align_to ?E b)"
    using add_value_aligned [OF assms] by blast
  have top: "msd a - ?E \<le> 38" "msd b - ?E \<le> 38" by (simp_all add: align_exp_eq)
  have nd: "int (dec_num_digits (kcoeff a)) \<le> 35" "int (dec_num_digits (kcoeff b)) \<le> 35"
    using assms dec_num_digits_le [of 35] by (simp_all add: ordinary_def)
  have exact: "dec_val r = dec_val a + dec_val b" if "?E \<le> kexp a" "?E \<le> kexp b"
    using that top by (simp add: val dec_val_align_exact)
  have first: "dec_val r = dec_val a + dec_val b" if "max (msd a) (msd b) - 37 \<le> min (kexp a) (kexp b)"
    using that by (intro exact) (simp_all add: align_exp_eq)
  have err: "\<bar>dec_val r - (dec_val a + dec_val b)\<bar> \<le> 10 powi (max (msd a) (msd b) - 37) / 2"
  proof (cases "?E \<le> kexp a \<and> ?E \<le> kexp b")
    case True
    then show ?thesis using exact by simp
  next
    case False
    then have E: "?E = max (msd a) (msd b) - 37" by (auto simp: align_exp_eq)
    have "?E \<le> kexp a \<or> ?E \<le> kexp b" using nd unfolding E by linarith
    then show ?thesis
    proof
      assume a: "?E \<le> kexp a"
      then have "\<bar>dec_val (align_to ?E b) - dec_val b\<bar> \<le> 10 powi ?E / 2"
        using False by (intro dec_val_align_error [OF assms(2)]) simp
      then show ?thesis using a top by (simp add: val dec_val_align_exact E [symmetric])
    next
      assume b: "?E \<le> kexp b"
      then have "\<bar>dec_val (align_to ?E a) - dec_val a\<bar> \<le> 10 powi ?E / 2"
        using False by (intro dec_val_align_error [OF assms(1)]) simp
      then show ?thesis using b top by (simp add: val dec_val_align_exact E [symmetric])
    qed
  qed
  have comm: "map_option dec_bits (add_value b a) = Some (dec_bits r)" by (rule add_value_comm [OF r])
  have self: "align_to E (negate a) = negate (align_to E a)" for E by (simp add: align_to_def negate_def)
  have "\<exists>z. add_value a (negate a) = Some z \<and> kcoeff z = 0"
    using assms(1)
    by (simp add: add_value_def dec_align_def Let_def self ordinary_def) (simp add: negate_def)
  with r first err comm show ?thesis by blast
qed

theorem dec_add_error_witness:
  "\<exists>r. add_value \<lparr>ksign = False, kcoeff = 15, kexp = - 1, kspecial = False\<rparr> \<lparr>ksign = True, kcoeff = 1, kexp = 0, kspecial = False\<rparr> = Some r
     \<and> dec_val r = 1 / 2"
proof -
  let ?a = "\<lparr>ksign = False, kcoeff = 15, kexp = - 1, kspecial = False\<rparr>"
  let ?b = "\<lparr>ksign = True, kcoeff = 1, kexp = 0, kspecial = False\<rparr>"
  have ord: "ordinary ?a" "ordinary ?b" by (simp_all add: ordinary_def)
  have nd: "dec_num_digits 15 = 2" "dec_num_digits 1 = 1" "dec_num_digits (Suc 0) = 1" by (simp_all add: dec_num_digits.simps)
  have val: "dec_val ?a = 3 / 2" "dec_val ?b = - 1" by (simp_all add: dec_val_def mag_def power_int_def)
  obtain r where "add_value ?a ?b = Some r"
    "max (msd ?a) (msd ?b) - 37 \<le> min (kexp ?a) (kexp ?b) \<longrightarrow> dec_val r = dec_val ?a + dec_val ?b"
    using dec_add_error [OF ord] by blast
  moreover have "max (msd ?a) (msd ?b) - 37 \<le> min (kexp ?a) (kexp ?b)" by (simp add: nd)
  ultimately show ?thesis using val by auto
qed

section \<open>The final rounding\<close>

lemma round_carry: "dec_round_drop (10 ^ 34) 1 = 10 ^ 33"
  by (simp add: dec_round_drop_def dec_pow10_1)

lemma mag_rounded:
  assumes "half_even (kcoeff d) (10 ^ k) q" "mag n = real q * 10 powi (kexp d + int k)"
  shows "\<bar>mag n - mag d\<bar> \<le> 10 powi (kexp d + int k) / 2"
proof -
  have "mag d = real (kcoeff d) / 10 ^ k * 10 powi (kexp d + int k)" by (simp add: mag_def powi_add)
  moreover have "\<bar>real q - real (kcoeff d) / 10 ^ k\<bar> \<le> 1 / 2" using half_even_real [OF assms(1)] by simp
  then have "\<bar>(real q - real (kcoeff d) / 10 ^ k) * 10 powi (kexp d + int k)\<bar> \<le> 1 / 2 * 10 powi (kexp d + int k)"
    by (simp add: abs_mult)
  ultimately show ?thesis by (simp add: assms(2) left_diff_distrib)
qed

lemma dec_val_diff: "ksign n = ksign d \<Longrightarrow> \<bar>dec_val n - dec_val d\<bar> = \<bar>mag n - mag d\<bar>"
  by (auto simp: dec_val_def abs_minus_commute)

lemma dec_num_digits_0 [simp]: "dec_num_digits 0 = 1"
  by (simp add: dec_num_digits_eq digits_rev.simps)

text \<open>The result of rounding away \<open>k\<close> digits to the coefficient \<open>q\<close>.\<close>

definition rounded_to :: "kdec \<Rightarrow> nat \<Rightarrow> nat \<Rightarrow> kdec" where
  "rounded_to d k q =
     (if q = 10 ^ 34 then d\<lparr>kcoeff := 10 ^ 33, kexp := kexp d + int k + 1\<rparr>
      else d\<lparr>kcoeff := q, kexp := kexp d + int k\<rparr>)"

lemma dec_norm_rounded:
  fixes d :: kdec
  defines "k \<equiv> dec_num_digits (kcoeff d) - 34"
  defines "q \<equiv> dec_round_drop (kcoeff d) (int k)"
  assumes long: "\<not> dec_num_digits (kcoeff d) \<le> 34" and q: "q < 10 ^ 34 \<or> q = 10 ^ 34"
  shows "dec_norm d = (if kcoeff (rounded_to d k q) = 0 then (rounded_to d k q)\<lparr>ksign := False\<rparr> else rounded_to d k q)"
proof (cases "q = 10 ^ 34")
  case True
  moreover have "\<not> dec_num_digits (10 ^ 34) \<le> 34" using dec_num_digits_le_iff [of 34 "10 ^ 34"] by simp
  ultimately show ?thesis
    using long round_carry unfolding dec_norm_def Let_def KYTE_DEC128_MAX_DIGITS_def k_def [symmetric] q_def [symmetric]
    by (simp add: rounded_to_def k_def [symmetric] q_def [symmetric])
next
  case no: False
  then have "dec_num_digits q \<le> 34" using q dec_num_digits_le by simp
  with no show ?thesis
    using long unfolding dec_norm_def Let_def KYTE_DEC128_MAX_DIGITS_def k_def [symmetric] q_def [symmetric]
    by (simp add: rounded_to_def k_def [symmetric] q_def [symmetric])
qed

text \<open>
  Encoding a result rounds it once, half to even, to 34 digits: what is
  packed has at most 34 digits, a coefficient of up to 34 digits keeps its value exactly, and in
  general the value moves by at most half a unit of the 34th digit, also when the rounding carries
  into a 35th digit.
\<close>

theorem dec_norm_rounds:
  assumes "kcoeff d < 2 ^ 128"
  shows "kcoeff (dec_norm d) < 10 ^ 34
    \<and> (kcoeff d < 10 ^ 34 \<longrightarrow> dec_val (dec_norm d) = dec_val d \<and> kexp (dec_norm d) = kexp d)
    \<and> \<bar>dec_val (dec_norm d) - dec_val d\<bar> \<le> 10 powi (msd d - 34) / 2"
proof (cases "dec_num_digits (kcoeff d) \<le> 34")
  case True
  then have c: "kcoeff d < 10 ^ 34" using dec_num_digits_le_iff [of 34] by simp
  have "dec_val (dec_norm d) = dec_val d \<and> kexp (dec_norm d) = kexp d \<and> kcoeff (dec_norm d) = kcoeff d"
    using True by (simp add: dec_norm_def Let_def KYTE_DEC128_MAX_DIGITS_def dec_val_def mag_def)
  with c show ?thesis by simp
next
  case False
  define k where "k = dec_num_digits (kcoeff d) - 34"
  define q where "q = dec_round_drop (kcoeff d) (int k)"
  have "(2 :: nat) ^ 128 \<le> 10 ^ 39" by simp
  then have "kcoeff d < 10 ^ 39" using assms by linarith
  then have "dec_num_digits (kcoeff d) \<le> 39" using dec_num_digits_le by simp
  then have k: "0 < k" "k \<le> 5" using False by (simp_all add: k_def)
  have he: "half_even (kcoeff d) (10 ^ k) q"
    using dec_round_drop_half_even [of "int k" "kcoeff d"] k by (simp add: q_def)
  have "kcoeff d < 10 ^ (34 + k)" using dec_num_digits_bound [of "kcoeff d"] False by (simp add: k_def)
  then have "kcoeff d div 10 ^ k < 10 ^ 34" by (simp add: power_add div_less_iff_less_mult)
  moreover have "q \<le> kcoeff d div 10 ^ k + 1" using dec_round_drop_le [of "int k" "kcoeff d"] k by (simp add: q_def)
  ultimately have q: "q < 10 ^ 34 \<or> q = 10 ^ 34" by linarith
  have e: "msd d - 34 = kexp d + int k" using False by (simp add: k_def)
  define n where "n = rounded_to d k q"
  have norm: "dec_norm d = (if kcoeff n = 0 then n\<lparr>ksign := False\<rparr> else n)"
    unfolding n_def q_def k_def by (rule dec_norm_rounded [OF False]) (use q in \<open>simp add: q_def k_def\<close>)
  have "mag n = real q * 10 powi (kexp d + int k)" by (simp add: n_def rounded_to_def mag_def powi_add)
  then have "\<bar>mag n - mag d\<bar> \<le> 10 powi (kexp d + int k) / 2" by (rule mag_rounded [OF he])
  moreover have "ksign n = ksign d" by (simp add: n_def rounded_to_def)
  moreover have "dec_val (dec_norm d) = dec_val n" by (simp add: norm dec_val_def mag_def)
  moreover have "kcoeff n < 10 ^ 34" using q by (auto simp: n_def rounded_to_def)
  then have "kcoeff (dec_norm d) < 10 ^ 34" by (simp add: norm)
  moreover have "\<not> kcoeff d < 10 ^ 34" using False dec_num_digits_le_iff [of 34] by simp
  ultimately show ?thesis using e dec_val_diff by metis
qed

theorem dec_norm_rounds_witness:
  "kcoeff (dec_norm \<lparr>ksign = False, kcoeff = 99999999999999999999999999999999995, kexp = 0, kspecial = False\<rparr>) < 10 ^ 34"
  by (rule dec_norm_rounds [THEN conjunct1]) simp

section \<open>Products\<close>

lemma mul_trim_digits:
  "mul_trim xc xe yc ye = (xc', xe', yc', ye') \<Longrightarrow>
     xc' = 0 \<or> yc' = 0 \<or> dec_num_digits xc' + dec_num_digits yc' \<le> 34"
proof (induction xc xe yc ye rule: mul_trim.induct)
  case (1 xc xe yc ye)
  then show ?case
    by (auto simp: mul_trim.simps [of xc xe yc ye] KYTE_DEC128_MAX_DIGITS_def split: if_splits)
qed

lemma product_digits: "dec_num_digits x + dec_num_digits y \<le> 34 \<Longrightarrow> x * y < 10 ^ 34"
proof -
  assume le: "dec_num_digits x + dec_num_digits y \<le> 34"
  have "x * y < 10 ^ dec_num_digits x * 10 ^ dec_num_digits y"
    using dec_num_digits_bound [of x] dec_num_digits_bound [of y] by (intro mult_strict_mono) simp_all
  also have "\<dots> = 10 ^ (dec_num_digits x + dec_num_digits y)" by (simp add: power_add)
  also have "\<dots> \<le> 10 ^ 34" using le by (rule power_increasing) simp
  finally show ?thesis .
qed

text \<open>
  The multiplication always terminates without 128-bit overflow and
  with a coefficient of at most 34 digits; when the two operands have at most 34 digits together, or
  one is zero, the product is exact.
\<close>

theorem dec_mul_exact:
  assumes "ordinary x" "ordinary y"
  shows "\<exists>r. mul_value x y = Some r \<and> kcoeff r < 10 ^ 34 \<and> \<not> kspecial r
    \<and> (kcoeff x = 0 \<or> kcoeff y = 0 \<or> dec_num_digits (kcoeff x) + dec_num_digits (kcoeff y) \<le> 34
        \<longrightarrow> dec_val r = dec_val x * dec_val y \<and> kexp r = kexp x + kexp y)"
proof -
  obtain xc xe yc ye where t: "mul_trim (kcoeff x) (kexp x) (kcoeff y) (kexp y) = (xc, xe, yc, ye)"
    by (metis prod_cases4)
  have lt: "xc * yc < 10 ^ 34" using mul_trim_digits [OF t] product_digits by auto
  then have "xc * yc < 2 ^ 128" using small_pow10 [of 34] by linarith
  then have r: "mul_value x y = Some \<lparr>ksign = (ksign x \<noteq> ksign y), kcoeff = xc * yc, kexp = xe + ye, kspecial = False\<rparr>"
    using assms t by (simp add: mul_value_def ordinary_def wrap128_id)
  have "xc = kcoeff x \<and> xe = kexp x \<and> yc = kcoeff y \<and> ye = kexp y"
    if "kcoeff x = 0 \<or> kcoeff y = 0 \<or> dec_num_digits (kcoeff x) + dec_num_digits (kcoeff y) \<le> 34"
    using t that by (subst (asm) mul_trim.simps) (auto simp: KYTE_DEC128_MAX_DIGITS_def)
  with r lt show ?thesis by (auto simp: dec_val_def mag_def powi_add)
qed

theorem dec_mul_exact_witness:
  "\<exists>r. mul_value \<lparr>ksign = True, kcoeff = 12, kexp = - 1, kspecial = False\<rparr> \<lparr>ksign = False, kcoeff = 5, kexp = 0, kspecial = False\<rparr> = Some r
     \<and> dec_val r = - 6"
proof -
  let ?a = "\<lparr>ksign = True, kcoeff = 12, kexp = - 1, kspecial = False\<rparr>"
  let ?b = "\<lparr>ksign = False, kcoeff = 5, kexp = 0, kspecial = False\<rparr>"
  have ord: "ordinary ?a" "ordinary ?b" by (simp_all add: ordinary_def)
  have nd: "dec_num_digits (kcoeff ?a) + dec_num_digits (kcoeff ?b) \<le> 34" by (simp add: dec_num_digits.simps)
  obtain r where "mul_value ?a ?b = Some r" "dec_val r = dec_val ?a * dec_val ?b"
    using dec_mul_exact [OF ord] nd by blast
  then show ?thesis by (auto simp: dec_val_def mag_def power_int_def)
qed

text \<open>With more digits the operands are shortened first: one is not a neutral element.\<close>

lemma dec_mul_by_one:
  "map_option dec_norm (mul_value \<lparr>ksign = False, kcoeff = 10 ^ 33 + 1, kexp = 0, kspecial = False\<rparr>
       \<lparr>ksign = False, kcoeff = 1, kexp = 0, kspecial = False\<rparr>)
     = Some \<lparr>ksign = False, kcoeff = 10 ^ 32, kexp = 1, kspecial = False\<rparr>"
proof -
  have nd: "dec_num_digits (10 ^ 33 + 1) = 34" "dec_num_digits (10 ^ 32) = 33" "dec_num_digits 1 = 1"
    by (simp_all add: dec_num_digits.simps)
  have drop: "dec_round_drop (10 ^ 33 + 1) 1 = 10 ^ 32" by (simp add: dec_round_drop_def dec_pow10_1)
  have "mul_trim (10 ^ 33 + 1) 0 1 0 = mul_trim (10 ^ 32) 1 1 0"
    by (subst mul_trim.simps) (simp add: nd [simplified] drop [simplified] KYTE_DEC128_MAX_DIGITS_def)
  also have "\<dots> = (10 ^ 32, 1, 1, 0)"
    by (subst mul_trim.simps) (simp add: nd [simplified] KYTE_DEC128_MAX_DIGITS_def)
  finally show ?thesis
    using nd by (simp add: mul_value_def wrap128_def dec_norm_def KYTE_DEC128_MAX_DIGITS_def)
qed

section \<open>Quotients\<close>

lemma strip_loop_value:
  "strip_loop c e pref = (c', e') \<Longrightarrow> real c' * 10 powi e' = real c * 10 powi e \<and> c' \<le> c \<and> e \<le> e' \<and> (e \<le> pref \<longrightarrow> e' \<le> pref)"
proof (induction c e pref rule: strip_loop.induct)
  case (1 c e pref)
  show ?case
  proof (cases "e < pref \<and> c \<noteq> 0 \<and> c mod 10 = 0")
    case True
    then have rec: "strip_loop (c div 10) (e + 1) pref = (c', e')"
      using "1.prems" by (simp add: strip_loop.simps [of c e])
    have "c = 10 * (c div 10)" using True by auto
    then have "real c = 10 * real (c div 10)" by (metis of_nat_mult of_nat_numeral)
    then show ?thesis using "1.IH" [OF True rec] True by (auto simp: powi_add)
  next
    case False
    then have "strip_loop c e pref = (c, e)" by (subst strip_loop.simps) (rule if_not_P)
    then show ?thesis using "1.prems" by simp
  qed
qed

lemma dec_strip_to_mag: "mag (dec_strip_to d pref) = mag d"
  using strip_loop_value [of "kcoeff d" "kexp d" pref]
  by (cases "strip_loop (kcoeff d) (kexp d) pref") (simp add: dec_strip_to_def mag_def)

lemma dec_strip_to_frame [simp]: "ksign (dec_strip_to d pref) = ksign d" "kspecial (dec_strip_to d pref) = kspecial d"
  by (simp_all add: dec_strip_to_def split: prod.splits)

lemma strip_power: "strip_loop (10 ^ k) (- int k) 0 = (1, 0)"
proof (induction k)
  case 0
  then show ?case by (simp add: strip_loop.simps)
next
  case (Suc k)
  have "strip_loop (10 ^ Suc k) (- int (Suc k)) 0 = strip_loop (10 ^ k) (- int k) 0"
    by (subst strip_loop.simps) simp
  then show ?case using Suc by simp
qed

lemma div_value_eq:
  assumes "ordinary x" "ordinary y" "0 < kcoeff x" "0 < kcoeff y"
  defines "P \<equiv> 35 - dec_num_digits (kcoeff x)"
  shows "\<exists>q. half_even (kcoeff x * 10 ^ P) (kcoeff y) q
    \<and> div_value x y = Ok (Some (dec_strip_to \<lparr>ksign = (ksign x \<noteq> ksign y), kcoeff = q, kexp = kexp x - kexp y - int P, kspecial = False\<rparr>
        (kexp x - kexp y)))"
proof -
  let ?nd = "dec_num_digits (kcoeff x)" and ?n = "kcoeff x * 10 ^ P"
  have nd: "?nd \<le> 35" using assms(1) dec_num_digits_le [of 35] by (simp add: ordinary_def)
  have "kcoeff x * 10 ^ P < 10 ^ ?nd * 10 ^ P" using dec_num_digits_bound [of "kcoeff x"] by simp
  also have "\<dots> = 10 ^ 35" using nd by (simp add: P_def power_add [symmetric])
  finally have lt: "?n < 10 ^ 35" .
  have w: "wrap128 ?n = ?n" using lt small_pow10 [of 35] by (intro wrap128_id) linarith
  have "2 * (?n mod kcoeff y) < 2 * 10 ^ 35"
    using assms(2) mod_less_divisor [OF assms(4), of ?n] unfolding ordinary_def by linarith
  then have w2: "wrap128 (?n mod kcoeff y * 2) = 2 * (?n mod kcoeff y)" by (subst wrap128_id) simp_all
  have Pi: "int 34 + 1 - int ?nd = int P" "\<not> int P < 0" "\<not> int P > 38 - int ?nd" "int P \<le> 38"
    using nd by (simp_all add: P_def)
  define q where "q = (if 2 * (?n mod kcoeff y) > kcoeff y then ?n div kcoeff y + 1
    else if 2 * (?n mod kcoeff y) = kcoeff y \<and> odd (?n div kcoeff y) then ?n div kcoeff y + 1 else ?n div kcoeff y)"
  have "half_even ?n (kcoeff y) q" unfolding q_def by (rule half_even_div [OF assms(4)])
  moreover have "\<not> kspecial x" "\<not> kspecial y" "kcoeff x \<noteq> 0" "kcoeff y \<noteq> 0" using assms by (simp_all add: ordinary_def)
  then have "div_value x y = Ok (Some (dec_strip_to \<lparr>ksign = (ksign x \<noteq> ksign y), kcoeff = q, kexp = kexp x - kexp y - int P, kspecial = False\<rparr>
        (kexp x - kexp y)))"
    unfolding div_value_def Let_def KYTE_DEC128_MAX_DIGITS_def Pi(1) if_not_P [OF Pi(2)] if_not_P [OF Pi(3)]
      dec_pow10_eq [OF Pi(4)] nat_int w w2 q_def [symmetric] by simp
  ultimately show ?thesis by blast
qed

lemma quotient_scaled:
  "mag x / mag y = real (kcoeff x * 10 ^ P) / real (kcoeff y) * 10 powi (kexp x - kexp y - int P)"
proof -
  have "(10 :: real) powi (kexp x - kexp y) = 10 ^ P * 10 powi (kexp x - kexp y - int P)"
    using powi_add [of "int P" "kexp x - kexp y - int P"] by simp
  moreover have "mag x / mag y = real (kcoeff x) / real (kcoeff y) * 10 powi (kexp x - kexp y)"
    by (simp add: mag_def power_int_diff)
  ultimately show ?thesis by simp
qed

lemma quotient_error:
  assumes he: "half_even (kcoeff x * 10 ^ P) (kcoeff y) q" and pos: "0 < kcoeff y"
    and r: "mag r = real q * 10 powi (kexp x - kexp y - int P)" "ksign r = (ksign x \<noteq> ksign y)"
  shows "\<bar>dec_val r - dec_val x / dec_val y\<bar> \<le> 10 powi (kexp x - kexp y - int P) / 2"
proof -
  let ?u = "10 powi (kexp x - kexp y - int P) :: real"
  have "\<bar>real q - real (kcoeff x * 10 ^ P) / real (kcoeff y)\<bar> \<le> 1 / 2" using half_even_real [OF he] pos by simp
  then have "\<bar>(real q - real (kcoeff x * 10 ^ P) / real (kcoeff y)) * ?u\<bar> \<le> 1 / 2 * ?u" by (simp add: abs_mult)
  then have "\<bar>mag r - mag x / mag y\<bar> \<le> ?u / 2" by (simp only: r(1) quotient_scaled [of x y P] left_diff_distrib)
  then show ?thesis using r(2)
    by (cases "ksign x"; cases "ksign y") (simp_all add: dec_val_def abs_minus_commute)
qed

text \<open>
  Property C10 (dec_div_rounded).  Dividing by zero panics; otherwise the quotient is the half-even
  rounding of the exact one at the place the code computes to (35 digits of the scaled dividend), the
  removal of trailing zeros does not change its value, and a non-zero number divided by itself is 1
  exactly.
\<close>

theorem dec_div_rounded:
  assumes "ordinary x" "ordinary y"
  shows "(kcoeff y = 0 \<longrightarrow> div_value x y = Panic ''decimal divide by zero'')
    \<and> (0 < kcoeff y \<and> kcoeff x = 0 \<longrightarrow> div_value x y = Ok None)
    \<and> (0 < kcoeff y \<and> 0 < kcoeff x \<longrightarrow>
        (\<exists>r q. div_value x y = Ok (Some r)
          \<and> half_even (kcoeff x * 10 ^ (35 - dec_num_digits (kcoeff x))) (kcoeff y) q
          \<and> mag r = real q * 10 powi (msd x - 35 - kexp y)
          \<and> \<bar>dec_val r - dec_val x / dec_val y\<bar> \<le> 10 powi (msd x - 35 - kexp y) / 2
          \<and> (x = y \<longrightarrow> r = \<lparr>ksign = False, kcoeff = 1, kexp = 0, kspecial = False\<rparr>)))"
proof (intro conjI impI)
  have sp: "\<not> kspecial x" "\<not> kspecial y" using assms by (simp_all add: ordinary_def)
  show "kcoeff y = 0 \<Longrightarrow> div_value x y = Panic ''decimal divide by zero''"
    "0 < kcoeff y \<and> kcoeff x = 0 \<Longrightarrow> div_value x y = Ok None"
    using sp by (simp_all add: div_value_def)
next
  assume pos: "0 < kcoeff y \<and> 0 < kcoeff x"
  define P where "P = 35 - dec_num_digits (kcoeff x)"
  have nd: "dec_num_digits (kcoeff x) \<le> 35" using assms(1) dec_num_digits_le [of 35] by (simp add: ordinary_def)
  obtain q where he: "half_even (kcoeff x * 10 ^ P) (kcoeff y) q"
    and dv: "div_value x y = Ok (Some (dec_strip_to \<lparr>ksign = (ksign x \<noteq> ksign y), kcoeff = q, kexp = kexp x - kexp y - int P, kspecial = False\<rparr>
        (kexp x - kexp y)))"
    using div_value_eq [OF assms conjunct2 [OF pos] conjunct1 [OF pos]] unfolding P_def [symmetric] by blast
  let ?d = "\<lparr>ksign = (ksign x \<noteq> ksign y), kcoeff = q, kexp = kexp x - kexp y - int P, kspecial = False\<rparr>"
  let ?r = "dec_strip_to ?d (kexp x - kexp y)"
  have e: "kexp x - kexp y - int P = msd x - 35 - kexp y" using nd by (simp add: P_def)
  have mr: "mag ?r = real q * 10 powi (kexp x - kexp y - int P)" unfolding dec_strip_to_mag by (simp add: mag_def)
  have sr: "ksign ?r = (ksign x \<noteq> ksign y)" by (simp add: dec_strip_to_def Let_def split: prod.split)
  have err: "\<bar>dec_val ?r - dec_val x / dec_val y\<bar> \<le> 10 powi (kexp x - kexp y - int P) / 2"
    by (rule quotient_error [OF he _ mr sr]) (use pos in simp)
  have self: "?r = \<lparr>ksign = False, kcoeff = 1, kexp = 0, kspecial = False\<rparr>" if "x = y"
  proof -
    have "half_even (kcoeff x * 10 ^ P) (kcoeff x) (10 ^ P)" using pos by (simp add: half_even_def)
    then have "q = 10 ^ P" using half_even_unique [of "kcoeff x"] he pos that by blast
    then show ?thesis using that strip_power [of P] by (simp add: dec_strip_to_def)
  qed
  show "\<exists>r q. div_value x y = Ok (Some r)
      \<and> half_even (kcoeff x * 10 ^ (35 - dec_num_digits (kcoeff x))) (kcoeff y) q
      \<and> mag r = real q * 10 powi (msd x - 35 - kexp y)
      \<and> \<bar>dec_val r - dec_val x / dec_val y\<bar> \<le> 10 powi (msd x - 35 - kexp y) / 2
      \<and> (x = y \<longrightarrow> r = \<lparr>ksign = False, kcoeff = 1, kexp = 0, kspecial = False\<rparr>)"
    using dv he mr err self unfolding P_def [symmetric] e by blast
qed

theorem dec_div_rounded_witness:
  "div_value \<lparr>ksign = True, kcoeff = 125, kexp = 7, kspecial = False\<rparr> \<lparr>ksign = True, kcoeff = 125, kexp = 7, kspecial = False\<rparr>
     = Ok (Some \<lparr>ksign = False, kcoeff = 1, kexp = 0, kspecial = False\<rparr>)"
proof -
  let ?x = "\<lparr>ksign = True, kcoeff = 125, kexp = 7, kspecial = False\<rparr>"
  have "ordinary ?x" by (simp add: ordinary_def)
  from dec_div_rounded [OF this this] show ?thesis by auto
qed

text \<open>The quotient has as many digits as the scaled dividend exceeds the divisor: one, here.\<close>

lemma dec_div_one_digit:
  "div_value \<lparr>ksign = False, kcoeff = 1, kexp = 0, kspecial = False\<rparr>
     \<lparr>ksign = False, kcoeff = 3 * 10 ^ 33 + 1, kexp = - 33, kspecial = False\<rparr>
   = Ok (Some \<lparr>ksign = False, kcoeff = 3, kexp = - 1, kspecial = False\<rparr>)"
proof -
  have "dec_num_digits 1 = 1" "dec_num_digits (Suc 0) = 1" by (simp_all add: dec_num_digits.simps)
  moreover have "strip_loop 3 (- 1) 33 = (3, - 1)" by (simp add: strip_loop.simps)
  ultimately show ?thesis
    by (simp add: div_value_def KYTE_DEC128_MAX_DIGITS_def dec_pow10_eq wrap128_def dec_strip_to_def Let_def)
qed

section \<open>Remainders and zeros under alignment\<close>

lemma mod_value_exact:
  assumes "ordinary x" "ordinary y" "0 < kcoeff y" "align_exp x y = min (kexp x) (kexp y)"
  shows "\<exists>r. mod_value x y = Ok (Some r) \<and> kexp r = align_exp x y \<and> ksign r = ksign x
    \<and> kcoeff r = (kcoeff x * 10 ^ nat (kexp x - align_exp x y)) mod (kcoeff y * 10 ^ nat (kexp y - align_exp x y))"
proof -
  let ?E = "align_exp x y"
  have "?E \<le> kexp x" "?E \<le> kexp y" "msd x - ?E \<le> 38" "msd y - ?E \<le> 38"
    using assms(4) by (auto simp: align_exp_eq)
  then have "kcoeff (align_to ?E x) = kcoeff x * 10 ^ nat (kexp x - ?E)"
    "kcoeff (align_to ?E y) = kcoeff y * 10 ^ nat (kexp y - ?E)" using align_to_exact by simp_all
  then show ?thesis using assms by (simp add: mod_value_def ordinary_def dec_align_def Let_def)
qed

text \<open>The remainder of 1e40 by 1: the aligned divisor is rounded to zero and the machine divides by it.\<close>

lemma dec_mod_traps:
  "mod_value \<lparr>ksign = False, kcoeff = 1, kexp = 40, kspecial = False\<rparr>
     \<lparr>ksign = False, kcoeff = 1, kexp = 0, kspecial = False\<rparr> = Trap"
proof -
  have "dec_num_digits 1 = 1" "dec_num_digits (Suc 0) = 1" by (simp_all add: dec_num_digits.simps)
  then show ?thesis
    by (simp add: mod_value_def dec_align_def align_exp_def align_to_def Let_def dec_round_drop_def dec_pow10_eq)
qed

text \<open>The zero that 1e40 - 1e40 leaves keeps the exponent 40 and swallows the 1 added to it.\<close>

lemma dec_zero_swallows:
  "map_option dec_val (add_value \<lparr>ksign = False, kcoeff = 0, kexp = 40, kspecial = False\<rparr>
     \<lparr>ksign = False, kcoeff = 1, kexp = 0, kspecial = False\<rparr>) = Some 0"
proof -
  have "dec_num_digits 1 = 1" "dec_num_digits (Suc 0) = 1" by (simp_all add: dec_num_digits.simps)
  then show ?thesis
    by (simp add: add_value_def dec_align_def align_exp_def align_to_def Let_def dec_round_drop_def dec_pow10_eq
        wrap128_def dec_val_def mag_def)
qed

end
