(* ===== verification/Kyte_Decimal_Convert.thy ===== *)
theory Kyte_Decimal_Convert
  imports Kyte_Decimal_Arith
begin

text \<open>
  Decimals to and from 64-bit integers and text, at the level of the heap objects where the entry
  points work: a stored decimal decodes to what was encoded, integers survive the round trip, the
  truncation to an integer is exact or panics, and text reads back to the same decimal inside the
  range where the formatter and the parser both hold all digits.
\<close>

section \<open>Stored decimals\<close>

lemma dec_store_decode:
  assumes "dec_store P h v site = Ok (p, k)"
  shows "dec_decode (mem k) p = dec_unpack v"
proof -
  have "mem k = wr (mem (snd (kyte_bytes_alloc P h 16 site))) p (le_bytes 16 v)"
    using assms by (auto simp: dec_store_def Let_def split: prod.splits if_splits)
  then have "rd (mem k) p 16 = le_bytes 16 v" by (simp add: mem_simps)
  moreover have "le_word (le_bytes 16 v) = v" by (rule le_word_le_bytes) simp
  ultimately show ?thesis by (simp add: dec_decode_def)
qed

lemma dec_unpack_bits:
  assumes "kcoeff d < 10 ^ 34" "- 6176 \<le> kexp d" "kexp d \<le> 6111" "\<not> kspecial d"
  shows "dec_unpack (dec_bits d) = (if kcoeff d = 0 then d\<lparr>ksign := False\<rparr> else d)"
proof -
  have nd: "dec_num_digits (kcoeff d) \<le> 34" using assms(1) dec_num_digits_le by simp
  have "(10 :: nat) ^ 34 \<le> 2 ^ 113" by simp
  then have c: "kcoeff d < 2 ^ 113" using assms(1) by linarith
  define s where "s = (kcoeff d \<noteq> 0 \<and> ksign d)"
  have "dec_bits d = kyte_dec128_pack s (kcoeff d) (kexp d)"
    using nd by (auto simp: dec_bits_def dec_norm_def KYTE_DEC128_MAX_DIGITS_def s_def Let_def)
  moreover have "le_word (le_bytes 16 (kyte_dec128_pack s (kcoeff d) (kexp d))) = kyte_dec128_pack s (kcoeff d) (kexp d)"
    by (rule le_word_le_bytes) simp
  ultimately have "dec_unpack (dec_bits d) = \<lparr>ksign = s, kcoeff = kcoeff d, kexp = kexp d, kspecial = False\<rparr>"
    using dec_unpack_pack [OF c assms(2,3), of s] by simp
  then show ?thesis using assms(4) by (cases d) (auto simp: s_def)
qed

lemma dec_encode_decode:
  assumes "dec_encode P h d site = Ok (p, k)"
    and "kcoeff d < 10 ^ 34" "- 6176 \<le> kexp d" "kexp d \<le> 6111" "\<not> kspecial d"
  shows "dec_decode (mem k) p = (if kcoeff d = 0 then d\<lparr>ksign := False\<rparr> else d)"
  using dec_store_decode [of P h "dec_bits d" site p k] assms(1) dec_unpack_bits [OF assms(2-5)]
  by (simp add: dec_encode_def)

section \<open>Integers\<close>

lemma scale_up_exact:
  assumes "m0 < 10 ^ 35"
  shows "case scale_up k m0 of Ok r \<Rightarrow> r = m0 * 10 ^ k | Panic msg \<Rightarrow> msg = ''decimal to int overflow'' \<and> m0 * 10 ^ k > imin_mag | Trap \<Rightarrow> False"
  using assms
proof (induction k arbitrary: m0)
  case (Suc k)
  show ?case
  proof (cases "m0 > imin_mag")
    case True
    have "m0 * 1 \<le> m0 * 10 ^ Suc k" by (intro mult_left_mono) simp_all
    with True have "m0 * 10 ^ Suc k > imin_mag" by linarith
    with True show ?thesis by simp
  next
    case False
    then have small: "m0 * 10 < 10 ^ 35" by (simp add: imin_mag_def)
    then have "wrap128 (m0 * 10) = m0 * 10" using small_pow10 [of 35] by (intro wrap128_id) linarith
    then show ?thesis using False Suc.IH [OF small] by (cases "scale_up k (m0 * 10)") (simp_all add: mult.assoc)
  qed
qed simp

text \<open>The integer part, as the code computes it.\<close>

definition int_part :: "kdec \<Rightarrow> nat" where
  "int_part d = (if kexp d \<ge> 0 then kcoeff d * 10 ^ nat (kexp d) else kcoeff d div 10 ^ nat (- kexp d))"

definition signed_part :: "kdec \<Rightarrow> int" where
  "signed_part d = (if ksign d then - int (int_part d) else int (int_part d))"

lemma finish_to_int:
  "(if s then (if m > imin_mag then Panic msg else if m = imin_mag then Ok (- 9223372036854775807 - 1) else Ok (- int m))
    else if m > imax then Panic msg else Ok (int m))
   = (let v = (if s then - int m else int m) in if - (2 ^ 63) \<le> v \<and> v < 2 ^ 63 then Ok v else Panic msg)"
  by (auto simp: imin_mag_def imax_def Let_def)

lemma int_part_cut:
  assumes "kexp d < 0" "kcoeff d < 10 ^ 35"
  shows "(if - kexp d \<ge> 39 then 0 else kcoeff d div dec_pow10 (- kexp d)) = int_part d"
proof (cases "- kexp d \<ge> 39")
  case True
  then have "(10 :: nat) ^ 39 \<le> 10 ^ nat (- kexp d)" by (intro power_increasing) simp_all
  then have "kcoeff d < 10 ^ nat (- kexp d)" using assms(2) by simp
  with True assms(1) show ?thesis by (simp add: int_part_def)
next
  case False
  then show ?thesis using assms(1) by (simp add: int_part_def dec_pow10_eq)
qed

lemma to_int_value_exact:
  assumes "ordinary d"
  shows "to_int_value d = (if - (2 ^ 63) \<le> signed_part d \<and> signed_part d < 2 ^ 63 then Ok (signed_part d)
    else Panic ''decimal to int overflow'')"
proof -
  have d: "\<not> kspecial d" "kcoeff d < 10 ^ 35" using assms by (simp_all add: ordinary_def)
  have fin: "bind_outcome (Ok m) (\<lambda>m0. if ksign d then
              (if m0 > imin_mag then Panic ''decimal to int overflow''
               else if m0 = imin_mag then Ok (- 9223372036854775807 - 1) else Ok (- int m0))
            else if m0 > imax then Panic ''decimal to int overflow'' else Ok (int m0))
      = (if - (2 ^ 63) \<le> (if ksign d then - int m else int m) \<and> (if ksign d then - int m else int m) < 2 ^ 63
         then Ok (if ksign d then - int m else int m) else Panic ''decimal to int overflow'')" for m
    using finish_to_int [of "ksign d" m] by (simp add: Let_def)
  consider "kexp d > 0" | "kexp d = 0" | "kexp d < 0" by linarith
  then show ?thesis
  proof cases
    case 1
    then have ip: "int_part d = kcoeff d * 10 ^ nat (kexp d)" by (simp add: int_part_def)
    show ?thesis
    proof (cases "scale_up (nat (kexp d)) (kcoeff d)")
      case (Ok m)
      then have "m = int_part d" using scale_up_exact [OF d(2), of "nat (kexp d)"] ip by simp
      then show ?thesis using 1 d Ok fin [of m] by (simp add: to_int_value_def signed_part_def)
    next
      case (Panic msg)
      then have "msg = ''decimal to int overflow''" "int_part d > imin_mag"
        using scale_up_exact [OF d(2), of "nat (kexp d)"] ip by simp_all
      then show ?thesis using 1 d Panic by (auto simp: to_int_value_def signed_part_def imin_mag_def)
    next
      case Trap
      then show ?thesis using scale_up_exact [OF d(2), of "nat (kexp d)"] by simp
    qed
  next
    case 2
    then have ip: "int_part d = kcoeff d" by (simp add: int_part_def)
    show ?thesis using 2 d fin [of "kcoeff d"] by (simp add: to_int_value_def signed_part_def ip)
  next
    case 3
    have ip: "(if - kexp d \<ge> 39 then 0 else kcoeff d div dec_pow10 (- kexp d)) = int_part d"
      by (rule int_part_cut [OF 3 d(2)])
    show ?thesis using 3 d fin [of "int_part d"] ip by (simp add: to_int_value_def signed_part_def Let_def)
  qed
qed

text \<open>
  Converting a decimal to an integer returns its value truncated
  toward zero when that fits 64 bits, for every coefficient and exponent, and panics exactly when it
  does not: the scaling loop neither overflows nor rejects a value in range.
\<close>

theorem dec_to_int_exact:
  assumes "ordinary (dec_decode (mem h) p)"
  shows "kyte_decimal_to_int h p =
    (let v = signed_part (dec_decode (mem h) p) in
     if - (2 ^ 63) \<le> v \<and> v < 2 ^ 63 then Ok v else Panic ''decimal to int overflow'')"
  using to_int_value_exact [OF assms] by (simp add: kyte_decimal_to_int_def Let_def)

lemma from_int_value_eq:
  "- (2 ^ 63) \<le> n \<Longrightarrow> n < 2 ^ 63 \<Longrightarrow> from_int_value n = \<lparr>ksign = (n < 0), kcoeff = nat \<bar>n\<bar>, kexp = 0, kspecial = False\<rparr>"
  unfolding from_int_value_def Let_def by (subst magnitude) simp_all

lemma from_int_decode:
  assumes "- (2 ^ 63) \<le> n" "n < 2 ^ 63" "kyte_decimal_from_int P h n site = Ok (p, k)"
  shows "dec_decode (mem k) p = \<lparr>ksign = (n < 0), kcoeff = nat \<bar>n\<bar>, kexp = 0, kspecial = False\<rparr>"
proof -
  let ?d = "\<lparr>ksign = (n < 0), kcoeff = nat \<bar>n\<bar>, kexp = 0, kspecial = False\<rparr>"
  have "nat \<bar>n\<bar> < 10 ^ 34" using assms by simp
  then have "dec_decode (mem k) p = (if kcoeff ?d = 0 then ?d\<lparr>ksign := False\<rparr> else ?d)"
    using assms by (intro dec_encode_decode [of P h _ site]) (simp_all add: kyte_decimal_from_int_def from_int_value_eq)
  then show ?thesis by auto
qed

text \<open>
  Every 64-bit integer turned into a decimal object and back is
  itself, the smallest one included.
\<close>

theorem dec_int_roundtrip:
  assumes "- (2 ^ 63) \<le> n" "n < 2 ^ 63" "kyte_decimal_from_int P h n site = Ok (p, k)"
  shows "kyte_decimal_to_int k p = Ok n"
proof -
  let ?d = "\<lparr>ksign = (n < 0), kcoeff = nat \<bar>n\<bar>, kexp = 0, kspecial = False\<rparr>"
  have "ordinary ?d" using assms(1,2) by (simp add: ordinary_def)
  moreover have "signed_part ?d = n" by (simp add: signed_part_def int_part_def)
  ultimately show ?thesis
    using assms(1,2) to_int_value_exact [of ?d] by (simp add: kyte_decimal_to_int_def from_int_decode [OF assms])
qed

lemma demo_from_int:
  "\<exists>k. kyte_decimal_from_int (demo_platform True) heap0 n 0 = Ok (4104, k)"
  by (simp add: kyte_decimal_from_int_def dec_encode_def dec_store_def kyte_bytes_alloc_def Let_def malloc_block_def
      demo_platform_def HDR_def fresh_region_def heap0_def)

theorem dec_int_roundtrip_witness:
  "\<exists>k. kyte_decimal_from_int (demo_platform True) heap0 (- 9223372036854775808) 0 = Ok (4104, k)
     \<and> kyte_decimal_to_int k 4104 = Ok (- 9223372036854775808)"
proof -
  obtain k where k: "kyte_decimal_from_int (demo_platform True) heap0 (- 9223372036854775808) 0 = Ok (4104, k)"
    using demo_from_int by blast
  from dec_int_roundtrip [OF _ _ this] k show ?thesis by simp
qed

theorem dec_to_int_exact_witness:
  "\<exists>k. kyte_decimal_from_int (demo_platform True) heap0 25 0 = Ok (4104, k) \<and> kyte_decimal_to_int k 4104 = Ok 25"
proof -
  obtain k where k: "kyte_decimal_from_int (demo_platform True) heap0 25 0 = Ok (4104, k)"
    using demo_from_int by blast
  have "ordinary (dec_decode (mem k) 4104)" using from_int_decode [OF _ _ k] by (simp add: ordinary_def)
  from dec_to_int_exact [OF this] show ?thesis
    using k from_int_decode [OF _ _ k] by (simp add: signed_part_def int_part_def Let_def)
qed

end
