(* ===== verification/Kyte_Decimal_Literal.thy ===== *)
theory Kyte_Decimal_Literal
  imports Kyte_Decimal_Convert
begin

text \<open>
  Decimal text.  The formatter's output is described digit by digit, its length is computed, and the
  parser is shown to read it back: a decimal whose text has at most 34 digits survives, a longer
  text is written past the 80 byte buffer or loses its last digits.
\<close>

section \<open>Digits\<close>

lemma dec_digs_rev: "0 < n \<Longrightarrow> dec_digs n = digits_rev n"
proof (induction n rule: digits_rev.induct)
  case (1 n)
  show ?case
  proof (cases "n div 10 = 0")
    case True
    then show ?thesis using 1 by (simp add: dec_digs.simps [of n] digits_rev.simps [of n] dec_digs.simps [of 0])
  next
    case False
    then show ?thesis using 1 by (subst dec_digs.simps, subst digits_rev.simps) simp
  qed
qed

definition coeff_text :: "nat \<Rightarrow> bytes" where
  "coeff_text c = rev (digits_rev c)"

lemma coeff_text_eq: "rev (if c = 0 then [48] else dec_digs c) = coeff_text c"
  by (auto simp: coeff_text_def dec_digs_rev digits_rev.simps [of 0])

lemma coeff_text_val [simp]: "digits_val (coeff_text c) = c"
  by (simp add: coeff_text_def)

lemma coeff_text_digits: "b \<in> set (coeff_text c) \<Longrightarrow> is_digit b"
  by (simp add: coeff_text_def digits_rev_digits)

lemma coeff_text_nonempty [simp]: "coeff_text c \<noteq> []"
  by (simp add: coeff_text_def)

lemma coeff_text_len: "c < 10 ^ 34 \<Longrightarrow> length (coeff_text c) \<le> 34"
  by (simp add: coeff_text_def length_digits_rev_le)

lemma emit_digits_past: "point \<le> e \<Longrightarrow> emit_digits point e ds = ds"
  by (induction ds arbitrary: e) auto

lemma emit_digits_point:
  "0 \<le> point - e \<Longrightarrow> point - e < int (length ds) \<Longrightarrow> 0 < point - e \<Longrightarrow>
   emit_digits point e ds = take (nat (point - e)) ds @ [46] @ drop (nat (point - e)) ds"
proof (induction ds arbitrary: e)
  case (Cons d ds)
  show ?case
  proof (cases "point - e = 1")
    case True
    then have "emit_digits point (e + 1) ds = ds" by (intro emit_digits_past) simp
    then show ?thesis using True Cons.prems by auto
  next
    case False
    then have "nat (point - e) = Suc (nat (point - (e + 1)))" using Cons.prems by simp
    then show ?thesis using False Cons.IH [of "e + 1"] Cons.prems by simp
  qed
qed simp

text \<open>The three layouts of the text: digits and zeros, zero-point-zeros-digits, digits-point-digits.\<close>

definition neg_text :: "kdec \<Rightarrow> bytes" where
  "neg_text d = (if ksign d \<and> kcoeff d \<noteq> 0 then [45] else [])"

lemma sign_text:
  assumes "digs = (if c = 0 then [48] else dec_digs c)"
  shows "(length digs = 1 \<and> hd digs = 48) \<longleftrightarrow> c = 0"
proof
  assume a: "length digs = 1 \<and> hd digs = 48"
  show "c = 0"
  proof (rule ccontr)
    assume "c \<noteq> 0"
    then have d: "digs = digits_rev c" using assms by (simp add: dec_digs_rev)
    then obtain b where "digits_rev c = [b]" using a by (cases "digits_rev c") auto
    then show False using a d last_digits_rev [of c] \<open>c \<noteq> 0\<close> by simp
  qed
qed (use assms in simp)

lemma dec_text_layout:
  "dec_text d = neg_text d @
     (let t = coeff_text (kcoeff d); point = int (length t) + kexp d in
      if kexp d \<ge> 0 then t @ replicate (nat (kexp d)) 48
      else if point \<le> 0 then [48, 46] @ replicate (nat (- point)) 48 @ t
      else take (nat point) t @ [46] @ drop (nat point) t)"
proof -
  define digs where "digs = (if kcoeff d = 0 then [48] else dec_digs (kcoeff d))"
  have t: "rev digs = coeff_text (kcoeff d)" using coeff_text_eq [of "kcoeff d"] by (simp add: digs_def)
  have l: "length digs = length (coeff_text (kcoeff d))" using arg_cong [OF t, of length] by simp
  have s: "(int (length digs) = 1 \<and> hd digs = 48) \<longleftrightarrow> kcoeff d = 0" using sign_text [OF digs_def] by simp
  have "emit_digits point 0 (rev digs) = take (nat point) (rev digs) @ [46] @ drop (nat point) (rev digs)"
    if "point = int (length digs) + kexp d" "\<not> 0 \<le> kexp d" "\<not> point \<le> 0" for point
    using emit_digits_point [of point 0 "rev digs"] that by simp
  then show ?thesis
    unfolding dec_text_def Let_def digs_def [symmetric] neg_text_def s by (auto simp: t l)
qed

lemma dec_text_length:
  "length (dec_text d) = length (neg_text d) +
     (let nd = length (coeff_text (kcoeff d)) in
      if kexp d \<ge> 0 then nd + nat (kexp d)
      else if int nd + kexp d \<le> 0 then nat (2 - kexp d) else nd + 1)"
  by (auto simp: dec_text_layout Let_def)

lemma filter_digits: "(\<And>b. b \<in> set ds \<Longrightarrow> is_digit b) \<Longrightarrow> filter is_digit ds = ds"
  by (simp add: filter_id_conv)

lemma is_digit_bytes [simp]: "is_digit 48" "\<not> is_digit 46" "\<not> is_digit 45"
  by (simp_all add: is_digit_def)

text \<open>How many digits the text has.\<close>

lemma dec_text_digit_count:
  "length (filter is_digit (dec_text d)) =
     (let nd = length (coeff_text (kcoeff d)) in
      if kexp d \<ge> 0 then nd + nat (kexp d)
      else if int nd + kexp d \<le> 0 then nat (1 - kexp d) else nd)"
proof -
  have f: "filter is_digit (coeff_text (kcoeff d)) = coeff_text (kcoeff d)"
    by (rule filter_digits) (rule coeff_text_digits)
  have g: "filter is_digit (take n (coeff_text (kcoeff d))) = take n (coeff_text (kcoeff d))"
    "filter is_digit (drop n (coeff_text (kcoeff d))) = drop n (coeff_text (kcoeff d))" for n
    by (rule filter_digits, meson coeff_text_digits in_set_takeD in_set_dropD)+
  show ?thesis by (auto simp: dec_text_layout Let_def neg_text_def f g)
qed

section \<open>Reading digits\<close>

lemma is_digit_range: "is_digit c \<Longrightarrow> c \<noteq> 95 \<and> c \<noteq> 46 \<and> c \<noteq> 101 \<and> c \<noteq> 69 \<and> c \<noteq> 43 \<and> c \<noteq> 45 \<and> c \<noteq> 32"
  by (auto simp: is_digit_def)

lemma digit_of_lt: "is_digit c \<Longrightarrow> digit_of c < 10"
  by (auto simp: is_digit_def digit_of_def word_le_nat_alt)

lemma parse_mant_digits:
  assumes "\<And>b. b \<in> set ds \<Longrightarrow> is_digit b" "p_digits st + length ds \<le> 34" "p_coeff st < 10 ^ p_digits st"
  shows "parse_mant st (ds @ rest) = parse_mant
     (st\<lparr>p_coeff := p_coeff st * 10 ^ length ds + digits_val ds, p_digits := p_digits st + length ds,
        p_frac := (if p_dot st then p_frac st + int (length ds) else p_frac st)\<rparr>) rest"
  using assms
proof (induction ds arbitrary: st)
  case (Cons c ds)
  have c: "is_digit c" using Cons.prems(1) by simp
  have lt: "p_coeff st * 10 + digit_of c < 10 ^ Suc (p_digits st)"
    using Cons.prems(3) digit_of_lt [OF c] by simp
  also have "\<dots> \<le> (10 :: nat) ^ 34" using Cons.prems(2) by (intro power_increasing) simp_all
  finally have w: "wrap128 (p_coeff st * 10 + digit_of c) = p_coeff st * 10 + digit_of c"
    using small_pow10 [of 34] by (intro wrap128_id) linarith
  let ?st = "st\<lparr>p_coeff := p_coeff st * 10 + digit_of c, p_digits := Suc (p_digits st),
     p_frac := (if p_dot st then p_frac st + 1 else p_frac st)\<rparr>"
  have t: "take_digit st (digit_of c) = ?st"
    using Cons.prems(2) by (simp add: take_digit_def w KYTE_DEC128_MAX_DIGITS_def)
  have "parse_mant st ((c # ds) @ rest) = parse_mant ?st (ds @ rest)"
    using is_digit_range [OF c] c t by simp
  also have "\<dots> = parse_mant (?st\<lparr>p_coeff := p_coeff ?st * 10 ^ length ds + digits_val ds, p_digits := p_digits ?st + length ds,
        p_frac := (if p_dot ?st then p_frac ?st + int (length ds) else p_frac ?st)\<rparr>) rest"
    using Cons.prems lt by (intro Cons.IH) simp_all
  finally show ?case by (auto simp: digits_val_Cons algebra_simps)
qed simp

lemma parse_no_exponent: "parse_exponent e [] = Some e"
  by (simp add: parse_exponent_def)

lemma digits_val_lt: "(\<And>b. b \<in> set ds \<Longrightarrow> is_digit b) \<Longrightarrow> digits_val ds < 10 ^ length ds"
proof (induction ds rule: rev_induct)
  case (snoc c ds)
  then have "digits_val ds < 10 ^ length ds" "digit_of c < 10" by (simp_all add: digit_of_lt)
  then show ?case by simp
qed simp

text \<open>A plain run of digits, and one with a point in it.\<close>

lemma parse_plain:
  assumes "\<And>b. b \<in> set ds \<Longrightarrow> is_digit b" "length ds \<le> 34"
  shows "parse_mant parse_start ds
    = (parse_start\<lparr>p_coeff := digits_val ds, p_digits := length ds\<rparr>, [])"
  using parse_mant_digits [of ds parse_start "[]"] assms by (simp add: parse_start_def)

lemma parse_pointed:
  assumes "\<And>b. b \<in> set (xs @ ys) \<Longrightarrow> is_digit b" "length xs + length ys \<le> 34"
  shows "parse_mant parse_start (xs @ 46 # ys)
    = (parse_start\<lparr>p_coeff := digits_val (xs @ ys), p_digits := length xs + length ys, p_frac := int (length ys), p_dot := True\<rparr>, [])"
proof -
  let ?s1 = "parse_start\<lparr>p_coeff := digits_val xs, p_digits := length xs\<rparr>"
  let ?s2 = "?s1\<lparr>p_dot := True\<rparr>"
  have "parse_mant parse_start (xs @ 46 # ys) = parse_mant ?s1 (46 # ys)"
    using parse_mant_digits [of xs parse_start "46 # ys"] assms by (simp add: parse_start_def)
  also have "\<dots> = parse_mant ?s2 (ys @ [])" by (simp add: parse_start_def)
  also have "\<dots> = parse_mant (?s2\<lparr>p_coeff := p_coeff ?s2 * 10 ^ length ys + digits_val ys, p_digits := p_digits ?s2 + length ys,
        p_frac := (if p_dot ?s2 then p_frac ?s2 + int (length ys) else p_frac ?s2)\<rparr>) []"
  proof (rule parse_mant_digits)
    show "p_coeff ?s2 < 10 ^ p_digits ?s2"
      using assms(1) by (simp add: parse_start_def digits_val_lt)
  qed (use assms in \<open>simp_all add: parse_start_def\<close>)
  finally show ?thesis by (simp add: parse_start_def digits_val_append)
qed

section \<open>Reading back\<close>

lemma sign_branch:
  assumes "is_digit (hd ds)" "ds \<noteq> []"
  shows "dec_parse (Some (neg_text d @ ds)) =
    (case parse_mant parse_start ds of (st, rest) \<Rightarrow>
       (case parse_round st of (coeff, e) \<Rightarrow>
         (case parse_exponent e rest of None \<Rightarrow> Trap
          | Some e \<Rightarrow> Ok \<lparr>ksign = (ksign d \<and> kcoeff d \<noteq> 0), kcoeff = coeff, kexp = e, kspecial = False\<rparr>)))"
proof -
  obtain c cs where ds: "ds = c # cs" using assms(2) by (cases ds) auto
  have c: "c \<noteq> 32" "c \<noteq> 43" "c \<noteq> 45" using assms(1) is_digit_range [of c] by (simp_all add: ds)
  show ?thesis
  proof (cases "ksign d \<and> kcoeff d \<noteq> 0")
    case True
    then show ?thesis by (simp add: dec_parse_def neg_text_def Let_def ds split: prod.splits option.splits)
  next
    case False
    then have "neg_text d = []" by (simp add: neg_text_def)
    then show ?thesis using False c by (simp add: dec_parse_def Let_def ds split: prod.splits option.splits)
  qed
qed

text \<open>What the text of \<open>d\<close> reads back to: the same decimal, a positive exponent written out in zeros.\<close>

definition read_back :: "kdec \<Rightarrow> kdec" where
  "read_back d = \<lparr>ksign = (ksign d \<and> kcoeff d \<noteq> 0),
     kcoeff = (if kexp d \<ge> 0 then kcoeff d * 10 ^ nat (kexp d) else kcoeff d),
     kexp = min 0 (kexp d), kspecial = False\<rparr>"

lemma round_none: "p_round st = None \<Longrightarrow> parse_round st = (p_coeff st, - p_frac st)"
  by (simp add: parse_round_def Let_def)

text \<open>The three layouts of a text: zeros after the digits, zeros before them, a point between them.\<close>

lemma parse_whole_text:
  assumes few: "length (filter is_digit (dec_text d)) \<le> 34" and e: "kexp d \<ge> 0"
  shows "dec_parse (Some (dec_text d)) = Ok (read_back d)"
proof -
  let ?t = "coeff_text (kcoeff d)" and ?ds = "coeff_text (kcoeff d) @ replicate (nat (kexp d)) 48"
  have x: "dec_text d = neg_text d @ ?ds" using e by (simp add: dec_text_layout Let_def)
  have "length ?ds \<le> 34" using few e by (simp add: dec_text_digit_count Let_def)
  then have "parse_mant parse_start ?ds = (parse_start\<lparr>p_coeff := digits_val ?ds, p_digits := length ?ds\<rparr>, [])"
    using coeff_text_digits by (intro parse_plain) auto
  moreover have "is_digit (hd ?t)" using coeff_text_digits [OF hd_in_set] by simp
  ultimately show ?thesis
    using e coeff_text_digits sign_branch [of ?ds d] x
    by (simp add: round_none parse_start_def parse_no_exponent read_back_def digits_val_append)
qed

lemma parse_small_text:
  assumes few: "length (filter is_digit (dec_text d)) \<le> 34"
    and e: "kexp d < 0" "int (length (coeff_text (kcoeff d))) + kexp d \<le> 0"
  shows "dec_parse (Some (dec_text d)) = Ok (read_back d)"
proof -
  let ?t = "coeff_text (kcoeff d)"
  let ?ys = "replicate (nat (- (int (length ?t) + kexp d))) 48 @ ?t"
  have x: "dec_text d = neg_text d @ ([48] @ 46 # ?ys)" using e by (simp add: dec_text_layout Let_def)
  have l: "length ([48 :: u8]) + length ?ys \<le> 34" "int (length ?ys) = - kexp d"
    using few e by (simp_all add: dec_text_digit_count Let_def)
  have "is_digit b" if "b \<in> set ([48] @ ?ys)" for b using that coeff_text_digits by auto
  then have "parse_mant parse_start ([48] @ 46 # ?ys) = (parse_start\<lparr>p_coeff := digits_val ([48] @ ?ys),
      p_digits := length ([48 :: u8]) + length ?ys, p_frac := int (length ?ys), p_dot := True\<rparr>, [])"
    using l(1) by (intro parse_pointed) blast+
  moreover have "digits_val ([48] @ ?ys) = kcoeff d"
    using digits_val_append [of "[48]" ?ys] digits_val_zeros [of 1] by (simp add: digits_val_append coeff_text_digits)
  ultimately show ?thesis
    using e l(2) sign_branch [of "[48] @ 46 # ?ys" d] x
    by (simp add: round_none parse_start_def parse_no_exponent read_back_def)
qed

lemma parse_mixed_text:
  assumes few: "length (filter is_digit (dec_text d)) \<le> 34"
    and e: "kexp d < 0" "int (length (coeff_text (kcoeff d))) + kexp d > 0"
  shows "dec_parse (Some (dec_text d)) = Ok (read_back d)"
proof -
  define t where "t = coeff_text (kcoeff d)"
  have t: "\<And>b. b \<in> set t \<Longrightarrow> is_digit b" "t \<noteq> []" "digits_val t = kcoeff d"
    by (simp_all add: t_def coeff_text_digits)
  define k where "k = nat (int (length t) + kexp d)"
  have k: "0 < k" "k < length t" using e by (auto simp: k_def t_def)
  let ?xs = "take k t" and ?ys = "drop k t"
  have x: "dec_text d = neg_text d @ (?xs @ 46 # ?ys)" using e by (simp add: dec_text_layout t_def Let_def k_def)
  have l: "length ?xs + length ?ys \<le> 34" "int (length ?ys) = - kexp d"
    using few e k by (simp_all add: dec_text_digit_count t_def Let_def k_def)
  have "is_digit b" if "b \<in> set (?xs @ ?ys)" for b using that t(1) by simp
  then have "parse_mant parse_start (?xs @ 46 # ?ys) = (parse_start\<lparr>p_coeff := digits_val (?xs @ ?ys),
      p_digits := length ?xs + length ?ys, p_frac := int (length ?ys), p_dot := True\<rparr>, [])"
    using l(1) by (intro parse_pointed) blast+
  moreover have "hd (?xs @ 46 # ?ys) = hd t" using k t(2) by (cases t; cases k) simp_all
  moreover have "is_digit (hd t)" using t(1,2) by simp
  ultimately show ?thesis
    using e k l(2) sign_branch [of "?xs @ 46 # ?ys" d] x t(3)
    by (simp add: round_none parse_start_def parse_no_exponent read_back_def)
qed

lemma parse_dec_text:
  assumes "length (filter is_digit (dec_text d)) \<le> 34"
  shows "dec_parse (Some (dec_text d)) = Ok (read_back d)"
  using parse_whole_text [OF assms] parse_small_text [OF assms] parse_mixed_text [OF assms] by linarith

text \<open>A number of bytes that holds the text without overflowing the formatter's buffer.\<close>

lemma dec_text_fits:
  assumes "length (filter is_digit (dec_text d)) \<le> 34"
  shows "length (dec_text d) \<le> 36"
proof -
  have "length (neg_text d) \<le> 1" by (simp add: neg_text_def)
  then show ?thesis using assms by (auto simp: dec_text_length dec_text_digit_count Let_def split: if_splits)
qed

lemma to_string_object:
  assumes "good_heap P h" "kyte_decimal_to_string P h p site = Ok (q, h1)" "q \<noteq> 0" "\<not> kspecial (dec_decode (mem h) p)"
  shows "kyte_string h1 q (dec_text (dec_decode (mem h) p))"
proof -
  let ?t = "dec_text (dec_decode (mem h) p)"
  have "kyte_from_bytes P h (Buf ?t) (int (length ?t)) site = Ok (q, h1)"
    using assms(2,4) by (simp add: kyte_decimal_to_string_def Let_def split: if_splits)
  from from_bytes_string [OF assms(1) this assms(3)] show ?thesis by simp
qed

lemma decode_not_negative: "0 \<le> kcoeff (dec_decode m p)" "- 6176 \<le> kexp (dec_decode m p)"
  by (simp_all add: dec_decode_def dec_unpack_def Let_def KYTE_DEC128_BIAS_def)

text \<open>Parsing live bytes: one allocation, then the parse of the bytes as they were before it.\<close>

lemma from_string_n_eq:
  assumes good: "good_heap P h" and live: "src_ok h (At q) n" "rd (mem h) q n = bs" "q \<noteq> 0" "0 < n"
    and al: "kyte_bytes_alloc P h 16 site = (r, k)"
  shows "kyte_decimal_from_string_n P h q (int n) site =
    (if r = 0 then Trap
     else bind_outcome (dec_parse (Some bs))
       (\<lambda>d. Ok (r, k\<lparr>mem := wr (mem k) r (le_bytes 16 (kyte_dec128_pack (ksign d) (kcoeff d) (kexp d)))\<rparr>)))"
proof -
  have "rd (mem k) q n = bs" if "r \<noteq> 0"
  proof -
    have "fresh_object h r 16 k" using kyte_bytes_alloc_fresh [OF _ _ _ _ al that] good by (simp add: good_heap_def)
    then show ?thesis using src_bytes_fresh [OF live(1), of r 16 k] live(2) by simp
  qed
  then show ?thesis using live(3,4) by (simp add: kyte_decimal_from_string_n_def dec_parse_bounded_def al)
qed

lemma pack_decode:
  "kcoeff d < 2 ^ 113 \<Longrightarrow> - 6176 \<le> kexp d \<Longrightarrow> kexp d \<le> 6111 \<Longrightarrow> \<not> kspecial d \<Longrightarrow>
     dec_decode (wr m r (le_bytes 16 (kyte_dec128_pack (ksign d) (kcoeff d) (kexp d)))) r = d"
  by (simp add: dec_decode_def mem_simps dec_unpack_pack)

lemma read_back_coeff:
  assumes "length (filter is_digit (dec_text x)) \<le> 34"
  shows "kcoeff (read_back x) < 10 ^ 34"
proof -
  let ?n = "length (coeff_text (kcoeff x)) + nat (kexp x)"
  have "?n \<le> 34" using assms by (auto simp: dec_text_digit_count Let_def split: if_splits)
  then have n: "(10 :: nat) ^ ?n \<le> 10 ^ 34" by (intro power_increasing) simp_all
  have "kcoeff x < 10 ^ length (coeff_text (kcoeff x))"
    using digits_rev_bound [of "kcoeff x"] by (simp add: coeff_text_def)
  then have "kcoeff x * 10 ^ nat (kexp x) < 10 ^ ?n" by (simp add: power_add)
  moreover have "kcoeff (read_back x) = kcoeff x * 10 ^ nat (kexp x)" by (simp add: read_back_def)
  ultimately show ?thesis using n by linarith
qed

text \<open>
  Property C11 (dec_text_roundtrip).  A decimal formatted by \<^verbatim>\<open>kyte_decimal_to_string\<close> and
  parsed by \<^verbatim>\<open>kyte_decimal_from_string_n\<close> is the same decimal again (a positive exponent
  comes back written out as zeros, a negative zero as zero), whenever its text has at most 34
  digits: in particular the leading zeros of a fraction cost no digit of the coefficient there.
\<close>

theorem dec_text_roundtrip:
  assumes good: "good_heap P h" "good_heap P h1"
    and d: "\<not> kspecial (dec_decode (mem h) p)" "length (filter is_digit (dec_text (dec_decode (mem h) p))) \<le> 34"
    and t: "kyte_decimal_to_string P h p site = Ok (q, h1)" "q \<noteq> 0"
    and live: "blocks h1 (q - 8) = Some (length (dec_text (dec_decode (mem h) p)) + 9)"
    and f: "kyte_decimal_from_string_n P h1 q (sint (hdr_len h1 q)) site' = Ok (r, h2)"
  shows "dec_decode (mem h2) r = read_back (dec_decode (mem h) p)"
proof -
  define x where "x = dec_decode (mem h) p"
  let ?t = "dec_text x" and ?y = "read_back x"
  have str: "kyte_string h1 q ?t" using to_string_object [OF good(1) t d(1)] by (simp add: x_def)
  have "length ?t \<le> 36" using dec_text_fits d(2) by (simp add: x_def)
  then have len: "sint (hdr_len h1 q) = int (length ?t)"
    using str sint32_of_int [of "int (length ?t)"] by (simp add: kyte_string_def)
  have pos: "0 < length ?t" using d(2) by (auto simp: dec_text_layout Let_def)
  have src: "src_ok h1 (At q) (length ?t)" "rd (mem h1) q (length ?t) = ?t"
    using live str by (auto simp: x_def kyte_string_def intro!: exI [of _ "q - 8"])
  obtain r' k where al: "kyte_bytes_alloc P h1 16 site' = (r', k)" by fastforce
  have "dec_parse (Some ?t) = Ok ?y" using parse_dec_text d(2) by (simp add: x_def)
  then have "r = r'" and m: "mem h2 = wr (mem k) r (le_bytes 16 (kyte_dec128_pack (ksign ?y) (kcoeff ?y) (kexp ?y)))"
    using f from_string_n_eq [OF good(2) src t(2) pos al] by (auto simp: len split: if_splits)
  have "kcoeff ?y < 10 ^ 34" using read_back_coeff d(2) by (simp add: x_def)
  also have "(10 :: nat) ^ 34 < 2 ^ 113" by simp
  finally show ?thesis
    using decode_not_negative(2) [of "mem h" p] unfolding m x_def [symmetric]
    by (intro pack_decode) (simp_all add: read_back_def x_def)
qed

text \<open>The heap that holds one packed decimal at 64.\<close>

definition decimal_heap :: "kdec \<Rightarrow> heap" where
  "decimal_heap d = heap0\<lparr>mem := wr (mem heap0) 64 (le_bytes 16 (kyte_dec128_pack (ksign d) (kcoeff d) (kexp d)))\<rparr>"

lemma decimal_heap_good: "good_heap str_platform (decimal_heap d) \<and> blocks (decimal_heap d) = Map.empty \<and> arena_start (decimal_heap d) = 0"
proof -
  have "heap_ok (decimal_heap d) = heap_ok heap0" by (rule heap_ok_cong) (simp_all add: decimal_heap_def)
  then show ?thesis by (simp add: good_heap_def str_platform_sound heap0_ok no_empty_blocks_def) (simp add: decimal_heap_def heap0_def)
qed

theorem dec_text_roundtrip_witness:
  "\<exists>h h1 h2. dec_decode (mem h) 64 = \<lparr>ksign = True, kcoeff = 25, kexp = - 1, kspecial = False\<rparr>
     \<and> kyte_decimal_to_string str_platform h 64 0 = Ok (4104, h1) \<and> kyte_string h1 4104 [45, 50, 46, 53]
     \<and> kyte_decimal_from_string_n str_platform h1 4104 4 0 = Ok (8200, h2)
     \<and> dec_decode (mem h2) 8200 = \<lparr>ksign = True, kcoeff = 25, kexp = - 1, kspecial = False\<rparr>"
proof -
  let ?d = "\<lparr>ksign = True, kcoeff = 25, kexp = - 1, kspecial = False\<rparr>"
  let ?t = "[45, 50, 46, 53] :: bytes"
  define h where "h = decimal_heap ?d"
  have good: "good_heap str_platform h" and z: "blocks h = Map.empty" "arena_start h = 0"
    using decimal_heap_good by (simp_all add: h_def)
  have d: "dec_decode (mem h) 64 = ?d"
    using pack_decode [of ?d "mem heap0" 64] by (simp add: h_def decimal_heap_def)
  have t: "dec_text ?d = ?t"
    by (simp add: dec_text_def dec_digs.simps [of 25] dec_digs.simps [of 2] dec_digs.simps [of 0] Let_def)
  obtain h1 where fb: "kyte_from_bytes str_platform h (Buf ?t) 4 0 = Ok (4104, h1)"
    and b: "blocks h1 = [4096 \<mapsto> 13]" "arena_start h1 = 0"
    using from_bytes_block [of str_platform 4 h 4096 "Buf ?t" 0] z by (auto simp: str_platform_malloc)
  have src: "src_ok h (Buf ?t) (nat 4)" by simp
  from from_bytes_string [OF good fb _ src] have k: "fresh_object h 4104 5 h1" "kyte_string h1 4104 ?t" by simp_all
  have good1: "good_heap str_platform h1"
    using k(1) b by (simp add: good_heap_def str_platform_sound no_empty_blocks_def fresh_object_def)
  have ts: "kyte_decimal_to_string str_platform h 64 0 = Ok (4104, h1)"
    using fb by (simp add: kyte_decimal_to_string_def d t)
  have len: "sint (hdr_len h1 4104) = 4" "rd (mem h1) 4104 4 = ?t"
    using k(2) by (simp_all add: kyte_string_def numeral_eq_Suc)
  obtain k where al: "kyte_bytes_alloc str_platform h1 16 0 = (8200, k)"
    using b by (simp add: kyte_bytes_alloc_def Let_def malloc_block_def HDR_def str_platform_malloc)
  have "src_ok h1 (At 4104) 4" using b by (auto intro!: exI [of _ 4096])
  moreover have "dec_parse (Some ?t) = Ok (read_back ?d)" using parse_dec_text [of ?d] by (simp add: t is_digit_def)
  ultimately obtain h2 where f: "kyte_decimal_from_string_n str_platform h1 4104 4 0 = Ok (8200, h2)"
    using from_string_n_eq [OF good1 _ len(2) _ _ al] by simp
  have "dec_decode (mem h2) 8200 = read_back (dec_decode (mem h) 64)"
    using f by (intro dec_text_roundtrip [OF good good1 _ _ ts, of 0]) (simp_all add: d t is_digit_def b len)
  then show ?thesis using d ts k(2) f by (auto simp: read_back_def)
qed

section \<open>Where the text is not faithful\<close>

text \<open>
  The formatter's buffer holds 79 bytes and a NUL.  A decimal with a large exponent of either sign
  writes past it.
\<close>

lemma dec_text_overflow:
  assumes "kexp d \<ge> 80 \<or> kexp d \<le> - 113" "kcoeff d < 10 ^ 34"
  shows "length (dec_text d) \<ge> 80"
  using assms coeff_text_len [OF assms(2)] by (auto simp: dec_text_length Let_def)

lemma to_string_overflow:
  assumes "\<not> kspecial (dec_decode (mem h) p)" "kcoeff (dec_decode (mem h) p) < 10 ^ 34"
    and "kexp (dec_decode (mem h) p) \<ge> 80 \<or> kexp (dec_decode (mem h) p) \<le> - 113"
  shows "kyte_decimal_to_string P h p site = Trap"
  using dec_text_overflow [OF assms(3,2)] assms(1) by (simp add: kyte_decimal_to_string_def Let_def)

text \<open>
  Leading zeros count as significant digits: a literal with 34 of them loses what follows.
\<close>

lemma leading_zeros_swallow:
  "dec_parse (Some (48 # 46 # replicate 33 48 @ [52])) = Ok \<lparr>ksign = False, kcoeff = 0, kexp = - 33, kspecial = False\<rparr>"
proof -
  let ?s1 = "parse_start\<lparr>p_digits := 1, p_dot := True\<rparr>"
  have "parse_mant parse_start (48 # 46 # replicate 33 48 @ [52]) = parse_mant ?s1 (replicate 33 48 @ [52])"
    by (simp add: parse_start_def is_digit_def take_digit_def KYTE_DEC128_MAX_DIGITS_def digit_of_def wrap128_def)
  also have "\<dots> = parse_mant (?s1\<lparr>p_digits := 34, p_frac := 33\<rparr>) [52]"
    using parse_mant_digits [of "replicate 33 48" ?s1 "[52]"] by (simp add: parse_start_def)
  also have "\<dots> = (?s1\<lparr>p_digits := 34, p_frac := 33, p_round := Some 4\<rparr>, [])"
    by (simp add: parse_start_def is_digit_def take_digit_def KYTE_DEC128_MAX_DIGITS_def digit_of_def)
  finally show ?thesis
    by (simp add: dec_parse_def parse_round_def parse_no_exponent parse_start_def)
qed

text \<open>An exponent of eleven digits overflows the \<^verbatim>\<open>int\<close> it is accumulated in.\<close>

lemma exponent_overflow:
  "dec_parse (Some [49, 101, 57, 57, 57, 57, 57, 57, 57, 57, 57, 57]) = Trap"
  by (simp add: dec_parse_def Let_def parse_start_def is_digit_def take_digit_def KYTE_DEC128_MAX_DIGITS_def digit_of_def
      parse_round_def parse_exponent_def wrap128_def fits_int_def)

end
