(* ===== verification/Kyte_Fifo.thy ===== *)
theory Kyte_Fifo
  imports Kyte_Prelude
begin

text \<open>
  The queue contract.  Several parts of the runtime hand values from one side to another through a
  queue: the two rings of io_uring, the blocking and the asynchronous channel, the inbox of a
  reactor.  What their users rely on is the same each time, and is stated once: pushing appends or
  refuses, popping takes the oldest, and whatever else happens in between moves nothing.
\<close>

datatype 'r fifo_op = Push 'r | Pop | Other

text \<open>
  A run of operations, with what was accepted and what came out.  \<open>push\<close> and \<open>pop\<close> return None when
  the queue refuses or has nothing to give.
\<close>

fun fifo_run :: "('r \<Rightarrow> 's \<Rightarrow> 's option) \<Rightarrow> ('s \<Rightarrow> ('a \<times> 's) option) \<Rightarrow> ('s \<Rightarrow> 's) \<Rightarrow> 'r fifo_op list \<Rightarrow> 's
    \<Rightarrow> 'r list \<times> 'a list \<times> 's" where
  "fifo_run push pop other [] s = ([], [], s)"
| "fifo_run push pop other (Push x # ops) s =
     (case push x s of
        None \<Rightarrow> fifo_run push pop other ops s
      | Some s \<Rightarrow> (let (ins, outs, s) = fifo_run push pop other ops s in (x # ins, outs, s)))"
| "fifo_run push pop other (Pop # ops) s =
     (case pop s of
        None \<Rightarrow> fifo_run push pop other ops s
      | Some (y, s) \<Rightarrow> (let (ins, outs, s) = fifo_run push pop other ops s in (ins, y # outs, s)))"
| "fifo_run push pop other (Other # ops) s = fifo_run push pop other ops (other s)"

locale bounded_fifo =
  fixes inv :: "'s \<Rightarrow> bool"
    and items :: "'s \<Rightarrow> 'a list"
    and cap :: "'s \<Rightarrow> nat"
    and image :: "'r \<Rightarrow> 'a"
    and push :: "'r \<Rightarrow> 's \<Rightarrow> 's option"
    and pop :: "'s \<Rightarrow> ('a \<times> 's) option"
    and other :: "'s \<Rightarrow> 's"
  assumes bounded: "inv s \<Longrightarrow> length (items s) \<le> cap s"
    and push_full: "inv s \<Longrightarrow> push x s = None \<longleftrightarrow> length (items s) = cap s"
    and push_items: "inv s \<Longrightarrow> push x s = Some s' \<Longrightarrow> inv s' \<and> items s' = items s @ [image x] \<and> cap s' = cap s"
    and pop_items: "inv s \<Longrightarrow> pop s = Some (y, s') \<Longrightarrow> inv s' \<and> items s = y # items s' \<and> cap s' = cap s"
    and other_items: "inv s \<Longrightarrow> inv (other s) \<and> items (other s) = items s \<and> cap (other s) = cap s"
begin

text \<open>First in, first out, nothing lost, nothing invented.\<close>

lemma fifo:
  "inv s \<Longrightarrow> fifo_run push pop other ops s = (ins, outs, s') \<Longrightarrow>
     inv s' \<and> cap s' = cap s \<and> items s @ map image ins = outs @ items s'"
proof (induction ops arbitrary: s ins outs s')
  case (Cons op ops)
  show ?case
  proof (cases op)
    case (Push x)
    show ?thesis
    proof (cases "push x s")
      case None
      with Push Cons show ?thesis by simp
    next
      case (Some t)
      obtain ins' outs' where run: "fifo_run push pop other ops t = (ins', outs', s')" and i: "ins = x # ins'" "outs = outs'"
        using Cons.prems Push Some by (auto simp: Let_def split: prod.splits)
      show ?thesis using Cons.IH [OF _ run] push_items [OF Cons.prems(1) Some] i by simp
    qed
  next
    case Pop
    show ?thesis
    proof (cases "pop s")
      case None
      with Pop Cons show ?thesis by simp
    next
      case (Some r)
      obtain y t where r: "pop s = Some (y, t)" using Some by (cases r) simp
      obtain ins' outs' where run: "fifo_run push pop other ops t = (ins', outs', s')" and i: "ins = ins'" "outs = y # outs'"
        using Cons.prems Pop r by (auto simp: Let_def split: prod.splits)
      show ?thesis using Cons.IH [OF _ run] pop_items [OF Cons.prems(1) r] i by simp
    qed
  next
    case Other
    then show ?thesis using Cons.IH [of "other s"] Cons.prems other_items by simp
  qed
qed simp

end

end
