(* ===== verification/Kyte_Uring.thy ===== *)
theory Kyte_Uring
  imports Kyte_Fifo
begin

text \<open>
  \<^verbatim>\<open>src/runtime/uring.cpp\<close>: the io_uring backend.  A ring is a record whose index fields stand
  for the words the C pointers read and write in the mapping shared with the kernel; head and tail
  are 32-bit and wrap.  The kernel is a parameter: what \<^verbatim>\<open>io_uring_setup\<close>,
  \<^verbatim>\<open>mmap\<close> and \<^verbatim>\<open>io_uring_enter\<close> return.  The file descriptors and mappings a
  process holds are a record of two sets.
\<close>

section \<open>The ring\<close>

record sqe =
  opcode :: u8
  sqe_fd :: int
  sqe_addr :: u64
  sqe_len :: u32
  sqe_off :: u64
  poll32_events :: u32
  sqe_user_data :: u64

definition sqe_zero :: sqe where
  "sqe_zero = \<lparr>opcode = 0, sqe_fd = 0, sqe_addr = 0, sqe_len = 0, sqe_off = 0, poll32_events = 0, sqe_user_data = 0\<rparr>"

record cqe =
  cqe_user_data :: u64
  cqe_res :: int
  cqe_flags :: u32

record uring =
  ring_fd :: int
  sq_head :: u32
  sq_tail :: u32
  sq_mask :: u32
  sq_array :: "u32 list"
  sqes :: "sqe list"
  sq_entries :: u32
  sq_local_tail :: u32
  cq_head :: u32
  cq_tail :: u32
  cq_mask :: u32
  cqes :: "cqe list"
  cq_entries :: u32
  sq_ptr :: addr
  sq_sz :: nat
  cq_ptr :: addr
  cq_sz :: nat
  sqe_ptr :: addr
  sqe_sz :: nat

section \<open>Creation and destruction\<close>

text \<open>
  What the kernel reports in \<^verbatim>\<open>struct io_uring_params\<close>, as far as the code reads it, and the
  answers of the system calls.  \<open>ring_memory fd\<close> holds the words found behind the pointers into the
  fresh mappings.
\<close>

record uring_params =
  p_sq_entries :: u32
  p_cq_entries :: u32
  single_mmap :: bool
  sq_off_array :: nat
  cq_off_cqes :: nat

record resources =
  open_fds :: "int set"
  mappings :: "(addr \<times> nat) set"

datatype region = Sq_ring | Cq_ring | Sqes

record uring_os =
  os_setup :: "resources \<Rightarrow> u32 \<Rightarrow> int \<times> uring_params"
  os_ring_mmap :: "resources \<Rightarrow> region \<Rightarrow> nat \<Rightarrow> addr option"
  ring_memory :: "int \<Rightarrow> uring"

definition munmap :: "addr \<Rightarrow> nat \<Rightarrow> resources \<Rightarrow> resources" where
  "munmap a n s = s\<lparr>mappings := mappings s - {(a, n)}\<rparr>"

definition close_fd :: "int \<Rightarrow> resources \<Rightarrow> resources" where
  "close_fd fd s = s\<lparr>open_fds := open_fds s - {fd}\<rparr>"

definition uring_setup :: "uring_os \<Rightarrow> u32 \<Rightarrow> resources \<Rightarrow> int \<times> uring_params \<times> resources" where
  "uring_setup K entries s =
     (let (fd, p) = os_setup K s entries in
      (fd, p, if fd < 0 then s else s\<lparr>open_fds := insert fd (open_fds s)\<rparr>))"

definition ring_mmap :: "uring_os \<Rightarrow> region \<Rightarrow> nat \<Rightarrow> resources \<Rightarrow> addr option \<times> resources" where
  "ring_mmap K reg n s =
     (case os_ring_mmap K s reg n of
        None \<Rightarrow> (None, s)
      | Some a \<Rightarrow> (Some a, s\<lparr>mappings := insert (a, n) (mappings s)\<rparr>))"

definition kyte_uring_available :: "uring_os \<Rightarrow> resources \<Rightarrow> int \<times> resources" where
  "kyte_uring_available K s =
     (let (fd, _, s) = uring_setup K 4 s in if fd < 0 then (0, s) else (1, close_fd fd s))"

definition sizeof_unsigned :: nat where "sizeof_unsigned = 4"
definition sizeof_sqe :: nat where "sizeof_sqe = 64"
definition sizeof_cqe :: nat where "sizeof_cqe = 16"

definition kyte_uring_create :: "uring_os \<Rightarrow> int \<Rightarrow> resources \<Rightarrow> uring option \<times> resources" where
  "kyte_uring_create K entries s =
     (let entries = (if entries \<le> 0 then 64 else entries);
          (fd, p, s) = uring_setup K (word_of_int entries) s in
      if fd < 0 then (None, s)
      else
        (let sq = sq_off_array p + unat (p_sq_entries p) * sizeof_unsigned;
             cq = cq_off_cqes p + unat (p_cq_entries p) * sizeof_cqe;
             sq = (if single_mmap p \<and> cq > sq then cq else sq);
             cq = (if single_mmap p then sq else cq);
             (sqm, s) = ring_mmap K Sq_ring sq s in
         case sqm of
           None \<Rightarrow> (None, close_fd fd s)
         | Some sqp \<Rightarrow>
             (let (cqm, s) = (if single_mmap p then (Some sqp, s) else ring_mmap K Cq_ring cq s) in
              case cqm of
                None \<Rightarrow> (None, close_fd fd (munmap sqp sq s))
              | Some cqp \<Rightarrow>
                  (let n = unat (p_sq_entries p) * sizeof_sqe;
                       (em, s) = ring_mmap K Sqes n s in
                   case em of
                     None \<Rightarrow>
                       (let s = (if cqp \<noteq> sqp then munmap cqp cq s else s) in
                        (None, close_fd fd (munmap sqp sq s)))
                   | Some ep \<Rightarrow>
                       (Some ((ring_memory K fd)\<lparr>ring_fd := fd, sq_entries := p_sq_entries p, cq_entries := p_cq_entries p,
                          sq_local_tail := sq_tail (ring_memory K fd),
                          sq_ptr := sqp, sq_sz := sq, cq_ptr := cqp, cq_sz := cq, sqe_ptr := ep, sqe_sz := n\<rparr>), s)))))"

definition kyte_uring_fd :: "uring option \<Rightarrow> int" where
  "kyte_uring_fd ring = (case ring of None \<Rightarrow> - 1 | Some r \<Rightarrow> ring_fd r)"

definition kyte_uring_destroy :: "uring option \<Rightarrow> resources \<Rightarrow> resources" where
  "kyte_uring_destroy ring s =
     (case ring of
        None \<Rightarrow> s
      | Some r \<Rightarrow>
          (let s = (if sqe_ptr r \<noteq> 0 then munmap (sqe_ptr r) (sqe_sz r) s else s);
               s = (if cq_ptr r \<noteq> 0 \<and> cq_ptr r \<noteq> sq_ptr r then munmap (cq_ptr r) (cq_sz r) s else s);
               s = (if sq_ptr r \<noteq> 0 then munmap (sq_ptr r) (sq_sz r) s else s) in
           if ring_fd r \<ge> 0 then close_fd (ring_fd r) s else s))"

section \<open>Submission\<close>

text \<open>The arguments of \<^verbatim>\<open>kyte_uring_prep\<close> and the opcodes the runtime uses (kernel ABI).\<close>

record request =
  rq_op :: int
  rq_fd :: int
  rq_addr :: int
  rq_len :: int
  rq_off :: int
  rq_user_data :: int

definition IORING_OP_POLL_ADD :: int where "IORING_OP_POLL_ADD = 6"
definition IORING_OP_POLL_REMOVE :: int where "IORING_OP_POLL_REMOVE = 7"
definition IORING_OP_TIMEOUT :: int where "IORING_OP_TIMEOUT = 11"
definition IORING_OP_ACCEPT :: int where "IORING_OP_ACCEPT = 13"
definition IORING_OP_ASYNC_CANCEL :: int where "IORING_OP_ASYNC_CANCEL = 14"
definition IORING_OP_CONNECT :: int where "IORING_OP_CONNECT = 16"
definition IORING_OP_SEND :: int where "IORING_OP_SEND = 26"
definition IORING_OP_RECV :: int where "IORING_OP_RECV = 27"

definition sqe_of :: "request \<Rightarrow> sqe" where
  "sqe_of q =
     (let e = sqe_zero\<lparr>opcode := word_of_int (rq_op q), sqe_fd := rq_fd q, sqe_addr := word_of_int (rq_addr q),
                sqe_len := word_of_int (rq_len q), sqe_off := word_of_int (rq_off q)\<rparr>;
          e = (if rq_op q = IORING_OP_POLL_ADD then e\<lparr>sqe_off := 0, poll32_events := word_of_int (rq_off q)\<rparr> else e) in
      e\<lparr>sqe_user_data := word_of_int (rq_user_data q)\<rparr>)"

text \<open>A slot outside the mapped arrays is a fault.\<close>

definition uring_prep :: "uring \<Rightarrow> request \<Rightarrow> (int \<times> uring) outcome" where
  "uring_prep r q =
     (if sq_local_tail r - sq_head r \<ge> sq_entries r then Ok (- 1, r)
      else
        (let index = sq_local_tail r AND sq_mask r in
         if unat index \<ge> length (sqes r) \<or> unat index \<ge> length (sq_array r) then Trap
         else Ok (0, r\<lparr>sqes := (sqes r)[unat index := sqe_of q], sq_array := (sq_array r)[unat index := index],
                      sq_local_tail := sq_local_tail r + 1\<rparr>)))"

definition kyte_uring_prep :: "uring option \<Rightarrow> request \<Rightarrow> (int \<times> uring option) outcome" where
  "kyte_uring_prep ring q =
     (case ring of
        None \<Rightarrow> Ok (- 1, None)
      | Some r \<Rightarrow> bind_outcome (uring_prep r q) (\<lambda>(n, r). Ok (n, Some r)))"

text \<open>
  \<open>enter r to_submit min_complete flags\<close> is the system call: its result (a negative errno when it
  fails) and what it did to the shared ring.
\<close>

type_synonym enter = "uring \<Rightarrow> u32 \<Rightarrow> u32 \<Rightarrow> u32 \<Rightarrow> int \<times> uring"

definition IORING_ENTER_GETEVENTS :: u32 where "IORING_ENTER_GETEVENTS = 1"

definition sq_publish :: "uring \<Rightarrow> uring" where
  "sq_publish r = r\<lparr>sq_tail := sq_local_tail r\<rparr>"

definition uring_submit_and_wait :: "enter \<Rightarrow> uring \<Rightarrow> int \<Rightarrow> int \<times> uring" where
  "uring_submit_and_wait enter r wait_nr =
     (let prev = sq_tail r;
          r = sq_publish r;
          to_submit = sq_local_tail r - prev in
      if to_submit = 0 \<and> wait_nr = 0 then (0, r)
      else enter r to_submit (word_of_int (if wait_nr > 0 then wait_nr else 0))
             (if wait_nr > 0 then IORING_ENTER_GETEVENTS else 0))"

definition kyte_uring_submit_and_wait :: "enter \<Rightarrow> uring option \<Rightarrow> int \<Rightarrow> int \<times> uring option" where
  "kyte_uring_submit_and_wait enter ring wait_nr =
     (case ring of None \<Rightarrow> (- 1, None) | Some r \<Rightarrow> apsnd Some (uring_submit_and_wait enter r wait_nr))"

text \<open>\<^verbatim>\<open>struct __kernel_timespec\<close> and the timed wait; \<open>ts_addr\<close> is where the timespec lives.\<close>

record timespec =
  tv_sec :: int
  tv_nsec :: int

definition KYTE_URING_WAIT_TIMEOUT_DATA :: int where "KYTE_URING_WAIT_TIMEOUT_DATA = - 2"

definition wait_timespec :: "int \<Rightarrow> timespec" where
  "wait_timespec ms = \<lparr>tv_sec = ms div 1000, tv_nsec = (ms mod 1000) * 1000000\<rparr>"

definition wait_request :: "addr \<Rightarrow> int \<Rightarrow> request" where
  "wait_request ts_addr wait_nr = \<lparr>rq_op = IORING_OP_TIMEOUT, rq_fd = - 1, rq_addr = ts_addr, rq_len = 1,
     rq_off = (if wait_nr > 0 then wait_nr else 1), rq_user_data = KYTE_URING_WAIT_TIMEOUT_DATA\<rparr>"

definition kyte_uring_submit_and_wait_ms ::
    "enter \<Rightarrow> addr \<Rightarrow> uring option \<Rightarrow> timespec \<Rightarrow> int \<Rightarrow> int \<Rightarrow> (int \<times> uring option \<times> timespec) outcome" where
  "kyte_uring_submit_and_wait_ms enter ts_addr ring ts wait_nr ms =
     (if ms < 0 then (let (n, ring) = kyte_uring_submit_and_wait enter ring wait_nr in Ok (n, ring, ts))
      else
        (let ts = wait_timespec ms in
         bind_outcome (kyte_uring_prep ring (wait_request ts_addr wait_nr)) (\<lambda>(n, ring).
         bind_outcome
           (if n \<noteq> 0 then kyte_uring_prep (snd (kyte_uring_submit_and_wait enter ring 0)) (wait_request ts_addr wait_nr)
            else Ok (n, ring)) (\<lambda>(_, ring).
         let (n, ring) = kyte_uring_submit_and_wait enter ring wait_nr in Ok (n, ring, ts)))))"

section \<open>Completion\<close>

definition uring_cq_ready :: "uring \<Rightarrow> int" where
  "uring_cq_ready r = (let n = cq_tail r - cq_head r in if n > cq_entries r then 0 else sint n)"

definition kyte_uring_cq_ready :: "uring option \<Rightarrow> int" where
  "kyte_uring_cq_ready ring = (case ring of None \<Rightarrow> 0 | Some r \<Rightarrow> uring_cq_ready r)"

text \<open>The completion in slot \<open>head + i\<close>; None is a read outside the mapped array.\<close>

definition peek_cqe :: "uring \<Rightarrow> int \<Rightarrow> cqe option" where
  "peek_cqe r i =
     (let slot = unat ((cq_head r + word_of_int i) AND cq_mask r) in
      if slot < length (cqes r) then Some (cqes r ! slot) else None)"

definition kyte_uring_peek :: "uring option \<Rightarrow> int \<Rightarrow> (int \<times> (int \<times> int) option) outcome" where
  "kyte_uring_peek ring i =
     (case ring of
        None \<Rightarrow> Ok (- 1, None)
      | Some r \<Rightarrow> (case peek_cqe r i of None \<Rightarrow> Trap | Some e \<Rightarrow> Ok (0, Some (sint (cqe_user_data e), cqe_res e))))"

definition kyte_uring_peek_flags :: "uring option \<Rightarrow> int \<Rightarrow> u32 outcome" where
  "kyte_uring_peek_flags ring i =
     (case ring of
        None \<Rightarrow> Ok 0
      | Some r \<Rightarrow> (case peek_cqe r i of None \<Rightarrow> Trap | Some e \<Rightarrow> Ok (cqe_flags e)))"

definition uring_advance :: "uring \<Rightarrow> int \<Rightarrow> uring" where
  "uring_advance r n = (if n \<le> 0 then r else r\<lparr>cq_head := cq_head r + word_of_int n\<rparr>)"

definition kyte_uring_advance :: "uring option \<Rightarrow> int \<Rightarrow> uring option" where
  "kyte_uring_advance ring n = map_option (\<lambda>r. uring_advance r n) ring"

section \<open>The backend of the process\<close>

definition KYTE_BACKEND_EPOLL :: int where "KYTE_BACKEND_EPOLL = 0"
definition KYTE_BACKEND_URING :: int where "KYTE_BACKEND_URING = 1"

text \<open>\<open>cached\<close> is the function's static variable, \<open>sel\<close> the environment variable KYTE_REACTOR.\<close>

definition kyte_reactor_backend ::
    "uring_os \<Rightarrow> string option \<Rightarrow> int \<Rightarrow> resources \<Rightarrow> int \<times> int \<times> resources" where
  "kyte_reactor_backend K sel cached s =
     (if cached \<ge> 0 then (cached, cached, s)
      else
        (let want_uring = (sel = Some ''uring'' \<or> sel = Some ''io_uring'');
             (avail, s) = (if want_uring then kyte_uring_available K s else (0, s));
             cached = (if want_uring \<and> avail \<noteq> 0 then KYTE_BACKEND_URING else KYTE_BACKEND_EPOLL) in
         (cached, cached, s)))"

text \<open>The capped trace: whether one call prints, and the budget it leaves.\<close>

definition kyte_uring_dbg_word :: "bool \<Rightarrow> int \<Rightarrow> bool \<times> int" where
  "kyte_uring_dbg_word on budget =
     (if \<not> on then (False, budget) else (budget > 0, budget - 1))"

end
