(* ===== verification/Kyte_Uring_Props.thy ===== *)
theory Kyte_Uring_Props
  imports Kyte_Uring
begin

text \<open>
  The two rings are queues.  Head and tail are 32-bit counters that wrap; with a power of two of
  entries the slot of the \<open>i\<close>-th element is the same function of the counters on both sides of the
  wrap, so staging, publishing and the kernel's consuming never lose, reorder or overwrite an entry.
  What breaks the chain is the count passed to the kernel after a failed submission.
\<close>

section \<open>Slots\<close>

definition slot :: "u32 \<Rightarrow> nat \<Rightarrow> nat \<Rightarrow> nat" where
  "slot h k i = (unat h + i) mod 2 ^ k"

lemma slot_index: "k \<le> 32 \<Longrightarrow> unat ((h + word_of_nat i) AND mask k :: u32) = slot h k i"
proof -
  assume k: "k \<le> 32"
  then have d: "(2 :: nat) ^ k dvd 2 ^ 32" by (intro le_imp_power_dvd)
  have "unat ((h + word_of_nat i) AND mask k :: u32) = unat (h + word_of_nat i) mod 2 ^ k"
    by (simp only: take_bit_eq_mask [symmetric] unsigned_take_bit_eq) (simp add: take_bit_eq_mod)
  also have "\<dots> = (unat h + i mod 2 ^ 32) mod 2 ^ 32 mod 2 ^ k"
    by (simp add: unat_word_ariths unat_of_nat take_bit_eq_mod)
  also have "\<dots> = (unat h + i mod 2 ^ 32) mod 2 ^ k" by (rule mod_mod_cancel [OF d])
  also have "\<dots> = (unat h + i mod 2 ^ 32 mod 2 ^ k) mod 2 ^ k" by (simp only: mod_add_right_eq)
  also have "i mod 2 ^ 32 mod 2 ^ k = i mod 2 ^ k" by (rule mod_mod_cancel [OF d])
  also have "(unat h + i mod 2 ^ k) mod 2 ^ k = (unat h + i) mod 2 ^ k" by (rule mod_add_right_eq)
  finally show ?thesis by (simp add: slot_def)
qed

lemma slot_less [simp]: "slot h k i < 2 ^ k"
  by (simp add: slot_def)

lemma slot_inj: "i < 2 ^ k \<Longrightarrow> j < 2 ^ k \<Longrightarrow> slot h k i = slot h k j \<longleftrightarrow> i = j"
proof -
  assume ij: "i < 2 ^ k" "j < 2 ^ k"
  have "i = j" if e: "slot h k i = slot h k j" "i \<le> j" "i < 2 ^ k" "j < 2 ^ k" for i j
  proof -
    have "(2 :: nat) ^ k dvd (unat h + j) - (unat h + i)"
      using e(1,2) mod_eq_dvd_iff_nat [of "unat h + i" "unat h + j" "2 ^ k"] by (simp add: slot_def)
    then have "(2 :: nat) ^ k dvd j - i" by simp
    then show ?thesis using e(2-4) by (meson diff_is_0_eq' dvd_imp_le le_antisym less_imp_diff_less not_less zero_less_diff)
  qed
  with ij show ?thesis by (metis nat_le_linear)
qed

lemma slot_Suc: "k \<le> 32 \<Longrightarrow> slot (h + 1) k i = slot h k (Suc i)"
proof -
  assume k: "k \<le> 32"
  have "slot (h + 1) k i = unat ((h + 1 + word_of_nat i) AND mask k :: u32)" by (rule slot_index [OF k, symmetric])
  also have "h + 1 + word_of_nat i = h + word_of_nat (Suc i)" by (simp add: algebra_simps)
  also have "unat ((h + word_of_nat (Suc i)) AND mask k) = slot h k (Suc i)" by (rule slot_index [OF k])
  finally show ?thesis .
qed

lemma count_inc: "unat (t - h) < 2 ^ 32 - 1 \<Longrightarrow> unat (t + 1 - h) = Suc (unat (t - h))" for t h :: u32
proof -
  assume a: "unat (t - h) < 2 ^ 32 - 1"
  have inc: "unat (x + 1) = Suc (unat x)" if "unat x < 2 ^ 32 - 1" for x :: u32
    using that by (simp add: unat_word_ariths)
  have "t + 1 - h = (t - h) + 1" by simp
  then show ?thesis using inc [OF a] by (simp only:)
qed

lemma count_dec: "t \<noteq> h \<Longrightarrow> unat (t - (h + 1)) = unat (t - h) - 1" for t h :: u32
proof -
  assume a: "t \<noteq> h"
  then have "t - h \<noteq> 0" by simp
  then have "unat (t - h - 1) = unat (t - h) - 1" by (rule unat_minus_one)
  moreover have "t - (h + 1) = t - h - 1" by (rule diff_diff_eq [symmetric])
  ultimately show ?thesis by (simp only:)
qed

lemma count_zero: "unat (t - h) = 0 \<longleftrightarrow> t = h" for t h :: u32
  by (simp add: unat_eq_0)

lemma tail_slot: "k \<le> 32 \<Longrightarrow> unat (t AND mask k) = slot h k (unat (t - h))" for t h :: u32
  using slot_index [of k h "unat (t - h)"] by simp

section \<open>The submission queue\<close>

text \<open>
  \<open>sq_ok k r\<close>: a ring of \<open>2 ^ k\<close> entries as the kernel sets it up, with at most that many staged
  and every staged index pointing at its own slot; what is published is part of what is staged.
\<close>

definition pending :: "uring \<Rightarrow> nat" where
  "pending r = unat (sq_local_tail r - sq_head r)"

definition published :: "uring \<Rightarrow> nat" where
  "published r = unat (sq_tail r - sq_head r)"

definition sq_ok :: "nat \<Rightarrow> uring \<Rightarrow> bool" where
  "sq_ok k r \<longleftrightarrow> k < 32 \<and> sq_entries r = 2 ^ k \<and> sq_mask r = mask k
     \<and> length (sqes r) = 2 ^ k \<and> length (sq_array r) = 2 ^ k
     \<and> pending r \<le> 2 ^ k \<and> published r \<le> pending r
     \<and> (\<forall>i<pending r. unat (sq_array r ! slot (sq_head r) k i) = slot (sq_head r) k i)"

definition sq_items :: "nat \<Rightarrow> uring \<Rightarrow> sqe list" where
  "sq_items k r = map (\<lambda>i. sqes r ! slot (sq_head r) k i) [0..<pending r]"

text \<open>What the kernel does with the next published entry, through the indirection array.\<close>

definition kernel_consume :: "uring \<Rightarrow> (sqe \<times> uring) option" where
  "kernel_consume r =
     (if sq_head r = sq_tail r then None
      else Some (sqes r ! unat (sq_array r ! unat (sq_head r AND sq_mask r)), r\<lparr>sq_head := sq_head r + 1\<rparr>))"

definition stage :: "request \<Rightarrow> uring \<Rightarrow> uring option" where
  "stage q r = (case uring_prep r q of Ok (n, r') \<Rightarrow> if n = 0 then Some r' else None | _ \<Rightarrow> None)"

lemma entries_unat: "k < 32 \<Longrightarrow> unat (2 ^ k :: u32) = 2 ^ k"
  using unat_of_nat [of "2 ^ k", where 'a = 32] power_strict_increasing [of k 32 "2 :: nat"] by simp

lemma full_iff: "sq_ok k r \<Longrightarrow> sq_local_tail r - sq_head r \<ge> sq_entries r \<longleftrightarrow> pending r = 2 ^ k"
  by (auto simp: sq_ok_def pending_def word_le_nat_alt entries_unat)

lemma uring_prep_ok:
  assumes "sq_ok k r"
  shows "uring_prep r q = (if pending r = 2 ^ k then Ok (- 1, r)
    else Ok (0, r\<lparr>sqes := (sqes r)[slot (sq_head r) k (pending r) := sqe_of q],
       sq_array := (sq_array r)[slot (sq_head r) k (pending r) := sq_local_tail r AND sq_mask r],
       sq_local_tail := sq_local_tail r + 1\<rparr>))"
proof -
  have k: "k < 32" "sq_mask r = mask k" "length (sqes r) = 2 ^ k" "length (sq_array r) = 2 ^ k"
    using assms by (simp_all add: sq_ok_def)
  have "unat (sq_local_tail r AND sq_mask r) = slot (sq_head r) k (pending r)"
    using tail_slot [of k "sq_local_tail r" "sq_head r"] k by (simp add: pending_def)
  moreover have "\<not> 2 ^ k \<le> slot (sq_head r) k (pending r)" by (simp add: not_le)
  ultimately show ?thesis using full_iff [OF assms] k by (simp add: uring_prep_def Let_def)
qed

lemma stage_items:
  assumes ok: "sq_ok k r" and st: "stage q r = Some r'"
  shows "sq_ok k r' \<and> sq_items k r' = sq_items k r @ [sqe_of q]"
proof -
  let ?s = "slot (sq_head r) k"
  have np: "pending r \<noteq> 2 ^ k" using st uring_prep_ok [OF ok, of q] by (auto simp: stage_def)
  have lt: "pending r < 2 ^ k" using ok np by (simp add: sq_ok_def)
  have k: "k < 32" using ok by (simp add: sq_ok_def)
  have r': "r' = r\<lparr>sqes := (sqes r)[?s (pending r) := sqe_of q],
      sq_array := (sq_array r)[?s (pending r) := sq_local_tail r AND sq_mask r], sq_local_tail := sq_local_tail r + 1\<rparr>"
    using st np uring_prep_ok [OF ok, of q] by (simp add: stage_def)
  have "(2 :: nat) ^ k \<le> 2 ^ 31" using k by (intro power_increasing) simp_all
  then have "pending r < 2 ^ 32 - 1" using lt by simp
  then have p: "pending r' = Suc (pending r)" by (simp add: r' pending_def count_inc)
  have own: "unat (sq_local_tail r AND sq_mask r) = ?s (pending r)"
    using tail_slot [of k "sq_local_tail r" "sq_head r"] ok by (simp add: pending_def sq_ok_def)
  have ne: "?s i \<noteq> ?s (pending r)" if "i < pending r" for i
    using that lt slot_inj [of i k "pending r" "sq_head r"] by simp
  have "unat (sq_array r' ! slot (sq_head r') k i) = slot (sq_head r') k i" if "i < pending r'" for i
  proof (cases "i = pending r")
    case True
    then show ?thesis using own ok by (simp add: r' sq_ok_def)
  next
    case False
    then have "i < pending r" using that p by simp
    then show ?thesis using ne [of i] ok by (simp add: r' sq_ok_def nth_list_update_neq)
  qed
  moreover have "published r' \<le> pending r'" using ok p by (simp add: r' published_def sq_ok_def)
  ultimately have "sq_ok k r'" using ok p lt by (simp add: sq_ok_def) (simp add: r')
  moreover have "sq_items k r' = sq_items k r @ [sqe_of q]"
  proof -
    have "sqes r' ! slot (sq_head r') k i = sqes r ! ?s i" if "i < pending r" for i
      using ne [OF that] by (simp add: r')
    moreover have "sqes r' ! slot (sq_head r') k (pending r) = sqe_of q" using ok by (simp add: r' sq_ok_def)
    ultimately show ?thesis by (simp add: sq_items_def p)
  qed
  ultimately show ?thesis ..
qed

lemma consume_items:
  assumes ok: "sq_ok k r" and c: "kernel_consume r = Some (e, r')"
  shows "sq_ok k r' \<and> sq_items k r = e # sq_items k r'"
proof -
  let ?s = "slot (sq_head r) k"
  have ne: "sq_head r \<noteq> sq_tail r" and e: "e = sqes r ! unat (sq_array r ! unat (sq_head r AND sq_mask r))"
    and r': "r' = r\<lparr>sq_head := sq_head r + 1\<rparr>"
    using c by (auto simp: kernel_consume_def split: if_splits)
  have k: "k < 32" "sq_mask r = mask k" using ok by (simp_all add: sq_ok_def)
  have p0: "0 < published r" using ne count_zero [of "sq_tail r" "sq_head r"] by (simp add: published_def)
  then have pp: "0 < pending r" using ok by (simp add: sq_ok_def)
  then have ne': "sq_local_tail r \<noteq> sq_head r" using count_zero [of "sq_local_tail r" "sq_head r"] by (simp add: pending_def)
  have p: "pending r' = pending r - 1" "published r' = published r - 1"
    using count_dec [OF ne'] count_dec [of "sq_tail r" "sq_head r"] ne by (simp_all add: r' pending_def published_def)
  have s: "slot (sq_head r') k i = ?s (Suc i)" for i using slot_Suc k by (simp add: r')
  have "unat (sq_head r AND sq_mask r) = ?s 0" using slot_index [of k "sq_head r" 0] k by simp
  then have e': "e = sqes r ! ?s 0" using e ok pp by (simp add: sq_ok_def)
  have "unat (sq_array r' ! ?s (Suc i)) = ?s (Suc i)" if "i < pending r'" for i
    using that p(1) ok by (simp add: r' sq_ok_def)
  moreover have "pending r' \<le> 2 ^ k" "published r' \<le> pending r'" using ok p by (auto simp: sq_ok_def)
  ultimately have "sq_ok k r'" using ok by (simp add: sq_ok_def s) (simp add: r')
  moreover have "sq_items k r = e # sq_items k r'"
  proof -
    have "[0..<pending r] = 0 # map Suc [0..<pending r']"
      using pp p(1) by (metis Suc_diff_1 map_Suc_upt upt_conv_Cons)
    then show ?thesis by (simp add: sq_items_def e' s o_def) (simp add: r')
  qed
  ultimately show ?thesis ..
qed

lemma publish_items:
  assumes "sq_ok k r"
  shows "sq_ok k (sq_publish r) \<and> sq_items k (sq_publish r) = sq_items k r"
  using assms by (simp add: sq_ok_def sq_items_def sq_publish_def pending_def published_def)

interpretation sq: bounded_fifo "sq_ok k" "sq_items k" "\<lambda>r. 2 ^ k" sqe_of stage kernel_consume sq_publish for k
proof
  fix r r' q e
  assume ok: "sq_ok k r"
  show "length (sq_items k r) \<le> 2 ^ k" using ok by (simp add: sq_items_def sq_ok_def)
  show "stage q r = None \<longleftrightarrow> length (sq_items k r) = 2 ^ k"
    using uring_prep_ok [OF ok, of q] by (simp add: stage_def sq_items_def)
  show "stage q r = Some r' \<Longrightarrow> sq_ok k r' \<and> sq_items k r' = sq_items k r @ [sqe_of q] \<and> (2 :: nat) ^ k = 2 ^ k"
    using stage_items [OF ok] by simp
  show "kernel_consume r = Some (e, r') \<Longrightarrow> sq_ok k r' \<and> sq_items k r = e # sq_items k r' \<and> (2 :: nat) ^ k = 2 ^ k"
    using consume_items [OF ok] by simp
  show "sq_ok k (sq_publish r) \<and> sq_items k (sq_publish r) = sq_items k r \<and> (2 :: nat) ^ k = 2 ^ k"
    using publish_items [OF ok] by simp
qed

section \<open>The completion queue\<close>

definition cq_count :: "uring \<Rightarrow> nat" where
  "cq_count r = unat (cq_tail r - cq_head r)"

definition cq_ok :: "nat \<Rightarrow> uring \<Rightarrow> bool" where
  "cq_ok k r \<longleftrightarrow> k < 31 \<and> cq_entries r = 2 ^ k \<and> cq_mask r = mask k \<and> length (cqes r) = 2 ^ k \<and> cq_count r \<le> 2 ^ k"

definition cq_items :: "nat \<Rightarrow> uring \<Rightarrow> cqe list" where
  "cq_items k r = map (\<lambda>i. cqes r ! slot (cq_head r) k i) [0..<cq_count r]"

text \<open>The kernel posts a completion when there is room; the client takes the oldest ready one.\<close>

definition kernel_post :: "cqe \<Rightarrow> uring \<Rightarrow> uring option" where
  "kernel_post e r =
     (if cq_tail r - cq_head r \<ge> cq_entries r then None
      else Some (r\<lparr>cqes := (cqes r)[unat (cq_tail r AND cq_mask r) := e], cq_tail := cq_tail r + 1\<rparr>))"

definition take_cqe :: "uring \<Rightarrow> (cqe \<times> uring) option" where
  "take_cqe r =
     (if uring_cq_ready r \<le> 0 then None
      else (case peek_cqe r 0 of None \<Rightarrow> None | Some e \<Rightarrow> Some (e, uring_advance r 1)))"

lemma cq_ready_count:
  assumes "cq_ok k r"
  shows "uring_cq_ready r = int (cq_count r)"
proof -
  have k: "k < 31" "cq_entries r = 2 ^ k" "cq_count r \<le> 2 ^ k" using assms by (simp_all add: cq_ok_def)
  have "(2 :: nat) ^ k \<le> 2 ^ 30" using k(1) by (intro power_increasing) simp_all
  then have lt: "cq_count r < 2 ^ 31" using k(3) by simp
  have "sint (cq_tail r - cq_head r) = int (cq_count r)"
  proof -
    have "cq_tail r - cq_head r = word_of_int (int (cq_count r))" by (simp add: cq_count_def)
    then show ?thesis using lt sint32_of_int [of "int (cq_count r)"] by simp
  qed
  moreover have "\<not> cq_tail r - cq_head r > cq_entries r"
    using k by (simp add: word_less_nat_alt entries_unat cq_count_def)
  ultimately show ?thesis by (simp add: uring_cq_ready_def Let_def)
qed

lemma peek_items:
  assumes "cq_ok k r" "i < cq_count r"
  shows "peek_cqe r (int i) = Some (cq_items k r ! i)"
proof -
  have "unat ((cq_head r + word_of_int (int i)) AND cq_mask r) = slot (cq_head r) k i"
    using slot_index [of k "cq_head r" i] assms(1) by (simp add: cq_ok_def)
  then show ?thesis using assms by (simp add: peek_cqe_def Let_def cq_items_def cq_ok_def)
qed

lemma post_items:
  assumes ok: "cq_ok k r" and st: "kernel_post e r = Some r'"
  shows "cq_ok k r' \<and> cq_items k r' = cq_items k r @ [e]"
proof -
  let ?s = "slot (cq_head r) k"
  have k: "k < 31" using ok by (simp add: cq_ok_def)
  have lt: "cq_count r < 2 ^ k"
    using st ok k by (auto simp: kernel_post_def cq_ok_def cq_count_def word_le_nat_alt entries_unat split: if_splits)
  have own: "unat (cq_tail r AND cq_mask r) = ?s (cq_count r)"
    using tail_slot [of k "cq_tail r" "cq_head r"] ok by (simp add: cq_count_def cq_ok_def)
  have r': "r' = r\<lparr>cqes := (cqes r)[?s (cq_count r) := e], cq_tail := cq_tail r + 1\<rparr>"
    using st own by (auto simp: kernel_post_def split: if_splits)
  have "(2 :: nat) ^ k \<le> 2 ^ 31" using k by (intro power_increasing) simp_all
  then have "cq_count r < 2 ^ 32 - 1" using lt by simp
  then have p: "cq_count r' = Suc (cq_count r)" by (simp add: r' cq_count_def count_inc)
  have "cqes r' ! slot (cq_head r') k i = cqes r ! ?s i" if "i < cq_count r" for i
  proof -
    have "?s i \<noteq> ?s (cq_count r)" using that lt slot_inj [of i k "cq_count r" "cq_head r"] by simp
    then show ?thesis by (simp add: r')
  qed
  moreover have "cqes r' ! slot (cq_head r') k (cq_count r) = e" using ok by (simp add: r' cq_ok_def)
  ultimately have "cq_items k r' = cq_items k r @ [e]" by (simp add: cq_items_def p)
  moreover have "cq_ok k r'" using ok p lt by (simp add: cq_ok_def) (simp add: r')
  ultimately show ?thesis by simp
qed

lemma skip_one:
  assumes ok: "cq_ok k r" and pos: "0 < cq_count r"
  shows "cq_ok k (r\<lparr>cq_head := cq_head r + 1\<rparr>) \<and> cq_items k r = cqes r ! slot (cq_head r) k 0 # cq_items k (r\<lparr>cq_head := cq_head r + 1\<rparr>)"
proof -
  let ?q = "r\<lparr>cq_head := cq_head r + 1\<rparr>"
  have k: "k \<le> 32" using ok by (simp add: cq_ok_def)
  have ne: "cq_tail r \<noteq> cq_head r" using pos count_zero [of "cq_tail r" "cq_head r"] by (simp add: cq_count_def)
  have c: "cq_count ?q = cq_count r - 1" using count_dec [OF ne] by (simp add: cq_count_def)
  moreover have "cq_count r \<le> 2 ^ k" using ok by (simp add: cq_ok_def)
  ultimately have "cq_count ?q \<le> 2 ^ k" by linarith
  then have "cq_ok k ?q" using ok by (simp add: cq_ok_def)
  moreover have "[0..<cq_count r] = 0 # map Suc [0..<cq_count ?q]"
    using pos c by (metis Suc_diff_1 map_Suc_upt upt_conv_Cons)
  ultimately show ?thesis by (simp add: cq_items_def slot_Suc [OF k] o_def)
qed

lemma advance_Suc: "uring_advance r (int (Suc n)) = (uring_advance r (int n))\<lparr>cq_head := cq_head (uring_advance r (int n)) + 1\<rparr>"
  by (simp add: uring_advance_def algebra_simps)

lemma advance_items:
  assumes ok: "cq_ok k r" and n: "n \<le> cq_count r"
  shows "cq_ok k (uring_advance r (int n)) \<and> cq_items k (uring_advance r (int n)) = drop n (cq_items k r)"
  using n
proof (induction n)
  case 0
  then show ?case using ok by (simp add: uring_advance_def)
next
  case (Suc n)
  define t where "t = uring_advance r (int n)"
  have IH: "cq_ok k t" "cq_items k t = drop n (cq_items k r)" using Suc by (simp_all add: t_def)
  have "cq_count t = cq_count r - n" using arg_cong [OF IH(2), of length] by (simp add: cq_items_def)
  then have pos: "0 < cq_count t" using Suc.prems by simp
  have "cq_items k (t\<lparr>cq_head := cq_head t + 1\<rparr>) = tl (drop n (cq_items k r))"
    using skip_one [OF IH(1) pos] IH(2) by (metis list.sel(3))
  then show ?case
    using skip_one [OF IH(1) pos] unfolding advance_Suc t_def [symmetric] by (simp add: drop_Suc drop_tl)
qed

interpretation cq: bounded_fifo "cq_ok k" "cq_items k" "\<lambda>r. 2 ^ k" "\<lambda>e. e" kernel_post take_cqe "\<lambda>r. r" for k
proof
  fix r r' e e'
  assume ok: "cq_ok k r"
  show "length (cq_items k r) \<le> 2 ^ k" using ok by (simp add: cq_items_def cq_ok_def)
  show "kernel_post e r = None \<longleftrightarrow> length (cq_items k r) = 2 ^ k"
    using ok by (auto simp: kernel_post_def cq_items_def cq_ok_def cq_count_def word_le_nat_alt entries_unat)
  show "kernel_post e r = Some r' \<Longrightarrow> cq_ok k r' \<and> cq_items k r' = cq_items k r @ [e] \<and> (2 :: nat) ^ k = 2 ^ k"
    using post_items [OF ok] by simp
  show "take_cqe r = Some (e', r') \<Longrightarrow> cq_ok k r' \<and> cq_items k r = e' # cq_items k r' \<and> (2 :: nat) ^ k = 2 ^ k"
  proof -
    assume t: "take_cqe r = Some (e', r')"
    then have c: "0 < cq_count r" using cq_ready_count [OF ok] by (auto simp: take_cqe_def split: if_splits)
    then have e: "e' = cq_items k r ! 0" "r' = uring_advance r 1"
      using t peek_items [OF ok c] by (auto simp: take_cqe_def split: if_splits)
    have "cq_items k r = cq_items k r ! 0 # drop 1 (cq_items k r)"
      using c Cons_nth_drop_Suc [of 0 "cq_items k r"] by (simp add: cq_items_def del: drop_map)
    then show ?thesis using e advance_items [OF ok, of 1] c by simp
  qed
qed simp

section \<open>The ring as two queues\<close>

text \<open>
  Property C12 (uring_fifo).  Whatever the runtime stages and publishes and however the kernel
  consumes in between, the kernel takes the staged requests in order, each exactly once and as it
  was staged; the ring refuses only when it is full, across the 32-bit wrap of head and tail.
\<close>

theorem uring_fifo:
  assumes "sq_ok k r" "fifo_run stage kernel_consume sq_publish ops r = (ins, outs, r')"
  shows "sq_items k r @ map sqe_of ins = outs @ sq_items k r' \<and> sq_ok k r'
    \<and> (\<forall>q. stage q r' = None \<longleftrightarrow> length (sq_items k r') = 2 ^ k)"
  using sq.fifo [OF assms] sq.push_full by blast

text \<open>
  The completions come out in the order the kernel posted them,
  \<^verbatim>\<open>kyte_uring_cq_ready\<close> counts them exactly, the \<open>i\<close>-th peek sees the \<open>i\<close>-th of
  them, and advancing by as many as were ready empties the queue.
\<close>

theorem uring_completions:
  assumes "cq_ok k r" "fifo_run kernel_post take_cqe (\<lambda>r. r) ops r = (ins, outs, r')"
  shows "cq_items k r @ ins = outs @ cq_items k r'
    \<and> uring_cq_ready r' = int (length (cq_items k r'))
    \<and> (\<forall>i<length (cq_items k r'). peek_cqe r' (int i) = Some (cq_items k r' ! i))
    \<and> cq_items k (uring_advance r' (uring_cq_ready r')) = []"
proof -
  have ok: "cq_ok k r'" and io: "cq_items k r @ ins = outs @ cq_items k r'" using cq.fifo [OF assms] by simp_all
  have n: "length (cq_items k r') = cq_count r'" by (simp add: cq_items_def)
  have "cq_items k (uring_advance r' (int (cq_count r'))) = []" using advance_items [OF ok, of "cq_count r'"] n by simp
  then show ?thesis using io n cq_ready_count [OF ok] peek_items [OF ok] by simp
qed

text \<open>A ring of two entries with its counters about to wrap.\<close>

definition demo_ring :: uring where
  "demo_ring = \<lparr>ring_fd = 3, sq_head = - 1, sq_tail = - 1, sq_mask = 1, sq_array = [0, 0], sqes = [sqe_zero, sqe_zero],
     sq_entries = 2, sq_local_tail = - 1, cq_head = - 1, cq_tail = - 1, cq_mask = 1,
     cqes = [\<lparr>cqe_user_data = 0, cqe_res = 0, cqe_flags = 0\<rparr>, \<lparr>cqe_user_data = 0, cqe_res = 0, cqe_flags = 0\<rparr>], cq_entries = 2,
     sq_ptr = 4096, sq_sz = 8, cq_ptr = 4096, cq_sz = 8, sqe_ptr = 8192, sqe_sz = 128\<rparr>"

lemma mask_1: "mask 1 = (1 :: u32)"
  by (simp add: mask_eq_decr_exp)

lemma demo_ring_ok: "sq_ok 1 demo_ring" "cq_ok 1 demo_ring"
  using mask_1 by (simp_all add: sq_ok_def cq_ok_def demo_ring_def pending_def published_def cq_count_def)

definition demo_request :: "int \<Rightarrow> request" where
  "demo_request ud = \<lparr>rq_op = IORING_OP_RECV, rq_fd = 5, rq_addr = 64, rq_len = 16, rq_off = 0, rq_user_data = ud\<rparr>"

theorem uring_fifo_witness:
  "\<exists>r'. fifo_run stage kernel_consume sq_publish
      [Push (demo_request 7), Push (demo_request 8), Push (demo_request 9), Other, Pop] demo_ring
        = ([demo_request 7, demo_request 8], [sqe_of (demo_request 7)], r')
      \<and> sq_items 1 r' = [sqe_of (demo_request 8)]"
proof -
  let ?ops = "[Push (demo_request 7), Push (demo_request 8), Push (demo_request 9), Other, Pop]"
  obtain r' where run: "fifo_run stage kernel_consume sq_publish ?ops demo_ring
      = ([demo_request 7, demo_request 8], [sqe_of (demo_request 7)], r')"
    by (simp add: stage_def uring_prep_def kernel_consume_def sq_publish_def demo_ring_def Let_def word_le_nat_alt)
  have "sq_items 1 demo_ring = []" by (simp add: sq_items_def pending_def demo_ring_def)
  with uring_fifo [OF demo_ring_ok(1) run] run show ?thesis by simp
qed

theorem uring_completions_witness:
  "\<exists>r'. fifo_run kernel_post take_cqe (\<lambda>r. r)
      [Push \<lparr>cqe_user_data = 7, cqe_res = 16, cqe_flags = 0\<rparr>, Push \<lparr>cqe_user_data = 8, cqe_res = - 110, cqe_flags = 0\<rparr>, Pop] demo_ring
        = ([\<lparr>cqe_user_data = 7, cqe_res = 16, cqe_flags = 0\<rparr>, \<lparr>cqe_user_data = 8, cqe_res = - 110, cqe_flags = 0\<rparr>],
           [\<lparr>cqe_user_data = 7, cqe_res = 16, cqe_flags = 0\<rparr>], r')
      \<and> uring_cq_ready r' = 1 \<and> peek_cqe r' 0 = Some \<lparr>cqe_user_data = 8, cqe_res = - 110, cqe_flags = 0\<rparr>"
proof -
  let ?a = "\<lparr>cqe_user_data = 7, cqe_res = 16, cqe_flags = 0\<rparr>" and ?b = "\<lparr>cqe_user_data = 8, cqe_res = - 110, cqe_flags = 0\<rparr>"
  obtain r' where run: "fifo_run kernel_post take_cqe (\<lambda>r. r) [Push ?a, Push ?b, Pop] demo_ring = ([?a, ?b], [?a], r')"
    by (simp add: kernel_post_def take_cqe_def uring_cq_ready_def peek_cqe_def uring_advance_def demo_ring_def Let_def
        word_le_nat_alt word_less_nat_alt)
  have e: "cq_items (Suc 0) demo_ring = []" by (simp add: cq_items_def cq_count_def demo_ring_def)
  have all: "[] @ [?a, ?b] = [?a] @ cq_items 1 r'" "uring_cq_ready r' = int (length (cq_items 1 r'))"
    "\<forall>i<length (cq_items 1 r'). peek_cqe r' (int i) = Some (cq_items 1 r' ! i)"
    using uring_completions [OF demo_ring_ok(2) run] by (simp_all add: e)
  then have "cq_items 1 r' = [?b]" by simp
  then show ?thesis using all run by auto
qed

section \<open>What is handed to the kernel\<close>

text \<open>The count passed to \<^verbatim>\<open>io_uring_enter\<close> is what was staged since the last publication.\<close>

lemma submit_count:
  assumes "sq_ok k r"
  shows "uring_submit_and_wait enter r w =
    (if pending r = published r \<and> w = 0 then (0, sq_publish r)
     else enter (sq_publish r) (word_of_nat (pending r - published r)) (word_of_int (if w > 0 then w else 0))
       (if w > 0 then IORING_ENTER_GETEVENTS else 0))"
proof -
  have le: "published r \<le> pending r" using assms by (simp add: sq_ok_def)
  have "sq_local_tail r - sq_tail r = (sq_local_tail r - sq_head r) - (sq_tail r - sq_head r)" by simp
  also have "\<dots> = word_of_nat (pending r - published r)"
    using le by (simp add: pending_def published_def of_nat_diff)
  finally have d: "sq_local_tail r - sq_tail r = word_of_nat (pending r - published r)" .
  have z: "sq_local_tail r - sq_tail r = 0 \<longleftrightarrow> pending r = published r"
  proof -
    have "pending r = published r \<longleftrightarrow> sq_local_tail r - sq_head r = sq_tail r - sq_head r"
      unfolding pending_def published_def by (rule word_eq_iff_unsigned [symmetric])
    then show ?thesis by simp
  qed
  show ?thesis unfolding uring_submit_and_wait_def Let_def by (simp add: sq_publish_def d z [unfolded d])
qed

text \<open>
  Property C13 (uring_submit_lost).  The count is taken from the published tail, not from what the
  kernel has consumed: when a submission fails (\<^verbatim>\<open>EINTR\<close>, \<^verbatim>\<open>EAGAIN\<close>,
  \<^verbatim>\<open>EBUSY\<close>) its entries are published but no later call counts them.  The next submission
  does not even enter the kernel, and after staging one more request only one of them is submitted.
\<close>

theorem uring_submit_lost:
  assumes ok: "sq_ok k r" and n: "published r = 0" "pending r = n" "0 < n"
    and fail: "\<And>to min flags. enter (sq_publish r) to min flags = (- e, sq_publish r)" "0 < e"
  shows "uring_submit_and_wait enter r w = (- e, sq_publish r)
    \<and> sq_items k (sq_publish r) = sq_items k r \<and> length (sq_items k r) = n
    \<and> (\<forall>enter'. uring_submit_and_wait enter' (sq_publish r) 0 = (0, sq_publish r))
    \<and> (\<forall>enter' q r2. stage q (sq_publish r) = Some r2 \<longrightarrow>
        uring_submit_and_wait enter' r2 0 = enter' (sq_publish r2) 1 0 0 \<and> length (sq_items k r2) = n + 1)"
proof (intro conjI allI impI)
  let ?p = "sq_publish r"
  show "uring_submit_and_wait enter r w = (- e, ?p)" using submit_count [OF ok] n fail by simp
  have ok': "sq_ok k ?p" and it: "sq_items k ?p = sq_items k r" using publish_items [OF ok] by simp_all
  then show "sq_items k ?p = sq_items k r" by simp
  show len: "length (sq_items k r) = n" using n by (simp add: sq_items_def)
  have pp: "published ?p = pending ?p" "pending ?p = n" using n by (simp_all add: published_def pending_def sq_publish_def)
  show "uring_submit_and_wait enter' ?p 0 = (0, ?p)" for enter'
    using submit_count [OF ok'] pp by (simp add: sq_publish_def)
  fix enter' q r2
  assume s: "stage q ?p = Some r2"
  then have r2: "sq_ok k r2" "sq_items k r2 = sq_items k r @ [sqe_of q]" using stage_items [OF ok' s] it by simp_all
  then show "length (sq_items k r2) = n + 1" using len by simp
  then have "pending r2 = n + 1" by (simp add: sq_items_def)
  moreover have "published r2 = published ?p"
    using s by (auto simp: stage_def uring_prep_def Let_def published_def split: if_splits)
  ultimately show "uring_submit_and_wait enter' r2 0 = enter' (sq_publish r2) 1 0 0"
    using submit_count [OF r2(1)] pp by simp
qed

theorem uring_submit_lost_witness:
  "\<exists>r. stage (demo_request 7) demo_ring = Some r
     \<and> uring_submit_and_wait (\<lambda>r to min flags. (- 4, r)) r 1 = (- 4, sq_publish r)
     \<and> uring_submit_and_wait (\<lambda>r to min flags. (int (unat to), r\<lparr>sq_head := sq_head r + to\<rparr>)) (sq_publish r) 0 = (0, sq_publish r)"
proof -
  obtain r where r: "stage (demo_request 7) demo_ring = Some r"
    by (simp add: stage_def uring_prep_def demo_ring_def Let_def)
  then have "sq_ok 1 r" using stage_items [OF demo_ring_ok(1)] by simp
  moreover have "published r = 0" "pending r = 1"
    using r by (auto simp: stage_def uring_prep_def demo_ring_def Let_def published_def pending_def)
  ultimately show ?thesis
    using uring_submit_lost [of 1 r 1 "\<lambda>r to min flags. (- 4, r)" 4 1] r by auto
qed

section \<open>Creation gives everything back\<close>

text \<open>The documented promise of the kernel: descriptors and mappings it hands out are new.\<close>

definition fresh_os :: "uring_os \<Rightarrow> bool" where
  "fresh_os K \<longleftrightarrow> (\<forall>s n. fst (os_setup K s n) \<ge> 0 \<longrightarrow> fst (os_setup K s n) \<notin> open_fds s)
     \<and> (\<forall>s reg n a. os_ring_mmap K s reg n = Some a \<longrightarrow> a \<noteq> 0 \<and> a \<notin> fst ` mappings s)"

text \<open>What creation took, and that giving it back in any order restores the process.\<close>

definition took :: "resources \<Rightarrow> int \<Rightarrow> (addr \<times> nat) set \<Rightarrow> resources" where
  "took s fd ms = s\<lparr>open_fds := insert fd (open_fds s), mappings := ms \<union> mappings s\<rparr>"

lemma took_munmap: "(a, n) \<notin> mappings s \<Longrightarrow> munmap a n (took s fd (insert (a, n) ms)) = took s fd (ms - {(a, n)})"
  by (simp add: took_def munmap_def Un_Diff)

lemma took_close: "fd \<notin> open_fds s \<Longrightarrow> close_fd fd (took s fd {}) = s"
  by (simp add: took_def close_fd_def)

lemma took_fds: "fd \<notin> open_fds s \<Longrightarrow> fd \<in> open_fds (took s fd ms) \<and> open_fds (took s fd ms) \<noteq> open_fds s"
  by (auto simp: took_def)

lemma setup_took: "os_setup K s n = (fd, p) \<Longrightarrow> uring_setup K n s = (fd, p, if fd < 0 then s else took s fd {})"
  by (simp add: uring_setup_def took_def)

lemma mmap_took:
  "ring_mmap K reg n (took s fd ms) =
     (case os_ring_mmap K (took s fd ms) reg n of None \<Rightarrow> (None, took s fd ms) | Some a \<Rightarrow> (Some a, took s fd (insert (a, n) ms)))"
  by (simp add: ring_mmap_def took_def split: option.split)

lemma mmap_fresh:
  assumes "fresh_os K" "os_ring_mmap K (took s fd ms) reg n = Some a"
  shows "a \<noteq> 0" "(a, m) \<notin> mappings s" "(b, j) \<in> ms \<Longrightarrow> b \<noteq> a"
proof -
  have "a \<noteq> 0 \<and> a \<notin> fst ` mappings (took s fd ms)" using assms unfolding fresh_os_def by blast
  then show "a \<noteq> 0" "(a, m) \<notin> mappings s" "(b, j) \<in> ms \<Longrightarrow> b \<noteq> a" by (force simp: took_def)+
qed

text \<open>What a creation that started from \<open>s\<close> owes: the old state, or a ring whose destruction restores it.\<close>

definition clean :: "resources \<Rightarrow> uring option \<times> resources \<Rightarrow> bool" where
  "clean s res \<longleftrightarrow> (case res of
      (None, s') \<Rightarrow> s' = s
    | (Some r, s') \<Rightarrow> kyte_uring_destroy (Some r) s' = s \<and> ring_fd r \<ge> 0 \<and> ring_fd r \<in> open_fds s' \<and> open_fds s' \<noteq> open_fds s)"

lemma took_munmap_two:
  assumes "(a, n) \<notin> mappings s" "(b, k) \<notin> mappings s" "b = a \<longrightarrow> k = n"
  shows "munmap a n (if b \<noteq> a then munmap b k (took s fd {(b, k), (a, n)}) else took s fd {(b, k), (a, n)}) = took s fd {}"
  using assms by (auto simp: took_munmap)

lemma clean_ring:
  assumes "0 \<le> ring_fd r" "ring_fd r \<notin> open_fds s" "sq_ptr r \<noteq> 0" "cq_ptr r \<noteq> 0" "sqe_ptr r \<noteq> 0"
    and "(sq_ptr r, sq_sz r) \<notin> mappings s" "(cq_ptr r, cq_sz r) \<notin> mappings s" "(sqe_ptr r, sqe_sz r) \<notin> mappings s"
    and "cq_ptr r = sq_ptr r \<longrightarrow> cq_sz r = sq_sz r" "sqe_ptr r \<noteq> sq_ptr r" "sqe_ptr r \<noteq> cq_ptr r"
  shows "clean s (Some r, took s (ring_fd r) {(sqe_ptr r, sqe_sz r), (cq_ptr r, cq_sz r), (sq_ptr r, sq_sz r)})"
proof -
  let ?t = "took s (ring_fd r) {(cq_ptr r, cq_sz r), (sq_ptr r, sq_sz r)}"
  have "munmap (sqe_ptr r) (sqe_sz r) (took s (ring_fd r) {(sqe_ptr r, sqe_sz r), (cq_ptr r, cq_sz r), (sq_ptr r, sq_sz r)}) = ?t"
    using assms(8,10,11) by (simp add: took_munmap insert_Diff_if)
  then have "kyte_uring_destroy (Some r) (took s (ring_fd r) {(sqe_ptr r, sqe_sz r), (cq_ptr r, cq_sz r), (sq_ptr r, sq_sz r)}) = s"
    using took_munmap_two [OF assms(6,7,9), of "ring_fd r"] assms(1-5) by (simp add: kyte_uring_destroy_def Let_def took_close)
  then show ?thesis using assms(1,2) took_fds [OF assms(2)] by (simp add: clean_def)
qed

text \<open>The last mapping, with both rings mapped.\<close>

lemma sqes_clean:
  assumes os: "fresh_os K" and fd: "0 \<le> fd" "fd \<notin> open_fds s" and ptr: "a \<noteq> 0" "b \<noteq> 0"
    and new: "(a, sq) \<notin> mappings s" "(b, cq) \<notin> mappings s" "b = a \<longrightarrow> cq = sq"
    and r: "\<And>c. ring_fd (r c) = fd \<and> sq_ptr (r c) = a \<and> sq_sz (r c) = sq \<and> cq_ptr (r c) = b \<and> cq_sz (r c) = cq
      \<and> sqe_ptr (r c) = c \<and> sqe_sz (r c) = n"
  shows "clean s (case ring_mmap K Sqes n (took s fd {(b, cq), (a, sq)}) of
      (None, s') \<Rightarrow> (None, close_fd fd (munmap a sq (if b \<noteq> a then munmap b cq s' else s')))
    | (Some c, s') \<Rightarrow> (Some (r c), s'))"
proof (cases "os_ring_mmap K (took s fd {(b, cq), (a, sq)}) Sqes n")
  case None
  then show ?thesis using took_munmap_two [OF new, of fd] took_close [OF fd(2)] by (simp add: mmap_took clean_def)
next
  case (Some c)
  note c = mmap_fresh [OF os Some]
  show ?thesis
    using clean_ring [of "r c" s] Some fd ptr new c(1,2) c(3) [of a sq] c(3) [of b cq] r [of c] by (auto simp: mmap_took)
qed

lemma create_clean:
  assumes os: "fresh_os K"
  shows "clean s (kyte_uring_create K entries s)"
proof -
  define n where "n = (if entries \<le> 0 then 64 else entries)"
  obtain fd p where su: "os_setup K s (word_of_int n) = (fd, p)" by (cases "os_setup K s (word_of_int n)")
  have fd: "fd \<notin> open_fds s" if "\<not> fd < 0"
    using os that fst_conv [of fd p] unfolding fresh_os_def su [symmetric] by (metis not_less)
  define sq where "sq = sq_off_array p + unat (p_sq_entries p) * sizeof_unsigned"
  define cq where "cq = cq_off_cqes p + unat (p_cq_entries p) * sizeof_cqe"
  define sq' where "sq' = (if single_mmap p \<and> cq > sq then cq else sq)"
  define cq' where "cq' = (if single_mmap p then sq' else cq)"
  note create = kyte_uring_create_def Let_def n_def [symmetric] setup_took [OF su] prod.case
    sq_def [symmetric] cq_def [symmetric] sq'_def [symmetric] cq'_def [symmetric]
  show ?thesis
  proof (cases "fd < 0 \<or> os_ring_mmap K (took s fd {}) Sq_ring sq' = None")
    case True
    then show ?thesis unfolding create by (auto simp: mmap_took clean_def took_close fd)
  next
    case False
    then obtain a where a: "os_ring_mmap K (took s fd {}) Sq_ring sq' = Some a" and pos: "\<not> fd < 0" by auto
    note fa = mmap_fresh [OF os a]
    note last = sqes_clean [OF os _ fd [OF pos] fa(1) _ fa(2)]
    show ?thesis
    proof (cases "single_mmap p")
      case True
      then show ?thesis unfolding create using pos a fa last [of a sq'] by (simp add: mmap_took cq'_def insert_absorb2 split_def option.case_distrib)
    next
      case apart: False
      show ?thesis
      proof (cases "os_ring_mmap K (took s fd {(a, sq')}) Cq_ring cq'")
        case None
        then show ?thesis unfolding create using pos apart a fa by (simp add: mmap_took clean_def took_munmap took_close fd)
      next
        case (Some b)
        note fb = mmap_fresh [OF os Some]
        show ?thesis unfolding create using pos apart a Some fb fb(3) [of a sq'] last [of b cq']
          by (simp add: mmap_took)
      qed
    qed
  qed
qed

text \<open>
  Property C14 (uring_create_clean).  When any of the three mappings fails, \<^verbatim>\<open>kyte_uring_create\<close>
  returns no ring and leaves the process with exactly the descriptors and mappings it had; when it
  succeeds, \<^verbatim>\<open>kyte_uring_destroy\<close> gives back exactly what it took, whether or not the two
  rings share one mapping.
\<close>

theorem uring_create_clean:
  assumes os: "fresh_os K"
  shows "case kyte_uring_create K entries s of
      (None, s') \<Rightarrow> s' = s
    | (Some r, s') \<Rightarrow> kyte_uring_destroy (Some r) s' = s \<and> ring_fd r \<ge> 0 \<and> ring_fd r \<in> open_fds s' \<and> open_fds s' \<noteq> open_fds s"
  using create_clean [OF os] by (simp add: clean_def)

definition demo_os :: "bool \<Rightarrow> uring_os" where
  "demo_os room = \<lparr>
     os_setup = (\<lambda>s n. (if 3 \<in> open_fds s then - 24 else 3, \<lparr>p_sq_entries = 2, p_cq_entries = 4, single_mmap = False,
       sq_off_array = 64, cq_off_cqes = 64\<rparr>)),
     os_ring_mmap = (\<lambda>s reg n. let a = (case reg of Sq_ring \<Rightarrow> 4096 | Cq_ring \<Rightarrow> 8192 | Sqes \<Rightarrow> 12288) in
       if a \<in> fst ` mappings s \<or> (reg = Sqes \<and> \<not> room) then None else Some a),
     ring_memory = (\<lambda>fd. demo_ring)\<rparr>"

lemma demo_os_fresh: "fresh_os (demo_os room)"
  by (auto simp: fresh_os_def demo_os_def Let_def split: region.splits if_splits)

theorem uring_create_clean_witness:
  "kyte_uring_create (demo_os False) 2 \<lparr>open_fds = {0}, mappings = {}\<rparr> = (None, \<lparr>open_fds = {0}, mappings = {}\<rparr>)
   \<and> (\<exists>r s'. kyte_uring_create (demo_os True) 2 \<lparr>open_fds = {0}, mappings = {}\<rparr> = (Some r, s')
       \<and> kyte_uring_destroy (Some r) s' = \<lparr>open_fds = {0}, mappings = {}\<rparr>)"
proof
  let ?s = "\<lparr>open_fds = {0 :: int}, mappings = {} :: (addr \<times> nat) set\<rparr>"
  have "fst (kyte_uring_create (demo_os False) 2 ?s) = None"
    by (simp add: kyte_uring_create_def uring_setup_def ring_mmap_def demo_os_def Let_def)
  then show "kyte_uring_create (demo_os False) 2 ?s = (None, ?s)"
    using uring_create_clean [OF demo_os_fresh [of False], where entries = 2 and s = ?s] by (auto split: prod.splits)
  have "fst (kyte_uring_create (demo_os True) 2 ?s) \<noteq> None"
    by (simp add: kyte_uring_create_def uring_setup_def ring_mmap_def demo_os_def Let_def)
  then show "\<exists>r s'. kyte_uring_create (demo_os True) 2 ?s = (Some r, s') \<and> kyte_uring_destroy (Some r) s' = ?s"
    using uring_create_clean [OF demo_os_fresh [of True], where entries = 2 and s = ?s] by (auto split: prod.splits option.splits)
qed

section \<open>The timed wait\<close>

text \<open>The timespec is normalised and spells the same time; the wait is the last entry staged.\<close>

lemma wait_timespec_exact:
  "0 \<le> tv_nsec (wait_timespec ms) \<and> tv_nsec (wait_timespec ms) < 1000000000
   \<and> tv_sec (wait_timespec ms) * 1000000000 + tv_nsec (wait_timespec ms) = ms * 1000000"
proof -
  have "(ms div 1000 * 1000 + ms mod 1000) * 1000000 = ms * 1000000" by simp
  then have "ms div 1000 * 1000000000 + ms mod 1000 * 1000000 = ms * 1000000" by (simp only: distrib_right mult.assoc)
  then show ?thesis by (simp add: wait_timespec_def)
qed

lemma timed_wait_staged:
  assumes ok: "sq_ok k r" and ms: "0 \<le> ms" and room: "length (sq_items k r) < 2 ^ k"
  shows "\<exists>r1. sq_items k r1 = sq_items k r @ [sqe_of (wait_request ts_addr w)]
    \<and> kyte_uring_submit_and_wait_ms enter ts_addr (Some r) ts w ms =
        (let (n, r2) = uring_submit_and_wait enter r1 w in Ok (n, Some r2, wait_timespec ms))"
proof -
  have "pending r \<noteq> 2 ^ k" using room by (simp add: sq_items_def)
  then obtain r1 where p: "uring_prep r (wait_request ts_addr w) = Ok (0, r1)"
    using uring_prep_ok [OF ok, of "wait_request ts_addr w"] by simp
  then have "sq_items k r1 = sq_items k r @ [sqe_of (wait_request ts_addr w)]"
    using stage_items [OF ok, of "wait_request ts_addr w" r1] by (simp add: stage_def)
  moreover have "kyte_uring_submit_and_wait_ms enter ts_addr (Some r) ts w ms =
      (let (n, r2) = uring_submit_and_wait enter r1 w in Ok (n, Some r2, wait_timespec ms))"
    using ms by (simp add: kyte_uring_submit_and_wait_ms_def Let_def kyte_uring_prep_def p kyte_uring_submit_and_wait_def
        split: prod.splits)
  ultimately show ?thesis by blast
qed

end
