(* ===== verification/Kyte_Sched.thy ===== *)
theory Kyte_Sched
  imports Kyte_Prelude
begin

text \<open>
  The coroutine scheduler of one reactor thread: the run queue, the awaiting parents, the detached
  set, the batch of reaped frames and the deadline table of
  \<^verbatim>\<open>src/runtime/concurrency.cpp\<close>.

  A coroutine handle is the address of its frame.  \<open>frames\<close> gives for each live frame whether its
  resume pointer is null (the coroutine has finished); a freed address has no entry, and touching it
  is \<open>Trap\<close>.  The compiled coroutine body is a parameter: what it calls when it is resumed, and
  whether it then finishes or suspends.  The null pointers \<^verbatim>\<open>g_detached\<close> and
  \<^verbatim>\<open>g_batch_reaped\<close> behave as empty sets; the null run queue is kept, because
  the first resume tests it.  Calls that leave the component are kept in a trace.
\<close>

section \<open>State\<close>

datatype event =
    Resumed addr | Destroyed addr | Released addr addr | Armed addr int | Cancelled addr

record deadline_entry =
  fired :: bool
  armed :: bool
  on_reactor :: bool
  deadline :: int

record sched =
  frames :: "addr \<Rightarrow> bool option"
  waiters :: "addr \<Rightarrow> addr option"
  held :: "nat \<Rightarrow> addr \<Rightarrow> (addr \<times> addr) list option"
  rq :: "addr list option"
  reactor_mode :: bool
  detached :: "addr set"
  batch_reaped :: "addr set"
  deadline_active :: bool
  current_kq :: int
  wadl :: "addr \<Rightarrow> deadline_entry option"
  resume_skipped :: nat
  trace :: "event list"

definition sched0 :: sched where
  "sched0 = \<lparr>frames = (\<lambda>_. None), waiters = (\<lambda>_. None), held = (\<lambda>_ _. None), rq = None, reactor_mode = False,
     detached = {}, batch_reaped = {}, deadline_active = False, current_kq = 0, wadl = (\<lambda>_. None),
     resume_skipped = 0, trace = []\<rparr>"

definition log_event :: "event \<Rightarrow> sched \<Rightarrow> sched" where
  "log_event e s = s\<lparr>trace := trace s @ [e]\<rparr>"

section \<open>Frames\<close>

definition raw_coro_done :: "sched \<Rightarrow> addr \<Rightarrow> bool outcome" where
  "raw_coro_done s h = (case frames s h of None \<Rightarrow> Trap | Some d \<Rightarrow> Ok d)"

text \<open>The call of the destroy function in the frame's second word.\<close>

definition coro_destroy :: "addr \<Rightarrow> sched \<Rightarrow> sched outcome" where
  "coro_destroy h s =
     (case frames s h of
        None \<Rightarrow> Trap
      | Some _ \<Rightarrow> Ok (log_event (Destroyed h) (s\<lparr>frames := (frames s)(h := None)\<rparr>)))"

section \<open>Held arguments\<close>

definition NSTRIPES :: u64 where "NSTRIPES = 64"

definition stripe_of :: "addr \<Rightarrow> nat" where
  "stripe_of handle =
     (let x = word_of_int handle :: u64;
          x = x XOR drop_bit 16 x;
          x = x * 0x9E3779B97F4A7C15;
          x = x XOR drop_bit 32 x in
      unat (x AND (NSTRIPES - 1)))"

definition kyte_coro_hold_arg :: "addr \<Rightarrow> addr \<Rightarrow> addr \<Rightarrow> sched \<Rightarrow> sched" where
  "kyte_coro_hold_arg coro ptr dtor s =
     (if coro = 0 \<or> ptr = 0 then s
      else
        (let st = held s (stripe_of coro);
             old = (case st coro of None \<Rightarrow> [] | Some xs \<Rightarrow> xs) in
         s\<lparr>held := (held s)(stripe_of coro := st(coro \<mapsto> old @ [(ptr, dtor)]))\<rparr>))"

fun release_all :: "(addr \<times> addr) list \<Rightarrow> sched \<Rightarrow> sched" where
  "release_all [] s = s"
| "release_all ((ptr, dtor) # hs) s = release_all hs (log_event (Released ptr dtor) s)"

definition kyte_coro_release_held :: "addr \<Rightarrow> sched \<Rightarrow> sched" where
  "kyte_coro_release_held coro s =
     (case held s (stripe_of coro) coro of
        None \<Rightarrow> s
      | Some hs \<Rightarrow> release_all hs (s\<lparr>held := (held s)(stripe_of coro := (held s (stripe_of coro))(coro := None))\<rparr>))"

section \<open>Awaiting\<close>

definition take_waiter :: "addr \<Rightarrow> sched \<Rightarrow> addr \<times> sched" where
  "take_waiter child s =
     (case waiters s child of None \<Rightarrow> (0, s) | Some w \<Rightarrow> (w, s\<lparr>waiters := (waiters s)(child := None)\<rparr>))"

definition kyte_register_waiter :: "addr \<Rightarrow> addr \<Rightarrow> sched \<Rightarrow> sched" where
  "kyte_register_waiter child parent s =
     (if child = 0 \<or> parent = 0 then s else s\<lparr>waiters := (waiters s)(child \<mapsto> parent)\<rparr>)"

definition kyte_await_future :: "addr \<Rightarrow> addr \<Rightarrow> sched \<Rightarrow> (int \<times> sched) outcome" where
  "kyte_await_future future waiter s =
     (if future = 0 then Ok (1, s)
      else bind_outcome (raw_coro_done s future) (\<lambda>d.
        if d then Ok (1, s)
        else Ok (0, if waiter \<noteq> 0 then s\<lparr>waiters := (waiters s)(future \<mapsto> waiter)\<rparr> else s)))"

text \<open>The scans over the handles of a \<^verbatim>\<open>when_any\<close>: the first finished one, the registrations.\<close>

fun first_done :: "sched \<Rightarrow> addr list \<Rightarrow> int \<Rightarrow> int outcome" where
  "first_done s [] i = Ok (- 1)"
| "first_done s (h # hs) i =
     (if h = 0 then first_done s hs (i + 1)
      else bind_outcome (raw_coro_done s h) (\<lambda>d. if d then Ok i else first_done s hs (i + 1)))"

fun unregister :: "addr \<Rightarrow> addr list \<Rightarrow> sched \<Rightarrow> sched" where
  "unregister self [] s = s"
| "unregister self (h # hs) s =
     unregister self hs (if waiters s h = Some self then s\<lparr>waiters := (waiters s)(h := None)\<rparr> else s)"

fun register_all :: "addr \<Rightarrow> addr list \<Rightarrow> sched \<Rightarrow> sched" where
  "register_all self [] s = s"
| "register_all self (h # hs) s =
     register_all self hs (if h \<noteq> 0 then s\<lparr>waiters := (waiters s)(h \<mapsto> self)\<rparr> else s)"

definition kyte_when_any :: "addr list \<Rightarrow> addr \<Rightarrow> sched \<Rightarrow> (int \<times> sched) outcome" where
  "kyte_when_any hs self s =
     bind_outcome (first_done s hs 0) (\<lambda>i.
       if i \<ge> 0 then Ok (i, unregister self hs s) else Ok (- 1, register_all self hs s))"

section \<open>Timers\<close>

definition kyte_reactor_set_timer :: "addr \<Rightarrow> int \<Rightarrow> sched \<Rightarrow> sched" where
  "kyte_reactor_set_timer handle ms s =
     (if handle = 0 then s else log_event (Armed handle ms) (s\<lparr>deadline_active := True\<rparr>))"

definition kyte_reactor_cancel_timer :: "addr \<Rightarrow> sched \<Rightarrow> sched" where
  "kyte_reactor_cancel_timer handle s = (if handle = 0 then s else log_event (Cancelled handle) s)"

definition kyte_await_timer :: "addr \<Rightarrow> int \<Rightarrow> sched \<Rightarrow> sched" where
  "kyte_await_timer handle ms s = (if handle = 0 then s else log_event (Armed handle ms) s)"

definition wadl_clear :: "addr \<Rightarrow> sched \<Rightarrow> sched" where
  "wadl_clear self s = s\<lparr>wadl := (wadl s)(self := None)\<rparr>"

definition wadl_disarm :: "addr list \<Rightarrow> addr \<Rightarrow> sched \<Rightarrow> sched" where
  "wadl_disarm hs self s = unregister self hs s"

definition deadline_entry0 :: deadline_entry where
  "deadline_entry0 = \<lparr>fired = False, armed = False, on_reactor = False, deadline = 0\<rparr>"

text \<open>
  \<^verbatim>\<open>kyte_when_any_deadline\<close>; \<open>t1\<close> and \<open>t2\<close> are what the monotonic clock answers when it is
  read to test the deadline and to arm the timer.
\<close>

definition timed_out :: "int \<Rightarrow> addr \<Rightarrow> sched \<Rightarrow> bool" where
  "timed_out t1 self s =
     (case wadl s self of
        None \<Rightarrow> False
      | Some e \<Rightarrow> armed e \<and> (if on_reactor e then t1 \<ge> deadline e else fired e))"

definition arm_deadline :: "int \<Rightarrow> int \<Rightarrow> addr \<Rightarrow> sched \<Rightarrow> sched" where
  "arm_deadline t2 ms self s =
     (let e = (case wadl s self of None \<Rightarrow> deadline_entry0 | Some e \<Rightarrow> e) in
      if \<not> armed e then
        (let d = (if ms < 0 then 0 else ms) in
         kyte_reactor_set_timer self d
           (s\<lparr>wadl := (wadl s)(self \<mapsto> e\<lparr>armed := True, on_reactor := True, deadline := t2 + d\<rparr>)\<rparr>))
      else if on_reactor e then
        (let remaining = deadline e - t2 in
         kyte_reactor_set_timer self (if remaining < 0 then 0 else remaining) (s\<lparr>wadl := (wadl s)(self \<mapsto> e)\<rparr>))
      else s)"

definition kyte_when_any_deadline ::
    "int \<Rightarrow> int \<Rightarrow> addr list \<Rightarrow> int \<Rightarrow> addr \<Rightarrow> sched \<Rightarrow> (int \<times> sched) outcome" where
  "kyte_when_any_deadline t1 t2 hs ms self s =
     bind_outcome (first_done s hs 0) (\<lambda>found.
       if found \<ge> 0 then
         (let s = unregister self hs s;
              s = (if current_kq s \<noteq> 0 then kyte_reactor_cancel_timer self s else s) in
          Ok (found, wadl_clear self s))
       else if timed_out t1 self s then Ok (- 2, wadl_disarm hs self (wadl_clear self s))
       else Ok (- 1, arm_deadline t2 ms self (register_all self hs s)))"

section \<open>The run queue\<close>

definition kyte_reactor_detach :: "addr \<Rightarrow> sched \<Rightarrow> sched" where
  "kyte_reactor_detach h s = s\<lparr>detached := insert h (detached s), batch_reaped := batch_reaped s - {h}\<rparr>"

definition kyte_reactor_batch_begin :: "sched \<Rightarrow> sched" where
  "kyte_reactor_batch_begin s = s\<lparr>batch_reaped := {}, deadline_active := False\<rparr>"

definition mark_reaped_this_batch :: "addr \<Rightarrow> sched \<Rightarrow> sched" where
  "mark_reaped_this_batch h s =
     (if \<not> reactor_mode s \<or> \<not> deadline_active s then s else s\<lparr>batch_reaped := insert h (batch_reaped s)\<rparr>)"

definition kyte_sched_schedule :: "addr \<Rightarrow> sched \<Rightarrow> sched outcome" where
  "kyte_sched_schedule handle s =
     (if handle = 0 then Ok s
      else bind_outcome (raw_coro_done s handle) (\<lambda>d.
        if d then Ok s
        else Ok (s\<lparr>rq := Some ((case rq s of None \<Rightarrow> [] | Some q \<Rightarrow> q) @ [handle])\<rparr>)))"

definition kyte_coro_release :: "addr \<Rightarrow> sched \<Rightarrow> sched outcome" where
  "kyte_coro_release handle s =
     (if handle = 0 then Ok s else coro_destroy handle (mark_reaped_this_batch handle s))"

definition kyte_sched_schedule_detached :: "addr \<Rightarrow> sched \<Rightarrow> sched outcome" where
  "kyte_sched_schedule_detached handle s =
     (if handle = 0 then Ok s
      else bind_outcome (raw_coro_done s handle) (\<lambda>d.
        if d then coro_destroy handle s else kyte_sched_schedule handle (kyte_reactor_detach handle s)))"

definition reactor_finish :: "addr \<Rightarrow> sched \<Rightarrow> sched outcome" where
  "reactor_finish h s =
     (let s = kyte_coro_release_held h s;
          (w, s) = take_waiter h s in
      if w \<noteq> 0 then (case rq s of None \<Rightarrow> Trap | Some q \<Rightarrow> Ok (s\<lparr>rq := Some (q @ [w])\<rparr>))
      else if h \<in> detached s then coro_destroy h (mark_reaped_this_batch h (s\<lparr>detached := detached s - {h}\<rparr>))
      else Ok s)"

section \<open>Compiled coroutines\<close>

text \<open>
  The runtime entries a coroutine body calls.  \<open>Spawn\<close> is the creation of a suspended frame at an
  address the allocator returns.
\<close>

datatype call =
    Spawn addr | Schedule addr | ScheduleDetached addr | Detach addr
  | Await addr addr | RegisterWaiter addr addr | WhenAny "addr list" addr
  | WhenAnyDeadline int int "addr list" int addr
  | ReleaseCoro addr | HoldArg addr addr addr
  | SetTimer addr int | CancelTimer addr | AwaitTimer addr int

definition drop_result :: "(int \<times> sched) outcome \<Rightarrow> sched outcome" where
  "drop_result r = bind_outcome r (\<lambda>(_, s). Ok s)"

fun run_call :: "call \<Rightarrow> sched \<Rightarrow> sched outcome" where
  "run_call (Spawn h) s = Ok (s\<lparr>frames := (frames s)(h := Some False)\<rparr>)"
| "run_call (Schedule h) s = kyte_sched_schedule h s"
| "run_call (ScheduleDetached h) s = kyte_sched_schedule_detached h s"
| "run_call (Detach h) s = Ok (kyte_reactor_detach h s)"
| "run_call (Await f w) s = drop_result (kyte_await_future f w s)"
| "run_call (RegisterWaiter c p) s = Ok (kyte_register_waiter c p s)"
| "run_call (WhenAny hs self) s = drop_result (kyte_when_any hs self s)"
| "run_call (WhenAnyDeadline t1 t2 hs ms self) s = drop_result (kyte_when_any_deadline t1 t2 hs ms self s)"
| "run_call (ReleaseCoro h) s = kyte_coro_release h s"
| "run_call (HoldArg c p d) s = Ok (kyte_coro_hold_arg c p d s)"
| "run_call (SetTimer h ms) s = Ok (kyte_reactor_set_timer h ms s)"
| "run_call (CancelTimer h) s = Ok (kyte_reactor_cancel_timer h s)"
| "run_call (AwaitTimer h ms) s = Ok (kyte_await_timer h ms s)"

fun run_calls :: "call list \<Rightarrow> sched \<Rightarrow> sched outcome" where
  "run_calls [] s = Ok s"
| "run_calls (c # cs) s = bind_outcome (run_call c s) (run_calls cs)"

type_synonym body = "sched \<Rightarrow> addr \<Rightarrow> call list \<times> bool"

definition raw_coro_resume :: "body \<Rightarrow> addr \<Rightarrow> sched \<Rightarrow> sched outcome" where
  "raw_coro_resume body h s =
     (case frames s h of
        Some False \<Rightarrow>
          (let (cs, finish) = body s h in
           bind_outcome (run_calls cs (log_event (Resumed h) s)) (\<lambda>s.
             if finish then (if frames s h = None then Trap else Ok (s\<lparr>frames := (frames s)(h := Some True)\<rparr>))
             else Ok s))
      | _ \<Rightarrow> Trap)"

text \<open>Resuming and, if that finished it, the end of the coroutine.\<close>

definition resume_and_finish :: "body \<Rightarrow> addr \<Rightarrow> sched \<Rightarrow> (bool \<times> sched) outcome" where
  "resume_and_finish body h s =
     bind_outcome (raw_coro_resume body h s) (\<lambda>s.
     bind_outcome (raw_coro_done s h) (\<lambda>d.
       if d then bind_outcome (reactor_finish h s) (\<lambda>s. Ok (True, s)) else Ok (False, s)))"

definition pump_one :: "body \<Rightarrow> addr \<Rightarrow> sched \<Rightarrow> sched outcome" where
  "pump_one body h s =
     bind_outcome (raw_coro_done s h) (\<lambda>d.
       if d then Ok s else bind_outcome (resume_and_finish body h s) (\<lambda>(_, s). Ok s))"

text \<open>The queue is driven until it is empty; None stands for a run that never ends.\<close>

partial_function (option) reactor_pump :: "body \<Rightarrow> sched \<Rightarrow> sched outcome option" where
  "reactor_pump body s =
     (case rq s of
        None \<Rightarrow> Some (Ok s)
      | Some [] \<Rightarrow> Some (Ok s)
      | Some (h # q) \<Rightarrow>
          (case pump_one body h (s\<lparr>rq := Some q\<rparr>) of
             Ok s \<Rightarrow> reactor_pump body s
           | Panic msg \<Rightarrow> Some (Panic msg)
           | Trap \<Rightarrow> Some Trap))"

definition enter_reactor :: "sched \<Rightarrow> sched" where
  "enter_reactor s = (case rq s of None \<Rightarrow> s\<lparr>rq := Some [], reactor_mode := True\<rparr> | Some _ \<Rightarrow> s)"

definition kyte_reactor_resume :: "body \<Rightarrow> addr \<Rightarrow> sched \<Rightarrow> (int \<times> sched) outcome option" where
  "kyte_reactor_resume body h s =
     (let s = enter_reactor s in
      if h \<in> batch_reaped s then Some (Ok (1, s\<lparr>resume_skipped := resume_skipped s + 1\<rparr>))
      else if h = 0 then Some (Ok (1, s))
      else
        (case raw_coro_done s h of
           Ok d \<Rightarrow>
             (if d then Some (Ok (1, s))
              else
                (case resume_and_finish body h s of
                   Ok (d, s) \<Rightarrow> map_option (\<lambda>r. bind_outcome r (\<lambda>s. Ok (if d then 1 else 0, s))) (reactor_pump body s)
                 | Panic msg \<Rightarrow> Some (Panic msg)
                 | Trap \<Rightarrow> Some Trap))
         | Panic msg \<Rightarrow> Some (Panic msg)
         | Trap \<Rightarrow> Some Trap))"

section \<open>Threads\<close>

text \<open>
  \<open>env\<close> is \<^verbatim>\<open>atoi\<close> of KYTE_THREADS when it is set, \<open>hw\<close> what
  \<^verbatim>\<open>hardware_concurrency\<close> answers.
\<close>

definition kyte_thread_count :: "int option \<Rightarrow> nat \<Rightarrow> nat" where
  "kyte_thread_count env hw =
     (case env of
        Some n \<Rightarrow> (if n > 0 then nat n else if hw \<le> 1 then 1 else if hw - 1 > 16 then 16 else hw - 1)
      | None \<Rightarrow> (if hw \<le> 1 then 1 else if hw - 1 > 16 then 16 else hw - 1))"

end
