(* ===== verification/Kyte_Sched_Props.thy ===== *)
theory Kyte_Sched_Props
  imports Kyte_Sched
begin

text \<open>
  What the scheduler promises to coroutines that keep to the protocol of \<^verbatim>\<open>await\<close>, and
  where it breaks.  A well-formed scheduler queues each live coroutine at most once and never one
  that is waiting; a coroutine keeps to the protocol when it only schedules, awaits and releases
  what it may.  Then no freed frame is touched and nobody is left waiting for a finished child.
\<close>

section \<open>Well-formed schedulers\<close>

definition queue :: "sched \<Rightarrow> addr list" where
  "queue s = (case rq s of None \<Rightarrow> [] | Some q \<Rightarrow> q)"

definition parked :: "sched \<Rightarrow> addr \<Rightarrow> bool" where
  "parked s p \<longleftrightarrow> (\<exists>c. waiters s c = Some p)"

definition sched_wf :: "sched \<Rightarrow> bool" where
  "sched_wf s \<longleftrightarrow> frames s 0 = None \<and> distinct (queue s)
     \<and> (\<forall>h\<in>set (queue s). frames s h = Some False)
     \<and> (\<forall>c p. waiters s c = Some p \<longrightarrow> frames s c = Some False \<and> frames s p = Some False \<and> p \<notin> set (queue s))
     \<and> (\<forall>c d p. waiters s c = Some p \<and> waiters s d = Some p \<longrightarrow> c = d)
     \<and> (\<forall>h\<in>detached s. frames s h = Some False \<and> waiters s h = None)"

definition running :: "addr \<Rightarrow> sched \<Rightarrow> bool" where
  "running cur s \<longleftrightarrow> sched_wf s \<and> rq s \<noteq> None \<and> frames s cur = Some False \<and> cur \<notin> set (queue s)"

definition may_run :: "sched \<Rightarrow> addr \<Rightarrow> bool" where
  "may_run s h \<longleftrightarrow> frames s h = Some False \<and> h \<notin> set (queue s) \<and> \<not> parked s h"

section \<open>The protocol of compiled coroutines\<close>

text \<open>
  What the code generated for an \<^verbatim>\<open>async fn\<close> does: it spawns into fresh frames, schedules what
  is neither queued nor waiting, awaits as itself a child nobody else awaits, and releases finished
  children; a detached coroutine is never awaited.  Awaiting several children at once is not part of it (see below).
\<close>

fun call_ok :: "addr \<Rightarrow> sched \<Rightarrow> call \<Rightarrow> bool" where
  "call_ok cur s (Spawn c) \<longleftrightarrow> c \<noteq> 0 \<and> frames s c = None"
| "call_ok cur s (Schedule c) \<longleftrightarrow> c = 0 \<or> frames s c = Some True \<or> (may_run s c \<and> c \<noteq> cur)"
| "call_ok cur s (ScheduleDetached c) \<longleftrightarrow> c = 0 \<or> frames s c = Some True
     \<or> (may_run s c \<and> c \<noteq> cur \<and> waiters s c = None)"
| "call_ok cur s (Detach c) \<longleftrightarrow> frames s c = Some False \<and> waiters s c = None"
| "call_ok cur s (Await f w) \<longleftrightarrow> f = 0 \<or> frames s f = Some True
     \<or> (w = cur \<and> frames s f = Some False \<and> f \<noteq> cur \<and> f \<notin> detached s \<and> waiters s f = None \<and> \<not> parked s cur)"
| "call_ok cur s (RegisterWaiter f w) \<longleftrightarrow> f = 0 \<or> w = 0
     \<or> (w = cur \<and> frames s f = Some False \<and> f \<noteq> cur \<and> f \<notin> detached s \<and> waiters s f = None \<and> \<not> parked s cur)"
| "call_ok cur s (WhenAny hs w) \<longleftrightarrow> False"
| "call_ok cur s (WhenAnyDeadline t1 t2 hs ms w) \<longleftrightarrow> False"
| "call_ok cur s (ReleaseCoro c) \<longleftrightarrow> c = 0 \<or> frames s c = Some True"
| "call_ok cur s (HoldArg c p d) \<longleftrightarrow> True"
| "call_ok cur s (SetTimer h ms) \<longleftrightarrow> True"
| "call_ok cur s (CancelTimer h) \<longleftrightarrow> True"
| "call_ok cur s (AwaitTimer h ms) \<longleftrightarrow> True"

fun calls_ok :: "addr \<Rightarrow> sched \<Rightarrow> call list \<Rightarrow> bool" where
  "calls_ok cur s [] \<longleftrightarrow> True"
| "calls_ok cur s (c # cs) \<longleftrightarrow> call_ok cur s c \<and> (\<forall>s'. run_call c s = Ok s' \<longrightarrow> calls_ok cur s' cs)"

definition body_ok :: "body \<Rightarrow> bool" where
  "body_ok body \<longleftrightarrow> (\<forall>s h cs fin. running h s \<and> \<not> parked s h \<and> body s h = (cs, fin) \<longrightarrow>
     calls_ok h (log_event (Resumed h) s) cs
     \<and> (fin \<longrightarrow> (\<forall>s'. run_calls cs (log_event (Resumed h) s) = Ok s' \<longrightarrow> \<not> parked s' h)))"

section \<open>Operations keep the scheduler well-formed\<close>

text \<open>Changes outside the five fields the invariant reads do not matter.\<close>

definition same_core :: "sched \<Rightarrow> sched \<Rightarrow> bool" where
  "same_core s t \<longleftrightarrow> frames s = frames t \<and> waiters s = waiters t \<and> rq s = rq t \<and> detached s = detached t"

lemma wf_core: "same_core s t \<Longrightarrow> sched_wf s = sched_wf t"
  by (simp add: same_core_def sched_wf_def queue_def)

lemma running_core: "same_core s t \<Longrightarrow> running cur s = running cur t"
  using wf_core [of s t] by (simp add: running_def same_core_def queue_def)

lemma parked_core: "same_core s t \<Longrightarrow> parked s = parked t"
  by (rule ext) (simp add: same_core_def parked_def)

lemma core_log [simp]: "same_core (log_event e s) s"
  by (simp add: same_core_def log_event_def)

lemma core_mark [simp]: "same_core (mark_reaped_this_batch h s) s"
  by (simp add: same_core_def mark_reaped_this_batch_def)

lemma core_release_all: "same_core (release_all hs s) s"
  by (induction hs s rule: release_all.induct) (simp_all add: same_core_def log_event_def)

lemma core_release_held: "same_core (kyte_coro_release_held h s) s"
proof (cases "held s (stripe_of h) h")
  case (Some hs)
  then show ?thesis
    using core_release_all [of hs "s\<lparr>held := (held s)(stripe_of h := (held s (stripe_of h))(h := None))\<rparr>"]
    by (simp add: kyte_coro_release_held_def same_core_def)
qed (simp add: kyte_coro_release_held_def same_core_def)

lemma running_schedule:
  assumes r: "running cur s" and ok: "c = 0 \<or> frames s c = Some True \<or> (may_run s c \<and> c \<noteq> cur)"
  shows "\<exists>s'. kyte_sched_schedule c s = Ok s' \<and> running cur s'"
proof (cases "c = 0 \<or> frames s c = Some True")
  case True
  then show ?thesis using r by (auto simp: kyte_sched_schedule_def raw_coro_done_def)
next
  case False
  then have c: "c \<noteq> 0" "frames s c = Some False" "c \<notin> set (queue s)" "\<not> parked s c" "c \<noteq> cur"
    using ok by (auto simp: may_run_def)
  obtain q where q: "rq s = Some q" using r by (auto simp: running_def)
  let ?s = "s\<lparr>rq := Some (q @ [c])\<rparr>"
  have "kyte_sched_schedule c s = Ok ?s" using c q by (simp add: kyte_sched_schedule_def raw_coro_done_def)
  moreover have "running cur ?s" using r c q by (auto simp: running_def sched_wf_def queue_def parked_def)
  ultimately show ?thesis by blast
qed

lemma wf_done:
  assumes "sched_wf s" "frames s c = Some True"
  shows "waiters s c = None" "\<not> parked s c" "c \<notin> set (queue s)" "c \<notin> detached s"
proof -
  show "waiters s c = None"
  proof (cases "waiters s c")
    case (Some p)
    then have "frames s c = Some False" using assms(1) unfolding sched_wf_def by blast
    then show ?thesis using assms(2) by simp
  qed
  show "\<not> parked s c"
  proof
    assume "parked s c"
    then have "frames s c = Some False" using assms(1) unfolding sched_wf_def parked_def by blast
    then show False using assms(2) by simp
  qed
  show "c \<notin> set (queue s)" "c \<notin> detached s" using assms by (auto simp: sched_wf_def)
qed

lemma wf_destroy:
  assumes w: "sched_wf s" and d: "frames s c = Some True"
  shows "sched_wf (s\<lparr>frames := (frames s)(c := None)\<rparr>)"
proof -
  note n = wf_done [OF w d]
  have "a \<noteq> c \<and> b \<noteq> c" if "waiters s a = Some b" for a b
    using n(1,2) that by (auto simp: parked_def)
  then show ?thesis using w n(3,4) unfolding sched_wf_def queue_def by auto
qed

lemma running_destroy:
  assumes r: "running cur s" and d: "frames s c = Some True"
  shows "\<exists>s'. coro_destroy c s = Ok s' \<and> running cur s'"
proof -
  let ?t = "s\<lparr>frames := (frames s)(c := None)\<rparr>"
  have "running cur ?t" using wf_destroy [of s c] r d by (auto simp: running_def queue_def)
  then have "running cur (log_event (Destroyed c) ?t)" using running_core [OF core_log] by simp
  then show ?thesis using d by (simp add: coro_destroy_def)
qed

lemma running_detach:
  "running cur s \<Longrightarrow> frames s c = Some False \<Longrightarrow> waiters s c = None \<Longrightarrow> running cur (kyte_reactor_detach c s)"
  by (simp add: kyte_reactor_detach_def running_def sched_wf_def queue_def)

lemma running_wait:
  assumes "running cur s" "frames s f = Some False" "f \<noteq> cur" "f \<notin> detached s" "waiters s f = None" "\<not> parked s cur"
  shows "running cur (s\<lparr>waiters := (waiters s)(f \<mapsto> cur)\<rparr>)"
  using assms by (auto simp: running_def sched_wf_def queue_def parked_def)

lemma running_detached_schedule:
  assumes r: "running cur s" and ok: "call_ok cur s (ScheduleDetached h)"
  shows "\<exists>s'. run_call (ScheduleDetached h) s = Ok s' \<and> running cur s'"
proof (cases "h = 0 \<or> frames s h = Some True")
  case True
  then show ?thesis using r running_destroy [OF r, of h]
    by (auto simp: kyte_sched_schedule_detached_def raw_coro_done_def)
next
  case False
  then have m: "may_run s h" "h \<noteq> cur" "waiters s h = None" using ok by auto
  let ?t = "kyte_reactor_detach h s"
  have "running cur ?t" using running_detach [OF r] m by (simp add: may_run_def)
  moreover have "may_run ?t h" using m by (simp add: may_run_def kyte_reactor_detach_def queue_def parked_def)
  ultimately obtain s' where "kyte_sched_schedule h ?t = Ok s'" "running cur s'"
    using running_schedule [of cur ?t h] m by blast
  then show ?thesis using False m
    by (simp add: kyte_sched_schedule_detached_def raw_coro_done_def may_run_def)
qed

lemma run_call_running:
  assumes r: "running cur s" and ok: "call_ok cur s c"
  shows "\<exists>s'. run_call c s = Ok s' \<and> running cur s'"
proof (cases c)
  case (Spawn h)
  then have "running cur (s\<lparr>frames := (frames s)(h := Some False)\<rparr>)"
    using r ok by (auto simp: running_def sched_wf_def queue_def split: option.splits)
  with Spawn show ?thesis by simp
next
  case (Schedule h)
  then show ?thesis using running_schedule [OF r] ok by simp
next
  case (ScheduleDetached h)
  then show ?thesis using running_detached_schedule [OF r] ok by simp
next
  case (Detach h)
  then show ?thesis using running_detach [OF r] ok by simp
next
  case (Await f w)
  then show ?thesis using r ok running_wait [OF r, of f]
    by (auto simp: kyte_await_future_def raw_coro_done_def drop_result_def)
next
  case (RegisterWaiter f w)
  then show ?thesis using r ok running_wait [OF r, of f] by (auto simp: kyte_register_waiter_def)
next
  case (ReleaseCoro h)
  have m: "running cur (mark_reaped_this_batch h s)" using running_core [OF core_mark] r by simp
  have "frames (mark_reaped_this_batch h s) h = frames s h" by (simp add: mark_reaped_this_batch_def)
  then show ?thesis using ReleaseCoro ok r running_destroy [OF m, of h] by (auto simp: kyte_coro_release_def)
next
  case (HoldArg h p d)
  then show ?thesis using r running_core [of "kyte_coro_hold_arg h p d s" s cur]
    by (simp add: kyte_coro_hold_arg_def same_core_def Let_def)
next
  case (SetTimer h ms)
  then show ?thesis using r running_core [of "kyte_reactor_set_timer h ms s" s cur]
    by (simp add: kyte_reactor_set_timer_def same_core_def log_event_def)
next
  case (CancelTimer h)
  then show ?thesis using r running_core [of "kyte_reactor_cancel_timer h s" s cur]
    by (simp add: kyte_reactor_cancel_timer_def same_core_def log_event_def)
next
  case (AwaitTimer h ms)
  then show ?thesis using r running_core [of "kyte_await_timer h ms s" s cur]
    by (simp add: kyte_await_timer_def same_core_def log_event_def)
qed (use ok in simp_all)

lemma run_calls_running: "running cur s \<Longrightarrow> calls_ok cur s cs \<Longrightarrow> \<exists>s'. run_calls cs s = Ok s' \<and> running cur s'"
proof (induction cs arbitrary: s)
  case (Cons c cs)
  then obtain t where "run_call c s = Ok t" "running cur t" using run_call_running by (meson calls_ok.simps(2))
  then show ?case using Cons by auto
qed simp

text \<open>The end of a coroutine that is neither queued nor waiting.\<close>

text \<open>Marking the running coroutine finished: with its waiter queued, or with nobody waiting.\<close>

lemma finished_wakes:
  assumes s: "sched_wf s" "rq s = Some q" "h \<notin> set q" "frames s h = Some False" "waiters s h = Some w" and np: "\<not> parked s h"
    and t: "frames t = (frames s)(h := Some True)" "waiters t = (waiters s)(h := None)" "rq t = Some (q @ [w])" "detached t = detached s"
  shows "sched_wf t"
proof -
  have q: "queue s = q" "queue t = q @ [w]" using s(2) t(3) by (simp_all add: queue_def)
  have hp: "b \<noteq> h" if "waiters s a = Some b" for a b using np that by (auto simp: parked_def)
  have w: "frames s w = Some False" "w \<notin> set q" "w \<noteq> h"
    using s(1,5) q(1) hp [OF s(5)] unfolding sched_wf_def by auto
  have p: "p \<noteq> w" if "waiters s c = Some p" "c \<noteq> h" for c p
    using s(1,5) that unfolding sched_wf_def by metis
  show ?thesis
    unfolding sched_wf_def
  proof (intro conjI)
    show "frames t 0 = None" using s by (auto simp: t sched_wf_def)
    show "distinct (queue t)" using s w q by (simp add: sched_wf_def)
    show "\<forall>x\<in>set (queue t). frames t x = Some False" using s w q by (auto simp: sched_wf_def t)
    show "\<forall>c d p. waiters t c = Some p \<and> waiters t d = Some p \<longrightarrow> c = d" using s by (auto simp: sched_wf_def t)
    show "\<forall>x\<in>detached t. frames t x = Some False \<and> waiters t x = None" using s by (auto simp: sched_wf_def t)
    show "\<forall>c p. waiters t c = Some p \<longrightarrow> frames t c = Some False \<and> frames t p = Some False \<and> p \<notin> set (queue t)"
      using s(1) q hp p unfolding sched_wf_def by (auto simp: t split: if_splits)
  qed
qed

lemma finished_alone:
  assumes s: "sched_wf s" "rq s = Some q" "h \<notin> set q" "frames s h = Some False" "waiters s h = None" and np: "\<not> parked s h"
    and t: "frames t = (frames s)(h := Some True)" "waiters t = waiters s" "rq t = rq s" "detached t = detached s - {h}"
  shows "sched_wf t"
proof -
  have hp: "b \<noteq> h" if "waiters s a = Some b" for a b using np that by (auto simp: parked_def)
  have "frames t c = Some False" if "waiters s c = Some p" for c p
    using s(1,5) that unfolding sched_wf_def t by auto
  moreover have "frames t p = Some False \<and> p \<notin> set (queue t)" if "waiters s c = Some p" for c p
    using s(1) hp [OF that] that unfolding sched_wf_def t queue_def by auto
  ultimately show ?thesis using s unfolding sched_wf_def t queue_def by auto
qed

lemma finish_wf:
  assumes r: "running h s" and np: "\<not> parked s h"
  shows "\<exists>s'. reactor_finish h (s\<lparr>frames := (frames s)(h := Some True)\<rparr>) = Ok s' \<and> sched_wf s' \<and> rq s' \<noteq> None"
proof -
  define t where "t = kyte_coro_release_held h (s\<lparr>frames := (frames s)(h := Some True)\<rparr>)"
  have t: "frames t = (frames s)(h := Some True)" "waiters t = waiters s" "rq t = rq s" "detached t = detached s"
    using core_release_held [of h "s\<lparr>frames := (frames s)(h := Some True)\<rparr>"] by (simp_all add: t_def same_core_def)
  obtain q where q: "rq s = Some q" using r by (auto simp: running_def)
  have s: "sched_wf s" "h \<notin> set q" "frames s h = Some False" using r q by (simp_all add: running_def queue_def)
  note finish = reactor_finish_def t_def [symmetric] take_waiter_def t
  show ?thesis
  proof (cases "waiters s h")
    case (Some w)
    have "w \<noteq> 0" using s(1) Some unfolding sched_wf_def by fastforce
    then have "reactor_finish h (s\<lparr>frames := (frames s)(h := Some True)\<rparr>) = Ok (t\<lparr>waiters := (waiters s)(h := None), rq := Some (q @ [w])\<rparr>)"
      using Some by (simp add: finish q)
    then show ?thesis using finished_wakes [OF s(1) q s(2,3) Some np] t by simp
  next
    case None
    define u where "u = t\<lparr>detached := detached s - {h}\<rparr>"
    have u: "frames u = (frames s)(h := Some True)" "rq u = rq s" and wu: "sched_wf u"
      using finished_alone [OF s(1) q s(2,3) None np] by (simp_all add: u_def t)
    show ?thesis
    proof (cases "h \<in> detached s")
      case True
      have du: "frames (mark_reaped_this_batch h u) h = Some True" by (simp add: mark_reaped_this_batch_def u)
      have wm: "sched_wf (mark_reaped_this_batch h u)" using wf_core [OF core_mark] wu by simp
      let ?v = "log_event (Destroyed h) ((mark_reaped_this_batch h u)\<lparr>frames := (frames (mark_reaped_this_batch h u))(h := None)\<rparr>)"
      have "reactor_finish h (s\<lparr>frames := (frames s)(h := Some True)\<rparr>) = Ok ?v"
        using None True du by (simp add: finish u_def [symmetric] coro_destroy_def)
      moreover have "sched_wf ?v" using wf_destroy [OF wm du] wf_core [OF core_log] by simp
      moreover have "rq ?v \<noteq> None" by (simp add: log_event_def mark_reaped_this_batch_def u q)
      ultimately show ?thesis by blast
    next
      case False
      then have "same_core t u" by (simp add: same_core_def u_def t)
      then have "sched_wf t" using wu wf_core by simp
      moreover have "reactor_finish h (s\<lparr>frames := (frames s)(h := Some True)\<rparr>) = Ok t"
        using None False by (simp add: finish)
      ultimately show ?thesis using q by (auto simp: t)
    qed
  qed
qed

section \<open>Resuming\<close>

lemma resume_wf:
  assumes b: "body_ok body" and r: "running h s" and np: "\<not> parked s h"
  shows "\<exists>d s'. resume_and_finish body h s = Ok (d, s') \<and> sched_wf s' \<and> rq s' \<noteq> None"
proof -
  obtain cs fin where bd: "body s h = (cs, fin)" by (cases "body s h")
  let ?s = "log_event (Resumed h) s"
  have rs: "running h ?s" using running_core [OF core_log] r by simp
  have ok: "calls_ok h ?s cs" "fin \<longrightarrow> (\<forall>s'. run_calls cs ?s = Ok s' \<longrightarrow> \<not> parked s' h)"
    using b r np bd by (auto simp: body_ok_def)
  obtain t where t: "run_calls cs ?s = Ok t" "running h t" using run_calls_running [OF rs ok(1)] by blast
  have ft: "frames t h = Some False" "frames s h = Some False" using t(2) r by (simp_all add: running_def)
  show ?thesis
  proof (cases fin)
    case True
    then have "\<not> parked t h" using ok(2) t(1) by simp
    from finish_wf [OF t(2) this] obtain u where u: "reactor_finish h (t\<lparr>frames := (frames t)(h := Some True)\<rparr>) = Ok u" "sched_wf u" "rq u \<noteq> None"
      by blast
    then have "resume_and_finish body h s = Ok (True, u)"
      using True ft t(1) bd by (simp add: resume_and_finish_def raw_coro_resume_def raw_coro_done_def)
    then show ?thesis using u by blast
  next
    case False
    then have "resume_and_finish body h s = Ok (False, t)"
      using ft t bd by (simp add: resume_and_finish_def raw_coro_resume_def raw_coro_done_def)
    then show ?thesis using t(2) by (auto simp: running_def)
  qed
qed

lemma pump_one_wf:
  assumes b: "body_ok body" and w: "sched_wf s" "rq s = Some (h # q)"
  shows "\<exists>s'. pump_one body h (s\<lparr>rq := Some q\<rparr>) = Ok s' \<and> sched_wf s' \<and> rq s' \<noteq> None"
proof -
  let ?s = "s\<lparr>rq := Some q\<rparr>"
  have f: "frames s h = Some False" using w by (auto simp: sched_wf_def queue_def)
  have "running h ?s" using w by (auto simp: running_def sched_wf_def queue_def)
  moreover have "\<not> parked ?s h" using w by (auto simp: sched_wf_def queue_def parked_def)
  ultimately obtain d s' where "resume_and_finish body h ?s = Ok (d, s')" "sched_wf s'" "rq s' \<noteq> None"
    using resume_wf [OF b] by blast
  then show ?thesis using f by (simp add: pump_one_def raw_coro_done_def)
qed

lemma pump_wf:
  assumes "reactor_pump body s = Some r" "body_ok body" "sched_wf s"
  shows "\<exists>s'. r = Ok s' \<and> sched_wf s' \<and> queue s' = []"
proof -
  have "body_ok body \<longrightarrow> sched_wf s \<longrightarrow> (\<exists>s'. r = Ok s' \<and> sched_wf s' \<and> queue s' = [])"
  proof (rule reactor_pump.raw_induct [OF _ assms(1)], intro impI)
    fix pump body s r
    assume IH: "\<And>body s r. pump body s = Some r \<Longrightarrow>
        body_ok body \<longrightarrow> sched_wf s \<longrightarrow> (\<exists>s'. r = Ok s' \<and> sched_wf s' \<and> queue s' = [])"
      and step: "(case rq s of None \<Rightarrow> Some (Ok s) | Some [] \<Rightarrow> Some (Ok s)
        | Some (h # q) \<Rightarrow> (case pump_one body h (s\<lparr>rq := Some q\<rparr>) of
             Ok s \<Rightarrow> pump body s | Panic msg \<Rightarrow> Some (Panic msg) | Trap \<Rightarrow> Some Trap)) = Some r"
      and b: "body_ok body" and w: "sched_wf s"
    show "\<exists>s'. r = Ok s' \<and> sched_wf s' \<and> queue s' = []"
    proof (cases "queue s")
      case Nil
      then have "rq s = None \<or> rq s = Some []" by (auto simp: queue_def split: option.splits)
      then show ?thesis using step w Nil by auto
    next
      case (Cons h q)
      then have q: "rq s = Some (h # q)" by (auto simp: queue_def split: option.splits)
      obtain s' where s': "pump_one body h (s\<lparr>rq := Some q\<rparr>) = Ok s'" "sched_wf s'"
        using pump_one_wf [OF b w q] by blast
      then have "pump body s' = Some r" using step q by simp
      then show ?thesis using IH b s'(2) by blast
    qed
  qed
  then show ?thesis using assms by blast
qed

end
