(* ===== verification/Kyte_Sched_Claims.thy ===== *)
theory Kyte_Sched_Claims
  imports Kyte_Sched_Props
begin

text \<open>
  The scheduler's properties: safety and progress of the protocol, the deadline of a
  \<^verbatim>\<open>when_any\<close>, the striped table of held arguments, and the two ways a freed frame is
  resumed.
\<close>

section \<open>Safety\<close>

lemma enter_reactor_core:
  "frames (enter_reactor s) = frames s" "waiters (enter_reactor s) = waiters s" "queue (enter_reactor s) = queue s"
  "detached (enter_reactor s) = detached s" "batch_reaped (enter_reactor s) = batch_reaped s" "rq (enter_reactor s) \<noteq> None"
  by (auto simp: enter_reactor_def queue_def split: option.splits)

lemma enter_reactor_wf: "sched_wf (enter_reactor s) = sched_wf s"
  unfolding sched_wf_def enter_reactor_core ..

text \<open>
  Property C15 (sched_safe).  Between events the run queue is empty.  Resuming a coroutine for an
  event, when every coroutine keeps to the protocol of \<^verbatim>\<open>await\<close>, never touches a freed frame
  whatever is spawned, awaited, finished and reaped on the way; it ends with an empty queue, and
  nobody is left waiting for a child that has finished.
\<close>

theorem sched_safe:
  assumes b: "body_ok body" and w: "sched_wf s" "queue s = []"
    and h: "h = 0 \<or> h \<in> batch_reaped s \<or> frames s h = Some True \<or> may_run s h"
    and run: "kyte_reactor_resume body h s = Some r"
  shows "\<exists>v s'. r = Ok (v, s') \<and> sched_wf s' \<and> queue s' = []
    \<and> (\<forall>c p. waiters s' c = Some p \<longrightarrow> frames s' c = Some False \<and> frames s' p = Some False)"
proof -
  let ?s = "enter_reactor s"
  have wf: "sched_wf ?s" "queue ?s = []" using w by (simp_all add: enter_reactor_wf enter_reactor_core)
  have "\<exists>v s'. r = Ok (v, s') \<and> sched_wf s' \<and> queue s' = []"
  proof (cases "h \<in> batch_reaped ?s \<or> h = 0 \<or> frames ?s h = Some True")
    case True
    have "sched_wf (?s\<lparr>resume_skipped := n\<rparr>)" "queue (?s\<lparr>resume_skipped := n\<rparr>) = []" for n
      using wf wf_core [of "?s\<lparr>resume_skipped := n\<rparr>" ?s] by (simp_all add: same_core_def queue_def)
    then show ?thesis using True run wf by (auto simp: kyte_reactor_resume_def Let_def raw_coro_done_def split: if_splits)
  next
    case False
    then have m: "may_run s h" using h by (auto simp: enter_reactor_core)
    then have f: "frames ?s h = Some False" and r: "running h ?s" and np: "\<not> parked ?s h"
      using wf by (auto simp: may_run_def running_def enter_reactor_core parked_def)
    obtain d t where t: "resume_and_finish body h ?s = Ok (d, t)" "sched_wf t"
      using resume_wf [OF b r np] by blast
    have "map_option (\<lambda>r. bind_outcome r (\<lambda>s. Ok (if d then 1 else 0, s))) (reactor_pump body t) = Some r"
      using run False f t by (simp add: kyte_reactor_resume_def Let_def raw_coro_done_def)
    then obtain r' where p: "reactor_pump body t = Some r'" and r: "r = bind_outcome r' (\<lambda>s. Ok (if d then 1 else 0, s))"
      by auto
    obtain s' where "r' = Ok s'" "sched_wf s'" "queue s' = []" using pump_wf [OF p b t(2)] by blast
    then show ?thesis using r by auto
  qed
  then show ?thesis unfolding sched_wf_def by blast
qed

text \<open>A root that spawns and awaits one child.\<close>

definition demo_body :: body where
  "demo_body s h =
     (if h = 1 \<and> frames s 2 = None then ([Spawn 2, Schedule 2, Await 2 1], False)
      else if h = 1 \<and> frames s 2 = Some True then ([ReleaseCoro 2], True)
      else ([], True))"

lemma demo_body_ok: "body_ok demo_body"
  unfolding body_ok_def
proof (intro allI impI)
  fix s h cs fin
  assume a: "running h s \<and> \<not> parked s h \<and> demo_body s h = (cs, fin)"
  then have w: "sched_wf s" by (simp add: running_def)
  have dead: "waiters s 2 = None" "\<not> parked s 2" "2 \<notin> set (queue s)" "2 \<notin> detached s" if "frames s 2 = None"
    using w that unfolding sched_wf_def parked_def by (auto simp: option.case_eq_if) (metis option.exhaust option.discI)+
  have p1: "\<not> parked s 1" if "h = 1" using a that by simp
  show "calls_ok h (log_event (Resumed h) s) cs
    \<and> (fin \<longrightarrow> (\<forall>s'. run_calls cs (log_event (Resumed h) s) = Ok s' \<longrightarrow> \<not> parked s' h))"
  proof (cases "h = 1 \<and> frames s 2 = None")
    case True
    have "calls_ok 1 (log_event (Resumed 1) s) [Spawn 2, Schedule 2, Await 2 1]"
      using True dead p1 w
      by (auto simp: log_event_def may_run_def parked_def queue_def kyte_sched_schedule_def raw_coro_done_def split: option.splits)
    then show ?thesis using True a by (auto simp: demo_body_def)
  next
    case False
    have np: "\<not> parked (log_event (Resumed h) s) h" using a by (simp add: log_event_def parked_def)
    have "\<not> parked s' h" if "run_calls [ReleaseCoro 2] (log_event (Resumed h) s) = Ok s'" for s'
      using that a by (auto simp: kyte_coro_release_def coro_destroy_def log_event_def mark_reaped_this_batch_def parked_def
          split: option.splits if_splits)
    then show ?thesis using False a np by (auto simp: demo_body_def log_event_def split: if_splits)
  qed
qed

definition demo_sched :: sched where
  "demo_sched = sched0\<lparr>frames := [1 \<mapsto> False], detached := {1}\<rparr>"

lemma demo_sched_wf: "sched_wf demo_sched" "queue demo_sched = []" "may_run demo_sched 1"
  by (auto simp: sched_wf_def demo_sched_def sched0_def queue_def may_run_def parked_def)

lemmas sched_eval = kyte_reactor_resume_def enter_reactor_def resume_and_finish_def raw_coro_resume_def raw_coro_done_def
  log_event_def kyte_sched_schedule_def kyte_await_future_def drop_result_def reactor_finish_def kyte_coro_release_held_def
  take_waiter_def coro_destroy_def mark_reaped_this_batch_def pump_one_def kyte_coro_release_def

lemma demo_run:
  "\<exists>s'. kyte_reactor_resume demo_body 1 demo_sched = Some (Ok (0, s'))
     \<and> trace s' = [Resumed 1, Resumed 2, Resumed 1, Destroyed 2, Destroyed 1]"
  by (simp add: demo_body_def demo_sched_def sched0_def sched_eval Let_def,
      subst reactor_pump.simps, simp add: demo_body_def sched_eval Let_def,
      subst reactor_pump.simps, simp add: demo_body_def sched_eval Let_def,
      subst reactor_pump.simps, simp)

theorem sched_safe_witness:
  "\<exists>s'. kyte_reactor_resume demo_body 1 demo_sched = Some (Ok (0, s')) \<and> sched_wf s' \<and> queue s' = []
     \<and> trace s' = [Resumed 1, Resumed 2, Resumed 1, Destroyed 2, Destroyed 1]"
proof -
  obtain s' where s': "kyte_reactor_resume demo_body 1 demo_sched = Some (Ok (0, s'))"
    "trace s' = [Resumed 1, Resumed 2, Resumed 1, Destroyed 2, Destroyed 1]" using demo_run by blast
  from sched_safe [OF demo_body_ok demo_sched_wf(1,2) _ this(1)] demo_sched_wf(3) s' show ?thesis by auto
qed

section \<open>The queue runs dry\<close>

text \<open>
  Driving the run queue ends as soon as every resume makes progress in
  some measure, and it then leaves the queue empty; it stops early only for a fault.
\<close>

theorem pump_returns:
  fixes m :: "sched \<Rightarrow> nat"
  assumes "\<And>s h q s'. rq s = Some (h # q) \<Longrightarrow> pump_one body h (s\<lparr>rq := Some q\<rparr>) = Ok s' \<Longrightarrow> m s' < m s"
  shows "\<exists>r. reactor_pump body s = Some r \<and> (\<forall>s'. r = Ok s' \<longrightarrow> queue s' = [])"
proof (induction s rule: measure_induct_rule [of m])
  case (less s)
  show ?case
  proof (cases "queue s")
    case Nil
    then have "rq s = None \<or> rq s = Some []" by (auto simp: queue_def split: option.splits)
    then show ?thesis using Nil by (subst (1) reactor_pump.simps) auto
  next
    case (Cons h q)
    then have q: "rq s = Some (h # q)" by (auto simp: queue_def split: option.splits)
    show ?thesis
    proof (cases "pump_one body h (s\<lparr>rq := Some q\<rparr>)")
      case (Ok s')
      then have "reactor_pump body s = reactor_pump body s'" using q by (subst reactor_pump.simps) simp
      then show ?thesis using less [OF assms [OF q Ok]] by simp
    qed (use q in \<open>subst reactor_pump.simps, simp\<close>)+
  qed
qed

definition idle_body :: body where
  "idle_body s h = ([], False)"

theorem pump_returns_witness:
  "\<exists>r. reactor_pump idle_body (demo_sched\<lparr>rq := Some [1, 1]\<rparr>) = Some r \<and> (\<forall>s'. r = Ok s' \<longrightarrow> queue s' = [])"
proof (rule pump_returns [of idle_body "\<lambda>s. length (queue s)"])
  fix s s' :: sched and h q
  assume "rq s = Some (h # q)" "pump_one idle_body h (s\<lparr>rq := Some q\<rparr>) = Ok s'"
  then have "queue s = h # q" "queue s' = q"
    by (auto simp: queue_def pump_one_def idle_body_def resume_and_finish_def raw_coro_resume_def raw_coro_done_def
        log_event_def split: option.splits if_splits)
  then show "length (queue s') < length (queue s)" by simp
qed

section \<open>Held arguments\<close>

definition held_of :: "sched \<Rightarrow> addr \<Rightarrow> (addr \<times> addr) list" where
  "held_of s c = (case held s (stripe_of c) c of None \<Rightarrow> [] | Some xs \<Rightarrow> xs)"

lemma stripe_of_less: "stripe_of c < 64"
proof -
  have "unat (x AND (NSTRIPES - 1)) < 64" for x :: u64
  proof -
    have "x AND (NSTRIPES - 1) \<le> NSTRIPES - 1" by (rule word_and_le1)
    then show ?thesis by (simp add: NSTRIPES_def word_le_nat_alt)
  qed
  then show ?thesis by (simp add: stripe_of_def Let_def)
qed

lemma trace_release_all: "trace (release_all hs s) = trace s @ map (\<lambda>(p, d). Released p d) hs"
  by (induction hs s rule: release_all.induct) (simp_all add: log_event_def)

lemma held_release_all [simp]: "held (release_all hs s) = held s"
  by (induction hs s rule: release_all.induct) (simp_all add: log_event_def)

text \<open>
  The striped table of held arguments is one map from coroutines to
  lists: holding appends to that coroutine's list and to no other, and the end of a coroutine
  releases its arguments once each, in the order they were held, and forgets them.
\<close>

theorem held_args_refine:
  "held_of (kyte_coro_hold_arg c p d s) x = (if x = c \<and> c \<noteq> 0 \<and> p \<noteq> 0 then held_of s c @ [(p, d)] else held_of s x)
   \<and> held_of (kyte_coro_release_held c s) x = (if x = c then [] else held_of s x)
   \<and> trace (kyte_coro_release_held c s) = trace s @ map (\<lambda>(p, d). Released p d) (held_of s c)
   \<and> stripe_of c < 64"
  by (auto simp: held_of_def kyte_coro_hold_arg_def kyte_coro_release_held_def Let_def trace_release_all stripe_of_less
      split: option.splits)

section \<open>Waiting for the first of several\<close>

lemma first_done_cases:
  assumes "first_done s hs i = Ok r"
  shows "(r = - 1 \<and> (\<forall>h\<in>set hs. h \<noteq> 0 \<longrightarrow> frames s h = Some False))
    \<or> (\<exists>k<length hs. r = i + int k \<and> hs ! k \<noteq> 0 \<and> frames s (hs ! k) = Some True
        \<and> (\<forall>j<k. hs ! j \<noteq> 0 \<longrightarrow> frames s (hs ! j) = Some False))"
  using assms
proof (induction hs arbitrary: i)
  case (Cons h hs)
  show ?case
  proof (cases "h \<noteq> 0 \<and> frames s h = Some True")
    case True
    then have "r = i" using Cons.prems by (simp add: raw_coro_done_def)
    then show ?thesis using True by (intro disjI2 exI [of _ 0]) simp
  next
    case False
    then have h: "h = 0 \<or> frames s h = Some False" and r: "first_done s hs (i + 1) = Ok r"
      using Cons.prems by (auto simp: raw_coro_done_def split: if_splits option.splits)
    from Cons.IH [OF r] show ?thesis
    proof
      assume "r = - 1 \<and> (\<forall>h\<in>set hs. h \<noteq> 0 \<longrightarrow> frames s h = Some False)"
      then show ?thesis using h by auto
    next
      assume "\<exists>k<length hs. r = i + 1 + int k \<and> hs ! k \<noteq> 0 \<and> frames s (hs ! k) = Some True
          \<and> (\<forall>j<k. hs ! j \<noteq> 0 \<longrightarrow> frames s (hs ! j) = Some False)"
      then obtain k where "k < length hs" "r = i + 1 + int k" "hs ! k \<noteq> 0" "frames s (hs ! k) = Some True"
        "\<forall>j<k. hs ! j \<noteq> 0 \<longrightarrow> frames s (hs ! j) = Some False" by blast
      then show ?thesis using h by (intro disjI2 exI [of _ "Suc k"]) (auto simp: less_Suc_eq_0_disj)
    qed
  qed
qed simp

lemma unregister_waiters:
  "waiters (unregister self hs s) = (\<lambda>h. if h \<in> set hs \<and> waiters s h = Some self then None else waiters s h)"
  by (induction hs arbitrary: s) auto

lemma register_waiters:
  "waiters (register_all self hs s) = (\<lambda>h. if h \<in> set hs \<and> h \<noteq> 0 then Some self else waiters s h)"
  by (induction hs arbitrary: s) auto

lemma unregister_other:
  "frames (unregister self hs s) = frames s" "rq (unregister self hs s) = rq s" "wadl (unregister self hs s) = wadl s"
  "trace (unregister self hs s) = trace s" "current_kq (unregister self hs s) = current_kq s"
  by (induction hs arbitrary: s) auto

lemma register_other:
  "frames (register_all self hs s) = frames s" "rq (register_all self hs s) = rq s" "wadl (register_all self hs s) = wadl s"
  "trace (register_all self hs s) = trace s" "current_kq (register_all self hs s) = current_kq s"
  by (induction hs arbitrary: s) auto

text \<open>The deadline of a pending wait, and the timer a call leaves armed.\<close>

definition pending_deadline :: "sched \<Rightarrow> addr \<Rightarrow> int option" where
  "pending_deadline s self =
     (case wadl s self of None \<Rightarrow> None | Some e \<Rightarrow> if armed e \<and> on_reactor e then Some (deadline e) else None)"

text \<open>The three ways a call ends: a finished child, the deadline, a wait.\<close>

lemma deadline_found:
  assumes "kyte_when_any_deadline t1 t2 hs ms self s = Ok (v, s')" "first_done s hs 0 = Ok f" "0 \<le> f"
  shows "v = f \<and> pending_deadline s' self = None \<and> (\<forall>h\<in>set hs. waiters s' h \<noteq> Some self)"
proof -
  have v: "v = f" and s': "s' = wadl_clear self (if current_kq (unregister self hs s) \<noteq> 0
      then kyte_reactor_cancel_timer self (unregister self hs s) else unregister self hs s)"
    using assms by (simp_all add: kyte_when_any_deadline_def Let_def)
  have "waiters s' = waiters (unregister self hs s)" "wadl s' self = None"
    by (simp_all add: s' wadl_clear_def kyte_reactor_cancel_timer_def log_event_def)
  then show ?thesis using v by (simp add: pending_deadline_def unregister_waiters)
qed

lemma deadline_late:
  assumes "kyte_when_any_deadline t1 t2 hs ms self s = Ok (v, s')" "first_done s hs 0 = Ok (- 1)" "timed_out t1 self s"
  shows "v = - 2 \<and> pending_deadline s' self = None \<and> (\<forall>h\<in>set hs. waiters s' h \<noteq> Some self)"
proof -
  have v: "v = - 2" and s': "s' = wadl_disarm hs self (wadl_clear self s)"
    using assms by (simp_all add: kyte_when_any_deadline_def)
  have "wadl s' self = None" by (simp add: s' wadl_disarm_def unregister_other wadl_clear_def)
  moreover have "\<forall>h\<in>set hs. waiters s' h \<noteq> Some self" by (simp add: s' wadl_disarm_def unregister_waiters wadl_clear_def)
  ultimately show ?thesis using v by (simp add: pending_deadline_def)
qed

lemma deadline_wait:
  assumes "kyte_when_any_deadline t1 t2 hs ms self s = Ok (v, s')" "first_done s hs 0 = Ok (- 1)" "\<not> timed_out t1 self s"
    and self: "self \<noteq> 0" and entry: "\<And>e. wadl s self = Some e \<Longrightarrow> armed e \<and> on_reactor e"
  shows "v = - 1 \<and> (\<forall>h\<in>set hs. h \<noteq> 0 \<longrightarrow> waiters s' h = Some self)
    \<and> (\<exists>d. pending_deadline s' self = Some d
        \<and> (case pending_deadline s self of None \<Rightarrow> d = t2 + max 0 ms | Some d' \<Rightarrow> d = d')
        \<and> trace s' = trace s @ [Armed self (max 0 (d - t2))])"
proof -
  define t where "t = register_all self hs s"
  have t: "wadl t = wadl s" "trace t = trace s" by (simp_all add: t_def register_other)
  have v: "v = - 1" and s': "s' = arm_deadline t2 ms self t"
    using assms(1-3) by (simp_all add: kyte_when_any_deadline_def t_def)
  have w: "waiters s' = waiters t"
    by (simp add: s' arm_deadline_def kyte_reactor_set_timer_def log_event_def Let_def split: option.split)
  have "\<exists>d. pending_deadline s' self = Some d
      \<and> (case pending_deadline s self of None \<Rightarrow> d = t2 + max 0 ms | Some d' \<Rightarrow> d = d')
      \<and> trace s' = trace s @ [Armed self (max 0 (d - t2))]"
  proof (cases "wadl s self")
    case None
    then show ?thesis using self
      by (simp add: s' arm_deadline_def t deadline_entry0_def kyte_reactor_set_timer_def log_event_def pending_deadline_def Let_def)
  next
    case (Some e)
    then show ?thesis using self entry [OF Some]
      by (simp add: s' arm_deadline_def t kyte_reactor_set_timer_def log_event_def pending_deadline_def Let_def)
  qed
  then show ?thesis using v by (simp add: w t_def register_waiters)
qed

text \<open>
  Property C16 (when_any_deadline_exact).  \<^verbatim>\<open>kyte_when_any_deadline\<close> answers the first
  finished child, or that the deadline has passed, or that it must wait, and nothing else.  A finished
  child wins over the deadline.  A decided call leaves no deadline and none of its registrations.
  An undecided one has registered with every child and armed a timer: the first call sets the
  deadline, later ones keep it and arm the time that remains, so a wake-up in between never extends
  the wait.
\<close>

theorem when_any_deadline_exact:
  assumes run: "kyte_when_any_deadline t1 t2 hs ms self s = Ok (v, s')" and self: "self \<noteq> 0"
    and entry: "\<And>e. wadl s self = Some e \<Longrightarrow> armed e \<and> on_reactor e"
  shows "(0 \<le> v \<longrightarrow> nat v < length hs \<and> frames s (hs ! nat v) = Some True
        \<and> (\<forall>j<nat v. hs ! j \<noteq> 0 \<longrightarrow> frames s (hs ! j) = Some False))
    \<and> (v < 0 \<longrightarrow> (\<forall>h\<in>set hs. h \<noteq> 0 \<longrightarrow> frames s h = Some False))
    \<and> (v = - 2 \<longleftrightarrow> v < 0 \<and> (\<exists>d. pending_deadline s self = Some d \<and> d \<le> t1)) \<and> - 2 \<le> v
    \<and> (v \<noteq> - 1 \<longrightarrow> pending_deadline s' self = None \<and> (\<forall>h\<in>set hs. waiters s' h \<noteq> Some self))
    \<and> (v = - 1 \<longrightarrow> (\<forall>h\<in>set hs. h \<noteq> 0 \<longrightarrow> waiters s' h = Some self)
        \<and> (\<exists>d. pending_deadline s' self = Some d
            \<and> (case pending_deadline s self of None \<Rightarrow> d = t2 + max 0 ms | Some d' \<Rightarrow> d = d')
            \<and> trace s' = trace s @ [Armed self (max 0 (d - t2))]))"
proof -
  obtain f where f: "first_done s hs 0 = Ok f" using run by (auto simp: kyte_when_any_deadline_def bind_outcome_Ok)
  have out: "timed_out t1 self s \<longleftrightarrow> (\<exists>d. pending_deadline s self = Some d \<and> d \<le> t1)"
    using entry by (auto simp: timed_out_def pending_deadline_def split: option.splits)
  consider (found) "0 \<le> f" | (late) "f = - 1" "timed_out t1 self s" | (wait) "f = - 1" "\<not> timed_out t1 self s"
    using first_done_cases [OF f] by auto
  then show ?thesis
  proof cases
    case found
    then show ?thesis using deadline_found [OF run f found] first_done_cases [OF f] by auto
  next
    case late
    then show ?thesis using deadline_late [OF run] f first_done_cases [OF f] out by auto
  next
    case wait
    then show ?thesis using deadline_wait [OF run _ _ self entry] f first_done_cases [OF f] out by auto
  qed
qed

theorem when_any_deadline_exact_witness:
  "\<exists>s'. kyte_when_any_deadline 70 70 [2, 0] 50 1
        (sched0\<lparr>frames := [1 \<mapsto> False, 2 \<mapsto> False],
           wadl := [1 \<mapsto> \<lparr>fired = False, armed = True, on_reactor = True, deadline = 100\<rparr>]\<rparr>) = Ok (- 1, s')
     \<and> trace s' = [Armed 1 30] \<and> waiters s' 2 = Some 1"
proof -
  let ?s = "sched0\<lparr>frames := [1 \<mapsto> False, 2 \<mapsto> False],
     wadl := [1 \<mapsto> \<lparr>fired = False, armed = True, on_reactor = True, deadline = 100\<rparr>]\<rparr>"
  obtain s' where run: "kyte_when_any_deadline 70 70 [2, 0] 50 1 ?s = Ok (- 1, s')"
    by (simp add: kyte_when_any_deadline_def raw_coro_done_def timed_out_def)
  have p: "pending_deadline ?s 1 = Some 100" by (simp add: pending_deadline_def)
  have "armed e \<and> on_reactor e" if "wadl ?s 1 = Some e" for e using that by auto
  from when_any_deadline_exact [OF run _ this] have
    "waiters s' 2 = Some 1" "\<exists>d. d = 100 \<and> trace s' = trace ?s @ [Armed 1 (max 0 (d - 70))]"
    using p by simp_all
  then show ?thesis using run by (simp add: sched0_def)
qed

section \<open>Freed frames\<close>

text \<open>
  A root that awaits two children with \<^verbatim>\<open>when_any\<close> and finishes as soon as one has; the two
  children, once scheduled, run to their end without suspending.
\<close>

definition race_body :: body where
  "race_body s h =
     (if h = 1 \<and> frames s 2 = None then ([Spawn 2, Spawn 3, Schedule 2, Schedule 3, WhenAny [2, 3] 1], False)
      else if h = 1 then ([WhenAny [2, 3] 1], True)
      else ([], True))"

text \<open>
  Both children finish before the parent runs again, and each
  end finds the parent still registered and queues it: the parent is queued twice.  It runs, takes
  the first result, finishes, is detached and therefore freed; the second entry of the queue is then
  read through the freed frame.  \<^verbatim>\<open>kyte_when_any\<close> removes the registrations only when the
  parent runs again, which is too late.
\<close>

theorem when_any_double_wake:
  "kyte_reactor_resume race_body 1 demo_sched = Some Trap"
proof -
  have r: "resume_and_finish race_body 1 (demo_sched\<lparr>rq := Some [], reactor_mode := True\<rparr>)
    = Ok (False, demo_sched\<lparr>frames := [1 \<mapsto> False, 2 \<mapsto> False, 3 \<mapsto> False], waiters := [2 \<mapsto> 1, 3 \<mapsto> 1],
        rq := Some [2, 3], reactor_mode := True, trace := [Resumed 1]\<rparr>)"
    by (simp add: race_body_def demo_sched_def sched0_def sched_eval kyte_when_any_def Let_def fun_upd_twist)
  have "reactor_pump race_body (demo_sched\<lparr>frames := [1 \<mapsto> False, 2 \<mapsto> False, 3 \<mapsto> False], waiters := [2 \<mapsto> 1, 3 \<mapsto> 1],
      rq := Some [2, 3], reactor_mode := True, trace := [Resumed 1]\<rparr>) = Some Trap"
    by (subst reactor_pump.simps, simp add: race_body_def demo_sched_def sched0_def sched_eval Let_def,
        subst reactor_pump.simps, simp add: race_body_def sched_eval Let_def,
        subst reactor_pump.simps, simp add: race_body_def sched_eval kyte_when_any_def Let_def,
        subst reactor_pump.simps, simp add: sched_eval)
  then show ?thesis
    using r by (simp add: kyte_reactor_resume_def enter_reactor_def Let_def raw_coro_done_def demo_sched_def sched0_def)
qed

text \<open>
  A detached coroutine that finishes on the first of its two events in
  one batch is freed.  The second event is recognised as stale only if some deadline was armed since
  this batch began: \<^verbatim>\<open>kyte_reactor_batch_begin\<close> switches the tracking off, and the timer whose
  event is in the batch was armed before that.  Without a new deadline the second event reads the
  freed frame.
\<close>

theorem stale_event:
  assumes s: "rq s = Some []" "frames s h = Some False" "h \<noteq> 0" "waiters s h = None" "h \<in> detached s"
    "h \<notin> batch_reaped s" "held s (stripe_of h) h = None"
    and body: "\<And>t. body t h = ([], True)"
  shows "\<exists>s1. kyte_reactor_resume body h s = Some (Ok (1, s1)) \<and> frames s1 h = None
    \<and> kyte_reactor_resume body h s1 =
        (if reactor_mode s \<and> deadline_active s then Some (Ok (1, s1\<lparr>resume_skipped := resume_skipped s1 + 1\<rparr>)) else Some Trap)
    \<and> \<not> deadline_active (kyte_reactor_batch_begin t)"
proof -
  let ?f = "s\<lparr>trace := trace s @ [Resumed h], detached := detached s - {h}, frames := (frames s)(h := Some True)\<rparr>"
  let ?m = "mark_reaped_this_batch h ?f"
  let ?s1 = "log_event (Destroyed h) (?m\<lparr>frames := (frames ?m)(h := None)\<rparr>)"
  have rf: "resume_and_finish body h s = Ok (True, ?s1)"
    using s body by (simp add: sched_eval)
  have q: "rq ?s1 = Some []" "frames ?s1 h = None" using s by (simp_all add: log_event_def mark_reaped_this_batch_def)
  have "reactor_pump body ?s1 = Some (Ok ?s1)" using q by (subst reactor_pump.simps) simp
  then have "kyte_reactor_resume body h s = Some (Ok (1, ?s1))"
    using rf s by (simp add: kyte_reactor_resume_def enter_reactor_def raw_coro_done_def Let_def)
  moreover have "h \<in> batch_reaped ?s1 \<longleftrightarrow> reactor_mode s \<and> deadline_active s"
    using s by (simp add: log_event_def mark_reaped_this_batch_def)
  then have "kyte_reactor_resume body h ?s1 =
      (if reactor_mode s \<and> deadline_active s then Some (Ok (1, ?s1\<lparr>resume_skipped := resume_skipped ?s1 + 1\<rparr>)) else Some Trap)"
    using q s by (simp add: kyte_reactor_resume_def enter_reactor_def raw_coro_done_def Let_def)
  moreover have "\<not> deadline_active (kyte_reactor_batch_begin t)" by (simp add: kyte_reactor_batch_begin_def)
  ultimately show ?thesis using q by blast
qed

definition one_shot_body :: body where
  "one_shot_body s h = ([], True)"

theorem stale_event_witness:
  "\<exists>s1. kyte_reactor_resume one_shot_body 1 (kyte_reactor_batch_begin (kyte_reactor_set_timer 1 20
        (demo_sched\<lparr>rq := Some [], reactor_mode := True\<rparr>))) = Some (Ok (1, s1))
      \<and> kyte_reactor_resume one_shot_body 1 s1 = Some Trap"
proof -
  let ?s = "kyte_reactor_batch_begin (kyte_reactor_set_timer 1 20 (demo_sched\<lparr>rq := Some [], reactor_mode := True\<rparr>))"
  have "rq ?s = Some []" "frames ?s 1 = Some False" "waiters ?s 1 = None" "1 \<in> detached ?s" "1 \<notin> batch_reaped ?s"
    "held ?s (stripe_of 1) 1 = None"
    by (simp_all add: kyte_reactor_batch_begin_def kyte_reactor_set_timer_def log_event_def demo_sched_def sched0_def)
  moreover have "\<not> deadline_active ?s" by (simp add: kyte_reactor_batch_begin_def)
  ultimately show ?thesis using stale_event [of ?s 1 one_shot_body ?s] by (auto simp: one_shot_body_def)
qed

section \<open>Threads\<close>

lemma thread_count_bounds:
  "1 \<le> kyte_thread_count env hw \<and> (env = None \<longrightarrow> kyte_thread_count env hw \<le> 16)
   \<and> (env = None \<and> 2 \<le> hw \<longrightarrow> kyte_thread_count env hw < hw)"
  by (auto simp: kyte_thread_count_def split: option.splits)

end
