(* ===== verification/Kyte_Channel.thy ===== *)
theory Kyte_Channel
  imports Kyte_Fifo Kyte_Sched_Claims
begin

text \<open>
  The channels of \<^verbatim>\<open>src/runtime/concurrency.cpp\<close>.  The blocking \<^verbatim>\<open>Channel\<close> is a
  bounded queue under one mutex and one condition variable; its threads are modelled as a step
  relation whose steps are the critical sections.  The asynchronous \<^verbatim>\<open>KyteChan\<close> parks
  coroutines and schedules them.
\<close>

section \<open>The blocking channel\<close>

record channel =
  chan_q :: "int list"
  chan_capacity :: int

definition kyte_channel_create :: "int \<Rightarrow> channel" where
  "kyte_channel_create cap = \<lparr>chan_q = [], chan_capacity = (if cap > 0 then cap else 1)\<rparr>"

text \<open>The predicates the two operations wait for, and what they do once it holds.\<close>

definition chan_push :: "int \<Rightarrow> channel \<Rightarrow> channel option" where
  "chan_push v c = (if int (length (chan_q c)) < chan_capacity c then Some (c\<lparr>chan_q := chan_q c @ [v]\<rparr>) else None)"

definition chan_pop :: "channel \<Rightarrow> (int \<times> channel) option" where
  "chan_pop c = (case chan_q c of [] \<Rightarrow> None | v # q \<Rightarrow> Some (v, c\<lparr>chan_q := q\<rparr>))"

text \<open>
  A blocking call on a reactor thread aborts a debug build and warns once in a release build;
  elsewhere it is silent.  The result says whether a line is printed and the new value of
  \<^verbatim>\<open>warned\<close>.
\<close>

definition kyte_report_block_on_reactor :: "bool \<Rightarrow> bool \<Rightarrow> bool \<Rightarrow> (bool \<times> bool) outcome" where
  "kyte_report_block_on_reactor ndebug on_reactor_thread warned =
     (if \<not> on_reactor_thread then Ok (False, warned)
      else if \<not> ndebug then Trap
      else Ok (\<not> warned, True))"

text \<open>
  A thread has the operations it still has to do; \<open>Waiting\<close> is a thread inside
  \<^verbatim>\<open>cv.wait\<close> that nobody has notified.  \<open>sent\<close> and \<open>received\<close> record what passed.
\<close>

datatype chan_op = Send int | Recv
datatype phase = Running | Waiting

record chan_sys =
  chan :: channel
  threads :: "nat \<Rightarrow> phase \<times> chan_op list"
  sent :: "int list"
  received :: "int list"

definition waiting :: "chan_sys \<Rightarrow> nat \<Rightarrow> bool" where
  "waiting s t \<longleftrightarrow> fst (threads s t) = Waiting"

text \<open>
  \<^verbatim>\<open>notify_one\<close> wakes one of the waiting threads, any of them, or does nothing if there is
  none.
\<close>

definition wake :: "nat \<Rightarrow> (nat \<Rightarrow> phase \<times> chan_op list) \<Rightarrow> nat \<Rightarrow> phase \<times> chan_op list" where
  "wake t T = T(t := (Running, snd (T t)))"

inductive notify_one :: "(nat \<Rightarrow> phase \<times> chan_op list) \<Rightarrow> (nat \<Rightarrow> phase \<times> chan_op list) \<Rightarrow> bool" where
  Notify: "fst (T t) = Waiting \<Longrightarrow> notify_one T (wake t T)"
| Nobody: "(\<And>t. fst (T t) \<noteq> Waiting) \<Longrightarrow> notify_one T T"

inductive chan_step :: "chan_sys \<Rightarrow> chan_sys \<Rightarrow> bool" where
  send_ok: "threads s t = (Running, Send v # ops) \<Longrightarrow> chan_push v (chan s) = Some c \<Longrightarrow>
     notify_one ((threads s)(t := (Running, ops))) T \<Longrightarrow>
     chan_step s (s\<lparr>chan := c, threads := T, sent := sent s @ [v]\<rparr>)"
| send_wait: "threads s t = (Running, Send v # ops) \<Longrightarrow> chan_push v (chan s) = None \<Longrightarrow>
     chan_step s (s\<lparr>threads := (threads s)(t := (Waiting, Send v # ops))\<rparr>)"
| recv_ok: "threads s t = (Running, Recv # ops) \<Longrightarrow> chan_pop (chan s) = Some (v, c) \<Longrightarrow>
     notify_one ((threads s)(t := (Running, ops))) T \<Longrightarrow>
     chan_step s (s\<lparr>chan := c, threads := T, received := received s @ [v]\<rparr>)"
| recv_wait: "threads s t = (Running, Recv # ops) \<Longrightarrow> chan_pop (chan s) = None \<Longrightarrow>
     chan_step s (s\<lparr>threads := (threads s)(t := (Waiting, Recv # ops))\<rparr>)"

inductive_cases chan_stepE: "chan_step s s'"

text \<open>The C++ standard also lets a wait return without a notification.\<close>

inductive chan_step_spurious :: "chan_sys \<Rightarrow> chan_sys \<Rightarrow> bool" where
  Step: "chan_step s s' \<Longrightarrow> chan_step_spurious s s'"
| Spurious: "waiting s t \<Longrightarrow> chan_step_spurious s (s\<lparr>threads := wake t (threads s)\<rparr>)"

definition chan_start :: "int \<Rightarrow> (nat \<Rightarrow> chan_op list) \<Rightarrow> chan_sys" where
  "chan_start cap prog = \<lparr>chan = kyte_channel_create cap, threads = (\<lambda>t. (Running, prog t)), sent = [], received = []\<rparr>"

section \<open>The bounded queue\<close>

interpretation ch: bounded_fifo "\<lambda>c :: channel. 1 \<le> chan_capacity c \<and> int (length (chan_q c)) \<le> chan_capacity c" chan_q
  "\<lambda>c. nat (chan_capacity c)" "\<lambda>v. v" chan_push chan_pop "\<lambda>c. c"
proof
  fix c c' :: channel and v y :: int
  assume inv: "1 \<le> chan_capacity c \<and> int (length (chan_q c)) \<le> chan_capacity c"
  show "length (chan_q c) \<le> nat (chan_capacity c)" using inv by linarith
  show "chan_push v c = None \<longleftrightarrow> length (chan_q c) = nat (chan_capacity c)" using inv unfolding chan_push_def by (simp split: if_split) linarith
  show "chan_push v c = Some c' \<Longrightarrow> (1 \<le> chan_capacity c' \<and> int (length (chan_q c')) \<le> chan_capacity c')
      \<and> chan_q c' = chan_q c @ [v] \<and> nat (chan_capacity c') = nat (chan_capacity c)"
    using inv by (auto simp: chan_push_def split: if_splits)
  show "chan_pop c = Some (y, c') \<Longrightarrow> (1 \<le> chan_capacity c' \<and> int (length (chan_q c')) \<le> chan_capacity c')
      \<and> chan_q c = y # chan_q c' \<and> nat (chan_capacity c') = nat (chan_capacity c)"
    using inv by (auto simp: chan_pop_def split: list.splits)
qed simp

lemma chan_capacity_const:
  "chan_push v c = Some c' \<Longrightarrow> chan_capacity c' = chan_capacity c"
  "chan_pop c = Some (v, c') \<Longrightarrow> chan_capacity c' = chan_capacity c"
  by (auto simp: chan_push_def chan_pop_def split: if_splits list.splits)

definition chan_inv :: "chan_sys \<Rightarrow> bool" where
  "chan_inv s \<longleftrightarrow> 1 \<le> chan_capacity (chan s) \<and> int (length (chan_q (chan s))) \<le> chan_capacity (chan s)
     \<and> sent s = received s @ chan_q (chan s)"

lemma chan_inv_step:
  assumes "chan_step_spurious s s'" "chan_inv s"
  shows "chan_inv s' \<and> chan_capacity (chan s') = chan_capacity (chan s)"
  using assms
proof cases
  case Step
  then show ?thesis
  proof cases
    case (send_ok t v ops c T)
    then show ?thesis using ch.push_items [of "chan s" v c] chan_capacity_const(1) assms(2) by (auto simp: chan_inv_def)
  next
    case (recv_ok t ops v c T)
    then show ?thesis using ch.pop_items [of "chan s" v c] chan_capacity_const(2) assms(2) by (auto simp: chan_inv_def)
  qed (use assms(2) in \<open>simp_all add: chan_inv_def\<close>)
next
  case (Spurious t)
  then show ?thesis using assms(2) by (simp add: chan_inv_def)
qed

text \<open>
  Property C17 (channel_fifo).  In every state the threads can reach, spurious wake-ups included, what
  was received followed by what is queued is exactly what was sent, in order, and the queue never
  holds more than the capacity.
\<close>

theorem channel_fifo:
  assumes "chan_step_spurious\<^sup>*\<^sup>* (chan_start cap prog) s"
  shows "sent s = received s @ chan_q (chan s) \<and> int (length (chan_q (chan s))) \<le> max 1 cap"
proof -
  have "chan_inv s \<and> chan_capacity (chan s) = max 1 cap"
    using assms
  proof (induction rule: rtranclp_induct)
    case base
    show ?case by (auto simp: chan_inv_def chan_start_def kyte_channel_create_def)
  next
    case (step s s')
    then show ?case using chan_inv_step by metis
  qed
  then show ?thesis by (auto simp: chan_inv_def)
qed

text \<open>Two receivers and two senders on a channel of capacity one.\<close>

definition crossing :: "nat \<Rightarrow> chan_op list" where
  "crossing t = (if t = 0 \<or> t = 1 then [Recv] else if t = 2 then [Send 10] else if t = 3 then [Send 20] else [])"

definition crossing_end :: chan_sys where
  "crossing_end = \<lparr>chan = \<lparr>chan_q = [], chan_capacity = 1\<rparr>,
     threads = (\<lambda>t. if t = 1 then (Waiting, [Recv]) else if t = 3 then (Waiting, [Send 20]) else (Running, [])),
     sent = [10], received = [10]\<rparr>"

lemma crossing_reach: "chan_step\<^sup>*\<^sup>* (chan_start 1 crossing) crossing_end"
proof -
  let ?c0 = "\<lparr>chan_q = [], chan_capacity = 1\<rparr>" and ?c1 = "\<lparr>chan_q = [10], chan_capacity = 1\<rparr>"
  define T0 where "T0 = (\<lambda>t. (Running, crossing t))"
  define T1 where "T1 = T0(0 := (Waiting, [Recv]))"
  define T2 where "T2 = T1(1 := (Waiting, [Recv]))"
  define T3 where "T3 = wake 0 (T2(2 := (Running, [])))"
  define T4 where "T4 = T3(3 := (Waiting, [Send 20]))"
  define T5 where "T5 = wake 1 (T4(0 := (Running, [])))"
  define T6 where "T6 = T5(1 := (Waiting, [Recv]))"
  note T = T0_def T1_def T2_def T3_def T4_def T5_def T6_def wake_def crossing_def
  let ?s = "\<lambda>c T a b. \<lparr>chan = c, threads = T, sent = a, received = b\<rparr>"
  have a1: "chan_step (?s ?c0 T0 [] []) (?s ?c0 T1 [] [])"
    using recv_wait [of "?s ?c0 T0 [] []" 0 "[]"] by (simp add: chan_pop_def T)
  have a2: "chan_step (?s ?c0 T1 [] []) (?s ?c0 T2 [] [])"
    using recv_wait [of "?s ?c0 T1 [] []" 1 "[]"] by (simp add: chan_pop_def T)
  have n3: "notify_one (T2(2 := (Running, []))) T3" unfolding T3_def by (rule Notify) (simp add: T)
  have a3: "chan_step (?s ?c0 T2 [] []) (?s ?c1 T3 [10] [])"
    using send_ok [of "?s ?c0 T2 [] []" 2 10 "[]" ?c1 T3] n3 by (simp add: chan_push_def T)
  have a4: "chan_step (?s ?c1 T3 [10] []) (?s ?c1 T4 [10] [])"
    using send_wait [of "?s ?c1 T3 [10] []" 3 20 "[]"] by (simp add: chan_push_def T)
  have n5: "notify_one (T4(0 := (Running, []))) T5" unfolding T5_def by (rule Notify) (simp add: T)
  have a5: "chan_step (?s ?c1 T4 [10] []) (?s ?c0 T5 [10] [10])"
    using recv_ok [of "?s ?c1 T4 [10] []" 0 "[]" 10 ?c0 T5] n5 by (simp add: chan_pop_def T)
  have a6: "chan_step (?s ?c0 T5 [10] [10]) (?s ?c0 T6 [10] [10])"
    using recv_wait [of "?s ?c0 T5 [10] [10]" 1 "[]"] by (simp add: chan_pop_def T)
  have st: "chan_start 1 crossing = ?s ?c0 T0 [] []" by (simp add: chan_start_def kyte_channel_create_def T0_def)
  have "T6 = threads crossing_end" by (rule ext) (simp add: T crossing_end_def)
  then have en: "crossing_end = ?s ?c0 T6 [10] [10]" by (simp add: crossing_end_def)
  show ?thesis unfolding st en
    by (meson a1 a2 a3 a4 a5 a6 converse_rtranclp_into_rtranclp rtranclp.rtrancl_refl)
qed

text \<open>
  Property C18 (channel_lost_wakeup).  Senders and receivers share one condition variable and each
  operation notifies one waiter.  With two of each on a channel of capacity one the notification of
  the space can reach a receiver, which finds the queue empty and waits again: a sender waits for
  space in an empty channel, a receiver waits for a value, and no step is possible any more.
\<close>

theorem channel_lost_wakeup:
  "\<exists>s. chan_step\<^sup>*\<^sup>* (chan_start 1 crossing) s \<and> (\<forall>s'. \<not> chan_step s s')
    \<and> waiting s 1 \<and> snd (threads s 1) = [Recv]
    \<and> waiting s 3 \<and> snd (threads s 3) = [Send 20] \<and> chan_push 20 (chan s) \<noteq> None"
proof (intro exI conjI allI)
  show "chan_step\<^sup>*\<^sup>* (chan_start 1 crossing) crossing_end" by (rule crossing_reach)
  show "\<not> chan_step crossing_end s'" for s'
    by (rule notI, erule chan_stepE) (auto simp: crossing_end_def split: if_splits)
qed (simp_all add: crossing_end_def waiting_def chan_push_def)

theorem channel_fifo_witness:
  "chan_step_spurious\<^sup>*\<^sup>* (chan_start 1 crossing) crossing_end \<and> sent crossing_end = received crossing_end @ chan_q (chan crossing_end)"
proof -
  have "chan_step_spurious\<^sup>*\<^sup>* (chan_start 1 crossing) crossing_end"
    using crossing_reach by (rule mono_rtranclp [rule_format, rotated]) (rule Step)
  then show ?thesis using channel_fifo [of 1 crossing crossing_end] by blast
qed

section \<open>One sender and one receiver\<close>

text \<open>
  With a single sending thread and a single receiving one a notification cannot go astray: whoever
  waits has reason to.
\<close>

definition pair_inv :: "nat \<Rightarrow> nat \<Rightarrow> chan_sys \<Rightarrow> bool" where
  "pair_inv p c s \<longleftrightarrow> chan_inv s
     \<and> (\<forall>t. t \<noteq> p \<longrightarrow> t \<noteq> c \<longrightarrow> threads s t = (Running, []))
     \<and> Recv \<notin> set (snd (threads s p)) \<and> (\<forall>v. Send v \<notin> set (snd (threads s c)))
     \<and> (waiting s p \<longrightarrow> int (length (chan_q (chan s))) = chan_capacity (chan s) \<and> snd (threads s p) \<noteq> [])
     \<and> (waiting s c \<longrightarrow> chan_q (chan s) = [] \<and> snd (threads s c) \<noteq> [])"

lemma notify_two:
  assumes "notify_one T T'" "\<And>t. fst (T t) = Waiting \<Longrightarrow> t = r"
  shows "T' = T(r := (Running, snd (T r)))"
  using assms(1)
proof cases
  case (Notify t)
  then show ?thesis using assms(2) [of t] by (simp add: wake_def)
next
  case Nobody
  have "fst (T r) = Running" using Nobody(2) [of r] by (cases "fst (T r)") auto
  then show ?thesis using Nobody by (metis fun_upd_triv prod.collapse)
qed

lemma pair_inv_step:
  assumes st: "chan_step s s'" and inv: "pair_inv p c s" and ne: "p \<noteq> c"
  shows "pair_inv p c s'"
proof -
  have ci: "chan_inv s'" using chan_inv_step [OF Step [OF st]] inv by (simp add: pair_inv_def)
  have cap: "1 \<le> chan_capacity (chan s)" using inv by (simp add: pair_inv_def chan_inv_def)
  have who: "t = p" if "threads s t = (Running, Send v # ops)" for t v ops
    using inv that unfolding pair_inv_def by (metis list.set_intros(1) prod.inject list.distinct(1) snd_conv)
  have who': "t = c" if "threads s t = (Running, Recv # ops)" for t ops
    using inv that unfolding pair_inv_def by (metis list.set_intros(1) prod.inject list.distinct(1) snd_conv)
  have rest: "t = p \<or> t = c" if "fst (threads s t) = Waiting" for t
    using inv that unfolding pair_inv_def by (metis fst_conv phase.distinct(1))
  from st show ?thesis
  proof cases
    case (send_ok t v ops d T)
    then have t: "t = p" using who by blast
    have only: "x = c" if "fst (((threads s)(t := (Running, ops))) x) = Waiting" for x
      using that rest [of x] by (auto simp: t split: if_splits)
    have T: "T = (threads s)(p := (Running, ops), c := (Running, snd (threads s c)))"
      using notify_two [OF send_ok(4) only] ne by (simp add: t)
    have "Recv \<notin> set ops" using inv send_ok(2) t by (simp add: pair_inv_def)
    then show ?thesis using inv ci ne by (simp add: pair_inv_def send_ok(1) T waiting_def)
  next
    case (recv_ok t ops v d T)
    then have t: "t = c" using who' by blast
    have only: "x = p" if "fst (((threads s)(t := (Running, ops))) x) = Waiting" for x
      using that rest [of x] by (auto simp: t split: if_splits)
    have T: "T = (threads s)(c := (Running, ops), p := (Running, snd (threads s p)))"
      using notify_two [OF recv_ok(4) only] ne by (simp add: t)
    have "\<forall>v. Send v \<notin> set ops" using inv recv_ok(2) t by (simp add: pair_inv_def)
    then show ?thesis using inv ci ne by (simp add: pair_inv_def recv_ok(1) T waiting_def)
  next
    case (send_wait t v ops)
    then have t: "t = p" using who by blast
    have "int (length (chan_q (chan s))) = chan_capacity (chan s)"
      using send_wait(3) ci by (auto simp: chan_push_def chan_inv_def send_wait(1) split: if_splits)
    moreover have "Recv \<notin> set (Send v # ops)" using inv send_wait(2) t by (simp add: pair_inv_def)
    ultimately show ?thesis using inv ci ne by (simp add: pair_inv_def send_wait(1) waiting_def t)
  next
    case (recv_wait t ops)
    then have t: "t = c" using who' by blast
    have "chan_q (chan s) = []" using recv_wait(3) by (simp add: chan_pop_def split: list.splits)
    moreover have "\<forall>v. Send v \<notin> set (Recv # ops)" using inv recv_wait(2) t by (simp add: pair_inv_def)
    ultimately show ?thesis using inv ci ne by (simp add: pair_inv_def recv_wait(1) waiting_def t)
  qed
qed

text \<open>
  One thread that sends and one that receives never block each
  other for good: as long as neither has run out of operations a step is possible, without any
  spurious wake-up.
\<close>

theorem channel_pair_live:
  assumes run: "chan_step\<^sup>*\<^sup>* (chan_start cap prog) s"
    and ops: "p \<noteq> c" "Recv \<notin> set (prog p)" "\<forall>v. Send v \<notin> set (prog c)" "\<forall>t. t \<noteq> p \<longrightarrow> t \<noteq> c \<longrightarrow> prog t = []"
    and busy: "snd (threads s p) \<noteq> []" "snd (threads s c) \<noteq> []"
  shows "\<exists>s'. chan_step s s'"
proof -
  have inv: "pair_inv p c s"
    using run
  proof (induction rule: rtranclp_induct)
    case base
    show ?case using ops by (auto simp: pair_inv_def chan_inv_def chan_start_def kyte_channel_create_def waiting_def)
  next
    case (step s s')
    then show ?case using pair_inv_step ops(1) by blast
  qed
  have cap: "1 \<le> chan_capacity (chan s)" using inv by (simp add: pair_inv_def chan_inv_def)
  have notif: "\<exists>T'. notify_one T T'" for T using notify_one.intros by (metis (full_types))
  show ?thesis
  proof (cases "waiting s p")
    case False
    obtain op rest where "snd (threads s p) = op # rest" using busy(1) by (cases "snd (threads s p)") auto
    then obtain v where p: "threads s p = (Running, Send v # rest)"
      using False inv unfolding pair_inv_def waiting_def
      by (cases op; cases "threads s p"; cases "fst (threads s p)") auto
    show ?thesis
    proof (cases "chan_push v (chan s)")
      case None
      then show ?thesis using send_wait [OF p] by blast
    next
      case (Some d)
      then show ?thesis using send_ok [OF p Some] notif by blast
    qed
  next
    case True
    then have full: "chan_q (chan s) \<noteq> []" using inv cap by (auto simp: pair_inv_def)
    then have "\<not> waiting s c" using inv by (auto simp: pair_inv_def)
    obtain op rest where "snd (threads s c) = op # rest" using busy(2) by (cases "snd (threads s c)") auto
    then have c: "threads s c = (Running, Recv # rest)"
      using \<open>\<not> waiting s c\<close> inv unfolding pair_inv_def waiting_def
      by (cases op; cases "threads s c"; cases "fst (threads s c)") auto
    obtain v d where "chan_pop (chan s) = Some (v, d)" using full by (cases "chan_q (chan s)") (simp_all add: chan_pop_def)
    then show ?thesis using recv_ok [OF c] notif by blast
  qed
qed

theorem channel_pair_live_witness:
  "\<exists>s'. chan_step (chan_start 1 (\<lambda>t. if t = 0 then [Send 7] else if t = 1 then [Recv] else [])) s'"
  by (rule channel_pair_live [where p = 0 and c = 1]) (auto simp: chan_start_def)

section \<open>The asynchronous channel\<close>

record kyte_chan =
  chan_values :: "int list"
  recv_waiters :: "addr list"

definition kyte_chan_new :: "int \<Rightarrow> kyte_chan" where
  "kyte_chan_new cap = \<lparr>chan_values = [], recv_waiters = []\<rparr>"

definition kyte_chan_send :: "kyte_chan option \<Rightarrow> int \<Rightarrow> sched \<Rightarrow> (kyte_chan option \<times> sched) outcome" where
  "kyte_chan_send ch val s =
     (case ch of
        None \<Rightarrow> Ok (None, s)
      | Some c \<Rightarrow>
          (let c = c\<lparr>chan_values := chan_values c @ [val]\<rparr>;
               (waiter, c) = (case recv_waiters c of [] \<Rightarrow> (0, c) | w # ws \<Rightarrow> (w, c\<lparr>recv_waiters := ws\<rparr>)) in
           if waiter \<noteq> 0 then bind_outcome (kyte_sched_schedule waiter s) (\<lambda>s. Ok (Some c, s)) else Ok (Some c, s)))"

text \<open>The result, the value written to \<^verbatim>\<open>*out\<close> if any, and the channel.\<close>

definition kyte_chan_recv :: "kyte_chan option \<Rightarrow> addr \<Rightarrow> int \<times> int option \<times> kyte_chan option" where
  "kyte_chan_recv ch self =
     (case ch of
        None \<Rightarrow> (1, None, None)
      | Some c \<Rightarrow>
          (case chan_values c of
             v # vs \<Rightarrow> (1, Some v, Some (c\<lparr>chan_values := vs\<rparr>))
           | [] \<Rightarrow> (0, None, Some (if self \<noteq> 0 then c\<lparr>recv_waiters := recv_waiters c @ [self]\<rparr> else c))))"

text \<open>
  The coroutines of one reactor thread around one channel.  \<open>R\<close> are the receivers: when the run queue
  resumes one of them it asks the channel again.  The run queue is the scheduler's own; nothing else
  records who was woken.  \<open>ac_resume\<close> is what the reactor does with the head of the run queue.
\<close>

record chan_world =
  ac :: kyte_chan
  ac_sched :: sched
  ac_sent :: "int list"
  ac_got :: "int list"

definition asks :: "addr \<Rightarrow> chan_world \<Rightarrow> chan_world \<Rightarrow> bool" where
  "asks self w w' \<longleftrightarrow>
     (\<exists>n out c. kyte_chan_recv (Some (ac w)) self = (n, out, Some c)
        \<and> w' = w\<lparr>ac := c, ac_got := ac_got w @ (case out of None \<Rightarrow> [] | Some v \<Rightarrow> [v])\<rparr>)"

inductive ac_resume :: "addr set \<Rightarrow> chan_world \<Rightarrow> chan_world \<Rightarrow> bool" for R where
  retry: "rq (ac_sched w) = Some (h # q) \<Longrightarrow> h \<in> R \<Longrightarrow> frames (ac_sched w) h = Some False \<Longrightarrow>
     asks h (w\<lparr>ac_sched := (ac_sched w)\<lparr>rq := Some q\<rparr>\<rparr>) w' \<Longrightarrow> ac_resume R w w'"
| other: "rq (ac_sched w) = Some (h # q) \<Longrightarrow> h \<notin> R \<Longrightarrow> ac_resume R w (w\<lparr>ac_sched := (ac_sched w)\<lparr>rq := Some q\<rparr>\<rparr>)"

text \<open>
  Anyone sends; a receiver that is running (unfinished, not parked, not queued) asks or finishes; any
  other coroutine is scheduled.
\<close>

definition at_large :: "addr \<Rightarrow> chan_world \<Rightarrow> bool" where
  "at_large h w \<longleftrightarrow> frames (ac_sched w) h = Some False \<and> h \<notin> set (queue (ac_sched w)) \<and> h \<notin> set (recv_waiters (ac w))"

inductive ac_step :: "addr set \<Rightarrow> chan_world \<Rightarrow> chan_world \<Rightarrow> bool" for R where
  ac_send: "kyte_chan_send (Some (ac w)) v (ac_sched w) = Ok (Some c, s) \<Longrightarrow>
     ac_step R w (w\<lparr>ac := c, ac_sched := s, ac_sent := ac_sent w @ [v]\<rparr>)"
| ac_ask: "self \<in> R \<Longrightarrow> at_large self w \<Longrightarrow> asks self w w' \<Longrightarrow> ac_step R w w'"
| ac_finish: "self \<in> R \<Longrightarrow> at_large self w \<Longrightarrow>
     ac_step R w (w\<lparr>ac_sched := (ac_sched w)\<lparr>frames := (frames (ac_sched w))(self \<mapsto> True)\<rparr>\<rparr>)"
| ac_spawn: "self \<in> R \<Longrightarrow> frames (ac_sched w) self = None \<Longrightarrow>
     ac_step R w (w\<lparr>ac_sched := (ac_sched w)\<lparr>frames := (frames (ac_sched w))(self \<mapsto> False)\<rparr>\<rparr>)"
| ac_schedule: "h \<notin> R \<Longrightarrow> kyte_sched_schedule h (ac_sched w) = Ok s \<Longrightarrow> ac_step R w (w\<lparr>ac_sched := s\<rparr>)"
| ac_turn: "ac_resume R w w' \<Longrightarrow> ac_step R w w'"

text \<open>The receivers the run queue is about to resume.\<close>

definition due :: "addr set \<Rightarrow> sched \<Rightarrow> addr list" where
  "due R s = filter (\<lambda>h. h \<in> R) (queue s)"

definition ac_inv :: "addr set \<Rightarrow> chan_world \<Rightarrow> bool" where
  "ac_inv R w \<longleftrightarrow> ac_sent w = ac_got w @ chan_values (ac w)
     \<and> (recv_waiters (ac w) \<noteq> [] \<longrightarrow> length (chan_values (ac w)) \<le> length (due R (ac_sched w)))
     \<and> (\<forall>h \<in> set (recv_waiters (ac w)). h \<in> R \<and> frames (ac_sched w) h = Some False)
     \<and> (\<forall>h \<in> set (due R (ac_sched w)). frames (ac_sched w) h = Some False)"

lemma queue_simps [simp]:
  "queue (s\<lparr>rq := Some q\<rparr>) = q" "queue (s\<lparr>frames := f\<rparr>) = queue s"
  "rq s = Some q \<Longrightarrow> queue s = q"
  by (simp_all add: queue_def)

lemma schedule_queue:
  assumes "kyte_sched_schedule h s = Ok s'"
  shows "frames s' = frames s \<and> (queue s' = queue s \<or> queue s' = queue s @ [h])"
  using assms
  by (auto simp: kyte_sched_schedule_def bind_outcome_Ok queue_def split: if_splits)

lemma schedule_live: "h \<noteq> 0 \<Longrightarrow> frames s h = Some False \<Longrightarrow>
   kyte_sched_schedule h s = Ok (s\<lparr>rq := Some (queue s @ [h])\<rparr>)"
  by (simp add: kyte_sched_schedule_def raw_coro_done_def queue_def)

text \<open>A send puts the oldest parked receiver at the end of the run queue.\<close>

lemma send_wakes:
  assumes "\<forall>h \<in> set (recv_waiters c). h \<noteq> 0 \<and> frames s h = Some False"
  shows "\<exists>s'. kyte_chan_send (Some c) v s
      = Ok (Some (c\<lparr>chan_values := chan_values c @ [v], recv_waiters := drop 1 (recv_waiters c)\<rparr>), s')
    \<and> queue s' = queue s @ take 1 (recv_waiters c) \<and> frames s' = frames s"
  using assms schedule_live by (cases "recv_waiters c") (auto simp: kyte_chan_send_def Let_def)

lemma asks_total: "\<exists>w'. asks h w w'"
  by (cases "chan_values (ac w)") (auto simp: asks_def kyte_chan_recv_def)

lemma asks_cases:
  assumes "asks h w w'" "h \<noteq> 0"
  obtains (took) v vs where "chan_values (ac w) = v # vs" "w' = w\<lparr>ac := (ac w)\<lparr>chan_values := vs\<rparr>, ac_got := ac_got w @ [v]\<rparr>"
  | (parks) "chan_values (ac w) = []" "w' = w\<lparr>ac := (ac w)\<lparr>recv_waiters := recv_waiters (ac w) @ [h]\<rparr>\<rparr>"
  using assms by (cases "chan_values (ac w)") (auto simp: asks_def kyte_chan_recv_def)

lemma ac_inv_resume:
  assumes "ac_resume R w w'" "ac_inv R w" "0 \<notin> R"
  shows "ac_inv R w'"
  using assms(1)
proof cases
  case (retry h q)
  have "h \<noteq> 0" using retry(2) assms(3) by auto
  from asks_cases [OF retry(4) this] show ?thesis
    by cases (use assms(2) retry in \<open>auto simp: ac_inv_def due_def\<close>)
next
  case (other h q)
  then show ?thesis using assms(2) by (simp add: ac_inv_def due_def)
qed

lemma ac_inv_step:
  assumes "ac_step R w w'" "ac_inv R w" "0 \<notin> R"
  shows "ac_inv R w'"
  using assms(1)
proof cases
  case (ac_send v c s)
  have "\<forall>h \<in> set (recv_waiters (ac w)). h \<noteq> 0 \<and> frames (ac_sched w) h = Some False"
    using assms(2,3) by (auto simp: ac_inv_def)
  from send_wakes [OF this, of v] ac_send(2)
  have c: "c = (ac w)\<lparr>chan_values := chan_values (ac w) @ [v], recv_waiters := drop 1 (recv_waiters (ac w))\<rparr>"
    and s: "queue s = queue (ac_sched w) @ take 1 (recv_waiters (ac w))" "frames s = frames (ac_sched w)" by auto
  show ?thesis
  proof (cases "recv_waiters (ac w)")
    case (Cons h hs)
    then show ?thesis using assms(2) by (auto simp: ac_inv_def due_def ac_send(1) c s)
  qed (use assms(2) in \<open>auto simp: ac_inv_def due_def ac_send(1) c s\<close>)
next
  case (ac_ask self)
  have "self \<noteq> 0" using ac_ask(1) assms(3) by auto
  from asks_cases [OF ac_ask(3) this] show ?thesis
    by cases (use assms(2) ac_ask in \<open>auto simp: ac_inv_def at_large_def\<close>)
next
  case (ac_finish self)
  then show ?thesis using assms(2) by (auto simp: ac_inv_def due_def at_large_def)
next
  case (ac_spawn self)
  then show ?thesis using assms(2) by (auto simp: ac_inv_def due_def)
next
  case (ac_schedule h s)
  then show ?thesis using assms(2) schedule_queue [OF ac_schedule(3)] by (auto simp: ac_inv_def due_def)
next
  case ac_turn
  then show ?thesis using ac_inv_resume assms(2,3) by blast
qed

text \<open>The reactor alone runs the queue down: nobody it resumes here schedules anyone.\<close>

lemma queue_runs_down:
  assumes "ac_inv R w" "0 \<notin> R"
  shows "\<exists>w'. (ac_resume R)\<^sup>*\<^sup>* w w' \<and> ac_inv R w' \<and> queue (ac_sched w') = [] \<and> ac_sent w' = ac_sent w"
  using assms(1)
proof (induction "length (queue (ac_sched w))" arbitrary: w)
  case 0
  then show ?case by (intro exI [of _ w]) simp
next
  case (Suc n)
  then obtain h q where q: "rq (ac_sched w) = Some (h # q)" "length q = n"
    by (cases "rq (ac_sched w)"; cases "queue (ac_sched w)") (auto simp: queue_def)
  obtain w1 where w1: "ac_resume R w w1" "queue (ac_sched w1) = q" "ac_sent w1 = ac_sent w"
  proof (cases "h \<in> R")
    case True
    then have f: "frames (ac_sched w) h = Some False" using Suc.prems q(1) by (simp add: ac_inv_def due_def)
    obtain w1 where a: "asks h (w\<lparr>ac_sched := (ac_sched w)\<lparr>rq := Some q\<rparr>\<rparr>) w1" using asks_total by blast
    then have "ac_sched w1 = (ac_sched w)\<lparr>rq := Some q\<rparr>" "ac_sent w1 = ac_sent w" by (auto simp: asks_def)
    then show thesis using that [OF retry [OF q(1) True f a]] by simp
  next
    case False
    then show thesis using that [OF other [OF q(1)]] by simp
  qed
  then have "ac_inv R w1" using ac_inv_resume Suc.prems assms(2) by blast
  from Suc.hyps(1) [OF _ this] w1 q(2) show ?case by (metis converse_rtranclp_into_rtranclp)
qed

text \<open>
  Property C19 (chan_no_lost_wakeup).  On the asynchronous channel, in every state the receivers \<open>R\<close>, the
  senders and the reactor can reach: values arrive in the order they were sent.  A send never fails;
  it puts the oldest parked receiver, and nobody else, at the end of the scheduler's run queue, and
  takes it off the channel.  While a receiver is parked the run queue holds a receiver for every value
  in the channel.  So from every such state the reactor, running its queue down, comes to a state
  in which nothing is queued and no receiver is parked on a channel that has a value.
\<close>

theorem chan_no_lost_wakeup:
  assumes run: "(ac_step R)\<^sup>*\<^sup>* \<lparr>ac = kyte_chan_new cap, ac_sched = s0, ac_sent = [], ac_got = []\<rparr> w"
    and start: "0 \<notin> R" "queue s0 = []"
  shows "ac_sent w = ac_got w @ chan_values (ac w)
    \<and> (\<exists>c s. kyte_chan_send (Some (ac w)) v (ac_sched w) = Ok (Some c, s)
         \<and> chan_values c = chan_values (ac w) @ [v]
         \<and> queue s = queue (ac_sched w) @ take 1 (recv_waiters (ac w)) \<and> recv_waiters c = drop 1 (recv_waiters (ac w)))
    \<and> (recv_waiters (ac w) \<noteq> [] \<longrightarrow> length (chan_values (ac w)) \<le> length (filter (\<lambda>h. h \<in> R) (queue (ac_sched w))))
    \<and> (\<exists>w'. (ac_resume R)\<^sup>*\<^sup>* w w' \<and> ac_sent w' = ac_sent w \<and> queue (ac_sched w') = []
         \<and> (recv_waiters (ac w') = [] \<or> chan_values (ac w') = []))"
proof -
  have inv: "ac_inv R w"
    using run
  proof (induction rule: rtranclp_induct)
    case base
    show ?case using start(2) by (simp add: ac_inv_def kyte_chan_new_def due_def)
  next
    case (step w w')
    then show ?case using ac_inv_step start(1) by blast
  qed
  have "\<forall>h \<in> set (recv_waiters (ac w)). h \<noteq> 0 \<and> frames (ac_sched w) h = Some False"
    using inv start(1) by (auto simp: ac_inv_def)
  then obtain s where "kyte_chan_send (Some (ac w)) v (ac_sched w)
      = Ok (Some ((ac w)\<lparr>chan_values := chan_values (ac w) @ [v], recv_waiters := drop 1 (recv_waiters (ac w))\<rparr>), s)"
    "queue s = queue (ac_sched w) @ take 1 (recv_waiters (ac w))"
    using send_wakes by blast
  moreover obtain w' where w': "(ac_resume R)\<^sup>*\<^sup>* w w'" "ac_inv R w'" "queue (ac_sched w') = []" "ac_sent w' = ac_sent w"
    using queue_runs_down [OF inv start(1)] by blast
  moreover have "recv_waiters (ac w') = [] \<or> chan_values (ac w') = []"
    using w'(2,3) by (auto simp: ac_inv_def due_def)
  ultimately show ?thesis using inv by (auto simp: ac_inv_def due_def)
qed

text \<open>A receiver parks, a value is sent, the receiver is in the run queue, and the reactor hands it the value.\<close>

theorem chan_no_lost_wakeup_witness:
  "\<exists>w. (ac_step {1})\<^sup>*\<^sup>* \<lparr>ac = kyte_chan_new 4, ac_sched = sched0\<lparr>frames := [1 \<mapsto> False]\<rparr>, ac_sent = [], ac_got = []\<rparr> w
     \<and> rq (ac_sched w) = Some [1] \<and> chan_values (ac w) = [9]
     \<and> (\<exists>w'. (ac_resume {1})\<^sup>*\<^sup>* w w' \<and> ac_sent w' = [9] \<and> queue (ac_sched w') = [])"
proof -
  let ?s = "sched0\<lparr>frames := [1 \<mapsto> False]\<rparr>"
  let ?w0 = "\<lparr>ac = kyte_chan_new 4, ac_sched = ?s, ac_sent = [], ac_got = []\<rparr>"
  let ?w1 = "\<lparr>ac = \<lparr>chan_values = [], recv_waiters = [1]\<rparr>, ac_sched = ?s, ac_sent = [], ac_got = []\<rparr>"
  let ?w2 = "\<lparr>ac = \<lparr>chan_values = [9], recv_waiters = []\<rparr>, ac_sched = ?s\<lparr>rq := Some [1]\<rparr>, ac_sent = [9], ac_got = []\<rparr>"
  have q: "queue ?s = []" by (simp add: queue_def sched0_def)
  have "asks 1 ?w0 ?w1" by (simp add: asks_def kyte_chan_recv_def kyte_chan_new_def)
  moreover have "at_large 1 ?w0" by (simp add: at_large_def kyte_chan_new_def queue_def sched0_def)
  ultimately have 1: "ac_step {1} ?w0 ?w1" by (intro ac_ask [of 1]) simp_all
  have 2: "ac_step {1} ?w1 ?w2"
    using ac_send [of ?w1 9 "\<lparr>chan_values = [9], recv_waiters = []\<rparr>" "?s\<lparr>rq := Some [1]\<rparr>" "{1}"]
    by (simp add: kyte_chan_send_def kyte_sched_schedule_def raw_coro_done_def) (simp add: sched0_def)
  have run: "(ac_step {1})\<^sup>*\<^sup>* ?w0 ?w2" using 1 2 by (meson converse_rtranclp_into_rtranclp rtranclp.rtrancl_refl)
  from chan_no_lost_wakeup [OF run _ q, of 0]
  have "\<exists>w'. (ac_resume {1})\<^sup>*\<^sup>* ?w2 w' \<and> ac_sent w' = [9] \<and> queue (ac_sched w') = []" by auto
  with run show ?thesis by (intro exI [of _ ?w2]) simp
qed

end
