(* ===== verification/Kyte_Reactor.thy ===== *)
theory Kyte_Reactor
  imports Kyte_Uring
begin

text \<open>
  The tables of a reactor thread in \<^verbatim>\<open>src/runtime/concurrency.cpp\<close>: the readiness arms, the
  registered descriptors, the timers of the three backends and the inboxes through which other
  threads post.  The system calls are parameters; descriptors and heap cells a table owns are kept
  as sets, so that a leak or a double close shows.
\<close>

text \<open>What the build selects: KYTE_HAVE_KQUEUE, KYTE_HAVE_IOCP, KYTE_HAVE_EPOLL, or none of them.\<close>

datatype platform = Kqueue | Iocp | Linux | Bare

section \<open>Readiness arms\<close>

type_synonym arms = "int \<Rightarrow> addr option"

definition kyte_reactor_arm_get :: "arms \<Rightarrow> int \<Rightarrow> addr" where
  "kyte_reactor_arm_get A fd = (case A fd of None \<Rightarrow> 0 | Some op \<Rightarrow> op)"

definition kyte_reactor_arm_set :: "int \<Rightarrow> addr \<Rightarrow> arms \<Rightarrow> arms" where
  "kyte_reactor_arm_set fd op A = (if op \<noteq> 0 then A(fd \<mapsto> op) else A(fd := None))"

text \<open>The deferred re-arms, a vector used from its end.\<close>

definition kyte_reactor_rearm_push :: "addr \<Rightarrow> addr list \<Rightarrow> addr list" where
  "kyte_reactor_rearm_push op R = (if op \<noteq> 0 then R @ [op] else R)"

definition kyte_reactor_rearm_pop :: "addr list \<Rightarrow> addr \<times> addr list" where
  "kyte_reactor_rearm_pop R = (if R = [] then (0, R) else (last R, butlast R))"

text \<open>The IOCP association memo.\<close>

definition kyte_iocp_mark_associated :: "int \<Rightarrow> int set \<Rightarrow> int \<times> int set" where
  "kyte_iocp_mark_associated fd S = (if fd < 0 then (1, S) else (if fd \<in> S then 0 else 1, insert fd S))"

definition kyte_iocp_clear_associated :: "int \<Rightarrow> int set \<Rightarrow> int set" where
  "kyte_iocp_clear_associated fd S = (if fd \<ge> 0 then S - {fd} else S)"

text \<open>The registered descriptors of epoll, a vector of flags indexed by descriptor.\<close>

definition grow_flags :: "int \<Rightarrow> bool list \<Rightarrow> bool list" where
  "grow_flags fd R = (if nat fd \<ge> length R then R @ replicate (nat fd + 64 - length R) False else R)"

definition kyte_epoll_mark_registered :: "int \<Rightarrow> bool list \<Rightarrow> int \<times> bool list" where
  "kyte_epoll_mark_registered fd R =
     (if fd < 0 then (1, R)
      else
        (let R = grow_flags fd R in
         if R ! nat fd then (0, R) else (1, R[nat fd := True])))"

definition kyte_epoll_clear_registered :: "int \<Rightarrow> bool list \<Rightarrow> bool list" where
  "kyte_epoll_clear_registered fd R = (if fd < 0 \<or> nat fd \<ge> length R then R else R[nat fd := False])"

text \<open>\<open>ioctl fd\<close> is what \<^verbatim>\<open>FIONREAD\<close> stores, None when it fails.\<close>

definition kyte_fionread :: "(int \<Rightarrow> int option) \<Rightarrow> int \<Rightarrow> int" where
  "kyte_fionread ioctl fd = (if fd < 0 then 0 else case ioctl fd of None \<Rightarrow> 0 | Some n \<Rightarrow> n)"

section \<open>Epoll timers\<close>

definition KYTE_EPOLL_TIMER_TAG :: u64 where "KYTE_EPOLL_TIMER_TAG = push_bit 63 1"
definition KYTE_EPOLL_WAKE_DATA :: u64 where "KYTE_EPOLL_WAKE_DATA = NOT 0"
definition KYTE_EPOLL_USER_FILTER :: int where "KYTE_EPOLL_USER_FILTER = - 2"

record epoll_os =
  timerfd_create :: "int set \<Rightarrow> int"
  epoll_add :: "int \<Rightarrow> int \<Rightarrow> bool"

record epoll_timers =
  timer_fd :: "addr \<Rightarrow> int option"
  open_timers :: "int set"
  timer_value :: "int \<Rightarrow> (int \<times> int) option"
  timer_word :: "int \<Rightarrow> u64 option"

definition close_timer :: "int \<Rightarrow> epoll_timers \<Rightarrow> epoll_timers" where
  "close_timer fd T = T\<lparr>open_timers := open_timers T - {fd}, timer_value := (timer_value T)(fd := None),
     timer_word := (timer_word T)(fd := None)\<rparr>"

definition epoll_timer_cancel :: "addr \<Rightarrow> epoll_timers \<Rightarrow> epoll_timers" where
  "epoll_timer_cancel handle T =
     (case timer_fd T handle of
        None \<Rightarrow> T
      | Some fd \<Rightarrow>
          (let T = T\<lparr>timer_fd := (timer_fd T)(handle := None)\<rparr> in
           if fd \<ge> 0 then close_timer fd T else T))"

text \<open>Seconds and nanoseconds of the one-shot timer; all zero would disarm it.\<close>

definition timer_spec :: "int \<Rightarrow> int \<times> int" where
  "timer_spec ms =
     (let m = (if ms < 0 then 0 else ms) in
      if m = 0 then (0, 1) else (m div 1000, (m mod 1000) * 1000000))"

definition tagged :: "addr \<Rightarrow> u64" where
  "tagged handle = word_of_int handle OR KYTE_EPOLL_TIMER_TAG"

definition epoll_timer_arm :: "epoll_os \<Rightarrow> int \<Rightarrow> addr \<Rightarrow> int \<Rightarrow> epoll_timers \<Rightarrow> epoll_timers" where
  "epoll_timer_arm K ep handle ms T =
     (if ep \<le> 0 \<or> handle = 0 then T
      else
        (let T = epoll_timer_cancel handle T;
             tfd = timerfd_create K (open_timers T) in
         if tfd < 0 then T
         else
           (let T = T\<lparr>open_timers := insert tfd (open_timers T), timer_value := (timer_value T)(tfd \<mapsto> timer_spec ms)\<rparr> in
            if \<not> epoll_add K ep tfd then close_timer tfd T
            else T\<lparr>timer_word := (timer_word T)(tfd \<mapsto> tagged handle), timer_fd := (timer_fd T)(handle \<mapsto> tfd)\<rparr>)))"

text \<open>The raw event word of a Kyte-driven loop, turned into the handle to resume.\<close>

definition untagged :: "u64 \<Rightarrow> addr" where
  "untagged d = sint (d AND NOT KYTE_EPOLL_TIMER_TAG)"

definition kyte_reactor_event_token :: "platform \<Rightarrow> int \<Rightarrow> epoll_timers \<Rightarrow> int \<times> epoll_timers" where
  "kyte_reactor_event_token P data T =
     (let d = word_of_int data :: u64 in
      if P \<noteq> Linux then (data, T)
      else if d = KYTE_EPOLL_WAKE_DATA then (0, T)
      else if d AND KYTE_EPOLL_TIMER_TAG \<noteq> 0 then (untagged d, epoll_timer_cancel (untagged d) T)
      else (data, T))"

text \<open>\<open>evfilt_user\<close> is the constant of the kqueue header.\<close>

definition kyte_evfilt_user :: "platform \<Rightarrow> int \<Rightarrow> int" where
  "kyte_evfilt_user P evfilt_user =
     (case P of Kqueue \<Rightarrow> evfilt_user | Linux \<Rightarrow> KYTE_EPOLL_USER_FILTER | _ \<Rightarrow> 0)"

section \<open>io_uring timers\<close>

text \<open>
  The deadline cells of the ring backend: the cell each handle owns, the cells allocated, and what
  they hold.  \<open>new_cell\<close> is \<^verbatim>\<open>operator new\<close>.
\<close>

record uring_timers =
  to_cell :: "addr \<Rightarrow> addr option"
  cells :: "addr set"
  cell_value :: "addr \<Rightarrow> int \<times> int"

definition uring_spec :: "int \<Rightarrow> int \<times> int" where
  "uring_spec ms = (let m = (if ms < 0 then 0 else ms) in (m div 1000, (m mod 1000) * 1000000))"

definition timeout_request :: "addr \<Rightarrow> addr \<Rightarrow> request" where
  "timeout_request t handle = \<lparr>rq_op = IORING_OP_TIMEOUT, rq_fd = - 1, rq_addr = t, rq_len = 1, rq_off = 0,
     rq_user_data = sint (tagged handle)\<rparr>"

definition uring_timer_arm :: "(addr set \<Rightarrow> addr) \<Rightarrow> enter \<Rightarrow> addr \<Rightarrow> int \<Rightarrow> uring option \<times> uring_timers
    \<Rightarrow> (uring option \<times> uring_timers) outcome" where
  "uring_timer_arm new_cell enter handle ms = (\<lambda>(ring, U).
     if ring = None \<or> handle = 0 then Ok (ring, U)
     else
       (let t = new_cell (cells U);
            U = U\<lparr>cells := insert t (cells U), cell_value := (cell_value U)(t := uring_spec ms)\<rparr>;
            U = (case to_cell U handle of
                   Some old \<Rightarrow> U\<lparr>cells := cells U - {old}, to_cell := (to_cell U)(handle \<mapsto> t)\<rparr>
                 | None \<Rightarrow> U\<lparr>to_cell := (to_cell U)(handle \<mapsto> t)\<rparr>) in
        bind_outcome (kyte_uring_prep ring (timeout_request t handle)) (\<lambda>(n, ring).
          Ok (snd (kyte_uring_submit_and_wait enter ring 0), U))))"

definition uring_timer_release :: "addr \<Rightarrow> uring_timers \<Rightarrow> uring_timers" where
  "uring_timer_release handle U =
     (case to_cell U handle of
        None \<Rightarrow> U
      | Some t \<Rightarrow> U\<lparr>cells := cells U - {t}, to_cell := (to_cell U)(handle := None)\<rparr>)"

text \<open>The wake descriptor a ring watches: re-arming its poll, and draining it.\<close>

definition wake_request :: "int \<Rightarrow> request" where
  "wake_request fd = \<lparr>rq_op = IORING_OP_POLL_ADD, rq_fd = fd, rq_addr = 0, rq_len = 0, rq_off = 1,
     rq_user_data = sint KYTE_EPOLL_WAKE_DATA\<rparr>"

definition uring_wake_rearm :: "enter \<Rightarrow> int \<Rightarrow> uring option \<Rightarrow> uring option outcome" where
  "uring_wake_rearm enter wake_fd ring =
     (if ring = None \<or> wake_fd < 0 then Ok ring
      else bind_outcome (kyte_uring_prep ring (wake_request wake_fd)) (\<lambda>(n, ring).
        Ok (snd (kyte_uring_submit_and_wait enter ring 0))))"

text \<open>\<open>signals\<close> counts the writes to each eventfd that nobody has read yet.\<close>

definition uring_wake_drain_impl :: "enter \<Rightarrow> int \<Rightarrow> uring option \<Rightarrow> (int \<Rightarrow> nat) \<Rightarrow> (uring option \<times> (int \<Rightarrow> nat)) outcome" where
  "uring_wake_drain_impl enter wake_fd ring signals =
     (if wake_fd < 0 then Ok (ring, signals)
      else bind_outcome (uring_wake_rearm enter wake_fd ring) (\<lambda>ring. Ok (ring, signals(wake_fd := 0))))"

section \<open>IOCP timers\<close>

definition KYTE_WAKE_KEY :: u64 where "KYTE_WAKE_KEY = - 1"
definition KYTE_TIMER_KEY :: u64 where "KYTE_TIMER_KEY = - 2"

record iocp_timer =
  iocp_queue_timer :: int
  iocp_port :: int
  iocp_handle :: addr

text \<open>\<open>create_timer port handle ms\<close> is the queue timer's handle, None when Windows refuses.\<close>

record iocp_timers =
  iocp_map :: "addr \<Rightarrow> iocp_timer option"
  queue_timers :: "int set"
  arc_multithreaded :: bool

definition iocp_timer_cancel :: "addr \<Rightarrow> iocp_timers \<Rightarrow> iocp_timers" where
  "iocp_timer_cancel handle W =
     (case iocp_map W handle of
        None \<Rightarrow> W
      | Some t \<Rightarrow>
          (let W = W\<lparr>iocp_map := (iocp_map W)(handle := None)\<rparr> in
           if iocp_queue_timer t \<noteq> 0 then W\<lparr>queue_timers := queue_timers W - {iocp_queue_timer t}\<rparr> else W))"

definition iocp_timer_arm :: "(int set \<Rightarrow> int \<Rightarrow> int option) \<Rightarrow> int \<Rightarrow> addr \<Rightarrow> int \<Rightarrow> iocp_timers \<Rightarrow> iocp_timers" where
  "iocp_timer_arm create_timer port handle ms W =
     (if port = 0 \<or> handle = 0 then W
      else
        (let W = iocp_timer_cancel handle W;
             W = W\<lparr>arc_multithreaded := True\<rparr> in
         case create_timer (queue_timers W) (if ms < 0 then 0 else ms) of
           None \<Rightarrow> W
         | Some h \<Rightarrow>
             W\<lparr>queue_timers := insert h (queue_timers W),
               iocp_map := (iocp_map W)(handle \<mapsto> \<lparr>iocp_queue_timer = h, iocp_port = port, iocp_handle = handle\<rparr>)\<rparr>))"

text \<open>What the timer callback posts to the port: the completion key and the overlapped word.\<close>

definition kyte_iocp_timer_cb :: "iocp_timer \<Rightarrow> int \<times> u64 \<times> addr" where
  "kyte_iocp_timer_cb t = (iocp_port t, KYTE_TIMER_KEY, iocp_handle t)"

section \<open>Inboxes\<close>

text \<open>
  \<open>signals\<close> counts the unread writes to each eventfd, \<open>triggers\<close> the user events of each kqueue or
  the wake completions posted to each port.
\<close>

record wake_box =
  wb_kq :: int
  wb_fd :: int
  wb_q :: "addr list"

record wake_world =
  boxes :: "int \<Rightarrow> wake_box option"
  signals :: "int \<Rightarrow> nat"
  triggers :: "int \<Rightarrow> nat"
  user_filters :: "int set"
  uring_wake_fd :: int
  open_events :: "int set"

definition wake_box0 :: wake_box where
  "wake_box0 = \<lparr>wb_kq = 0, wb_fd = - 1, wb_q = []\<rparr>"

text \<open>
  \<open>new_eventfd\<close> is \<^verbatim>\<open>eventfd\<close> (negative when it fails), \<open>add\<close> whether epoll takes it; on the
  ring backend the poll is armed by \<open>uring_wake_rearm\<close>.
\<close>

definition wake_listen ::
    "int \<Rightarrow> (int set \<Rightarrow> int) \<Rightarrow> (int \<Rightarrow> int \<Rightarrow> bool) \<Rightarrow> enter \<Rightarrow> int \<Rightarrow> int \<Rightarrow> wake_box \<Rightarrow> uring option \<times> wake_world
     \<Rightarrow> (uring option \<times> wake_world) outcome" where
  "wake_listen backend new_eventfd add enter idx kq b = (\<lambda>(ring, w).
     if wb_fd b \<ge> 0 then Ok (ring, w)
     else
       (let efd = new_eventfd (open_events w) in
        if efd < 0 then Ok (ring, w)
        else if backend = KYTE_BACKEND_URING then
          (let w = w\<lparr>open_events := insert efd (open_events w), boxes := (boxes w)(idx \<mapsto> b\<lparr>wb_fd := efd\<rparr>), uring_wake_fd := efd\<rparr> in
           bind_outcome (uring_wake_rearm enter efd ring) (\<lambda>ring. Ok (ring, w)))
        else if add kq efd then
          Ok (ring, w\<lparr>open_events := insert efd (open_events w), boxes := (boxes w)(idx \<mapsto> b\<lparr>wb_fd := efd\<rparr>)\<rparr>)
        else Ok (ring, w)))"

definition kyte_reactor_wake_register ::
    "platform \<Rightarrow> int \<Rightarrow> (int set \<Rightarrow> int) \<Rightarrow> (int \<Rightarrow> int \<Rightarrow> bool) \<Rightarrow> enter \<Rightarrow> int \<Rightarrow> int \<Rightarrow> uring option \<times> wake_world
     \<Rightarrow> (uring option \<times> wake_world) outcome" where
  "kyte_reactor_wake_register P backend new_eventfd add enter idx kq = (\<lambda>(ring, w).
     let b = (case boxes w idx of None \<Rightarrow> wake_box0 | Some b \<Rightarrow> b)\<lparr>wb_kq := kq\<rparr>;
         w = w\<lparr>boxes := (boxes w)(idx \<mapsto> b)\<rparr> in
     case P of
       Kqueue \<Rightarrow> Ok (ring, w\<lparr>user_filters := insert kq (user_filters w)\<rparr>)
     | Linux \<Rightarrow> wake_listen backend new_eventfd add enter idx kq b (ring, w)
     | _ \<Rightarrow> Ok (ring, w))"

definition kyte_reactor_post :: "platform \<Rightarrow> int \<Rightarrow> addr \<Rightarrow> wake_world \<Rightarrow> wake_world" where
  "kyte_reactor_post P idx handle w =
     (case boxes w idx of
        None \<Rightarrow> w
      | Some b \<Rightarrow>
          (let w = w\<lparr>boxes := (boxes w)(idx \<mapsto> b\<lparr>wb_q := wb_q b @ [handle]\<rparr>)\<rparr> in
           if P = Linux then
             (if wb_fd b \<ge> 0 then w\<lparr>signals := (signals w)(wb_fd b := signals w (wb_fd b) + 1)\<rparr> else w)
           else if P = Bare then w
           else w\<lparr>triggers := (triggers w)(wb_kq b := triggers w (wb_kq b) + 1)\<rparr>))"

definition kyte_reactor_drain_one :: "int \<Rightarrow> wake_world \<Rightarrow> addr \<times> wake_world" where
  "kyte_reactor_drain_one idx w =
     (case boxes w idx of
        None \<Rightarrow> (0, w)
      | Some b \<Rightarrow>
          (case wb_q b of
             [] \<Rightarrow> (0, w)
           | h # q \<Rightarrow> (h, w\<lparr>boxes := (boxes w)(idx \<mapsto> b\<lparr>wb_q := q\<rparr>)\<rparr>)))"

end
