(* ===== verification/Kyte_Reactor_Props.thy ===== *)
theory Kyte_Reactor_Props
  imports Kyte_Reactor
begin

text \<open>
  The tables of a reactor keep their resources straight: a timer descriptor or a deadline cell is
  open exactly while the table names it, the tag of a timer event leads back to the coroutine, the
  registration vector is a set, and an inbox is a queue.
\<close>

section \<open>Registration\<close>

definition registered :: "bool list \<Rightarrow> int set" where
  "registered R = {fd. 0 \<le> fd \<and> nat fd < length R \<and> R ! nat fd}"

lemma registered_grow: "registered (grow_flags fd R) = registered R"
  by (auto simp: registered_def grow_flags_def nth_append)

lemma grow_flags_length: "0 \<le> fd \<Longrightarrow> nat fd < length (grow_flags fd R)"
  by (simp add: grow_flags_def)

lemma mark_registered:
  assumes "0 \<le> fd"
  shows "kyte_epoll_mark_registered fd R =
    (if fd \<in> registered R then (0, grow_flags fd R) else (1, (grow_flags fd R)[nat fd := True]))"
  using grow_flags_length [OF assms, of R] assms registered_grow [of fd R]
  by (auto simp: kyte_epoll_mark_registered_def Let_def registered_def)

text \<open>
  The vector of flags, grown on demand, is a set of
  descriptors: marking answers 1 exactly when the descriptor was not in it, and adds it; clearing
  removes it; a negative descriptor is always new and changes nothing.
\<close>

theorem registered_refines_set:
  "fst (kyte_epoll_mark_registered fd R) = (if fd \<in> registered R then 0 else 1)
   \<and> registered (snd (kyte_epoll_mark_registered fd R)) = (if fd < 0 then registered R else insert fd (registered R))
   \<and> registered (kyte_epoll_clear_registered fd R) = registered R - {fd}"
proof (cases "0 \<le> fd")
  case True
  have l: "nat fd < length (grow_flags fd R)" by (rule grow_flags_length [OF True])
  have "registered ((grow_flags fd R)[nat fd := True]) = insert fd (registered (grow_flags fd R))"
    using True l by (auto simp: registered_def nth_list_update split: if_splits)
  moreover have "registered (kyte_epoll_clear_registered fd R) = registered R - {fd}"
    using True by (auto simp: registered_def kyte_epoll_clear_registered_def nth_list_update split: if_splits)
  ultimately show ?thesis using True by (auto simp: mark_registered [OF True] registered_grow)
next
  case False
  then show ?thesis by (auto simp: kyte_epoll_mark_registered_def kyte_epoll_clear_registered_def registered_def)
qed

section \<open>Event words\<close>

lemma bit_tag: "bit KYTE_EPOLL_TIMER_TAG n \<longleftrightarrow> n = 63"
  by (simp only: KYTE_EPOLL_TIMER_TAG_def bit_push_bit_iff bit_1_iff) auto

definition is_handle :: "int \<Rightarrow> bool" where
  "is_handle h \<longleftrightarrow> 0 < h \<and> h < 2 ^ 63 - 1"

lemma handle_bit63: "is_handle h \<Longrightarrow> \<not> bit (word_of_int h :: u64) 63"
proof -
  assume h: "is_handle h"
  have "\<not> bit h 63"
  proof -
    have "h div 2 ^ 63 = 0" using h by (intro div_pos_pos_trivial) (simp_all add: is_handle_def)
    then show ?thesis by (simp add: bit_iff_odd)
  qed
  then show ?thesis by (simp add: bit_word_of_int_iff)
qed

lemma tag_test: "w AND KYTE_EPOLL_TIMER_TAG \<noteq> 0 \<longleftrightarrow> bit w 63" for w :: u64
proof (cases "bit w 63")
  case True
  then have "bit (w AND KYTE_EPOLL_TIMER_TAG) 63" by (simp add: bit_and_iff bit_tag)
  then show ?thesis using True by auto
next
  case False
  have "w AND KYTE_EPOLL_TIMER_TAG = 0" using False by (intro bit_word_eqI) (auto simp: bit_and_iff bit_tag)
  then show ?thesis using False by simp
qed

lemma sint_handle: "is_handle h \<Longrightarrow> sint (word_of_int h :: u64) = h"
  by (simp add: is_handle_def sint_sbintrunc' signed_take_bit_int_eq_self)

lemma untag_handle: "is_handle h \<Longrightarrow> untagged (word_of_int h OR KYTE_EPOLL_TIMER_TAG) = h"
proof -
  assume h: "is_handle h"
  have "(word_of_int h OR KYTE_EPOLL_TIMER_TAG) AND NOT KYTE_EPOLL_TIMER_TAG = (word_of_int h :: u64)"
    using handle_bit63 [OF h] by (intro bit_word_eqI) (auto simp: bit_and_iff bit_or_iff bit_not_iff bit_tag)
  then show ?thesis using sint_handle [OF h] by (simp add: untagged_def)
qed

lemma bit_word_all: "bit KYTE_EPOLL_WAKE_DATA n \<longleftrightarrow> n < 64"
  by (simp add: KYTE_EPOLL_WAKE_DATA_def bit_not_iff)

lemma tagged_not_wake: "is_handle h \<Longrightarrow> tagged h \<noteq> KYTE_EPOLL_WAKE_DATA"
proof
  assume h: "is_handle h" and e: "tagged h = KYTE_EPOLL_WAKE_DATA"
  have "untagged KYTE_EPOLL_WAKE_DATA = h" using untag_handle [OF h] e by (simp add: tagged_def)
  moreover have "untagged KYTE_EPOLL_WAKE_DATA = 2 ^ 63 - 1"
    by (simp add: untagged_def KYTE_EPOLL_WAKE_DATA_def KYTE_EPOLL_TIMER_TAG_def)
  ultimately show False using h by (simp add: is_handle_def)
qed

text \<open>
  A raw event word leads back to its coroutine: the word of a ready
  descriptor is the handle itself and touches no timer, the word of a fired timer gives the handle
  and closes exactly that handle's timer, the wake word resumes nothing.
\<close>

theorem event_token_exact:
  assumes "is_handle h"
  shows "kyte_reactor_event_token Linux h T = (h, T)
    \<and> kyte_reactor_event_token Linux (sint (tagged h)) T = (h, epoll_timer_cancel h T)
    \<and> kyte_reactor_event_token Linux (- 1) T = (0, T)"
proof (intro conjI)
  have "word_of_int h \<noteq> KYTE_EPOLL_WAKE_DATA"
    using handle_bit63 [OF assms] bit_word_all [of 63] by auto
  then show "kyte_reactor_event_token Linux h T = (h, T)"
    using handle_bit63 [OF assms] by (simp add: kyte_reactor_event_token_def Let_def tag_test)
  have "bit (tagged h) 63" by (simp add: tagged_def bit_or_iff bit_tag)
  then show "kyte_reactor_event_token Linux (sint (tagged h)) T = (h, epoll_timer_cancel h T)"
    using tagged_not_wake [OF assms] untag_handle [OF assms]
    by (simp add: kyte_reactor_event_token_def Let_def tag_test) (simp add: tagged_def)
  show "kyte_reactor_event_token Linux (- 1) T = (0, T)"
    by (simp add: kyte_reactor_event_token_def KYTE_EPOLL_WAKE_DATA_def)
qed

definition no_timers :: epoll_timers where
  "no_timers = \<lparr>timer_fd = (\<lambda>_. None), open_timers = {}, timer_value = (\<lambda>_. None), timer_word = (\<lambda>_. None)\<rparr>"

theorem event_token_exact_witness:
  "kyte_reactor_event_token Linux (sint (tagged 4096)) no_timers = (4096, epoll_timer_cancel 4096 no_timers)"
  using event_token_exact [of 4096 no_timers] by (simp add: is_handle_def)

section \<open>Epoll timers\<close>

definition timers_ok :: "epoll_timers \<Rightarrow> bool" where
  "timers_ok T \<longleftrightarrow> inj_on (timer_fd T) (dom (timer_fd T))
     \<and> open_timers T = ran (timer_fd T)
     \<and> (\<forall>h fd. timer_fd T h = Some fd \<longrightarrow> 0 \<le> fd \<and> timer_word T fd = Some (tagged h)
          \<and> (\<exists>sec ns. timer_value T fd = Some (sec, ns) \<and> 0 \<le> sec \<and> 0 \<le> ns \<and> ns < 1000000000 \<and> (sec, ns) \<noteq> (0, 0)))"

lemma timer_spec_ok:
  "\<exists>sec ns. timer_spec ms = (sec, ns) \<and> 0 \<le> sec \<and> 0 \<le> ns \<and> ns < 1000000000 \<and> (sec, ns) \<noteq> (0, 0)
     \<and> sec * 1000000000 + ns = max 1 (ms * 1000000)"
proof (cases "ms \<le> 0")
  case True
  then show ?thesis by (auto simp: timer_spec_def)
next
  case False
  have e: "ms div 1000 * 1000000000 + ms mod 1000 * 1000000 = ms * 1000000"
  proof -
    have "(ms div 1000 * 1000 + ms mod 1000) * 1000000 = ms * 1000000" by simp
    then show ?thesis by (simp only: distrib_right mult.assoc)
  qed
  have "(ms div 1000, ms mod 1000 * 1000000) \<noteq> (0, 0)" using e False by auto
  then show ?thesis using False e
    by (intro exI [of _ "ms div 1000"] exI [of _ "ms mod 1000 * 1000000"]) (simp add: timer_spec_def Let_def pos_imp_zdiv_nonneg_iff)
qed

lemma ran_remove:
  assumes inj: "inj_on m (dom m)" and h: "m h = Some fd"
  shows "ran (m(h := None)) = ran m - {fd}"
proof -
  have only: "a = h" if "m a = Some fd" for a using inj_onD [OF inj, of a h] h that by (simp add: domI)
  have "x \<in> ran (m(h := None)) \<longleftrightarrow> x \<in> ran m - {fd}" for x
  proof
    assume "x \<in> ran (m(h := None))"
    then obtain a where "a \<noteq> h" "m a = Some x" by (auto simp: ran_def split: if_splits)
    then show "x \<in> ran m - {fd}" using only by (auto intro: ranI)
  next
    assume "x \<in> ran m - {fd}"
    then obtain a where "m a = Some x" "x \<noteq> fd" by (auto simp: ran_def)
    then have "(m(h := None)) a = Some x" using h by auto
    then show "x \<in> ran (m(h := None))" by (rule ranI)
  qed
  then show ?thesis by blast
qed

lemma cancel_ok:
  assumes "timers_ok T"
  shows "timers_ok (epoll_timer_cancel h T) \<and> timer_fd (epoll_timer_cancel h T) = (timer_fd T)(h := None)"
proof (cases "timer_fd T h")
  case None
  then show ?thesis using assms by (auto simp: epoll_timer_cancel_def fun_upd_idem)
next
  case (Some fd)
  have inj: "inj_on (timer_fd T) (dom (timer_fd T))" and op: "open_timers T = ran (timer_fd T)"
    and all: "\<And>h fd. timer_fd T h = Some fd \<Longrightarrow> 0 \<le> fd \<and> timer_word T fd = Some (tagged h)
          \<and> (\<exists>sec ns. timer_value T fd = Some (sec, ns) \<and> 0 \<le> sec \<and> 0 \<le> ns \<and> ns < 1000000000 \<and> (sec, ns) \<noteq> (0, 0))"
    using assms by (simp_all add: timers_ok_def)
  have T': "epoll_timer_cancel h T = close_timer fd (T\<lparr>timer_fd := (timer_fd T)(h := None)\<rparr>)"
    using Some all [OF Some] by (simp add: epoll_timer_cancel_def)
  have other: "g \<noteq> fd" if "timer_fd T x = Some g" "x \<noteq> h" for x g
    using inj that Some unfolding inj_on_def dom_def by auto
  have "inj_on ((timer_fd T)(h := None)) (dom ((timer_fd T)(h := None)))"
    using inj by (auto simp: inj_on_def dom_def)
  then show ?thesis
    using ran_remove [OF inj Some] op all other by (simp add: T' timers_ok_def close_timer_def)
qed

text \<open>The documented promise of \<^verbatim>\<open>timerfd_create\<close>: a descriptor that is not open yet.\<close>

definition fresh_timerfd :: "epoll_os \<Rightarrow> bool" where
  "fresh_timerfd K \<longleftrightarrow> (\<forall>S. 0 \<le> timerfd_create K S \<longrightarrow> timerfd_create K S \<notin> S)"

lemma inj_on_new:
  assumes "inj_on m (dom m)" "v \<notin> ran m"
  shows "inj_on (m(k \<mapsto> v)) (dom (m(k \<mapsto> v)))"
  using assms unfolding inj_on_def dom_def ran_def by (auto split: if_splits)

lemma timers_new:
  assumes ok: "timers_ok C" and h: "timer_fd C h = None" and fd: "fd \<notin> ran (timer_fd C)" "0 \<le> fd"
  shows "timers_ok (C\<lparr>open_timers := insert fd (open_timers C), timer_value := (timer_value C)(fd \<mapsto> timer_spec ms),
    timer_word := (timer_word C)(fd \<mapsto> tagged h), timer_fd := (timer_fd C)(h \<mapsto> fd)\<rparr>)" (is "timers_ok ?U")
proof -
  have inj: "inj_on (timer_fd C) (dom (timer_fd C))" and op: "open_timers C = ran (timer_fd C)"
    and all: "\<And>h fd. timer_fd C h = Some fd \<Longrightarrow> 0 \<le> fd \<and> timer_word C fd = Some (tagged h)
          \<and> (\<exists>sec ns. timer_value C fd = Some (sec, ns) \<and> 0 \<le> sec \<and> 0 \<le> ns \<and> ns < 1000000000 \<and> (sec, ns) \<noteq> (0, 0))"
    using ok by (simp_all add: timers_ok_def)
  have "inj_on (timer_fd ?U) (dom (timer_fd ?U))" using inj_on_new [OF inj fd(1)] by simp
  moreover have "open_timers ?U = ran (timer_fd ?U)" using op h by (simp add: ran_map_upd)
  moreover have "0 \<le> g \<and> timer_word ?U g = Some (tagged x)
      \<and> (\<exists>sec ns. timer_value ?U g = Some (sec, ns) \<and> 0 \<le> sec \<and> 0 \<le> ns \<and> ns < 1000000000 \<and> (sec, ns) \<noteq> (0, 0))"
    if x: "timer_fd ?U x = Some g" for x g
  proof (cases "x = h")
    case True
    then show ?thesis using x fd(2) timer_spec_ok [of ms] by auto
  next
    case False
    then have g: "timer_fd C x = Some g" using x by simp
    then have "g \<noteq> fd" using fd(1) by (auto simp: ran_def)
    then show ?thesis using all [OF g] by simp
  qed
  ultimately show ?thesis unfolding timers_ok_def by blast
qed

lemma timers_add_close:
  assumes "timers_ok C" "fd \<notin> ran (timer_fd C)"
  shows "timers_ok (close_timer fd (C\<lparr>open_timers := insert fd (open_timers C), timer_value := (timer_value C)(fd \<mapsto> v)\<rparr>))"
proof -
  have "g \<noteq> fd" if "timer_fd C x = Some g" for x g using assms(2) that by (auto simp: ran_def)
  then show ?thesis using assms by (simp add: timers_ok_def close_timer_def)
qed

lemma arm_ok:
  assumes ok: "timers_ok T" and K: "fresh_timerfd K"
  shows "timers_ok (epoll_timer_arm K ep h ms T)
    \<and> (\<forall>x. x \<noteq> h \<longrightarrow> timer_fd (epoll_timer_arm K ep h ms T) x = timer_fd T x)
    \<and> (\<forall>fd. 0 < ep \<and> h \<noteq> 0 \<and> timer_fd (epoll_timer_arm K ep h ms T) h = Some fd
          \<longrightarrow> timer_value (epoll_timer_arm K ep h ms T) fd = Some (timer_spec ms))"
proof -
  define C where "C = epoll_timer_cancel h T"
  define fd where "fd = timerfd_create K (open_timers C)"
  have C: "timers_ok C" "timer_fd C = (timer_fd T)(h := None)" using cancel_ok [OF ok] by (simp_all add: C_def)
  show ?thesis
  proof (cases "ep \<le> 0 \<or> h = 0 \<or> fd < 0")
    case True
    then have "epoll_timer_arm K ep h ms T = (if ep \<le> 0 \<or> h = 0 then T else C)"
      by (auto simp: epoll_timer_arm_def C_def [symmetric] fd_def [symmetric] Let_def)
    then show ?thesis using ok C by auto
  next
    case False
    have "open_timers C = ran (timer_fd C)" using C(1) by (simp add: timers_ok_def)
    then have nf: "fd \<notin> ran (timer_fd C)" using K False by (auto simp: fresh_timerfd_def fd_def)
    define A where "A = C\<lparr>open_timers := insert fd (open_timers C), timer_value := (timer_value C)(fd \<mapsto> timer_spec ms)\<rparr>"
    have "epoll_timer_arm K ep h ms T = (if \<not> epoll_add K ep fd then close_timer fd A
        else A\<lparr>timer_word := (timer_word A)(fd \<mapsto> tagged h), timer_fd := (timer_fd A)(h \<mapsto> fd)\<rparr>)"
      using False by (simp add: epoll_timer_arm_def C_def [symmetric] fd_def [symmetric] A_def Let_def)
    moreover have "timers_ok (A\<lparr>timer_word := (timer_word A)(fd \<mapsto> tagged h), timer_fd := (timer_fd A)(h \<mapsto> fd)\<rparr>)"
      using timers_new [OF C(1) _ nf, of h ms] False by (simp add: A_def C(2))
    moreover have "timers_ok (close_timer fd A)" using timers_add_close [OF C(1) nf] by (simp add: A_def)
    ultimately show ?thesis by (simp add: A_def close_timer_def C(2))
  qed
qed

datatype timer_op = Arm addr int | Cancel addr | Fire addr

fun timer_step :: "epoll_os \<Rightarrow> int \<Rightarrow> timer_op \<Rightarrow> epoll_timers \<Rightarrow> epoll_timers" where
  "timer_step K ep (Arm h ms) T = epoll_timer_arm K ep h ms T"
| "timer_step K ep (Cancel h) T = epoll_timer_cancel h T"
| "timer_step K ep (Fire h) T = snd (kyte_reactor_event_token Linux (sint (tagged h)) T)"

text \<open>
  After any arming, re-arming, cancelling and firing, whatever the
  system calls answer, every open timer descriptor belongs to exactly one handle and no handle has two;
  its event word carries that handle, and its time is never the zero that would disarm it.  Arming
  sets the time asked for and leaves every other timer alone.
\<close>

theorem epoll_timers_exact:
  assumes "fresh_timerfd K" "timers_ok T"
  shows "timers_ok (fold (timer_step K ep) ops T)
    \<and> (\<forall>h ms. timers_ok (epoll_timer_arm K ep h ms T)
        \<and> (\<forall>x. x \<noteq> h \<longrightarrow> timer_fd (epoll_timer_arm K ep h ms T) x = timer_fd T x)
        \<and> (\<forall>fd. 0 < ep \<and> h \<noteq> 0 \<and> timer_fd (epoll_timer_arm K ep h ms T) h = Some fd
              \<longrightarrow> timer_value (epoll_timer_arm K ep h ms T) fd = Some (timer_spec ms)))"
proof
  show "timers_ok (fold (timer_step K ep) ops T)"
    using assms(2)
  proof (induction ops arbitrary: T)
    case (Cons op ops)
    have "timers_ok (timer_step K ep op T)"
    proof (cases op)
      case (Arm h ms)
      then show ?thesis using arm_ok [OF Cons.prems assms(1)] by simp
    next
      case (Cancel h)
      then show ?thesis using cancel_ok [OF Cons.prems] by simp
    next
      case (Fire h)
      then show ?thesis using cancel_ok [OF Cons.prems] Cons.prems by (simp add: kyte_reactor_event_token_def Let_def)
    qed
    then show ?case using Cons.IH by simp
  qed simp
qed (use arm_ok [OF assms(2,1)] in blast)

definition demo_epoll :: epoll_os where
  "demo_epoll = \<lparr>timerfd_create = (\<lambda>S. if 5 \<in> S then (if 6 \<in> S then - 24 else 6) else 5), epoll_add = (\<lambda>ep fd. True)\<rparr>"

theorem epoll_timers_exact_witness:
  "timer_fd (fold (timer_step demo_epoll 3) [Arm 64 20, Arm 128 0, Arm 64 1500, Fire 128] no_timers) 64 = Some 5
   \<and> timers_ok (fold (timer_step demo_epoll 3) [Arm 64 20, Arm 128 0, Arm 64 1500, Fire 128] no_timers)"
proof
  have "fresh_timerfd demo_epoll" "timers_ok no_timers"
    by (auto simp: fresh_timerfd_def demo_epoll_def timers_ok_def no_timers_def)
  from epoll_timers_exact [OF this]
  show "timers_ok (fold (timer_step demo_epoll 3) [Arm 64 20, Arm 128 0, Arm 64 1500, Fire 128] no_timers)" by blast
  have "snd (kyte_reactor_event_token Linux (sint (tagged 128)) T) = epoll_timer_cancel 128 T" for T
    using event_token_exact [of 128 T] by (simp add: is_handle_def)
  then show "timer_fd (fold (timer_step demo_epoll 3) [Arm 64 20, Arm 128 0, Arm 64 1500, Fire 128] no_timers) 64 = Some 5"
    by (simp add: epoll_timer_arm_def epoll_timer_cancel_def close_timer_def demo_epoll_def no_timers_def Let_def)
qed

section \<open>Deadline cells of the ring\<close>

definition cells_ok :: "uring_timers \<Rightarrow> bool" where
  "cells_ok U \<longleftrightarrow> inj_on (to_cell U) (dom (to_cell U)) \<and> cells U = ran (to_cell U)"

text \<open>Arming frees the cell it replaces, releasing frees the cell; no cell leaks and none is shared.\<close>

lemma cells_release: "cells_ok U \<Longrightarrow> cells_ok (uring_timer_release h U)"
proof (cases "to_cell U h")
  case (Some t)
  assume ok: "cells_ok U"
  then have "inj_on ((to_cell U)(h := None)) (dom ((to_cell U)(h := None)))"
    by (auto simp: cells_ok_def inj_on_def dom_def)
  then show ?thesis using ok Some ran_remove [of "to_cell U" h t] by (simp add: cells_ok_def uring_timer_release_def)
qed (simp add: uring_timer_release_def)

lemma cells_arm:
  assumes ok: "cells_ok U" and new: "\<And>S. new_cell S \<notin> S"
    and arm: "uring_timer_arm new_cell enter h ms (ring, U) = Ok (ring', U')"
  shows "cells_ok U'"
proof (cases "ring = None \<or> h = 0")
  case True
  then show ?thesis using arm ok by (auto simp: uring_timer_arm_def)
next
  case False
  define t where "t = new_cell (cells U)"
  have inj: "inj_on (to_cell U) (dom (to_cell U))" and op: "cells U = ran (to_cell U)" using ok by (simp_all add: cells_ok_def)
  have nt: "t \<notin> ran (to_cell U)" using new op by (simp add: t_def)
  define B where "B = (to_cell U)(h := None)"
  have B: "inj_on B (dom B)" "B h = None" "t \<notin> ran B" using inj nt by (auto simp: B_def inj_on_def dom_def ran_def)
  have rB: "ran B = (case to_cell U h of None \<Rightarrow> ran (to_cell U) | Some old \<Rightarrow> ran (to_cell U) - {old})"
    using ran_remove [OF inj, of h] by (auto simp: B_def fun_upd_idem split: option.split)
  define V where "V = (case to_cell U h of
      Some old \<Rightarrow> (U\<lparr>cells := insert t (cells U), cell_value := (cell_value U)(t := uring_spec ms)\<rparr>)
        \<lparr>cells := insert t (cells U) - {old}, to_cell := (to_cell U)(h \<mapsto> t)\<rparr>
    | None \<Rightarrow> (U\<lparr>cells := insert t (cells U), cell_value := (cell_value U)(t := uring_spec ms)\<rparr>)\<lparr>to_cell := (to_cell U)(h \<mapsto> t)\<rparr>)"
  have "U' = V"
    using arm False unfolding uring_timer_arm_def
    by (cases "to_cell U h") (auto simp: Let_def t_def [symmetric] V_def bind_outcome_Ok)
  moreover have "to_cell V = B(h \<mapsto> t)" by (simp add: V_def B_def split: option.split)
  moreover have "cells V = insert t (ran B)"
  proof (cases "to_cell U h")
    case None
    then show ?thesis using op rB by (simp add: V_def)
  next
    case (Some old)
    then have "old \<noteq> t" using nt by (auto intro: ranI)
    then show ?thesis using Some op rB by (auto simp: V_def)
  qed
  ultimately have u: "to_cell U' = B(h \<mapsto> t)" "cells U' = insert t (ran B)" by simp_all
  have "inj_on (B(h \<mapsto> t)) (dom (B(h \<mapsto> t)))"
  proof (rule inj_onI)
    fix x y
    assume "x \<in> dom (B(h \<mapsto> t))" "y \<in> dom (B(h \<mapsto> t))" "(B(h \<mapsto> t)) x = (B(h \<mapsto> t)) y"
    then show "x = y" using B(1) B(3) by (auto simp: inj_on_def dom_def ran_def split: if_splits)
  qed
  moreover have "ran (B(h \<mapsto> t)) = insert t (ran B)" by (rule ran_map_upd) (rule B(2))
  ultimately show ?thesis by (simp add: cells_ok_def u)
qed

section \<open>Inboxes\<close>

datatype post_op = Post int addr | Drain int

fun post_run :: "platform \<Rightarrow> post_op list \<Rightarrow> wake_world \<Rightarrow> (int \<times> addr) list \<times> (int \<times> addr) list \<times> wake_world" where
  "post_run P [] w = ([], [], w)"
| "post_run P (Post i h # ops) w =
     (let (ins, outs, w) = post_run P ops (kyte_reactor_post P i h w) in ((i, h) # ins, outs, w))"
| "post_run P (Drain i # ops) w =
     (let (h, w) = kyte_reactor_drain_one i w; (ins, outs, w) = post_run P ops w in
      (ins, if h \<noteq> 0 then (i, h) # outs else outs, w))"

definition box_q :: "wake_world \<Rightarrow> int \<Rightarrow> addr list" where
  "box_q w i = (case boxes w i of None \<Rightarrow> [] | Some b \<Rightarrow> wb_q b)"

definition to_box :: "int \<Rightarrow> (int \<times> addr) list \<Rightarrow> addr list" where
  "to_box i xs = map snd (filter (\<lambda>x. fst x = i) xs)"

lemma post_box:
  "boxes w i \<noteq> None \<Longrightarrow> box_q (kyte_reactor_post P j h w) i = (if j = i then box_q w i @ [h] else box_q w i)
     \<and> boxes (kyte_reactor_post P j h w) i \<noteq> None"
  by (auto simp: kyte_reactor_post_def box_q_def Let_def split: option.splits)

lemma drain_box:
  "kyte_reactor_drain_one j w = (h, w') \<Longrightarrow>
     (if j = i then box_q w i = (if box_q w i = [] then [] else h # box_q w' i) \<and> (box_q w i = [] \<longrightarrow> h = 0 \<and> w' = w)
      else box_q w' i = box_q w i) \<and> (boxes w i \<noteq> None \<longrightarrow> boxes w' i \<noteq> None)"
  by (auto simp: kyte_reactor_drain_one_def box_q_def split: option.splits list.splits if_splits)

text \<open>A drain takes the first handle off its own inbox; zero says there was none.\<close>

lemma drain_step:
  assumes "kyte_reactor_drain_one j w = (h, v)" "0 \<notin> set (box_q w i)" "boxes w i \<noteq> None"
  shows "box_q w i = (if j = i \<and> h \<noteq> 0 then [h] else []) @ box_q v i \<and> boxes v i \<noteq> None"
proof -
  note b = drain_box [OF assms(1), of i]
  then have v: "boxes v i \<noteq> None" using assms(3) by blast
  show ?thesis
  proof (cases "j = i \<and> box_q w i \<noteq> []")
    case True
    then have w: "box_q w i = h # box_q v i" using b by simp
    then have "h \<noteq> 0" using assms(2) by auto
    then show ?thesis using True w v by simp
  next
    case False
    then have "box_q v i = box_q w i \<and> (j = i \<longrightarrow> h = 0)" using b by (cases "j = i") simp_all
    then show ?thesis using v by auto
  qed
qed

text \<open>
  Property C20 (inbox_fifo).  Every reactor that has registered receives the handles posted to it, by
  whatever threads, in the order they were posted and once each, whatever is posted to or drained
  from the other inboxes in between, on every platform.
\<close>

theorem inbox_fifo:
  assumes "post_run P ops w = (ins, outs, w')" "boxes w i \<noteq> None" "0 \<notin> set (box_q w i)" "\<And>j h. Post j h \<in> set ops \<Longrightarrow> h \<noteq> 0"
  shows "box_q w i @ to_box i ins = to_box i outs @ box_q w' i"
  using assms
proof (induction ops arbitrary: w ins outs)
  case Nil
  then show ?case by (simp add: to_box_def)
next
  case (Cons op ops)
  have rest: "h \<noteq> 0" if "Post j h \<in> set ops" for j h
    by (rule Cons.prems(4) [of j h]) (simp add: that)
  show ?case
  proof (cases op)
    case (Post j h)
    obtain ins' where r: "post_run P ops (kyte_reactor_post P j h w) = (ins', outs, w')" "ins = (j, h) # ins'"
      using Cons.prems(1) Post by (auto simp: Let_def split: prod.splits)
    have p: "box_q (kyte_reactor_post P j h w) i = (if j = i then box_q w i @ [h] else box_q w i)"
      "boxes (kyte_reactor_post P j h w) i \<noteq> None"
      using post_box [OF Cons.prems(2), of P j h] by simp_all
    have "0 \<notin> set (box_q (kyte_reactor_post P j h w) i)" using p(1) Post Cons.prems(3,4) by auto
    from Cons.IH [OF r(1) p(2) this rest] show ?thesis using p r(2) by (auto simp: to_box_def split: if_splits)
  next
    case (Drain j)
    obtain h v where d: "kyte_reactor_drain_one j w = (h, v)" by (cases "kyte_reactor_drain_one j w")
    obtain outs' where r: "post_run P ops v = (ins, outs', w')" "outs = (if h \<noteq> 0 then (j, h) # outs' else outs')"
      using Cons.prems(1) Drain d by (auto simp: Let_def split: prod.splits)
    note b = drain_step [OF d Cons.prems(3,2)]
    then have nz: "0 \<notin> set (box_q v i)" using Cons.prems(3) by (auto split: if_splits)
    from Cons.IH [OF r(1) conjunct2 [OF b] nz rest] show ?thesis using b r(2) by (auto simp: to_box_def)
  qed
qed

theorem inbox_fifo_witness:
  "\<exists>w'. post_run Linux [Post 0 64, Post 1 96, Post 0 128, Drain 0]
       \<lparr>boxes = [0 \<mapsto> wake_box0, 1 \<mapsto> wake_box0], signals = (\<lambda>_. 0), triggers = (\<lambda>_. 0), user_filters = {},
         uring_wake_fd = - 1, open_events = {}\<rparr>
     = ([(0, 64), (1, 96), (0, 128)], [(0, 64)], w') \<and> box_q w' 0 = [128]"
proof -
  let ?w = "\<lparr>boxes = [0 \<mapsto> wake_box0, 1 \<mapsto> wake_box0], signals = (\<lambda>_. 0), triggers = (\<lambda>_. 0), user_filters = {},
         uring_wake_fd = - 1, open_events = {}\<rparr>"
  let ?ops = "[Post 0 64, Post 1 96, Post 0 128, Drain 0]"
  obtain w' where run: "post_run Linux ?ops ?w = ([(0, 64), (1, 96), (0, 128)], [(0, 64)], w')"
    by (simp add: kyte_reactor_post_def kyte_reactor_drain_one_def wake_box0_def Let_def)
  have "box_q ?w 0 @ to_box 0 [(0, 64), (1, 96), (0, 128)] = to_box 0 [(0, 64)] @ box_q w' 0"
    by (rule inbox_fifo [OF run]) (auto simp: box_q_def wake_box0_def)
  moreover have "box_q ?w 0 = []" by (simp add: box_q_def wake_box0_def)
  ultimately have "box_q w' 0 = [128]" by (simp only:) (simp add: to_box_def)
  then show ?thesis using run by blast
qed

end
