(* ===== verification/Kyte_Drive.thy ===== *)
theory Kyte_Drive
  imports Kyte_Memory Kyte_Sched_Claims Kyte_Uring_Props Kyte_Reactor_Props
begin

text \<open>
  The reactor loop: \<^verbatim>\<open>kyte_run_root\<close> of \<^verbatim>\<open>src/runtime/concurrency.cpp\<close> on its four
  backends (kqueue, completion port, epoll, io_uring) and the dispatch of one event on each.  It
  composes the scheduler, the timer tables, the rings and the memory that holds the operation
  records.  What the kernel reports is a parameter indexed by the turn of the loop.
\<close>

section \<open>The world of one thread\<close>

text \<open>
  \<open>w_kqueue\<close> holds the one-shot timers each kqueue was
  asked for and not asked to delete, keyed by the coroutine handle; \<open>w_res\<close> the descriptors, handles and
  mappings of the process.
\<close>

record world =
  w_sched :: sched
  w_mem :: memory
  w_kqueue :: "int \<Rightarrow> addr \<Rightarrow> int option"
  w_epoll :: epoll_timers
  w_ring :: "uring option"
  w_cells :: uring_timers
  w_iocp :: iocp_timers
  w_signals :: "int \<Rightarrow> nat"
  w_wake_fd :: int
  w_res :: resources
  run_depth :: nat

record env =
  env_platform :: platform
  env_backend :: int
  env_body :: body
  env_epoll :: epoll_os
  env_uring :: uring_os
  env_enter :: "nat \<Rightarrow> enter"
  env_new_cell :: "addr set \<Rightarrow> addr"
  env_queue_timer :: "int set \<Rightarrow> int \<Rightarrow> int option"

text \<open>Arming and cancelling a reactor timer; \<open>EV_ADD\<close> replaces, \<open>EV_DELETE\<close> of nothing is harmless.\<close>

definition kqueue_timer_set :: "int \<Rightarrow> addr \<Rightarrow> int option \<Rightarrow> world \<Rightarrow> world" where
  "kqueue_timer_set kq handle t w = w\<lparr>w_kqueue := (w_kqueue w)(kq := (w_kqueue w kq)(handle := t))\<rparr>"

definition kyte_reactor_arm_timer :: "env \<Rightarrow> nat \<Rightarrow> addr \<Rightarrow> int \<Rightarrow> world \<Rightarrow> world outcome" where
  "kyte_reactor_arm_timer E i handle ms w =
     (case env_platform E of
        Kqueue \<Rightarrow>
          (let kq = sint (word_of_int (current_kq (w_sched w)) :: u32) in
           if kq \<le> 0 then Ok w
           else Ok (kqueue_timer_set kq handle (Some (if ms < 0 then 0 else ms)) w))
      | Iocp \<Rightarrow>
          (if current_kq (w_sched w) = 0 then Ok w
           else Ok (w\<lparr>w_iocp := iocp_timer_arm (env_queue_timer E) (current_kq (w_sched w)) handle ms (w_iocp w)\<rparr>))
      | Linux \<Rightarrow>
          (if env_backend E = KYTE_BACKEND_URING then
             bind_outcome (uring_timer_arm (env_new_cell E) (env_enter E i) handle ms (w_ring w, w_cells w))
               (\<lambda>(ring, U). Ok (w\<lparr>w_ring := ring, w_cells := U\<rparr>))
           else if current_kq (w_sched w) \<le> 0 then Ok w
           else Ok (w\<lparr>w_epoll := epoll_timer_arm (env_epoll E) (current_kq (w_sched w)) handle ms (w_epoll w)\<rparr>))
      | Bare \<Rightarrow> Ok w)"

definition reactor_cancel_timer :: "env \<Rightarrow> addr \<Rightarrow> world \<Rightarrow> world" where
  "reactor_cancel_timer E handle w =
     (if handle = 0 then w
      else
        (case env_platform E of
           Kqueue \<Rightarrow>
             (let kq = sint (word_of_int (current_kq (w_sched w)) :: u32) in
              if kq \<le> 0 then w else kqueue_timer_set kq handle None w)
         | Iocp \<Rightarrow> w\<lparr>w_iocp := iocp_timer_cancel handle (w_iocp w)\<rparr>
         | Linux \<Rightarrow> w\<lparr>w_epoll := epoll_timer_cancel handle (w_epoll w)\<rparr>
         | Bare \<Rightarrow> w))"

text \<open>The timer calls a resume made, carried out on the thread's tables.\<close>

fun perform_timers :: "env \<Rightarrow> nat \<Rightarrow> event list \<Rightarrow> world \<Rightarrow> world outcome" where
  "perform_timers E i [] w = Ok w"
| "perform_timers E i (Armed h ms # es) w = bind_outcome (kyte_reactor_arm_timer E i h ms w) (perform_timers E i es)"
| "perform_timers E i (Cancelled h # es) w = perform_timers E i es (reactor_cancel_timer E h w)"
| "perform_timers E i (Resumed h # es) w = perform_timers E i es w"
| "perform_timers E i (Destroyed h # es) w = perform_timers E i es w"
| "perform_timers E i (Released p d # es) w = perform_timers E i es w"

definition resume_world :: "env \<Rightarrow> nat \<Rightarrow> addr \<Rightarrow> world \<Rightarrow> world outcome option" where
  "resume_world E i h w =
     map_option (\<lambda>r. bind_outcome r (\<lambda>(_, s).
         perform_timers E i (drop (length (trace (w_sched w))) (trace s)) (w\<lparr>w_sched := s\<rparr>)))
       (kyte_reactor_resume (env_body E) h (w_sched w))"

section \<open>Dispatch\<close>

definition epoll_dispatch :: "env \<Rightarrow> nat \<Rightarrow> u64 \<Rightarrow> world \<Rightarrow> world outcome option" where
  "epoll_dispatch E i d w =
     (if d = KYTE_EPOLL_WAKE_DATA then Some (Ok w)
      else if d AND KYTE_EPOLL_TIMER_TAG \<noteq> 0 then
        (let h = untagged d;
             w = w\<lparr>w_epoll := epoll_timer_cancel h (w_epoll w)\<rparr> in
         if h \<noteq> 0 then resume_world E i h w else Some (Ok w))
      else resume_world E i (sint d) w)"

definition KYTE_LX_OP_DONE_OFF :: int where "KYTE_LX_OP_DONE_OFF = 20"
definition KYTE_LX_OP_TOKEN_OFF :: int where "KYTE_LX_OP_TOKEN_OFF = 24"
definition KYTE_LX_OP_RESULT_OFF :: int where "KYTE_LX_OP_RESULT_OFF = 32"
definition KYTE_OP_DONE_OFF :: int where "KYTE_OP_DONE_OFF = 52"
definition KYTE_OP_TOKEN_OFF :: int where "KYTE_OP_TOKEN_OFF = 56"
definition KYTE_OP_RESULT_OFF :: int where "KYTE_OP_RESULT_OFF = 64"

text \<open>An operation record completed in place; the coroutine to resume is read after the writes.\<close>

definition complete_op :: "int \<Rightarrow> int \<Rightarrow> int \<Rightarrow> addr \<Rightarrow> int \<Rightarrow> memory \<Rightarrow> memory \<times> addr" where
  "complete_op done_off token_off result_off op res m =
     (let m = store32 m (op + done_off) 1;
          m = store64 m (op + result_off) (word_of_int res) in
      (m, sint (load64 m (op + token_off))))"

definition uring_dispatch :: "env \<Rightarrow> nat \<Rightarrow> int \<Rightarrow> int \<Rightarrow> world \<Rightarrow> world outcome option" where
  "uring_dispatch E i user_data res w =
     (let d = word_of_int user_data :: u64 in
      if d = KYTE_EPOLL_WAKE_DATA then
        Some (bind_outcome (uring_wake_drain_impl (env_enter E i) (w_wake_fd w) (w_ring w) (w_signals w))
          (\<lambda>(ring, sg). Ok (w\<lparr>w_ring := ring, w_signals := sg\<rparr>)))
      else if d = 0 then Some (Ok w)
      else if d AND KYTE_EPOLL_TIMER_TAG \<noteq> 0 then
        (if untagged d \<noteq> 0 then resume_world E i (untagged d) w else Some (Ok w))
      else
        (let (m, token) = complete_op KYTE_LX_OP_DONE_OFF KYTE_LX_OP_TOKEN_OFF KYTE_LX_OP_RESULT_OFF (uint d) res (w_mem w);
             w = w\<lparr>w_mem := m\<rparr> in
         if token \<noteq> 0 then resume_world E i token w else Some (Ok w)))"

text \<open>A completion of the Windows port: the key, the overlapped pointer, the bytes transferred.\<close>

definition iocp_dispatch :: "env \<Rightarrow> nat \<Rightarrow> u64 \<times> addr \<times> int \<Rightarrow> world \<Rightarrow> world outcome option" where
  "iocp_dispatch E i = (\<lambda>(key, overlapped, bytes) w.
     if key = KYTE_WAKE_KEY then Some (Ok w)
     else if key = KYTE_TIMER_KEY then
       (let w = w\<lparr>w_iocp := iocp_timer_cancel overlapped (w_iocp w)\<rparr> in
        if overlapped \<noteq> 0 then resume_world E i overlapped w else Some (Ok w))
     else if overlapped = 0 then Some (Ok w)
     else
       (let (m, token) = complete_op KYTE_OP_DONE_OFF KYTE_OP_TOKEN_OFF KYTE_OP_RESULT_OFF overlapped bytes (w_mem w);
            w = w\<lparr>w_mem := m\<rparr> in
        if token \<noteq> 0 then resume_world E i token w else Some (Ok w)))"

section \<open>The loops\<close>

text \<open>Running a step that may not return, may panic or may fault, then another.\<close>

definition and_then :: "'a outcome option \<Rightarrow> ('a \<Rightarrow> 'b outcome option) \<Rightarrow> 'b outcome option" where
  "and_then r f =
     (case r of
        None \<Rightarrow> None
      | Some (Ok w) \<Rightarrow> f w
      | Some (Panic msg) \<Rightarrow> Some (Panic msg)
      | Some Trap \<Rightarrow> Some Trap)"

fun dispatch_all :: "('e \<Rightarrow> world \<Rightarrow> world outcome option) \<Rightarrow> 'e list \<Rightarrow> world \<Rightarrow> world outcome option" where
  "dispatch_all f [] w = Some (Ok w)"
| "dispatch_all f (e # es) w = and_then (f e w) (dispatch_all f es)"

definition begin_batch :: "world \<Rightarrow> world" where
  "begin_batch w = w\<lparr>w_sched := kyte_reactor_batch_begin (w_sched w)\<rparr>"

definition IDLE_CAP :: nat where "IDLE_CAP = 750"

text \<open>
  The loop is the same over a kqueue, a port and epoll: \<open>wait i\<close> is what the \<open>i\<close>-th wait returned, no
  event for a timeout or an error, and \<open>D i\<close> dispatches one event.
\<close>

partial_function (option) drive_loop ::
    "(nat \<Rightarrow> 'e \<Rightarrow> world \<Rightarrow> world outcome option) \<Rightarrow> (nat \<Rightarrow> 'e list) \<Rightarrow> addr \<Rightarrow> nat \<Rightarrow> nat \<Rightarrow> world \<Rightarrow> world outcome option" where
  "drive_loop D wait root idle i w =
     (case raw_coro_done (w_sched w) root of
        Panic msg \<Rightarrow> Some (Panic msg)
      | Trap \<Rightarrow> Some Trap
      | Ok d \<Rightarrow>
          (if d then Some (Ok w)
           else if wait i = [] then
             (if idle + 1 > IDLE_CAP then Some (Ok w) else drive_loop D wait root (idle + 1) (i + 1) w)
           else
             (case dispatch_all (D i) (wait i) (begin_batch w) of
                None \<Rightarrow> None
              | Some r \<Rightarrow>
                  (case r of
                     Ok w \<Rightarrow> drive_loop D wait root 0 (i + 1) w
                   | Panic msg \<Rightarrow> Some (Panic msg)
                   | Trap \<Rightarrow> Some Trap))))"

text \<open>One completion of the ring, and the ring's loop.\<close>

definition reap_one :: "env \<Rightarrow> nat \<Rightarrow> nat \<Rightarrow> world \<Rightarrow> world outcome option" where
  "reap_one E i k w =
     (case kyte_uring_peek (w_ring w) (int k) of
        Ok (n, e) \<Rightarrow>
          (let (ud, res) = (case e of None \<Rightarrow> (0, 0) | Some x \<Rightarrow> x) in
           if ud = KYTE_URING_WAIT_TIMEOUT_DATA then Some (Ok w)
           else
             (let d = word_of_int ud :: u64;
                  w = (if d AND KYTE_EPOLL_TIMER_TAG \<noteq> 0 then w\<lparr>w_cells := uring_timer_release (untagged d) (w_cells w)\<rparr> else w) in
              uring_dispatch E i ud res w))
      | Panic msg \<Rightarrow> Some (Panic msg)
      | Trap \<Rightarrow> Some Trap)"

partial_function (option) uring_loop :: "env \<Rightarrow> addr \<Rightarrow> timespec \<Rightarrow> addr \<Rightarrow> nat \<Rightarrow> nat \<Rightarrow> world \<Rightarrow> world outcome option" where
  "uring_loop E ts_addr ts root idle i w =
     (case raw_coro_done (w_sched w) root of
        Panic msg \<Rightarrow> Some (Panic msg)
      | Trap \<Rightarrow> Some Trap
      | Ok d \<Rightarrow>
          (if d then Some (Ok w)
           else
             (case kyte_uring_submit_and_wait_ms (env_enter E i) ts_addr (w_ring w) ts 1 20 of
                Panic msg \<Rightarrow> Some (Panic msg)
              | Trap \<Rightarrow> Some Trap
              | Ok x \<Rightarrow>
                  (if kyte_uring_cq_ready (fst (snd x)) \<le> 0 then
                     (if idle + 1 > IDLE_CAP then Some (Ok (w\<lparr>w_ring := fst (snd x)\<rparr>))
                      else uring_loop E ts_addr (snd (snd x)) root (idle + 1) (i + 1) (w\<lparr>w_ring := fst (snd x)\<rparr>))
                   else
                     (case dispatch_all (reap_one E i) [0..<nat (kyte_uring_cq_ready (fst (snd x)))]
                         (begin_batch (w\<lparr>w_ring := fst (snd x)\<rparr>)) of
                        None \<Rightarrow> None
                      | Some r \<Rightarrow>
                          (case r of
                             Ok w' \<Rightarrow> uring_loop E ts_addr (snd (snd x)) root 0 (i + 1)
                               (w'\<lparr>w_ring := kyte_uring_advance (w_ring w') (kyte_uring_cq_ready (fst (snd x)))\<rparr>)
                           | Panic msg \<Rightarrow> Some (Panic msg)
                           | Trap \<Rightarrow> Some Trap))))))"

section \<open>Driving a root\<close>

definition fresh_drive :: "world \<Rightarrow> world" where
  "fresh_drive w = w\<lparr>w_sched := (w_sched w)\<lparr>rq := Some [], reactor_mode := True, deadline_active := False, batch_reaped := {}\<rparr>\<rparr>"

definition set_kq :: "int \<Rightarrow> world \<Rightarrow> world" where
  "set_kq kq w = w\<lparr>w_sched := (w_sched w)\<lparr>current_kq := kq\<rparr>\<rparr>"

definition leave_reactor :: "world \<Rightarrow> world" where
  "leave_reactor w = w\<lparr>w_sched := (w_sched w)\<lparr>reactor_mode := False\<rparr>, run_depth := run_depth w - 1\<rparr>"

definition check_root :: "addr \<Rightarrow> world \<Rightarrow> world outcome option" where
  "check_root root w =
     Some (bind_outcome (raw_coro_done (w_sched w) root) (\<lambda>d.
       if d then Ok w else Panic ''async root never completed (lost wakeup)''))"

text \<open>
  The kqueue, the completion port or the epoll descriptor a drive creates, and giving it back; a call that
  failed answered -1, or 0 for a port.
\<close>

definition os_handle :: "platform \<Rightarrow> int \<Rightarrow> bool" where
  "os_handle P h \<longleftrightarrow> (if P = Iocp then h \<noteq> 0 else h \<ge> 0)"

definition open_port :: "platform \<Rightarrow> int \<Rightarrow> world \<Rightarrow> world" where
  "open_port P port w =
     (if os_handle P port then w\<lparr>w_res := (w_res w)\<lparr>open_fds := insert port (open_fds (w_res w))\<rparr>\<rparr> else w)"

definition close_port :: "platform \<Rightarrow> int \<Rightarrow> world \<Rightarrow> world" where
  "close_port P port w = (if os_handle P port then w\<lparr>w_res := close_fd port (w_res w)\<rparr> else w)"

definition run_root_port ::
    "env \<Rightarrow> (nat \<Rightarrow> 'e \<Rightarrow> world \<Rightarrow> world outcome option) \<Rightarrow> (nat \<Rightarrow> 'e list) \<Rightarrow> int \<Rightarrow> addr \<Rightarrow> world \<Rightarrow> world outcome option" where
  "run_root_port E D wait port root w =
     (let w = open_port (env_platform E) port (fresh_drive w);
          prev = current_kq (w_sched w);
          w = (set_kq port w)\<lparr>run_depth := run_depth w + 1\<rparr> in
      and_then (resume_world E 0 root w) (\<lambda>w.
      and_then (drive_loop D wait root 0 0 w) (\<lambda>w.
        check_root root (close_port (env_platform E) port (set_kq prev (leave_reactor w))))))"

definition kqueue_dispatch :: "env \<Rightarrow> nat \<Rightarrow> addr \<Rightarrow> world \<Rightarrow> world outcome option" where
  "kqueue_dispatch E i udata w = resume_world E i udata w"

text \<open>\<open>ring\<close> is what \<^verbatim>\<open>kyte_uring_create(256)\<close> returned.\<close>

definition run_root_uring :: "env \<Rightarrow> addr \<Rightarrow> timespec \<Rightarrow> uring \<Rightarrow> addr \<Rightarrow> world \<Rightarrow> world outcome option" where
  "run_root_uring E ts_addr ts ring root w =
     (let w = fresh_drive w;
          prev = w_ring w;
          w = w\<lparr>w_ring := Some ring, run_depth := run_depth w + 1\<rparr> in
      and_then (resume_world E 0 root w) (\<lambda>w.
      and_then (uring_loop E ts_addr ts root 0 1 w) (\<lambda>w.
        check_root root (leave_reactor (w\<lparr>w_ring := prev, w_res := kyte_uring_destroy (w_ring w) (w_res w)\<rparr>)))))"

text \<open>What the operating system answers during a drive, for each backend.\<close>

record answers =
  a_port :: int
  a_kevents :: "nat \<Rightarrow> addr list"
  a_entries :: "nat \<Rightarrow> (u64 \<times> addr \<times> int) list"
  a_epoll :: "nat \<Rightarrow> u64 list"
  a_ts_addr :: addr
  a_ts :: timespec

definition kyte_run_root :: "env \<Rightarrow> answers \<Rightarrow> addr \<Rightarrow> world \<Rightarrow> world outcome option" where
  "kyte_run_root E A root w =
     (if run_depth w > 0 then Some (Panic ''an async call was block-driven from inside the event loop'')
      else if root = 0 then Some (Ok w)
      else
        (case env_platform E of
           Kqueue \<Rightarrow> run_root_port E (kqueue_dispatch E) (a_kevents A) (a_port A) root w
         | Iocp \<Rightarrow> run_root_port E (iocp_dispatch E) (a_entries A) (a_port A) root w
         | Linux \<Rightarrow>
             (if env_backend E = KYTE_BACKEND_URING then
                (case kyte_uring_create (env_uring E) 256 (w_res w) of
                   (Some ring, res) \<Rightarrow> run_root_uring E (a_ts_addr A) (a_ts A) ring root (w\<lparr>w_res := res\<rparr>)
                 | (None, res) \<Rightarrow> run_root_port E (epoll_dispatch E) (a_epoll A) (a_port A) root (w\<lparr>w_res := res\<rparr>))
              else run_root_port E (epoll_dispatch E) (a_epoll A) (a_port A) root w)
         | Bare \<Rightarrow> Some (Panic ''no reactor driver on this platform'')))"

end
