(* ===== verification/Kyte_Drive_Props.thy ===== *)
theory Kyte_Drive_Props
  imports Kyte_Drive
begin

text \<open>
  The reactor loop ends, returns only with a finished root, writes a completion into its record
  before anybody resumes, and forgets to withdraw a cancelled timer from the ring.
\<close>

section \<open>What a turn leaves alone\<close>

text \<open>What only the drive itself changes: its depth, and the descriptors and mappings of the process.\<close>

definition owned :: "world \<Rightarrow> nat \<times> resources" where
  "owned w = (run_depth w, w_res w)"

lemma owned_simps [simp]:
  "owned (w\<lparr>w_sched := s\<rparr>) = owned w" "owned (w\<lparr>w_mem := m\<rparr>) = owned w" "owned (w\<lparr>w_kqueue := q\<rparr>) = owned w"
  "owned (w\<lparr>w_epoll := e\<rparr>) = owned w" "owned (w\<lparr>w_ring := g\<rparr>) = owned w" "owned (w\<lparr>w_cells := c\<rparr>) = owned w"
  "owned (w\<lparr>w_iocp := i\<rparr>) = owned w" "owned (w\<lparr>w_signals := n\<rparr>) = owned w"
  by (simp_all add: owned_def)

definition same_frame :: "world \<Rightarrow> world \<Rightarrow> bool" where
  "same_frame w v \<longleftrightarrow> owned v = owned w \<and> w_mem v = w_mem w"

lemma same_frame_refl [simp]: "same_frame w w"
  by (simp add: same_frame_def)

lemma same_frame_trans: "same_frame u v \<Longrightarrow> same_frame v w \<Longrightarrow> same_frame u w"
  by (simp add: same_frame_def)

lemma arm_timer_frame: "kyte_reactor_arm_timer E i h ms w = Ok v \<Longrightarrow> same_frame w v"
  by (auto simp: kyte_reactor_arm_timer_def kqueue_timer_set_def same_frame_def bind_outcome_Ok Let_def split: if_splits platform.splits)

lemma cancel_timer_frame: "same_frame w (reactor_cancel_timer E h w)"
  by (simp add: reactor_cancel_timer_def kqueue_timer_set_def same_frame_def Let_def split: platform.split)

lemma perform_timers_frame: "perform_timers E i es w = Ok v \<Longrightarrow> same_frame w v"
proof (induction E i es w rule: perform_timers.induct)
  case (2 E i h ms es w)
  then obtain u where u: "kyte_reactor_arm_timer E i h ms w = Ok u" "perform_timers E i es u = Ok v"
    by (auto simp: bind_outcome_Ok)
  then show ?case using 2(1) [OF u(2)] arm_timer_frame same_frame_trans by blast
next
  case (3 E i h es w)
  then show ?case using cancel_timer_frame same_frame_trans by simp blast
qed simp_all

lemma resume_world_frame: "resume_world E i h w = Some (Ok v) \<Longrightarrow> same_frame w v"
proof -
  assume "resume_world E i h w = Some (Ok v)"
  then obtain r where "kyte_reactor_resume (env_body E) h (w_sched w) = Some r"
    and "bind_outcome r (\<lambda>(_, s). perform_timers E i (drop (length (trace (w_sched w))) (trace s)) (w\<lparr>w_sched := s\<rparr>)) = Ok v"
    by (auto simp: resume_world_def)
  then obtain n s where "perform_timers E i (drop (length (trace (w_sched w))) (trace s)) (w\<lparr>w_sched := s\<rparr>) = Ok v"
    by (auto simp: bind_outcome_Ok)
  from perform_timers_frame [OF this] show ?thesis by (simp add: same_frame_def)
qed

lemma epoll_dispatch_frame: "epoll_dispatch E i d w = Some (Ok v) \<Longrightarrow> same_frame w v"
  by (auto simp: epoll_dispatch_def Let_def same_frame_def split: if_splits dest!: resume_world_frame)

lemma uring_dispatch_depth: "uring_dispatch E i ud res w = Some (Ok v) \<Longrightarrow> owned v = owned w"
  by (auto simp: uring_dispatch_def Let_def bind_outcome_Ok same_frame_def split: if_splits prod.splits dest!: resume_world_frame)

lemma reap_one_depth: "reap_one E i k w = Some (Ok v) \<Longrightarrow> owned v = owned w"
  by (auto simp: reap_one_def Let_def split: outcome.splits prod.splits if_splits dest: uring_dispatch_depth)

lemma and_then_Ok: "and_then r f = Some (Ok v) \<longleftrightarrow> (\<exists>w. r = Some (Ok w) \<and> f w = Some (Ok v))"
  by (simp add: and_then_def split: option.splits outcome.splits)

lemma dispatch_all_depth:
  "(\<And>e w v. f e w = Some (Ok v) \<Longrightarrow> owned v = owned w) \<Longrightarrow> dispatch_all f es w = Some (Ok v) \<Longrightarrow> owned v = owned w"
  by (induction es arbitrary: w) (auto simp: and_then_Ok)

definition keeps_depth :: "(nat \<Rightarrow> 'e \<Rightarrow> world \<Rightarrow> world outcome option) \<Rightarrow> bool" where
  "keeps_depth D \<longleftrightarrow> (\<forall>i e w v. D i e w = Some (Ok v) \<longrightarrow> owned v = owned w)"

lemma dispatch_keeps_depth: "keeps_depth (kqueue_dispatch E)" "keeps_depth (iocp_dispatch E)" "keeps_depth (epoll_dispatch E)"
proof -
  show "keeps_depth (kqueue_dispatch E)"
    by (auto simp: keeps_depth_def kqueue_dispatch_def same_frame_def dest!: resume_world_frame)
  show "keeps_depth (iocp_dispatch E)"
    by (auto simp: keeps_depth_def iocp_dispatch_def Let_def same_frame_def split: if_splits prod.splits dest!: resume_world_frame)
  show "keeps_depth (epoll_dispatch E)"
    by (auto simp: keeps_depth_def same_frame_def dest!: epoll_dispatch_frame)
qed

lemma batch_depth:
  assumes "keeps_depth D" "dispatch_all (D i) ds (begin_batch w) = Some (Ok u)"
  shows "owned u = owned w"
proof -
  have "owned u = owned (begin_batch w)"
    by (rule dispatch_all_depth [OF _ assms(2)]) (use assms(1) in \<open>simp add: keeps_depth_def\<close>)
  then show ?thesis by (simp add: begin_batch_def)
qed

lemma drive_loop_depth:
  assumes "drive_loop D wait root idle i w = Some r"
  shows "keeps_depth D \<and> r = Ok v \<longrightarrow> owned v = owned w"
proof (rule drive_loop.raw_induct [where P = "\<lambda>D _ _ _ _ w r. keeps_depth D \<and> r = Ok v \<longrightarrow> owned v = owned w", OF _ assms])
  fix loop :: "(nat \<Rightarrow> 'e \<Rightarrow> world \<Rightarrow> world outcome option) \<Rightarrow> (nat \<Rightarrow> 'e list) \<Rightarrow> addr \<Rightarrow> nat \<Rightarrow> nat \<Rightarrow> world \<Rightarrow> world outcome option" and D wait root idle i w r
  assume IH: "\<And>D wait root idle i w r. loop D wait root idle i w = Some r \<Longrightarrow> keeps_depth D \<and> r = Ok v \<longrightarrow> owned v = owned w"
    and step: "(case raw_coro_done (w_sched w) root of
      Ok d \<Rightarrow> (if d then Some (Ok w)
         else if wait i = [] then (if IDLE_CAP < idle + 1 then Some (Ok w) else loop D wait root (idle + 1) (i + 1) w)
         else (case dispatch_all (D i) (wait i) (begin_batch w) of
              None \<Rightarrow> None
            | Some r \<Rightarrow> (case r of Ok w \<Rightarrow> loop D wait root 0 (i + 1) w | Panic msg \<Rightarrow> Some (Panic msg) | Trap \<Rightarrow> Some Trap)))
      | Panic msg \<Rightarrow> Some (Panic msg) | Trap \<Rightarrow> Some Trap) = Some r"
  show "keeps_depth D \<and> r = Ok v \<longrightarrow> owned v = owned w"
  proof
    assume D: "keeps_depth D \<and> r = Ok v"
    then have ok: "r = Ok v" by blast
    show "owned v = owned w"
    proof (cases "raw_coro_done (w_sched w) root")
      case (Ok d)
      show ?thesis
      proof (cases "d \<or> wait i = []")
        case True
        then show ?thesis using step ok D Ok IH [of D wait root "idle + 1" "i + 1" w r] by (auto split: if_splits)
      next
        case False
        then obtain u where u: "dispatch_all (D i) (wait i) (begin_batch w) = Some (Ok u)"
          and "loop D wait root 0 (i + 1) u = Some (Ok v)"
          using step ok Ok by (simp split: option.splits outcome.splits)
        then have "owned v = owned u" using IH D by blast
        then show ?thesis using batch_depth [where D = D, OF _ u] D by simp
      qed
    qed (use step ok in simp_all)
  qed
qed

section \<open>The idle cap\<close>

lemma drive_loop_done: "frames (w_sched w) root = Some True \<Longrightarrow> drive_loop D wait root idle i w = Some (Ok w)"
  by (subst drive_loop.simps) (simp add: raw_coro_done_def)

lemma idle_turns:
  assumes "frames (w_sched w) root = Some False" "idle \<le> IDLE_CAP"
    and "\<And>j. i \<le> j \<Longrightarrow> j \<le> i + (IDLE_CAP - idle) \<Longrightarrow> wait j = []"
  shows "drive_loop D wait root idle i w = Some (Ok w)"
  using assms
proof (induction "IDLE_CAP - idle" arbitrary: idle i)
  case 0
  then have "idle + 1 > IDLE_CAP" by simp
  moreover have "wait i = []" using 0 by simp
  ultimately show ?case using 0 by (subst drive_loop.simps) (simp add: raw_coro_done_def)
next
  case (Suc n)
  have "wait i = []" using Suc.prems(3) [of i] by simp
  moreover have "drive_loop D wait root (idle + 1) (i + 1) w = Some (Ok w)"
    by (rule Suc.hyps(1)) (use Suc in auto)
  moreover have "\<not> idle + 1 > IDLE_CAP" using Suc.hyps(2) by simp
  ultimately show ?case using Suc.prems by (subst drive_loop.simps) (simp add: raw_coro_done_def)
qed

text \<open>The world in which the root of a drive is first resumed.\<close>

definition started :: "env \<Rightarrow> int \<Rightarrow> world \<Rightarrow> world" where
  "started E port w = (set_kq port (open_port (env_platform E) port (fresh_drive w)))\<lparr>run_depth := run_depth w + 1\<rparr>"

definition started_ring :: "uring \<Rightarrow> world \<Rightarrow> world" where
  "started_ring ring w = (fresh_drive w)\<lparr>w_ring := Some ring, run_depth := run_depth w + 1\<rparr>"

lemma open_port_simps [simp]:
  "w_sched (open_port P port w) = w_sched w" "run_depth (open_port P port w) = run_depth w"
  "w_sched (close_port P port w) = w_sched w" "run_depth (close_port P port w) = run_depth w"
  "run_depth (fresh_drive w) = run_depth w"
  by (simp_all add: open_port_def close_port_def fresh_drive_def)

lemma run_root_port_started:
  "run_root_port E D wait port root w = and_then (resume_world E 0 root (started E port w)) (\<lambda>v.
     and_then (drive_loop D wait root 0 0 v) (\<lambda>v.
       check_root root (close_port (env_platform E) port (set_kq (current_kq (w_sched w)) (leave_reactor v)))))"
  by (simp add: run_root_port_def started_def Let_def) (simp add: fresh_drive_def)

lemma run_root_uring_started:
  "run_root_uring E a ts ring root w = and_then (resume_world E 0 root (started_ring ring w)) (\<lambda>v.
     and_then (uring_loop E a ts root 0 1 v) (\<lambda>v.
       check_root root (leave_reactor (v\<lparr>w_ring := w_ring w, w_res := kyte_uring_destroy (w_ring v) (w_res v)\<rparr>))))"
  by (simp add: run_root_uring_def started_ring_def Let_def) (simp add: fresh_drive_def)

lemma port_idle_cap:
  assumes "resume_world E 0 root (started E port w) = Some (Ok v)"
    and pend: "frames (w_sched v) root = Some False"
    and quiet: "\<And>j. j \<le> IDLE_CAP \<Longrightarrow> wait j = []"
  shows "run_root_port E D wait port root w = Some (Panic ''async root never completed (lost wakeup)'')"
proof -
  have "drive_loop D wait root 0 0 v = Some (Ok v)" by (rule idle_turns [OF pend]) (use quiet in auto)
  moreover have "check_root root (close_port P port (set_kq prev (leave_reactor v))) = Some (Panic ''async root never completed (lost wakeup)'')" for prev P
    using pend by (simp add: check_root_def set_kq_def leave_reactor_def raw_coro_done_def)
  ultimately show ?thesis using assms(1) by (simp add: run_root_port_started and_then_def)
qed

text \<open>
  Property C21 (drive_idle_cap).  A root that waits for something that never comes does not hang the
  process on a kqueue, a completion port or epoll: if it is still unfinished after its first resume and
  751 waits in a row bring no event, the drive stops with the lost-wake-up report instead of returning
  a result nobody wrote.
\<close>

theorem drive_idle_cap:
  assumes w: "run_depth w = 0" "root \<noteq> 0" "env_platform E \<noteq> Bare" "env_backend E \<noteq> KYTE_BACKEND_URING"
    and kick: "resume_world E 0 root (started E (a_port A) w) = Some (Ok v)"
    and pend: "frames (w_sched v) root = Some False"
    and quiet: "\<And>j. j \<le> IDLE_CAP \<Longrightarrow> a_kevents A j = [] \<and> a_entries A j = [] \<and> a_epoll A j = []"
  shows "kyte_run_root E A root w = Some (Panic ''async root never completed (lost wakeup)'')"
  using port_idle_cap [OF kick pend, of "a_kevents A" "kqueue_dispatch E"] port_idle_cap [OF kick pend, of "a_entries A" "iocp_dispatch E"]
    port_idle_cap [OF kick pend, of "a_epoll A" "epoll_dispatch E"] quiet w
  by (simp add: kyte_run_root_def split: platform.split)

text \<open>A kernel that hands out the ring of two entries.\<close>

definition drive_os :: uring_os where
  "drive_os = (demo_os True)\<lparr>os_setup := (\<lambda>s n. (if 3 \<in> open_fds s then - 24 else 3,
     \<lparr>p_sq_entries = 2, p_cq_entries = 2, single_mmap = False, sq_off_array = 64, cq_off_cqes = 64\<rparr>))\<rparr>"

definition demo_env :: "int \<Rightarrow> env" where
  "demo_env backend = \<lparr>env_platform = Linux, env_backend = backend, env_body = idle_body, env_epoll = demo_epoll,
     env_uring = drive_os, env_enter = (\<lambda>i r to min flags. (0, r)), env_new_cell = (\<lambda>S. if 64 \<in> S then 128 else 64),
     env_queue_timer = (\<lambda>S ms. None)\<rparr>"

definition demo_world :: world where
  "demo_world = \<lparr>w_sched = demo_sched, w_mem = (\<lambda>_. 0), w_kqueue = (\<lambda>_ _. None), w_epoll = no_timers, w_ring = None,
     w_cells = \<lparr>to_cell = (\<lambda>_. None), cells = {}, cell_value = (\<lambda>_. (0, 0))\<rparr>,
     w_iocp = \<lparr>iocp_map = (\<lambda>_. None), queue_timers = {}, arc_multithreaded = False\<rparr>,
     w_signals = (\<lambda>_. 0), w_wake_fd = - 1, w_res = \<lparr>open_fds = {0, 1, 2}, mappings = {}\<rparr>, run_depth = 0\<rparr>"

definition quiet_os :: answers where
  "quiet_os = \<lparr>a_port = 3, a_kevents = (\<lambda>_. []), a_entries = (\<lambda>_. []), a_epoll = (\<lambda>_. []),
     a_ts_addr = 0, a_ts = \<lparr>tv_sec = 0, tv_nsec = 0\<rparr>\<rparr>"

lemma idle_resume:
  "resume_world (demo_env b) 0 1 (started (demo_env b) 3 demo_world)
     = Some (Ok ((started (demo_env b) 3 demo_world)\<lparr>w_sched := (w_sched (started (demo_env b) 3 demo_world))\<lparr>trace := [Resumed 1]\<rparr>\<rparr>))"
  by (simp add: resume_world_def started_def demo_env_def demo_world_def set_kq_def open_port_def fresh_drive_def sched_eval
      idle_body_def demo_sched_def sched0_def reactor_pump.simps Let_def)

theorem drive_idle_cap_witness:
  "kyte_run_root (demo_env KYTE_BACKEND_EPOLL) quiet_os 1 demo_world
     = Some (Panic ''async root never completed (lost wakeup)'')"
proof -
  have "a_port quiet_os = 3" by (simp add: quiet_os_def)
  then show ?thesis
    using drive_idle_cap [where w = demo_world and root = 1 and E = "demo_env KYTE_BACKEND_EPOLL" and A = quiet_os]
      idle_resume [of KYTE_BACKEND_EPOLL]
    by (simp add: started_def demo_world_def demo_env_def set_kq_def fresh_drive_def demo_sched_def quiet_os_def
        KYTE_BACKEND_EPOLL_def KYTE_BACKEND_URING_def)
qed

section \<open>A drive that returns\<close>

lemma check_root_Ok: "check_root root w = Some (Ok v) \<longleftrightarrow> v = w \<and> frames (w_sched w) root = Some True"
  by (auto simp: check_root_def bind_outcome_Ok raw_coro_done_def split: if_splits option.splits)

lemma port_given_back: "port \<notin> open_fds (w_res w) \<Longrightarrow> w_res v = w_res (open_port P port w) \<Longrightarrow> w_res (close_port P port v) = w_res w"
  by (auto simp: open_port_def close_port_def close_fd_def)

lemma run_root_port_Ok:
  assumes run: "run_root_port E D wait port root w = Some (Ok v)" and D: "keeps_depth D" and d: "run_depth w = 0"
  shows "frames (w_sched v) root = Some True \<and> \<not> reactor_mode (w_sched v)
    \<and> current_kq (w_sched v) = current_kq (w_sched w) \<and> run_depth v = 0
    \<and> (port \<notin> open_fds (w_res w) \<longrightarrow> w_res v = w_res w)"
proof -
  obtain a b where a: "resume_world E 0 root (started E port w) = Some (Ok a)" and b: "drive_loop D wait root 0 0 a = Some (Ok b)"
    and c: "check_root root (close_port (env_platform E) port (set_kq (current_kq (w_sched w)) (leave_reactor b))) = Some (Ok v)"
    using run by (auto simp: run_root_port_started and_then_Ok)
  have o: "owned b = owned (started E port w)"
    using resume_world_frame [OF a] drive_loop_depth [OF b, of b] D by (simp add: same_frame_def)
  have "w_res (fresh_drive w) = w_res w" by (simp add: fresh_drive_def)
  then have "w_res (open_port P port (fresh_drive w)) = w_res (open_port P port w)" for P by (simp add: open_port_def)
  then have "w_res b = w_res (open_port (env_platform E) port w)" "run_depth b = 1"
    using o d by (simp_all add: owned_def started_def set_kq_def)
  then show ?thesis
    using c port_given_back [of port w "set_kq (current_kq (w_sched w)) (leave_reactor b)" "env_platform E"]
    by (auto simp: check_root_Ok set_kq_def leave_reactor_def)
qed

lemma run_root_port_done:
  assumes "resume_world E 0 root (started E port w) = Some (Ok a)"
    and "frames (w_sched a) root = Some True"
  shows "\<exists>v. run_root_port E D wait port root w = Some (Ok v)"
  using assms by (simp add: run_root_port_started and_then_def drive_loop_done check_root_def raw_coro_done_def
      set_kq_def leave_reactor_def)

lemma run_root_uring_Ok:
  assumes "run_root_uring E ts_addr ts ring root w = Some (Ok v)"
  shows "frames (w_sched v) root = Some True \<and> \<not> reactor_mode (w_sched v) \<and> w_ring v = w_ring w"
  using assms by (auto simp: run_root_uring_started and_then_Ok check_root_Ok leave_reactor_def)

text \<open>The ring a drive asks the kernel for, and the descriptor it falls back to.\<close>

definition ring_for :: "env \<Rightarrow> world \<Rightarrow> uring option" where
  "ring_for E w = (if env_platform E = Linux \<and> env_backend E = KYTE_BACKEND_URING
     then fst (kyte_uring_create (env_uring E) 256 (w_res w)) else None)"

lemma run_root_cases:
  assumes run: "kyte_run_root E A root w = Some (Ok v)" and w: "run_depth w = 0" "root \<noteq> 0" and os: "fresh_os (env_uring E)"
  shows "frames (w_sched v) root = Some True \<and> \<not> reactor_mode (w_sched v)
    \<and> (if ring_for E w \<noteq> None then w_ring v = w_ring w
       else current_kq (w_sched v) = current_kq (w_sched w) \<and> run_depth v = 0
         \<and> (a_port A \<notin> open_fds (w_res w) \<longrightarrow> w_res v = w_res w))"
proof (cases "env_platform E = Linux \<and> env_backend E = KYTE_BACKEND_URING")
  case True
  obtain ring res where c: "kyte_uring_create (env_uring E) 256 (w_res w) = (ring, res)" by fastforce
  show ?thesis
  proof (cases ring)
    case None
    then have "res = w_res w" using create_clean [OF os, of "w_res w" 256] c by (simp add: clean_def)
    then have "run_root_port E (epoll_dispatch E) (a_epoll A) (a_port A) root w = Some (Ok v)"
      using run w True c None by (simp add: kyte_run_root_def)
    from run_root_port_Ok [OF this dispatch_keeps_depth(3) w(1)] show ?thesis using True c None by (simp add: ring_for_def)
  next
    case (Some r)
    then have "run_root_uring E (a_ts_addr A) (a_ts A) r root (w\<lparr>w_res := res\<rparr>) = Some (Ok v)"
      using run w True c by (simp add: kyte_run_root_def)
    from run_root_uring_Ok [OF this] show ?thesis using True c Some by (simp add: ring_for_def)
  qed
next
  case False
  then have "ring_for E w = None" by (auto simp: ring_for_def)
  then show ?thesis
    using run w False run_root_port_Ok [OF _ dispatch_keeps_depth(1) w(1)] run_root_port_Ok [OF _ dispatch_keeps_depth(2) w(1)]
      run_root_port_Ok [OF _ dispatch_keeps_depth(3) w(1)]
    by (cases "env_platform E") (auto simp: kyte_run_root_def)
qed

text \<open>
  Property C25 (run_root_result).  On every platform a drive that returns has a finished root and has
  left the reactor; a kqueue, port or epoll drive also gives back the reactor of the caller and every
  descriptor it opened, those of a ring that could not be created among them, and is no longer in
  progress; a ring drive gives back the ring of the caller.  A nested drive and a platform without
  reactor end the process.
\<close>

theorem run_root_result:
  assumes "kyte_run_root E A root w = Some r" "root \<noteq> 0" "fresh_os (env_uring E)"
  shows "(0 < run_depth w \<longrightarrow> r = Panic ''an async call was block-driven from inside the event loop'')
    \<and> (run_depth w = 0 \<and> env_platform E = Bare \<longrightarrow> r = Panic ''no reactor driver on this platform'')
    \<and> (\<forall>v. r = Ok v \<longrightarrow> frames (w_sched v) root = Some True \<and> \<not> reactor_mode (w_sched v)
        \<and> (if ring_for E w \<noteq> None then w_ring v = w_ring w
           else current_kq (w_sched v) = current_kq (w_sched w) \<and> run_depth v = 0
             \<and> (a_port A \<notin> open_fds (w_res w) \<longrightarrow> w_res v = w_res w)))"
proof (intro conjI allI impI)
  fix v
  assume v: "r = Ok v"
  then have d: "run_depth w = 0" using assms by (auto simp: kyte_run_root_def split: if_splits)
  note c = run_root_cases [OF assms(1) [unfolded v] d assms(2,3)]
  show "frames (w_sched v) root = Some True" "\<not> reactor_mode (w_sched v)"
    "if ring_for E w \<noteq> None then w_ring v = w_ring w
     else current_kq (w_sched v) = current_kq (w_sched w) \<and> run_depth v = 0
       \<and> (a_port A \<notin> open_fds (w_res w) \<longrightarrow> w_res v = w_res w)" using c by blast+
qed (use assms in \<open>simp_all add: kyte_run_root_def\<close>)

definition done_env :: env where
  "done_env = (demo_env KYTE_BACKEND_EPOLL)\<lparr>env_body := one_shot_body\<rparr>"

definition root_world :: world where
  "root_world = demo_world\<lparr>w_sched := sched0\<lparr>frames := [1 \<mapsto> False]\<rparr>\<rparr>"

lemma drive_os_fresh: "fresh_os drive_os"
  by (auto simp: fresh_os_def drive_os_def demo_os_def Let_def split: region.splits if_splits)

theorem run_root_result_witness:
  "\<exists>v. kyte_run_root done_env quiet_os 1 root_world = Some (Ok v) \<and> frames (w_sched v) 1 = Some True \<and> run_depth v = 0
     \<and> w_res v = w_res root_world"
proof -
  have "\<exists>a. resume_world done_env 0 1 (started done_env 3 root_world) = Some (Ok a) \<and> frames (w_sched a) 1 = Some True"
    by (simp add: done_env_def demo_env_def root_world_def demo_world_def resume_world_def started_def set_kq_def open_port_def
        fresh_drive_def sched_eval one_shot_body_def sched0_def reactor_pump.simps Let_def)
  then obtain a where "resume_world done_env 0 1 (started done_env 3 root_world) = Some (Ok a)" "frames (w_sched a) 1 = Some True" by blast
  moreover have e: "env_platform done_env = Linux" "env_backend done_env = 0" "run_depth root_world = 0" "a_port quiet_os = 3"
    "env_uring done_env = drive_os" "3 \<notin> open_fds (w_res root_world)"
    by (simp_all add: root_world_def demo_world_def done_env_def demo_env_def KYTE_BACKEND_EPOLL_def quiet_os_def)
  ultimately have "\<exists>v. kyte_run_root done_env quiet_os 1 root_world = Some (Ok v)"
    using run_root_port_done [where E = done_env and root = 1 and port = 3 and w = root_world and a = a and D = "epoll_dispatch done_env"]
    by (simp add: kyte_run_root_def KYTE_BACKEND_URING_def)
  then obtain v where v: "kyte_run_root done_env quiet_os 1 root_world = Some (Ok v)" ..
  have "ring_for done_env root_world = None" using e by (simp add: ring_for_def KYTE_BACKEND_URING_def)
  then have "frames (w_sched v) 1 = Some True \<and> run_depth v = 0 \<and> w_res v = w_res root_world"
    using run_root_result [OF v one_neq_zero, THEN conjunct2, THEN conjunct2, rule_format, OF _ refl] e drive_os_fresh by simp
  with v show ?thesis by blast
qed

section \<open>The wake descriptor of epoll\<close>

text \<open>
  Property C28 (wake_spins).  The epoll dispatch of a wake event reads nothing from the eventfd, and the
  eventfd is registered level-triggered: once another thread has posted, every wait reports the wake
  again at once.  The drive then never ends while its root is pending: each turn counts as progress, so
  the idle cap is never reached.
\<close>

theorem wake_spins:
  assumes pend: "frames (w_sched w) root = Some False" and wake: "\<And>j. wait j = [KYTE_EPOLL_WAKE_DATA]"
  shows "dispatch_all (epoll_dispatch E i) (wait i) w = Some (Ok w) \<and> drive_loop (epoll_dispatch E) wait root idle i w = None"
proof
  have turn: "dispatch_all (epoll_dispatch E i) [KYTE_EPOLL_WAKE_DATA] u = Some (Ok u)" for i u
    by (simp add: epoll_dispatch_def and_then_def)
  then show "dispatch_all (epoll_dispatch E i) (wait i) w = Some (Ok w)" by (simp add: wake)
  have never: "D = epoll_dispatch E \<and> frames (w_sched w) root = Some False \<and> (\<forall>j. wait j = [KYTE_EPOLL_WAKE_DATA]) \<longrightarrow> False"
    if "drive_loop D wait root idle i w = Some r" for D wait root idle i w r
  proof (rule drive_loop.raw_induct [where P = "\<lambda>D wait root idle i w r. D = epoll_dispatch E \<and> frames (w_sched w) root = Some False
      \<and> (\<forall>j. wait j = [KYTE_EPOLL_WAKE_DATA]) \<longrightarrow> False", OF _ that], goal_cases)
    case (1 loop D wait root idle i w r)
    show ?case
    proof
      assume a: "D = epoll_dispatch E \<and> frames (w_sched w) root = Some False \<and> (\<forall>j. wait j = [KYTE_EPOLL_WAKE_DATA])"
      then have "loop D wait root 0 (i + 1) (begin_batch w) = Some r"
        using 1(2) turn [of i "begin_batch w"] by (simp add: raw_coro_done_def)
      moreover have "frames (w_sched (begin_batch w)) root = Some False"
        using a by (simp add: begin_batch_def kyte_reactor_batch_begin_def)
      ultimately show False using 1(1) a by blast
    qed
  qed
  show "drive_loop (epoll_dispatch E) wait root idle i w = None"
    using never [of "epoll_dispatch E" wait root idle i w] pend wake by (metis not_Some_eq)
qed

theorem wake_spins_witness:
  "drive_loop (epoll_dispatch (demo_env KYTE_BACKEND_EPOLL)) (\<lambda>_. [KYTE_EPOLL_WAKE_DATA]) 1 0 0 demo_world = None"
  using wake_spins [of demo_world 1 "\<lambda>_. [KYTE_EPOLL_WAKE_DATA]" "demo_env KYTE_BACKEND_EPOLL" 0 0]
  by (simp add: demo_world_def demo_sched_def sched0_def)

section \<open>Completions\<close>

lemma word_handle: "is_handle op \<Longrightarrow> uint (word_of_int op :: u64) = op"
  by (simp add: is_handle_def uint_word_of_int)

lemma handle_not_tagged:
  assumes "is_handle op"
  shows "(word_of_int op :: u64) \<noteq> KYTE_EPOLL_WAKE_DATA \<and> (word_of_int op :: u64) \<noteq> 0 \<and> (word_of_int op :: u64) AND KYTE_EPOLL_TIMER_TAG = 0"
proof -
  have "(word_of_int op :: u64) \<noteq> KYTE_EPOLL_WAKE_DATA" using handle_bit63 [OF assms] bit_word_all [of 63] by auto
  moreover have "uint (word_of_int op :: u64) \<noteq> uint (0 :: u64)"
    using assms by (subst word_handle) (simp_all add: is_handle_def)
  ultimately show ?thesis using handle_bit63 [OF assms] tag_test [of "word_of_int op"] by auto
qed

lemma complete_op_exact:
  assumes "done_off + 4 \<le> token_off" "token_off + 8 \<le> result_off"
  shows "case complete_op done_off token_off result_off op res m of (m', token) \<Rightarrow>
      token = sint (load64 m (op + token_off)) \<and> load32 m' (op + done_off) = 1
      \<and> load64 m' (op + result_off) = word_of_int res
      \<and> (\<forall>a n. apart a n (op + done_off) 4 \<and> apart a n (op + result_off) 8 \<longrightarrow> rd m' a n = rd m a n)"
proof -
  let ?m1 = "store32 m (op + done_off) 1"
  let ?m2 = "store64 ?m1 (op + result_off) (word_of_int res)"
  have "load64 ?m2 (op + token_off) = load64 ?m1 (op + token_off)"
    by (rule load64_store64_apart) (use assms in \<open>simp add: apart_def\<close>)
  also have "\<dots> = load64 m (op + token_off)"
    unfolding store32_def by (rule c64.get_wr) (use assms in \<open>simp add: apart_def\<close>)
  finally have "load64 ?m2 (op + token_off) = load64 m (op + token_off)" .
  moreover have "load32 ?m2 (op + done_off) = load32 ?m1 (op + done_off)"
    unfolding store64_def by (rule c32.get_wr) (use assms in \<open>simp add: apart_def\<close>)
  moreover have "rd ?m2 a n = rd m a n" if "apart a n (op + done_off) 4" "apart a n (op + result_off) 8" for a n
    using that by (simp add: store64_def store32_def rd_wr_apart)
  ultimately show ?thesis by (simp add: complete_op_def Let_def c32_simps c64_simps)
qed

text \<open>
  Property C26 (completion_written).  A completion of the ring is in its operation record before
  anybody resumes: the done flag and the result are written, the coroutine that is resumed is the one
  the record named, and no other byte of memory changes.
\<close>

theorem completion_written:
  assumes op: "is_handle op"
  shows "\<exists>m. uring_dispatch E i op res w =
        (if load64 (w_mem w) (op + 24) = 0 then Some (Ok (w\<lparr>w_mem := m\<rparr>))
         else resume_world E i (sint (load64 (w_mem w) (op + 24))) (w\<lparr>w_mem := m\<rparr>))
      \<and> load32 m (op + 20) = 1 \<and> load64 m (op + 32) = word_of_int res
      \<and> (\<forall>a n. apart a n (op + 20) 4 \<and> apart a n (op + 32) 8 \<longrightarrow> rd m a n = rd (w_mem w) a n)"
proof -
  obtain m t where c: "complete_op 20 24 32 op res (w_mem w) = (m, t)" by fastforce
  have "t = sint (load64 (w_mem w) (op + 24)) \<and> load32 m (op + 20) = 1 \<and> load64 m (op + 32) = word_of_int res
      \<and> (\<forall>a n. apart a n (op + 20) 4 \<and> apart a n (op + 32) 8 \<longrightarrow> rd m a n = rd (w_mem w) a n)"
    using complete_op_exact [where done_off = 20 and token_off = 24 and result_off = 32 and op = op and res = res and m = "w_mem w"] c by simp
  moreover have "uring_dispatch E i op res w = (if t \<noteq> 0 then resume_world E i t (w\<lparr>w_mem := m\<rparr>) else Some (Ok (w\<lparr>w_mem := m\<rparr>)))"
    using handle_not_tagged [OF op]
    by (simp add: uring_dispatch_def Let_def word_handle [OF op] KYTE_LX_OP_DONE_OFF_def KYTE_LX_OP_TOKEN_OFF_def KYTE_LX_OP_RESULT_OFF_def c)
  ultimately show ?thesis by (intro exI [of _ m]) (simp add: signed_eq_0_iff)
qed

theorem completion_written_witness:
  "\<exists>m. uring_dispatch (demo_env KYTE_BACKEND_URING) 0 4096 (- 104) demo_world = Some (Ok (demo_world\<lparr>w_mem := m\<rparr>))
     \<and> load32 m 4116 = 1 \<and> load64 m 4128 = word_of_int (- 104)"
proof -
  have "load64 (w_mem demo_world) 4120 = 0"
    by (simp add: demo_world_def load64_def rd_def upt_rec)
  then show ?thesis
    using completion_written [of 4096 "demo_env KYTE_BACKEND_URING" 0 "- 104" demo_world] by (auto simp: is_handle_def)
qed

section \<open>Cancelling on the ring\<close>

lemma tagged_not_wait:
  assumes "is_handle h" "h \<noteq> 2 ^ 63 - 2"
  shows "sint (tagged h) \<noteq> KYTE_URING_WAIT_TIMEOUT_DATA"
proof
  assume "sint (tagged h) = KYTE_URING_WAIT_TIMEOUT_DATA"
  then have "word_of_int (sint (tagged h)) = (word_of_int (- 2) :: u64)" by (simp add: KYTE_URING_WAIT_TIMEOUT_DATA_def)
  then have "tagged h = - 2" by simp
  moreover have "untagged (tagged h) = h" using untag_handle [OF assms(1)] by (simp add: tagged_def)
  ultimately have "untagged (- 2) = h" by simp
  moreover have "untagged (- 2) = 2 ^ 63 - 2" by (simp add: untagged_def KYTE_EPOLL_TIMER_TAG_def)
  ultimately show False using assms(2) by simp
qed

text \<open>
  Property C27 (uring_cancel_ignored).  On the ring backend cancelling a timer does nothing: the
  TIMEOUT entry stays in the ring and its cell allocated.  When its completion arrives the handle is
  resumed as if the deadline had passed; if the coroutine is gone by then its freed frame is read.
\<close>

theorem uring_cancel_ignored:
  assumes h: "is_handle h" "h \<noteq> 2 ^ 63 - 2" and E: "env_platform E = Linux" and none: "timer_fd (w_epoll w) h = None"
    and ring: "w_ring w = Some r" "peek_cqe r 0 = Some \<lparr>cqe_user_data = tagged h, cqe_res = res, cqe_flags = fl\<rparr>"
  shows "perform_timers E i [Cancelled h] w = Ok w
    \<and> reap_one E i 0 w = resume_world E i h (w\<lparr>w_cells := uring_timer_release h (w_cells w)\<rparr>)
    \<and> (frames (w_sched w) h = None \<and> h \<notin> batch_reaped (w_sched w) \<longrightarrow> reap_one E i 0 w = Some Trap)"
proof -
  have h0: "h \<noteq> 0" using h(1) by (simp add: is_handle_def)
  have tag: "tagged h AND KYTE_EPOLL_TIMER_TAG \<noteq> 0" unfolding tag_test by (simp add: tagged_def bit_or_iff bit_tag)
  have un: "untagged (tagged h) = h" using untag_handle [OF h(1)] by (simp add: tagged_def)
  have nw: "sint (tagged h) \<noteq> KYTE_URING_WAIT_TIMEOUT_DATA" by (rule tagged_not_wait [OF h])
  have "tagged h \<noteq> 0" using tag by auto
  then have reap: "reap_one E i 0 w = resume_world E i h (w\<lparr>w_cells := uring_timer_release h (w_cells w)\<rparr>)"
    using ring nw tag un h0 tagged_not_wake [OF h(1)]
    by (simp add: reap_one_def kyte_uring_peek_def Let_def uring_dispatch_def)
  moreover have "perform_timers E i [Cancelled h] w = Ok w"
    using none h0 E by (simp add: reactor_cancel_timer_def epoll_timer_cancel_def)
  moreover have "resume_world E i h v = Some Trap"
    if "frames (w_sched v) h = None" "h \<notin> batch_reaped (w_sched v)" for v
    using that h0 by (simp add: resume_world_def kyte_reactor_resume_def enter_reactor_def raw_coro_done_def Let_def split: option.splits)
  ultimately show ?thesis by simp
qed

definition late_ring :: uring where
  "late_ring = demo_ring\<lparr>cq_tail := 0, cqes := [\<lparr>cqe_user_data = 0, cqe_res = 0, cqe_flags = 0\<rparr>,
     \<lparr>cqe_user_data = tagged 4096, cqe_res = - 62, cqe_flags = 0\<rparr>]\<rparr>"

text \<open>The deadline of a coroutine at 4096 that has finished and been freed in the meantime.\<close>

definition late_world :: world where
  "late_world = demo_world\<lparr>w_ring := Some late_ring,
     w_cells := \<lparr>to_cell = [4096 \<mapsto> 64], cells = {64}, cell_value = (\<lambda>_. uring_spec 20)\<rparr>\<rparr>"

theorem uring_cancel_ignored_witness:
  "perform_timers (demo_env KYTE_BACKEND_URING) 0 [Cancelled 4096] late_world = Ok late_world
     \<and> cells (w_cells late_world) = {64} \<and> reap_one (demo_env KYTE_BACKEND_URING) 0 0 late_world = Some Trap"
proof -
  have "peek_cqe late_ring 0 = Some \<lparr>cqe_user_data = tagged 4096, cqe_res = - 62, cqe_flags = 0\<rparr>"
    by (simp add: peek_cqe_def late_ring_def demo_ring_def Let_def)
  moreover have "timer_fd (w_epoll late_world) 4096 = None" "w_ring late_world = Some late_ring"
    "frames (w_sched late_world) 4096 = None" "4096 \<notin> batch_reaped (w_sched late_world)" "cells (w_cells late_world) = {64}"
    by (simp_all add: late_world_def demo_world_def no_timers_def demo_sched_def sched0_def)
  moreover have "is_handle 4096" "4096 \<noteq> (2 ^ 63 - 2 :: int)"
    "env_platform (demo_env KYTE_BACKEND_URING) = Linux" by (simp_all add: is_handle_def demo_env_def)
  ultimately show ?thesis
    using uring_cancel_ignored [of 4096 "demo_env KYTE_BACKEND_URING" late_world late_ring "- 62" 0 0] by blast
qed

end
