(* ===== verification/Kyte_Await.thy ===== *)
theory Kyte_Await
  imports Kyte_Drive_Props
begin

text \<open>
  Total correctness of the drive on a kqueue, a completion port and epoll for a chain of
  coroutines: each calls the next and awaits it, the innermost one sleeps a number of times.  The
  chain is set up through the run queue, waits in the reactor, and unwinds through the run queue
  again, as long as the system reports the timer before the idle cap is reached.
\<close>

section \<open>A chain of coroutines\<close>

definition resumes :: "addr \<Rightarrow> sched \<Rightarrow> nat" where
  "resumes h s = length (filter (\<lambda>e. e = Resumed h) (trace s))"

lemma resumes_log [simp]: "resumes h (log_event e s) = (if e = Resumed h then Suc (resumes h s) else resumes h s)"
  by (simp add: resumes_def log_event_def)

lemma resumes_update [simp]:
  "resumes h (s\<lparr>frames := f\<rparr>) = resumes h s" "resumes h (s\<lparr>waiters := g\<rparr>) = resumes h s" "resumes h (s\<lparr>rq := q\<rparr>) = resumes h s"
  by (simp_all add: resumes_def)

text \<open>
  The innermost coroutine awaits a timer of \<open>ds ! k\<close> milliseconds on its \<open>k\<close>-th resume and finishes
  after the last delay.  The others create, schedule and await the next one, and release it when
  they are resumed again.
\<close>

fun next_in :: "addr list \<Rightarrow> addr \<Rightarrow> addr option" where
  "next_in (a # b # hs) h = (if h = a then Some b else next_in (b # hs) h)"
| "next_in _ h = None"

definition chain :: "addr list \<Rightarrow> int list \<Rightarrow> body" where
  "chain hs ds s h =
     (case next_in hs h of
        None \<Rightarrow> if resumes h s < length ds then ([AwaitTimer h (ds ! resumes h s)], False) else ([], True)
      | Some c \<Rightarrow> if resumes h s = 0 then ([Spawn c, Schedule c, Await c h], False) else ([ReleaseCoro c], True))"

lemma next_in_middle: "distinct (qs @ h # c # hs) \<Longrightarrow> next_in (qs @ h # c # hs) h = Some c"
proof (induction qs)
  case (Cons q qs)
  then show ?case by (cases qs) simp_all
qed simp

lemma next_in_last: "distinct (qs @ [h]) \<Longrightarrow> next_in (qs @ [h]) h = None"
proof (induction qs)
  case (Cons q qs)
  then show ?case by (cases qs) simp_all
qed simp

section \<open>One resume and what it queues\<close>

definition go :: "body \<Rightarrow> addr \<Rightarrow> sched \<Rightarrow> sched outcome option" where
  "go body h s =
     (case resume_and_finish body h s of
        Ok (d, s) \<Rightarrow> reactor_pump body s
      | Panic msg \<Rightarrow> Some (Panic msg)
      | Trap \<Rightarrow> Some Trap)"

lemma pump_empty: "rq s = Some [] \<Longrightarrow> reactor_pump body s = Some (Ok s)"
  by (simp add: reactor_pump.simps)

lemma pump_single:
  "rq s = Some [h] \<Longrightarrow> frames s h = Some False \<Longrightarrow> reactor_pump body s = go body h (s\<lparr>rq := Some []\<rparr>)"
  by (subst reactor_pump.simps) (simp add: pump_one_def raw_coro_done_def go_def split: outcome.split)

lemma reactor_resume_go:
  assumes "go body h s = Some (Ok s')" "rq s = Some []" "h \<notin> batch_reaped s" "h \<noteq> 0" "frames s h = Some False"
  shows "\<exists>d. kyte_reactor_resume body h s = Some (Ok (d, s'))"
  using assms by (auto simp: go_def kyte_reactor_resume_def enter_reactor_def raw_coro_done_def Let_def
      split: outcome.splits prod.splits)

text \<open>The run queue is empty, nothing is armed for this batch and no coroutine of the chain is special.\<close>

definition calm :: "addr list \<Rightarrow> sched \<Rightarrow> bool" where
  "calm hs s \<longleftrightarrow> rq s = Some [] \<and> \<not> deadline_active s
     \<and> (\<forall>h\<in>set hs. h \<noteq> 0 \<and> h \<notin> batch_reaped s \<and> h \<notin> detached s \<and> held s (stripe_of h) h = None)"

lemma calm_log [simp]: "calm hs (log_event e s) = calm hs s"
  by (simp add: calm_def log_event_def)

lemma calm_update [simp]: "calm hs (s\<lparr>frames := f\<rparr>) = calm hs s" "calm hs (s\<lparr>waiters := g\<rparr>) = calm hs s"
  by (simp_all add: calm_def)

text \<open>A call: the child is created and runs at once, because the queue was empty.\<close>

definition called :: "addr \<Rightarrow> addr \<Rightarrow> sched \<Rightarrow> sched" where
  "called h c s = (log_event (Resumed h) s)\<lparr>frames := (frames s)(c := Some False), waiters := (waiters s)(c := Some h)\<rparr>"

lemma go_call:
  assumes "calm hs s" "h \<in> set hs" "c \<in> set hs" "h \<noteq> c" "frames s h = Some False"
    and "next_in hs h = Some c" "resumes h s = 0"
  shows "go (chain hs ds) h s = go (chain hs ds) c (called h c s)"
proof -
  have nz: "h \<noteq> 0" "c \<noteq> 0" using assms(1-3) by (auto simp: calm_def)
  have "resume_and_finish (chain hs ds) h s = Ok (False, (called h c s)\<lparr>rq := Some [c]\<rparr>)"
    using assms nz by (simp add: calm_def chain_def sched_eval called_def Let_def)
  then have "go (chain hs ds) h s = reactor_pump (chain hs ds) ((called h c s)\<lparr>rq := Some [c]\<rparr>)" by (simp add: go_def)
  also have "\<dots> = go (chain hs ds) c (called h c s\<lparr>rq := Some []\<rparr>)"
    by (subst pump_single) (simp_all add: called_def)
  also have "called h c s\<lparr>rq := Some []\<rparr> = called h c s" using assms(1) by (simp add: calm_def called_def log_event_def)
  finally show ?thesis .
qed

lemma go_nap:
  assumes "calm hs s" "h \<in> set hs" "frames s h = Some False" "next_in hs h = None" "resumes h s < length ds"
  shows "go (chain hs ds) h s = Some (Ok (log_event (Armed h (ds ! resumes h s)) (log_event (Resumed h) s)))"
  using assms by (simp add: go_def calm_def chain_def sched_eval kyte_await_timer_def reactor_pump.simps Let_def)

text \<open>
  A coroutine that finishes after the calls \<open>cs\<close>: its parent runs at once.
\<close>

lemma go_finish:
  assumes "chain hs ds s h = (cs, True)" "frames s h = Some False" "run_calls cs (log_event (Resumed h) s) = Ok s1"
    and s1: "calm hs s1" "h \<in> set hs" "frames s1 h = Some False"
  shows "waiters s1 h = None \<Longrightarrow> go (chain hs ds) h s = Some (Ok (s1\<lparr>frames := (frames s1)(h := Some True)\<rparr>))"
    and "\<lbrakk>waiters s1 h = Some p; p \<noteq> 0; p \<noteq> h; frames s1 p = Some False\<rbrakk> \<Longrightarrow>
      go (chain hs ds) h s = go (chain hs ds) p (s1\<lparr>frames := (frames s1)(h := Some True), waiters := (waiters s1)(h := None)\<rparr>)"
proof -
  let ?s2 = "s1\<lparr>frames := (frames s1)(h := Some True)\<rparr>"
  have raw: "raw_coro_resume (chain hs ds) h s = Ok ?s2" using assms by (simp add: raw_coro_resume_def)
  show "go (chain hs ds) h s = Some (Ok ?s2)" if "waiters s1 h = None"
    using that s1 by (simp add: go_def resume_and_finish_def raw raw_coro_done_def reactor_finish_def kyte_coro_release_held_def
        take_waiter_def calm_def Let_def pump_empty)
  assume p: "waiters s1 h = Some p" "p \<noteq> 0" "p \<noteq> h" "frames s1 p = Some False"
  have "resume_and_finish (chain hs ds) h s = Ok (True, ?s2\<lparr>waiters := (waiters s1)(h := None), rq := Some [p]\<rparr>)"
    using p s1 by (simp add: resume_and_finish_def raw raw_coro_done_def reactor_finish_def kyte_coro_release_held_def
        take_waiter_def calm_def Let_def)
  then have "go (chain hs ds) h s = reactor_pump (chain hs ds) (?s2\<lparr>waiters := (waiters s1)(h := None), rq := Some [p]\<rparr>)"
    by (simp add: go_def)
  also have "\<dots> = go (chain hs ds) p (?s2\<lparr>waiters := (waiters s1)(h := None), rq := Some []\<rparr>)"
    using p by (subst pump_single) simp_all
  also have "?s2\<lparr>waiters := (waiters s1)(h := None), rq := Some []\<rparr> = ?s2\<lparr>waiters := (waiters s1)(h := None)\<rparr>"
    using s1(1) by (simp add: calm_def)
  finally show "go (chain hs ds) h s = go (chain hs ds) p (?s2\<lparr>waiters := (waiters s1)(h := None)\<rparr>)" .
qed

section \<open>Unwinding\<close>

text \<open>The coroutines that wait for \<open>h\<close>, the nearest first: each has run once and awaits the one below.\<close>

fun awaits :: "addr list \<Rightarrow> sched \<Rightarrow> addr \<Rightarrow> addr list \<Rightarrow> bool" where
  "awaits hs s h [] \<longleftrightarrow> waiters s h = None"
| "awaits hs s h (p # ps) \<longleftrightarrow> waiters s h = Some p \<and> next_in hs p = Some h \<and> frames s p = Some False \<and> resumes p s = 1
     \<and> awaits hs s p ps"

lemma awaits_cong:
  assumes "\<forall>x\<in>set (h # ps). waiters s' x = waiters s x" "\<forall>x\<in>set ps. frames s' x = frames s x \<and> resumes x s' = resumes x s"
  shows "awaits hs s' h ps = awaits hs s h ps"
  using assms by (induction ps arbitrary: h) auto

text \<open>Each parent in turn is resumed and frees the child it awaited.\<close>

fun climbs :: "addr list \<Rightarrow> event list" where
  "climbs (c # p # ps) = Resumed p # Destroyed c # climbs (p # ps)"
| "climbs _ = []"

definition unwound :: "sched \<Rightarrow> addr list \<Rightarrow> sched \<Rightarrow> bool" where
  "unwound s cs s' \<longleftrightarrow> trace s' = trace s @ climbs cs \<and> frames s' (last cs) = Some True
     \<and> (\<forall>x\<in>set (butlast cs). frames s' x = None) \<and> (\<forall>x. x \<notin> set cs \<longrightarrow> frames s' x = frames s x)"

text \<open>A parent after its child is freed, before it finishes itself.\<close>

definition released :: "addr \<Rightarrow> addr \<Rightarrow> sched \<Rightarrow> sched" where
  "released h c s = log_event (Destroyed c) ((log_event (Resumed h) s)\<lparr>frames := (frames s)(c := None)\<rparr>)"

lemma run_release:
  assumes "calm hs s" "h \<in> set hs" "c \<in> set hs" "next_in hs h = Some c" "resumes h s = 1" "frames s c = Some True"
  shows "chain hs ds s h = ([ReleaseCoro c], True)" "run_calls [ReleaseCoro c] (log_event (Resumed h) s) = Ok (released h c s)"
  using assms by (simp_all add: calm_def chain_def sched_eval released_def)

lemma released_simps [simp]:
  "calm hs (released h c s) = calm hs s" "waiters (released h c s) = waiters s"
  "frames (released h c s) = (frames s)(c := None)" "trace (released h c s) = trace s @ [Resumed h, Destroyed c]"
  "x \<noteq> h \<Longrightarrow> resumes x (released h c s) = resumes x s"
  by (simp_all add: released_def) (simp_all add: log_event_def)

lemma climb:
  assumes "calm hs s" "awaits hs s h ps" "distinct (c # h # ps)" "set (c # h # ps) \<subseteq> set hs" "next_in hs h = Some c"
    and "frames s c = Some True" "frames s h = Some False" "resumes h s = 1"
  shows "\<exists>s'. go (chain hs ds) h s = Some (Ok s') \<and> unwound s (c # h # ps) s'"
  using assms
proof (induction ps arbitrary: c h s)
  case Nil
  let ?s1 = "released h c s"
  note r = run_release(1) [of hs s h c ds] run_release(2) [of hs s h c]
  have "go (chain hs ds) h s = Some (Ok (?s1\<lparr>frames := (frames ?s1)(h := Some True)\<rparr>))"
    by (rule go_finish(1) [OF r(1) _ r(2)]) (use Nil in auto)
  moreover have "unwound s [c, h] (?s1\<lparr>frames := (frames ?s1)(h := Some True)\<rparr>)"
    using Nil by (auto simp: unwound_def)
  ultimately show ?case by blast
next
  case (Cons p ps)
  let ?s1 = "released h c s"
  let ?s2 = "?s1\<lparr>frames := (frames ?s1)(h := Some True), waiters := (waiters ?s1)(h := None)\<rparr>"
  note r = run_release(1) [of hs s h c ds] run_release(2) [of hs s h c]
  have p: "waiters s h = Some p" "next_in hs p = Some h" "frames s p = Some False" "resumes p s = 1" "awaits hs s p ps" "p \<noteq> 0"
    using Cons.prems(1,2,4) by (auto simp: calm_def)
  have go: "go (chain hs ds) h s = go (chain hs ds) p ?s2"
    by (rule go_finish(2) [OF r(1) _ r(2)]) (use Cons.prems p in auto)
  have "\<exists>s'. go (chain hs ds) p ?s2 = Some (Ok s') \<and> unwound ?s2 (h # p # ps) s'"
  proof (rule Cons.IH)
    show "awaits hs ?s2 p ps" using p(5) Cons.prems(3) by (subst awaits_cong [of p ps _ s]) auto
  qed (use Cons.prems p in auto)
  then obtain s' where s': "go (chain hs ds) p ?s2 = Some (Ok s')" "unwound ?s2 (h # p # ps) s'" by blast
  have "frames s' c = None" using s'(2) Cons.prems(3) by (simp add: unwound_def)
  then have "unwound s (c # h # p # ps) s'" using s'(2) by (auto simp: unwound_def)
  then show ?case using go s'(1) by auto
qed

section \<open>The chain asleep\<close>

text \<open>
  The innermost coroutine \<open>h\<close> after \<open>k\<close> of its sleeps, its parents \<open>ps\<close> waiting; \<open>t0\<close> is the trace
  before the drive.
\<close>

definition naps :: "addr \<Rightarrow> int list \<Rightarrow> event list" where
  "naps h ds = concat (map (\<lambda>d. [Resumed h, Armed h d]) ds)"

definition asleep :: "int list \<Rightarrow> event list \<Rightarrow> addr \<Rightarrow> addr list \<Rightarrow> nat \<Rightarrow> sched \<Rightarrow> bool" where
  "asleep ds t0 h ps k s \<longleftrightarrow> calm (rev ps @ [h]) s \<and> distinct (rev ps @ [h]) \<and> awaits (rev ps @ [h]) s h ps
     \<and> frames s h = Some False \<and> resumes h s = k \<and> k \<le> length ds
     \<and> trace s = t0 @ map Resumed (rev ps) @ naps h (take k ds)"

definition finished :: "int list \<Rightarrow> event list \<Rightarrow> addr \<Rightarrow> addr list \<Rightarrow> sched \<Rightarrow> bool" where
  "finished ds t0 h ps s \<longleftrightarrow> frames s (last (h # ps)) = Some True \<and> (\<forall>c\<in>set (butlast (h # ps)). frames s c = None)
     \<and> trace s = t0 @ map Resumed (rev ps) @ naps h ds @ Resumed h # climbs (h # ps)"

lemma asleep_nap:
  assumes a: "asleep ds t0 h ps k s" and k: "k < length ds"
  shows "\<exists>s'. go (chain (rev ps @ [h]) ds) h s = Some (Ok s') \<and> asleep ds t0 h ps (Suc k) s'"
proof -
  let ?s = "log_event (Armed h (ds ! k)) (log_event (Resumed h) s)"
  have "go (chain (rev ps @ [h]) ds) h s = Some (Ok ?s)"
    using go_nap [of "rev ps @ [h]" s h ds] next_in_last [of "rev ps" h] a k by (simp add: asleep_def)
  moreover have "awaits (rev ps @ [h]) ?s h ps = awaits (rev ps @ [h]) s h ps"
    by (rule awaits_cong) (use a in \<open>auto simp: asleep_def log_event_def resumes_def\<close>)
  then have "asleep ds t0 h ps (Suc k) ?s"
    using a k by (simp add: asleep_def) (simp add: log_event_def take_Suc_conv_app_nth naps_def)
  ultimately show ?thesis by blast
qed

lemma asleep_finish:
  assumes a: "asleep ds t0 h ps (length ds) s"
  shows "\<exists>s'. go (chain (rev ps @ [h]) ds) h s = Some (Ok s') \<and> finished ds t0 h ps s'"
proof -
  let ?hs = "rev ps @ [h]" and ?s1 = "log_event (Resumed h) s"
  have body: "chain ?hs ds s h = ([], True)"
    using next_in_last [of "rev ps" h] a by (simp add: chain_def asleep_def)
  have f: "frames s h = Some False" "calm ?hs ?s1" "h \<in> set ?hs" "frames ?s1 h = Some False" "waiters ?s1 = waiters s"
    using a by (simp_all add: asleep_def) (simp_all add: log_event_def)
  note fin = go_finish [OF body f(1) _ f(2-4)]
  show ?thesis
  proof (cases ps)
    case Nil
    then have "waiters ?s1 h = None" using a f(5) by (simp add: asleep_def)
    then have "go (chain ?hs ds) h s = Some (Ok (?s1\<lparr>frames := (frames ?s1)(h := Some True)\<rparr>))" by (intro fin(1)) simp_all
    moreover have "finished ds t0 h ps (?s1\<lparr>frames := (frames ?s1)(h := Some True)\<rparr>)"
      using a Nil by (simp add: finished_def asleep_def log_event_def)
    ultimately show ?thesis by blast
  next
    case (Cons p qs)
    let ?s2 = "?s1\<lparr>frames := (frames ?s1)(h := Some True), waiters := (waiters ?s1)(h := None)\<rparr>"
    have p: "waiters s h = Some p" "next_in ?hs p = Some h" "frames s p = Some False" "resumes p s = 1"
      "awaits ?hs s p qs" "p \<noteq> 0" "p \<noteq> h" "distinct (h # p # qs)"
      using a Cons by (auto simp: asleep_def calm_def)
    have "go (chain ?hs ds) h s = go (chain ?hs ds) p ?s2"
      by (rule fin(2)) (use p in \<open>simp_all add: log_event_def\<close>)
    moreover have "\<exists>s'. go (chain ?hs ds) p ?s2 = Some (Ok s') \<and> unwound ?s2 (h # p # qs) s'"
    proof (rule climb)
      show "awaits ?hs ?s2 p qs"
        using p(5,8) by (subst awaits_cong [of p qs _ s]) (auto simp: log_event_def resumes_def)
      show "calm ?hs ?s2" using f(2) by simp
      show "frames ?s2 p = Some False" "frames ?s2 h = Some True" using p by (simp_all add: log_event_def)
      show "resumes p ?s2 = 1" using p by simp
    qed (use p Cons in auto)
    ultimately obtain s' where "go (chain ?hs ds) h s = Some (Ok s')" "unwound ?s2 (h # p # qs) s'" by auto
    moreover have "trace ?s2 = trace s @ [Resumed h]" by (simp add: log_event_def)
    then have "unwound ?s2 (h # p # qs) s' \<Longrightarrow> finished ds t0 h ps s'" for s'
      using a by (simp add: unwound_def finished_def asleep_def Cons)
    ultimately show ?thesis by blast
  qed
qed

section \<open>Setting the chain up\<close>

text \<open>\<open>h\<close> is about to run for the first time, its parents \<open>ps\<close> wait, \<open>cs\<close> are not created yet.\<close>

definition descending :: "event list \<Rightarrow> addr \<Rightarrow> addr list \<Rightarrow> addr list \<Rightarrow> sched \<Rightarrow> bool" where
  "descending t0 h ps cs s \<longleftrightarrow> calm (rev ps @ h # cs) s \<and> distinct (rev ps @ h # cs) \<and> awaits (rev ps @ h # cs) s h ps
     \<and> frames s h = Some False \<and> resumes h s = 0 \<and> (\<forall>c\<in>set cs. waiters s c = None \<and> resumes c s = 0)
     \<and> trace s = t0 @ map Resumed (rev ps)"

lemma descend_call:
  assumes d: "descending t0 h ps (c # cs) s"
  shows "descending t0 c (h # ps) cs (called h c s)"
    and "go (chain (rev ps @ h # c # cs) ds) h s = go (chain (rev ps @ h # c # cs) ds) c (called h c s)"
proof -
  let ?hs = "rev ps @ h # c # cs"
  have n: "next_in ?hs h = Some c" using next_in_middle d by (simp add: descending_def)
  show "go (chain ?hs ds) h s = go (chain ?hs ds) c (called h c s)"
    by (rule go_call) (use d n in \<open>auto simp: descending_def\<close>)
  have "awaits ?hs (called h c s) h ps = awaits ?hs s h ps"
    by (rule awaits_cong) (use d in \<open>auto simp: descending_def called_def log_event_def resumes_def\<close>)
  moreover have "calm ?hs (called h c s) = calm ?hs s" by (simp add: called_def)
  moreover have "resumes x (called h c s) = (if x = h then Suc (resumes x s) else resumes x s)" for x
    by (simp add: called_def)
  moreover have "frames (called h c s) = (frames s)(c := Some False)" "waiters (called h c s) = (waiters s)(c := Some h)"
    "trace (called h c s) = trace s @ [Resumed h]" by (simp_all add: called_def log_event_def)
  ultimately show "descending t0 c (h # ps) cs (called h c s)"
    using d n by (auto simp: descending_def)
qed

lemma descend:
  assumes "descending t0 h ps cs s"
  shows "\<exists>s'. go (chain (rev ps @ h # cs) ds) h s = go (chain (rev ps @ h # cs) ds) (last (h # cs)) s'
    \<and> asleep ds t0 (last (h # cs)) (rev (butlast (h # cs)) @ ps) 0 s'"
  using assms
proof (induction cs arbitrary: h ps s)
  case Nil
  then show ?case by (intro exI [of _ s]) (simp add: descending_def asleep_def naps_def)
next
  case (Cons c cs)
  from Cons.IH [OF descend_call(1) [OF Cons.prems]] descend_call(2) [OF Cons.prems] show ?case by simp
qed

section \<open>The world around a resume\<close>

definition timed_backend :: "env \<Rightarrow> bool" where
  "timed_backend E \<longleftrightarrow> env_platform E \<noteq> Bare \<and> env_backend E \<noteq> KYTE_BACKEND_URING"

lemma cancel_timer_sched [simp]: "w_sched (reactor_cancel_timer E h w) = w_sched w"
  by (simp add: reactor_cancel_timer_def kqueue_timer_set_def Let_def split: platform.split)

lemma asleep_facts:
  assumes "asleep ds t0 h ps k s"
  shows "rq s = Some []" "h \<notin> batch_reaped s" "h \<noteq> 0" "frames s h = Some False" "frames s (last (h # ps)) = Some False"
proof -
  have "\<forall>p\<in>set ps. frames s p = Some False" if "awaits hs s h ps" for hs h
    using that by (induction ps arbitrary: h) auto
  then show "frames s (last (h # ps)) = Some False" using assms by (auto simp: asleep_def)
qed (use assms in \<open>auto simp: asleep_def calm_def\<close>)

text \<open>
  What a resume needs of the reactor under it: in a state that satisfies \<open>inv\<close> arming a timer succeeds,
  and arming and cancelling leave the scheduler and \<open>inv\<close> alone.
\<close>

locale timer_host =
  fixes E :: env and inv :: "world \<Rightarrow> bool"
  assumes arm: "inv w \<Longrightarrow> \<exists>v. kyte_reactor_arm_timer E i h ms w = Ok v \<and> w_sched v = w_sched w \<and> inv v"
    and cancel: "inv w \<Longrightarrow> inv (reactor_cancel_timer E h w)"
    and set_sched: "inv w \<Longrightarrow> inv (w\<lparr>w_sched := s\<rparr>)"
begin

lemma perform:
  "inv w \<Longrightarrow> \<exists>v. perform_timers E i es w = Ok v \<and> w_sched v = w_sched w \<and> inv v"
proof (induction es arbitrary: w)
  case (Cons e es)
  show ?case
  proof (cases e)
    case (Armed h ms)
    obtain u where "kyte_reactor_arm_timer E i h ms w = Ok u" "w_sched u = w_sched w" "inv u"
      using arm [OF Cons.prems] by blast
    then show ?thesis using Cons.IH [of u] Armed by simp
  next
    case (Cancelled h)
    then show ?thesis using Cons.IH [OF cancel [OF Cons.prems]] by simp
  qed (use Cons in simp_all)
qed simp

lemma resume:
  assumes "inv w" "go (env_body E) h (w_sched w) = Some (Ok s)"
    and "rq (w_sched w) = Some []" "h \<notin> batch_reaped (w_sched w)" "h \<noteq> 0" "frames (w_sched w) h = Some False"
  shows "\<exists>v. resume_world E i h w = Some (Ok v) \<and> w_sched v = s \<and> inv v"
proof -
  obtain d where d: "kyte_reactor_resume (env_body E) h (w_sched w) = Some (Ok (d, s))"
    using reactor_resume_go [OF assms(2-6)] by blast
  obtain v where "perform_timers E i (drop (length (trace (w_sched w))) (trace s)) (w\<lparr>w_sched := s\<rparr>) = Ok v" "w_sched v = s" "inv v"
    using perform [OF set_sched [OF assms(1)], of i "drop (length (trace (w_sched w))) (trace s)" s] by auto
  then show ?thesis using d by (simp add: resume_world_def)
qed

lemma nap:
  assumes "inv w" "asleep ds t0 h ps k (w_sched w)" "k < length ds" "env_body E = chain (rev ps @ [h]) ds"
  shows "\<exists>v. resume_world E i h w = Some (Ok v) \<and> asleep ds t0 h ps (Suc k) (w_sched v) \<and> inv v"
  using asleep_nap [OF assms(2,3)] resume [OF assms(1), of h _ i] asleep_facts(1-4) [OF assms(2)] assms(4)
  by metis

lemma finish:
  assumes "inv w" "asleep ds t0 h ps (length ds) (w_sched w)" "env_body E = chain (rev ps @ [h]) ds"
  shows "\<exists>v. resume_world E i h w = Some (Ok v) \<and> finished ds t0 h ps (w_sched v) \<and> inv v"
  using asleep_finish [OF assms(2)] resume [OF assms(1), of h _ i] asleep_facts(1-4) [OF assms(2)] assms(3)
  by metis

lemma first:
  assumes inv: "inv w" and d: "descending t0 root [] cs (w_sched w)" and E: "env_body E = chain (root # cs) ds"
  defines "h \<equiv> last (root # cs)" and "ps \<equiv> rev (butlast (root # cs))"
  shows "\<exists>u. resume_world E i root w = Some (Ok u)
    \<and> (asleep ds t0 h ps 1 (w_sched u) \<or> finished ds t0 h ps (w_sched u)) \<and> inv u"
proof -
  have hs: "rev ps @ [h] = root # cs" by (simp add: h_def ps_def)
  obtain s where s: "go (chain (root # cs) ds) root (w_sched w) = go (chain (root # cs) ds) h s" "asleep ds t0 h ps 0 s"
    using descend [OF d, of ds] by (auto simp: h_def ps_def)
  have "\<exists>s'. go (chain (root # cs) ds) h s = Some (Ok s') \<and> (asleep ds t0 h ps 1 s' \<or> finished ds t0 h ps s')"
  proof (cases "ds = []")
    case True
    then show ?thesis using asleep_finish [of ds t0 h ps s] s(2) unfolding hs by auto
  next
    case False
    then show ?thesis using asleep_nap [OF s(2)] unfolding hs by auto
  qed
  then obtain s' where s': "go (env_body E) root (w_sched w) = Some (Ok s')" "asleep ds t0 h ps 1 s' \<or> finished ds t0 h ps s'"
    using s(1) E by auto
  have "\<exists>v. resume_world E i root w = Some (Ok v) \<and> w_sched v = s' \<and> inv v"
    by (rule resume [OF inv s'(1)]) (use d in \<open>auto simp: descending_def calm_def\<close>)
  then show ?thesis using s'(2) by auto
qed

end

interpretation port: timer_host E "\<lambda>w. timed_backend E" for E
proof
  fix i h ms w
  assume "timed_backend E"
  then show "\<exists>v. kyte_reactor_arm_timer E i h ms w = Ok v \<and> w_sched v = w_sched w \<and> timed_backend E"
    by (cases "env_platform E") (auto simp: timed_backend_def kyte_reactor_arm_timer_def kqueue_timer_set_def Let_def)
qed simp_all

text \<open>An event that does no more to the scheduler than resume \<open>h\<close>.\<close>

definition resumes_root :: "env \<Rightarrow> (nat \<Rightarrow> 'e \<Rightarrow> world \<Rightarrow> world outcome option) \<Rightarrow> addr \<Rightarrow> 'e \<Rightarrow> bool" where
  "resumes_root E D h e \<longleftrightarrow> (\<forall>i w. \<exists>u. w_sched u = w_sched w \<and> D i e w = resume_world E i h u)"

lemma kqueue_resumes_root: "resumes_root E (kqueue_dispatch E) h h"
  by (auto simp: resumes_root_def kqueue_dispatch_def)

lemma iocp_resumes_root: "h \<noteq> 0 \<Longrightarrow> resumes_root E (iocp_dispatch E) h (KYTE_TIMER_KEY, h, b)"
  by (auto simp: resumes_root_def iocp_dispatch_def KYTE_TIMER_KEY_def KYTE_WAKE_KEY_def Let_def
      intro!: exI [of _ "w\<lparr>w_iocp := iocp_timer_cancel h (w_iocp w)\<rparr>" for w])

lemma epoll_resumes_root:
  assumes h: "is_handle h"
  shows "resumes_root E (epoll_dispatch E) h (tagged h)"
proof -
  have "tagged h AND KYTE_EPOLL_TIMER_TAG \<noteq> 0" unfolding tag_test by (simp add: tagged_def bit_or_iff bit_tag)
  moreover have "untagged (tagged h) = h" using untag_handle [OF h] by (simp add: tagged_def)
  moreover have "h \<noteq> 0" using h by (simp add: is_handle_def)
  ultimately have "epoll_dispatch E i (tagged h) w = resume_world E i h (w\<lparr>w_epoll := epoll_timer_cancel h (w_epoll w)\<rparr>)" for i w
    using tagged_not_wake [OF h] by (simp add: epoll_dispatch_def Let_def)
  then show ?thesis by (auto simp: resumes_root_def intro!: exI [of _ "w\<lparr>w_epoll := epoll_timer_cancel h (w_epoll w)\<rparr>" for w])
qed

section \<open>The loop\<close>

text \<open>
  What the system reports: nothing, or the event \<open>e\<close> alone, and never 751 empty waits in a row.
\<close>

definition punctual :: "(nat \<Rightarrow> 'e list) \<Rightarrow> 'e \<Rightarrow> bool" where
  "punctual wait e \<longleftrightarrow> (\<forall>i. wait i = [] \<or> wait i = [e]) \<and> (\<forall>i. \<exists>j\<le>IDLE_CAP. wait (i + j) \<noteq> [])"

lemma asleep_batch:
  assumes "asleep ds t0 h ps k (w_sched w)"
  shows "asleep ds t0 h ps k (w_sched (begin_batch w))"
proof -
  let ?s = "w_sched w" and ?b = "kyte_reactor_batch_begin (w_sched w)"
  have b: "resumes x ?b = resumes x ?s" "frames ?b = frames ?s" "waiters ?b = waiters ?s" "trace ?b = trace ?s" for x
    by (simp_all add: kyte_reactor_batch_begin_def resumes_def)
  have "awaits hs ?b h ps = awaits hs ?s h ps" for hs by (rule awaits_cong) (simp_all add: b)
  moreover have "calm hs ?s \<Longrightarrow> calm hs ?b" for hs by (simp add: kyte_reactor_batch_begin_def calm_def)
  ultimately show ?thesis using assms unfolding asleep_def begin_batch_def by (simp add: b)
qed

lemma one_event:
  assumes "resumes_root E D h e"
  shows "\<exists>u. w_sched u = w_sched w \<and> dispatch_all (D i) [e] w = resume_world E i h u"
proof -
  obtain u where u: "w_sched u = w_sched w" "D i e w = resume_world E i h u" using assms by (auto simp: resumes_root_def)
  have "and_then r (dispatch_all (D i) []) = r" for r
    by (simp add: and_then_def split: option.split outcome.split)
  then have "dispatch_all (D i) [e] w = resume_world E i h u" using u(2) by simp
  then show ?thesis using u(1) by blast
qed

text \<open>The empty waits before the next event only count up.\<close>

lemma skip_idle:
  assumes "frames (w_sched w) root = Some False" "idle + j \<le> IDLE_CAP" "\<And>l. l < j \<Longrightarrow> wait (i + l) = []"
  shows "drive_loop D wait root idle i w = drive_loop D wait root (idle + j) (i + j) w"
  using assms
proof (induction j arbitrary: idle i)
  case (Suc j)
  have "wait i = []" using Suc.prems(3) [of 0] by simp
  then have "drive_loop D wait root idle i w = drive_loop D wait root (Suc idle) (Suc i) w"
    using Suc.prems(1,2) by (subst drive_loop.simps) (simp add: raw_coro_done_def)
  also have "\<dots> = drive_loop D wait root (Suc idle + j) (Suc i + j) w"
    by (rule Suc.IH) (use Suc.prems(1,2) Suc.prems(3) [of "Suc l" for l] in simp_all)
  finally show ?case by simp
qed simp

lemma next_event:
  assumes "punctual wait e"
  shows "\<exists>j\<le>IDLE_CAP. wait (i + j) = [e] \<and> (\<forall>l<j. wait (i + l) = [])"
proof -
  define j where "j = (LEAST j. wait (i + j) \<noteq> [])"
  obtain j' where j': "j' \<le> IDLE_CAP" "wait (i + j') \<noteq> []" using assms by (auto simp: punctual_def)
  have "wait (i + j) \<noteq> []" unfolding j_def by (rule LeastI) (rule j'(2))
  moreover have "j \<le> j'" unfolding j_def by (rule Least_le) (rule j'(2))
  moreover have "\<forall>l<j. wait (i + l) = []" unfolding j_def using not_less_Least by blast
  ultimately show ?thesis using j'(1) assms by (auto simp: punctual_def intro!: exI [of _ j])
qed

lemma loop_turn:
  assumes p: "punctual wait e" and D: "resumes_root E D h e" and a: "asleep ds t0 h ps k (w_sched w)"
  shows "\<exists>i' u. asleep ds t0 h ps k (w_sched u) \<and> (\<forall>v. resume_world E i' h u = Some (Ok v)
      \<longrightarrow> drive_loop D wait (last (h # ps)) 0 i w = drive_loop D wait (last (h # ps)) 0 (i' + 1) v)"
proof -
  let ?root = "last (h # ps)"
  obtain j where j: "j \<le> IDLE_CAP" "wait (i + j) = [e]" "\<forall>l<j. wait (i + l) = []" using next_event [OF p] by blast
  obtain u where u: "w_sched u = w_sched (begin_batch w)"
    "dispatch_all (D (i + j)) [e] (begin_batch w) = resume_world E (i + j) h u" using one_event [OF D] by blast
  have f: "frames (w_sched w) ?root = Some False" by (rule asleep_facts(5) [OF a])
  have "drive_loop D wait ?root 0 i w = drive_loop D wait ?root j (i + j) w"
    using skip_idle [where idle = 0 and j = j and wait = wait and i = i and D = D, OF f] j by simp
  moreover have "drive_loop D wait ?root j (i + j) w = drive_loop D wait ?root 0 (i + j + 1) v"
    if "resume_world E (i + j) h u = Some (Ok v)" for v
    using that f j(2) u(2) by (subst drive_loop.simps) (simp add: raw_coro_done_def)
  ultimately show ?thesis using asleep_batch [OF a] u(1) by (intro exI [of _ "i + j"] exI [of _ u]) simp
qed

lemma drive_sleeps:
  assumes p: "punctual wait e" and D: "resumes_root E D h e" and E: "timed_backend E" "env_body E = chain (rev ps @ [h]) ds"
    and a: "asleep ds t0 h ps k (w_sched w)"
  shows "\<exists>v. drive_loop D wait (last (h # ps)) 0 i w = Some (Ok v) \<and> finished ds t0 h ps (w_sched v)"
  using a
proof (induction "length ds - k" arbitrary: k i w)
  case 0
  obtain i' u where u: "asleep ds t0 h ps k (w_sched u)" "\<And>v. resume_world E i' h u = Some (Ok v)
      \<Longrightarrow> drive_loop D wait (last (h # ps)) 0 i w = drive_loop D wait (last (h # ps)) 0 (i' + 1) v"
    using loop_turn [OF p D 0(2)] by blast
  have "k = length ds" using 0 by (simp add: asleep_def)
  then obtain v where "resume_world E i' h u = Some (Ok v)" "finished ds t0 h ps (w_sched v)"
    using port.finish [OF E(1) _ E(2)] u(1) by blast
  then show ?case using u(2) drive_loop_done [of v "last (h # ps)" D wait 0 "i' + 1"] by (auto simp: finished_def)
next
  case (Suc m)
  obtain i' u where u: "asleep ds t0 h ps k (w_sched u)" "\<And>v. resume_world E i' h u = Some (Ok v)
      \<Longrightarrow> drive_loop D wait (last (h # ps)) 0 i w = drive_loop D wait (last (h # ps)) 0 (i' + 1) v"
    using loop_turn [OF p D Suc(3)] by blast
  have "k < length ds" using Suc(2) by simp
  then obtain v where "resume_world E i' h u = Some (Ok v)" "asleep ds t0 h ps (Suc k) (w_sched v)"
    using port.nap [OF E(1) u(1) _ E(2)] by blast
  then show ?case using u(2) Suc(1) [of "Suc k" v] Suc(2) by simp
qed

section \<open>The whole drive\<close>

text \<open>The event each backend reports when the timer of \<open>h\<close> fires.\<close>

definition wakes_on_time :: "env \<Rightarrow> answers \<Rightarrow> addr \<Rightarrow> bool" where
  "wakes_on_time E A h =
     (case env_platform E of
        Kqueue \<Rightarrow> punctual (a_kevents A) h
      | Iocp \<Rightarrow> punctual (a_entries A) (KYTE_TIMER_KEY, h, 0)
      | Linux \<Rightarrow> punctual (a_epoll A) (tagged h)
      | Bare \<Rightarrow> False)"

text \<open>Only the root exists, and no coroutine of the chain has a history.\<close>

definition fresh_chain :: "addr list \<Rightarrow> sched \<Rightarrow> bool" where
  "fresh_chain hs s \<longleftrightarrow> frames s (hd hs) = Some False \<and> (\<forall>c\<in>set (tl hs). frames s c = None)
     \<and> (\<forall>h\<in>set hs. waiters s h = None \<and> h \<notin> detached s \<and> held s (stripe_of h) h = None \<and> Resumed h \<notin> set (trace s))"

lemma fresh_descending:
  assumes f: "fresh_chain (root # cs) (w_sched w)" and d: "distinct (root # cs)" "0 \<notin> set (root # cs)"
  shows "descending (trace (w_sched w)) root [] cs (w_sched (started E port w))"
    and "descending (trace (w_sched w)) root [] cs (w_sched (started_ring ring w))"
proof -
  have "filter (\<lambda>e. e = Resumed h) (trace (w_sched w)) = []" if "h \<in> set (root # cs)" for h
    using f that by (auto simp: fresh_chain_def filter_empty_conv)
  then show "descending (trace (w_sched w)) root [] cs (w_sched (started E port w))"
    "descending (trace (w_sched w)) root [] cs (w_sched (started_ring ring w))"
    using f d
    by (auto simp: descending_def fresh_chain_def calm_def started_def started_ring_def set_kq_def fresh_drive_def resumes_def)
qed

lemma port_returns:
  assumes p: "punctual wait e" and D: "resumes_root E D (last (root # cs)) e"
    and E: "timed_backend E" "env_body E = chain (root # cs) ds"
    and f: "fresh_chain (root # cs) (w_sched w)" "distinct (root # cs)" "0 \<notin> set (root # cs)"
  shows "\<exists>v. run_root_port E D wait port root w = Some (Ok v)
    \<and> finished ds (trace (w_sched w)) (last (root # cs)) (rev (butlast (root # cs))) (w_sched v)"
proof -
  let ?w = "started E port w" and ?t = "trace (w_sched w)"
  define h ps where "h = last (root # cs)" and "ps = rev (butlast (root # cs))"
  have hs: "rev ps @ [h] = root # cs" by (simp add: h_def ps_def)
  then have root: "last (h # ps) = root" by (metis hd_append2 hd_rev last_ConsL last_ConsR list.sel(1) rev_is_Nil_conv append_Nil)
  obtain u where u: "resume_world E 0 root ?w = Some (Ok u)" "asleep ds ?t h ps 1 (w_sched u) \<or> finished ds ?t h ps (w_sched u)"
    using port.first [OF E(1) fresh_descending(1) [OF f, of E port] E(2)] unfolding h_def ps_def by blast
  have "\<exists>v. drive_loop D wait root 0 0 u = Some (Ok v) \<and> finished ds ?t h ps (w_sched v)"
    using u(2)
  proof
    assume "asleep ds ?t h ps 1 (w_sched u)"
    then show ?thesis using drive_sleeps [OF p D [folded h_def] E(1), of ps ds ?t 1 u 0, unfolded root hs] E(2) by blast
  next
    assume fin: "finished ds ?t h ps (w_sched u)"
    then have "frames (w_sched u) root = Some True" unfolding finished_def root by blast
    then show ?thesis using drive_loop_done [of u root D wait 0 0] fin by blast
  qed
  then obtain v where v: "drive_loop D wait root 0 0 u = Some (Ok v)" "finished ds ?t h ps (w_sched v)" by blast
  have "frames (w_sched v) root = Some True" using v(2) unfolding finished_def root by blast
  with v u(1) show ?thesis
    by (simp add: run_root_port_started and_then_def check_root_def set_kq_def leave_reactor_def raw_coro_done_def
        finished_def h_def ps_def)
qed

lemma finished_chain:
  assumes "hs \<noteq> []"
  shows "finished ds t0 (last hs) (rev (butlast hs)) s \<longleftrightarrow> frames s (hd hs) = Some True
    \<and> (\<forall>c\<in>set (tl hs). frames s c = None)
    \<and> trace s = t0 @ map Resumed (butlast hs) @ naps (last hs) ds @ Resumed (last hs) # climbs (rev hs)"
proof -
  have "rev (butlast hs @ [last hs]) = rev hs" using assms by simp
  then have e: "last hs # rev (butlast hs) = rev hs" by (simp del: append_butlast_last_id)
  show ?thesis unfolding finished_def e using assms by (simp add: last_rev butlast_rev)
qed

text \<open>
  Property C22 (await_chain_returns).  A chain of coroutines, each of which calls and awaits the next and
  the last of which sleeps, is driven to its end on a kqueue, a completion port and epoll, for every
  depth and all delays: if each timer is reported before 751 empty waits have passed, the drive
  returns, the root is finished and every other frame freed.  The trace is exactly one descent through
  the run queue, one resume and one armed timer per delay in order, and one ascent in which each
  parent is resumed once and frees its child.
\<close>

theorem await_chain_returns:
  assumes E: "timed_backend E" "env_body E = chain hs ds" and hs: "hs \<noteq> []" "distinct hs" "\<forall>h\<in>set hs. is_handle h"
    and w: "run_depth w = 0" "fresh_chain hs (w_sched w)" and time: "wakes_on_time E A (last hs)"
  shows "\<exists>v. kyte_run_root E A (hd hs) w = Some (Ok v)
    \<and> frames (w_sched v) (hd hs) = Some True \<and> (\<forall>c\<in>set (tl hs). frames (w_sched v) c = None)
    \<and> trace (w_sched v) = trace (w_sched w) @ map Resumed (butlast hs)
        @ concat (map (\<lambda>d. [Resumed (last hs), Armed (last hs) d]) ds) @ Resumed (last hs) # climbs (rev hs)"
proof -
  obtain root cs where rc: "hs = root # cs" using hs(1) by (cases hs) auto
  have h: "is_handle (last hs)" "0 \<notin> set hs" "root \<noteq> 0" using hs by (auto simp: is_handle_def rc)
  then have l: "last hs \<noteq> 0" by (simp add: is_handle_def)
  note port = port_returns [where root = root and cs = cs and E = E and w = w and ds = ds, folded rc, OF _ _ E w(2) hs(2) h(2)]
  have "\<exists>v. kyte_run_root E A root w = Some (Ok v) \<and> finished ds (trace (w_sched w)) (last hs) (rev (butlast hs)) (w_sched v)"
  proof (cases "env_platform E")
    case Kqueue
    then show ?thesis using port [OF _ kqueue_resumes_root] time w(1) h(3) by (simp add: kyte_run_root_def wakes_on_time_def)
  next
    case Iocp
    then show ?thesis using port [OF _ iocp_resumes_root [OF l]] time w(1) h(3) by (simp add: kyte_run_root_def wakes_on_time_def)
  next
    case Linux
    then show ?thesis
      using port [OF _ epoll_resumes_root [OF h(1)]] time w(1) h(3) E(1) by (simp add: kyte_run_root_def wakes_on_time_def timed_backend_def)
  qed (use E(1) in \<open>simp add: timed_backend_def\<close>)
  then show ?thesis unfolding finished_chain [OF hs(1)] naps_def by (simp only: rc list.sel)
qed

text \<open>
  A root at 4096 that awaits a coroutine at 8192, which awaits one at 12288, which sleeps 5 and 20
  milliseconds, on epoll, woken at every third wait.
\<close>

definition chain_env :: env where
  "chain_env = (demo_env KYTE_BACKEND_EPOLL)\<lparr>env_body := chain [4096, 8192, 12288] [5, 20]\<rparr>"

definition chain_world :: world where
  "chain_world = demo_world\<lparr>w_sched := sched0\<lparr>frames := [4096 \<mapsto> False]\<rparr>\<rparr>"

definition chain_os :: answers where
  "chain_os = quiet_os\<lparr>a_epoll := (\<lambda>i. if i mod 3 = 2 then [tagged 12288] else [])\<rparr>"

theorem await_chain_returns_witness:
  "\<exists>v. kyte_run_root chain_env chain_os 4096 chain_world = Some (Ok v) \<and> frames (w_sched v) 4096 = Some True
     \<and> frames (w_sched v) 8192 = None \<and> frames (w_sched v) 12288 = None
     \<and> trace (w_sched v) = [Resumed 4096, Resumed 8192, Resumed 12288, Armed 12288 5, Resumed 12288, Armed 12288 20,
         Resumed 12288, Resumed 8192, Destroyed 12288, Resumed 4096, Destroyed 8192]"
proof -
  have "\<exists>j\<le>IDLE_CAP. (i + j) mod 3 = 2" for i :: nat
  proof (intro exI conjI)
    show "2 - i mod 3 \<le> IDLE_CAP" by (simp add: IDLE_CAP_def)
    show "(i + (2 - i mod 3)) mod 3 = 2" using mod_add_left_eq [of i 3 "2 - i mod 3"] by simp
  qed
  then have "wakes_on_time chain_env chain_os (last [4096, 8192, 12288])"
    by (auto simp: wakes_on_time_def chain_env_def demo_env_def chain_os_def punctual_def)
  moreover have "timed_backend chain_env" "env_body chain_env = chain [4096, 8192, 12288] [5, 20]" "run_depth chain_world = 0"
    "\<forall>h\<in>set [4096, 8192, 12288]. is_handle h" "fresh_chain [4096, 8192, 12288] (w_sched chain_world)" "trace (w_sched chain_world) = []"
    by (simp_all add: timed_backend_def chain_env_def demo_env_def KYTE_BACKEND_EPOLL_def KYTE_BACKEND_URING_def is_handle_def
        chain_world_def demo_world_def fresh_chain_def sched0_def)
  ultimately show ?thesis
    using await_chain_returns [of chain_env "[4096, 8192, 12288]" "[5, 20]" chain_world chain_os] by simp
qed

end
