(* ===== verification/Kyte_Ring_Drive.thy ===== *)
theory Kyte_Ring_Drive
  imports Kyte_Await
begin

text \<open>
  The drive of a root coroutine on io_uring.  With a kernel that takes every submitted entry and posts
  completions only when it is waited for, a chain of awaiting coroutines is driven to its end; a root
  that waits for something that never comes is driven for ever, because the completion of the loop's
  own timeout counts as progress.
\<close>

section \<open>The kernel under the ring\<close>

text \<open>
  The documented behaviour of \<^verbatim>\<open>io_uring_enter\<close> on a ring whose staged entries are all published
  and counted in \<open>to_submit\<close>: it consumes them; without a wait it posts nothing, and the wait of turn
  \<open>i\<close> returns when it has posted \<open>posts i\<close>.  It does not touch the descriptor and the mappings, which only
  the process knows.
\<close>

definition mapped :: "uring \<Rightarrow> int \<times> (addr \<times> nat) list" where
  "mapped r = (ring_fd r, [(sq_ptr r, sq_sz r), (cq_ptr r, cq_sz r), (sqe_ptr r, sqe_sz r)])"

definition took_all :: "nat \<Rightarrow> nat \<Rightarrow> uring \<Rightarrow> cqe list \<Rightarrow> int \<times> uring \<Rightarrow> bool" where
  "took_all k k' r es = (\<lambda>(n, r'). sq_ok k r' \<and> pending r' = 0 \<and> cq_ok k' r' \<and> cq_items k' r' = cq_items k' r @ es
     \<and> mapped r' = mapped r)"

definition ring_kernel :: "env \<Rightarrow> nat \<Rightarrow> nat \<Rightarrow> (nat \<Rightarrow> cqe list) \<Rightarrow> bool" where
  "ring_kernel E k k' posts \<longleftrightarrow> env_platform E = Linux \<and> env_backend E = KYTE_BACKEND_URING
     \<and> (\<forall>i r. sq_ok k r \<and> cq_ok k' r \<and> published r = pending r \<longrightarrow>
          took_all k k' r [] (env_enter E i r (word_of_nat (pending r)) 0 0)
          \<and> (cq_items k' r = [] \<longrightarrow>
              took_all k k' r (posts i) (env_enter E i r (word_of_nat (pending r)) 1 IORING_ENTER_GETEVENTS)))"

text \<open>The ring of the thread: nothing staged, and the completions \<open>es\<close> not consumed yet.\<close>

definition ring_at :: "nat \<Rightarrow> nat \<Rightarrow> int \<times> (addr \<times> nat) list \<Rightarrow> cqe list \<Rightarrow> uring option \<Rightarrow> bool" where
  "ring_at k k' M es ring \<longleftrightarrow> (\<exists>r. ring = Some r \<and> sq_ok k r \<and> pending r = 0 \<and> cq_ok k' r \<and> cq_items k' r = es \<and> mapped r = M)"

text \<open>A ring with one staged entry.\<close>

definition staged :: "nat \<Rightarrow> nat \<Rightarrow> int \<times> (addr \<times> nat) list \<Rightarrow> cqe list \<Rightarrow> uring \<Rightarrow> bool" where
  "staged k k' M es r \<longleftrightarrow> sq_ok k r \<and> pending r = 1 \<and> published r = 0 \<and> cq_ok k' r \<and> cq_items k' r = es \<and> mapped r = M"

lemma prep_cq:
  assumes "uring_prep r q = Ok (n, r')"
  shows "cq_ok k' r' = cq_ok k' r" "cq_items k' r' = cq_items k' r" "published r' = published r" "mapped r' = mapped r"
  using assms by (auto simp: uring_prep_def Let_def cq_ok_def cq_items_def cq_count_def published_def mapped_def split: if_splits)

text \<open>One entry staged on an idle ring and submitted: the kernel is entered with it alone.\<close>

lemma stage_one:
  assumes "ring_at k k' M es ring"
  shows "\<exists>r. kyte_uring_prep ring q = Ok (0, Some r) \<and> staged k k' M es r"
proof -
  obtain r where r: "ring = Some r" "sq_ok k r" "pending r = 0" "cq_ok k' r" "cq_items k' r = es" "mapped r = M"
    using assms by (auto simp: ring_at_def)
  then have p0: "published r = 0" by (simp add: sq_ok_def)
  obtain r0 where p: "uring_prep r q = Ok (0, r0)" using uring_prep_ok [OF r(2), of q] r(3) by simp
  then have r0: "sq_ok k r0" "sq_items k r0 = sq_items k r @ [sqe_of q]" using stage_items [OF r(2), of q r0] by (simp_all add: stage_def)
  have "pending r0 = 1" using arg_cong [OF r0(2), of length] r(3) by (simp add: sq_items_def)
  then show ?thesis
    using p p0 r r0(1) prep_cq(1,2) [OF p, of k'] prep_cq(3,4) [OF p] by (simp add: kyte_uring_prep_def staged_def)
qed

lemma submit_staged:
  assumes "staged k k' M es r"
  shows "kyte_uring_submit_and_wait enter (Some r) w = apsnd Some (enter (sq_publish r) 1
      (word_of_int (if w > 0 then w else 0)) (if w > 0 then IORING_ENTER_GETEVENTS else 0))"
    and "sq_ok k (sq_publish r)" "published (sq_publish r) = pending (sq_publish r)" "pending (sq_publish r) = 1"
    and "cq_ok k' (sq_publish r)" "cq_items k' (sq_publish r) = es" "mapped (sq_publish r) = M"
  using assms submit_count [of k r enter w] publish_items [of k r] unfolding staged_def
  by (simp_all add: kyte_uring_submit_and_wait_def published_def pending_def sq_publish_def cq_ok_def cq_items_def cq_count_def mapped_def)

lemma enter_ring:
  assumes "staged k k' M es r" "ring_kernel E k k' posts"
  shows "ring_at k k' M es (snd (kyte_uring_submit_and_wait (env_enter E i) (Some r) 0))"
    and "es = [] \<Longrightarrow> ring_at k k' M (posts i) (snd (kyte_uring_submit_and_wait (env_enter E i) (Some r) 1))"
proof -
  note s = submit_staged(1) [OF assms(1)] submit_staged(2-7) [OF assms(1)]
  have took: "took_all k k' (sq_publish r) [] (env_enter E i (sq_publish r) 1 0 0)"
    "es = [] \<Longrightarrow> took_all k k' (sq_publish r) (posts i) (env_enter E i (sq_publish r) 1 1 IORING_ENTER_GETEVENTS)"
    using assms(2) s(2-6) unfolding ring_kernel_def by (metis of_nat_1)+
  show "ring_at k k' M es (snd (kyte_uring_submit_and_wait (env_enter E i) (Some r) 0))"
    using took(1) s(1) [of "env_enter E i" 0] s(6,7) by (auto simp: took_all_def ring_at_def split: prod.splits)
  show "ring_at k k' M (posts i) (snd (kyte_uring_submit_and_wait (env_enter E i) (Some r) 1))" if "es = []"
    using took(2) [OF that] s(1) [of "env_enter E i" 1] s(6,7) that by (auto simp: took_all_def ring_at_def split: prod.splits)
qed

lemma arm_ring:
  assumes E: "ring_kernel E k k' posts" and w: "ring_at k k' M es (w_ring w)"
  shows "\<exists>v. kyte_reactor_arm_timer E i h ms w = Ok v \<and> w_sched v = w_sched w \<and> ring_at k k' M es (w_ring v) \<and> w_res v = w_res w"
proof (cases "h = 0")
  case True
  then show ?thesis using E w by (simp add: kyte_reactor_arm_timer_def ring_kernel_def uring_timer_arm_def)
next
  case False
  define t where "t = env_new_cell E (cells (w_cells w))"
  obtain r where r: "kyte_uring_prep (w_ring w) (timeout_request t h) = Ok (0, Some r)" "staged k k' M es r"
    using stage_one [OF w] by blast
  then obtain U where "uring_timer_arm (env_new_cell E) (env_enter E i) h ms (w_ring w, w_cells w)
      = Ok (snd (kyte_uring_submit_and_wait (env_enter E i) (Some r) 0), U)"
    using False w by (auto simp: uring_timer_arm_def Let_def t_def [symmetric] ring_at_def)
  then show ?thesis using E enter_ring(1) [OF r(2) E, of i] by (simp add: kyte_reactor_arm_timer_def ring_kernel_def)
qed

text \<open>The state between two turns, with the resources \<open>R\<close> of the process.\<close>

definition ring_world :: "env \<Rightarrow> nat \<Rightarrow> nat \<Rightarrow> (nat \<Rightarrow> cqe list) \<Rightarrow> int \<times> (addr \<times> nat) list \<Rightarrow> resources \<Rightarrow> cqe list \<Rightarrow> world \<Rightarrow> bool" where
  "ring_world E k k' posts M R es w \<longleftrightarrow> ring_kernel E k k' posts \<and> ring_at k k' M es (w_ring w) \<and> w_res w = R"

interpretation ring: timer_host E "ring_world E k k' posts M R es" for E k k' posts M R es
proof
  fix i h ms and w :: world
  assume a: "ring_world E k k' posts M R es w"
  then show "\<exists>v. kyte_reactor_arm_timer E i h ms w = Ok v \<and> w_sched v = w_sched w \<and> ring_world E k k' posts M R es v"
    using arm_ring unfolding ring_world_def by metis
  show "ring_world E k k' posts M R es (reactor_cancel_timer E h w)"
    using a by (auto simp: reactor_cancel_timer_def ring_world_def ring_kernel_def)
qed (simp add: ring_world_def)

section \<open>One turn of the loop\<close>

lemma wait_turn:
  assumes E: "ring_kernel E k k' posts" and w: "ring_at k k' M [] ring"
  shows "\<exists>n ring' ts'. kyte_uring_submit_and_wait_ms (env_enter E i) ts_addr ring ts 1 20 = Ok (n, ring', ts') \<and> ring_at k k' M (posts i) ring'"
proof -
  obtain r where r: "kyte_uring_prep ring (wait_request ts_addr 1) = Ok (0, Some r)" "staged k k' M [] r"
    using stage_one [OF w] by blast
  obtain n ring' where s: "kyte_uring_submit_and_wait (env_enter E i) (Some r) 1 = (n, ring')" by fastforce
  have "kyte_uring_submit_and_wait_ms (env_enter E i) ts_addr ring ts 1 20 = Ok (n, ring', wait_timespec 20)"
    by (simp add: kyte_uring_submit_and_wait_ms_def Let_def r(1) s)
  then show ?thesis using enter_ring(2) [OF r(2) E refl, of i] s by simp
qed

lemma ready_ring: "ring_at k k' M es ring \<Longrightarrow> kyte_uring_cq_ready ring = int (length es)"
  by (auto simp: ring_at_def kyte_uring_cq_ready_def cq_ready_count cq_items_def)

lemma peek_ring:
  "ring_at k k' M es ring \<Longrightarrow> j < length es \<Longrightarrow>
    kyte_uring_peek ring (int j) = Ok (0, Some (sint (cqe_user_data (es ! j)), cqe_res (es ! j)))"
proof -
  assume a: "ring_at k k' M es ring" "j < length es"
  then obtain r where r: "ring = Some r" "cq_ok k' r" "cq_items k' r = es" by (auto simp: ring_at_def)
  then have "j < cq_count r" using a(2) by (auto simp: cq_items_def)
  then show ?thesis using peek_items [OF r(2)] r by (simp add: kyte_uring_peek_def)
qed

lemma advance_ring: "ring_at k k' M es ring \<Longrightarrow> ring_at k k' M [] (kyte_uring_advance ring (int (length es)))"
proof -
  assume "ring_at k k' M es ring"
  then obtain r where r: "ring = Some r" "sq_ok k r" "pending r = 0" "cq_ok k' r" "cq_items k' r = es" "mapped r = M"
    by (auto simp: ring_at_def)
  then have "length es = cq_count r" by (auto simp: cq_items_def)
  then have "cq_ok k' (uring_advance r (int (length es)))" "cq_items k' (uring_advance r (int (length es))) = []"
    using advance_items [OF r(4), of "length es"] r(5) by simp_all
  moreover have "sq_ok k (uring_advance r n)" "pending (uring_advance r n) = 0" "mapped (uring_advance r n) = M" for n
    using r(2,3,6) by (simp_all add: uring_advance_def sq_ok_def pending_def published_def mapped_def)
  ultimately show ?thesis using r(1) by (simp add: ring_at_def kyte_uring_advance_def)
qed

text \<open>The completion of the loop's own timeout, and of the timer of \<open>h\<close>.\<close>

definition is_tick :: "cqe \<Rightarrow> bool" where
  "is_tick e \<longleftrightarrow> sint (cqe_user_data e) = KYTE_URING_WAIT_TIMEOUT_DATA"

lemma reap_tick:
  "ring_at k k' M es (w_ring w) \<Longrightarrow> j < length es \<Longrightarrow> is_tick (es ! j) \<Longrightarrow> reap_one E i j w = Some (Ok w)"
  by (simp add: reap_one_def peek_ring is_tick_def)

lemma reap_ticks:
  assumes "ring_at k k' M es (w_ring w)" "\<forall>j\<in>set js. j < length es \<and> is_tick (es ! j)"
  shows "dispatch_all (reap_one E i) js w = Some (Ok w)"
  using assms(2) by (induction js) (simp_all add: reap_tick [OF assms(1)] and_then_def)

lemma dispatch_append:
  "dispatch_all f (xs @ ys) w = and_then (dispatch_all f xs w) (dispatch_all f ys)"
  by (induction xs arbitrary: w) (simp_all add: and_then_def split: option.split outcome.split)

section \<open>The drive that never gives up\<close>

lemma ring_turn:
  assumes E: "ring_kernel E k k' posts" and w: "ring_at k k' M [] (w_ring w)" and f: "frames (w_sched w) root = Some False"
    and some: "posts i \<noteq> []"
  shows "\<exists>u ts'. w_sched u = kyte_reactor_batch_begin (w_sched w) \<and> ring_at k k' M (posts i) (w_ring u) \<and> w_res u = w_res w
    \<and> (\<forall>v. dispatch_all (reap_one E i) [0..<length (posts i)] u = Some (Ok v) \<longrightarrow>
        uring_loop E a ts root idle i w
          = uring_loop E a ts' root 0 (i + 1) (v\<lparr>w_ring := kyte_uring_advance (w_ring v) (int (length (posts i)))\<rparr>))"
proof -
  obtain n ring' ts' where t: "kyte_uring_submit_and_wait_ms (env_enter E i) a (w_ring w) ts 1 20 = Ok (n, ring', ts')"
    "ring_at k k' M (posts i) ring'" using wait_turn [OF E w] by blast
  have ready: "kyte_uring_cq_ready ring' = int (length (posts i))" by (rule ready_ring [OF t(2)])
  have "uring_loop E a ts root idle i w
      = uring_loop E a ts' root 0 (i + 1) (v\<lparr>w_ring := kyte_uring_advance (w_ring v) (int (length (posts i)))\<rparr>)"
    if "dispatch_all (reap_one E i) [0..<length (posts i)] (begin_batch (w\<lparr>w_ring := ring'\<rparr>)) = Some (Ok v)" for v
    using that f some by (subst uring_loop.simps) (simp add: raw_coro_done_def t(1) ready)
  then show ?thesis using t(2) by (intro exI [of _ "begin_batch (w\<lparr>w_ring := ring'\<rparr>)"] exI [of _ ts']) (simp add: begin_batch_def)
qed

text \<open>A turn in which only the loop's own timeout completes.\<close>

lemma quiet_turn:
  assumes E: "ring_kernel E k k' posts" and w: "ring_at k k' M [] (w_ring w)" and f: "frames (w_sched w) root = Some False"
    and quiet: "posts i \<noteq> []" "\<forall>e\<in>set (posts i). is_tick e"
  shows "\<exists>v ts'. uring_loop E a ts root idle i w = uring_loop E a ts' root 0 (i + 1) v
    \<and> w_sched v = kyte_reactor_batch_begin (w_sched w) \<and> ring_at k k' M [] (w_ring v) \<and> w_res v = w_res w"
proof -
  obtain u ts' where u: "w_sched u = kyte_reactor_batch_begin (w_sched w)" "ring_at k k' M (posts i) (w_ring u)" "w_res u = w_res w"
    and turn: "\<And>v. dispatch_all (reap_one E i) [0..<length (posts i)] u = Some (Ok v) \<Longrightarrow>
        uring_loop E a ts root idle i w
          = uring_loop E a ts' root 0 (i + 1) (v\<lparr>w_ring := kyte_uring_advance (w_ring v) (int (length (posts i)))\<rparr>)"
    using ring_turn [OF E w f quiet(1)] by blast
  have "dispatch_all (reap_one E i) [0..<length (posts i)] u = Some (Ok u)"
    by (rule reap_ticks [OF u(2)]) (use quiet(2) in simp)
  from turn [OF this] show ?thesis using u advance_ring [OF u(2)]
    by (intro exI [of _ "u\<lparr>w_ring := kyte_uring_advance (w_ring u) (int (length (posts i)))\<rparr>"] exI [of _ ts']) simp
qed

lemma loop_never_returns:
  assumes E: "ring_kernel E k k' posts" and quiet: "\<And>i. posts i \<noteq> [] \<and> (\<forall>e\<in>set (posts i). is_tick e)"
    and w: "ring_at k k' M [] (w_ring w)" "frames (w_sched w) root = Some False"
  shows "uring_loop E a ts root idle i w = None"
proof (rule ccontr)
  define P where "P = (\<lambda>E' (a :: addr) (ts :: timespec) root' (idle :: nat) (i :: nat) (w :: world) (r :: world outcome). E' = E \<longrightarrow> root' = root
      \<longrightarrow> ring_at k k' M [] (w_ring w) \<longrightarrow> frames (w_sched w) root = Some False \<longrightarrow> False)"
  assume "uring_loop E a ts root idle i w \<noteq> None"
  then obtain r where "uring_loop E a ts root idle i w = Some r" by blast
  then have "P E a ts root idle i w r"
  proof (rule uring_loop.raw_induct [where P = P, rotated], goal_cases)
    case (1 loop E' a ts root' idle i w r)
    show ?case
      unfolding P_def
    proof (intro impI)
      assume st: "E' = E" "root' = root" "ring_at k k' M [] (w_ring w)" "frames (w_sched w) root = Some False"
      obtain n ring' ts' where t: "kyte_uring_submit_and_wait_ms (env_enter E i) a (w_ring w) ts 1 20 = Ok (n, ring', ts')"
        "ring_at k k' M (posts i) ring'" using wait_turn [OF E st(3)] by blast
      let ?u = "begin_batch (w\<lparr>w_ring := ring'\<rparr>)" and ?n = "length (posts i)"
      have "dispatch_all (reap_one E i) [0..<?n] ?u = Some (Ok ?u)"
        by (rule reap_ticks [where es = "posts i"]) (use t(2) quiet [of i] in \<open>simp_all add: begin_batch_def\<close>)
      then have "loop E a ts' root 0 (Suc i) (?u\<lparr>w_ring := kyte_uring_advance (w_ring ?u) (int ?n)\<rparr>) = Some r"
        using 1(2) st(4) quiet [of i] unfolding st(1,2) by (simp add: raw_coro_done_def t(1) ready_ring [OF t(2)])
      then have "P E a ts' root 0 (Suc i) (?u\<lparr>w_ring := kyte_uring_advance (w_ring ?u) (int ?n)\<rparr>) r" by (rule 1(1))
      then show False
        using st(4) advance_ring [OF t(2)] by (simp add: P_def begin_batch_def kyte_reactor_batch_begin_def)
    qed
  qed
  then show False using w by (simp add: P_def)
qed

text \<open>
  Property C24 (uring_never_gives_up).  On io_uring a root that waits for something that never comes is
  driven for ever: each 20 ms wait ends with the completion of its own timeout, which counts as ready,
  so the count of idle turns starts again every time and the lost-wake-up report of the other backends
  is never reached.
\<close>

theorem uring_never_gives_up:
  assumes E: "ring_kernel E k k' posts" and quiet: "\<And>i. posts i \<noteq> [] \<and> (\<forall>e\<in>set (posts i). is_tick e)"
    and w: "run_depth w = 0" "root \<noteq> 0" and ring: "kyte_uring_create (env_uring E) 256 (w_res w) = (Some ring, res)"
    and kick: "resume_world E 0 root (started_ring ring (w\<lparr>w_res := res\<rparr>)) = Some (Ok v)"
    and pend: "frames (w_sched v) root = Some False" "ring_at k k' M [] (w_ring v)"
  shows "kyte_run_root E A root w = None"
proof -
  have b: "env_platform E = Linux" "env_backend E = KYTE_BACKEND_URING" using E by (simp_all add: ring_kernel_def)
  show ?thesis
    using w ring b kick loop_never_returns [OF E quiet pend(2,1), of "a_ts_addr A" "a_ts A" 0 1]
    by (simp add: kyte_run_root_def run_root_uring_started and_then_def)
qed

text \<open>A kernel that does what is documented, and the drive of a coroutine that never finishes.\<close>

definition serve :: "(nat \<Rightarrow> cqe list) \<Rightarrow> nat \<Rightarrow> enter" where
  "serve posts i r to_submit m flags =
     (int (unat to_submit),
      fold (\<lambda>e r. case kernel_post e r of None \<Rightarrow> r | Some r \<Rightarrow> r) (if m = 0 then [] else posts i) (r\<lparr>sq_head := sq_tail r\<rparr>))"

lemma fold_post:
  assumes "cq_ok k' r" "sq_ok k r" "length (cq_items k' r) + length es \<le> 2 ^ k'"
  defines "r' \<equiv> fold (\<lambda>e r. case kernel_post e r of None \<Rightarrow> r | Some r \<Rightarrow> r) es r"
  shows "cq_ok k' r' \<and> cq_items k' r' = cq_items k' r @ es \<and> sq_ok k r' \<and> pending r' = pending r \<and> mapped r' = mapped r"
  using assms(1-3) unfolding r'_def
proof (induction es arbitrary: r)
  case (Cons e es)
  have "kernel_post e r \<noteq> None" using cq.push_full [OF Cons.prems(1), of e] Cons.prems(3) by simp
  then obtain q where q: "kernel_post e r = Some q" by blast
  then have "cq_ok k' q" "cq_items k' q = cq_items k' r @ [e]" using post_items [OF Cons.prems(1) q] by simp_all
  moreover have "sq_ok k q" "pending q = pending r" "mapped q = mapped r"
    using q Cons.prems(2) by (auto simp: kernel_post_def sq_ok_def pending_def published_def mapped_def split: if_splits)
  ultimately show ?case using Cons.IH [of q] Cons.prems(3) q by simp
qed simp

lemma serve_kernel:
  assumes "\<And>i. length (posts i) \<le> 2 ^ k'"
    and "env_platform E = Linux" "env_backend E = KYTE_BACKEND_URING" "env_enter E = serve posts"
  shows "ring_kernel E k k' posts"
proof -
  have "took_all k k' r (if m = 0 then [] else posts i) (serve posts i r to m fl)"
    if "sq_ok k r" "cq_ok k' r" "published r = pending r" "m \<noteq> 0 \<longrightarrow> cq_items k' r = []" for i r to m fl
  proof -
    let ?r = "r\<lparr>sq_head := sq_tail r\<rparr>"
    have "sq_tail r - sq_head r = sq_local_tail r - sq_head r"
      using that(3) unfolding published_def pending_def by (simp only: word_unat_eq_iff)
    then have "sq_tail r = sq_local_tail r" by simp
    then have q: "sq_ok k ?r" "pending ?r = 0" using that(1) by (simp_all add: sq_ok_def pending_def published_def)
    have c: "cq_ok k' ?r" "cq_items k' ?r = cq_items k' r" using that(2) by (simp_all add: cq_ok_def cq_items_def cq_count_def)
    have "length (cq_items k' r) \<le> 2 ^ k'" using that(2) by (simp add: cq_ok_def cq_items_def)
    then have "length (cq_items k' ?r) + length (if m = 0 then [] else posts i) \<le> 2 ^ k'"
      using that(4) c(2) assms(1) [of i] by auto
    moreover have "mapped ?r = mapped r" by (simp add: mapped_def)
    ultimately show ?thesis using fold_post [OF c(1) q(1), of "if m = 0 then [] else posts i"] c q
      by (simp add: took_all_def serve_def)
  qed
  note s = this
  show ?thesis using assms(2-4) s [where m = 0] s [where m = 1] by (simp add: ring_kernel_def)
qed

definition tick :: cqe where
  "tick = \<lparr>cqe_user_data = word_of_int KYTE_URING_WAIT_TIMEOUT_DATA, cqe_res = - 62, cqe_flags = 0\<rparr>"

lemma tick_is_tick: "is_tick tick"
  by (simp add: is_tick_def tick_def KYTE_URING_WAIT_TIMEOUT_DATA_def)

definition quiet_env :: env where
  "quiet_env = (demo_env KYTE_BACKEND_URING)\<lparr>env_enter := serve (\<lambda>i. [tick])\<rparr>"

definition drive_ring :: uring where
  "drive_ring = demo_ring\<lparr>ring_fd := 3, sq_ptr := 4096, sq_sz := 72, cq_ptr := 8192, cq_sz := 96, sqe_ptr := 12288, sqe_sz := 128\<rparr>"

definition drive_res :: resources where
  "drive_res = \<lparr>open_fds = {3, 0, 1, 2}, mappings = {(12288, 128), (8192, 96), (4096, 72)}\<rparr>"

lemma drive_create: "kyte_uring_create drive_os 256 (w_res demo_world) = (Some drive_ring, drive_res)"
  by (simp add: kyte_uring_create_def uring_setup_def ring_mmap_def drive_os_def demo_os_def demo_world_def Let_def
      drive_ring_def demo_ring_def drive_res_def sizeof_unsigned_def sizeof_cqe_def sizeof_sqe_def)

lemma drive_ring_at: "ring_at 1 1 (mapped drive_ring) [] (Some drive_ring)"
proof -
  have "sq_ok 1 drive_ring" "cq_ok 1 drive_ring"
    using mask_1 by (simp_all add: sq_ok_def cq_ok_def drive_ring_def demo_ring_def pending_def published_def cq_count_def)
  then show ?thesis by (simp add: ring_at_def cq_items_def) (simp add: drive_ring_def demo_ring_def pending_def cq_count_def)
qed

lemma quiet_resume:
  "resume_world quiet_env 0 1 (started_ring drive_ring (demo_world\<lparr>w_res := drive_res\<rparr>))
     = Some (Ok ((started_ring drive_ring (demo_world\<lparr>w_res := drive_res\<rparr>))\<lparr>
         w_sched := (w_sched (started_ring drive_ring (demo_world\<lparr>w_res := drive_res\<rparr>)))\<lparr>trace := [Resumed 1]\<rparr>\<rparr>))"
  by (simp add: resume_world_def quiet_env_def demo_env_def demo_world_def started_ring_def fresh_drive_def sched_eval idle_body_def
      demo_sched_def sched0_def reactor_pump.simps Let_def)

theorem uring_never_gives_up_witness:
  "kyte_run_root quiet_env quiet_os 1 demo_world = None"
proof (rule uring_never_gives_up [where k = 1 and k' = 1 and posts = "\<lambda>i. [tick]" and ring = drive_ring, OF _ _ _ _ _ quiet_resume])
  show "ring_kernel quiet_env 1 1 (\<lambda>i. [tick])"
    by (rule serve_kernel) (simp_all add: quiet_env_def demo_env_def)
  show "kyte_uring_create (env_uring quiet_env) 256 (w_res demo_world) = (Some drive_ring, drive_res)"
    using drive_create by (simp add: quiet_env_def demo_env_def)
qed (use drive_ring_at tick_is_tick in \<open>simp_all add: started_ring_def demo_world_def fresh_drive_def demo_sched_def\<close>)

section \<open>A chain on the ring\<close>

definition is_timer :: "addr \<Rightarrow> cqe \<Rightarrow> bool" where
  "is_timer h e \<longleftrightarrow> cqe_user_data e = tagged h"

lemma reap_timer:
  assumes r: "ring_at k k' M es (w_ring w)" "j < length es" "is_timer h (es ! j)" and h: "is_handle h" "h \<noteq> 2 ^ 63 - 2"
  shows "reap_one E i j w = resume_world E i h (w\<lparr>w_cells := uring_timer_release h (w_cells w)\<rparr>)"
proof -
  have tag: "tagged h AND KYTE_EPOLL_TIMER_TAG \<noteq> 0" unfolding tag_test by (simp add: tagged_def bit_or_iff bit_tag)
  have un: "untagged (tagged h) = h" using untag_handle [OF h(1)] by (simp add: tagged_def)
  have "h \<noteq> 0" "tagged h \<noteq> 0" using h(1) tag by (auto simp: is_handle_def)
  then show ?thesis
    using tagged_not_wait [OF h] tag un tagged_not_wake [OF h(1)] peek_ring [OF r(1,2)] r(3)
    by (simp add: reap_one_def is_timer_def Let_def uring_dispatch_def)
qed

text \<open>
  What the kernel posts: never nothing, at most one completion of the timer of \<open>h\<close> at a time among the
  loop's own timeouts, and the timer again and again, after however long.
\<close>

definition timer_turn :: "addr \<Rightarrow> cqe list \<Rightarrow> bool" where
  "timer_turn h es \<longleftrightarrow> (\<exists>xs e ys. es = xs @ e # ys \<and> is_timer h e \<and> (\<forall>x\<in>set (xs @ ys). is_tick x))"

definition quiet_list :: "cqe list \<Rightarrow> bool" where
  "quiet_list es \<longleftrightarrow> es \<noteq> [] \<and> (\<forall>e\<in>set es. is_tick e)"

definition rings_timer :: "addr \<Rightarrow> (nat \<Rightarrow> cqe list) \<Rightarrow> bool" where
  "rings_timer h posts \<longleftrightarrow> (\<forall>i. quiet_list (posts i) \<or> timer_turn h (posts i)) \<and> (\<forall>i. \<exists>j. timer_turn h (posts (i + j)))"

lemma reap_timer_turn:
  assumes t: "timer_turn h es" and r: "ring_at k k' M es (w_ring w)" and h: "is_handle h" "h \<noteq> 2 ^ 63 - 2"
    and v: "resume_world E i h (w\<lparr>w_cells := uring_timer_release h (w_cells w)\<rparr>) = Some (Ok v)" "ring_at k k' M es (w_ring v)"
  shows "dispatch_all (reap_one E i) [0..<length es] w = Some (Ok v)"
proof -
  obtain xs e ys where es: "es = xs @ e # ys" "is_timer h e" "\<forall>x\<in>set (xs @ ys). is_tick x" using t by (auto simp: timer_turn_def)
  have "[0..<length es] = [0..<length xs] @ length xs # [Suc (length xs)..<length es]"
    using upt_add_eq_append [of 0 "length xs" "Suc (length ys)"] upt_conv_Cons [of "length xs" "length es"] by (simp add: es(1))
  moreover have "dispatch_all (reap_one E i) [0..<length xs] w = Some (Ok w)"
    by (rule reap_ticks [OF r]) (use es in \<open>auto simp: nth_append\<close>)
  moreover have "reap_one E i (length xs) w = Some (Ok v)" using reap_timer [OF r _ _ h, of "length xs"] v(1) es(1,2) by simp
  moreover have "dispatch_all (reap_one E i) [Suc (length xs)..<length es] v = Some (Ok v)"
    by (rule reap_ticks [OF v(2)]) (use es in \<open>auto simp: nth_append nth_Cons' Suc_le_eq\<close>)
  ultimately show ?thesis by (simp add: dispatch_append and_then_def)
qed

lemma asleep_begin: "asleep ds t0 h ps n (w_sched (w :: world)) \<Longrightarrow> asleep ds t0 h ps n (kyte_reactor_batch_begin (w_sched w))"
  using asleep_batch [of ds t0 h ps n w] by (simp add: begin_batch_def)

text \<open>Destruction reads only what the kernel does not touch.\<close>

lemma destroy_mapped: "mapped r = mapped r' \<Longrightarrow> kyte_uring_destroy (Some r) s = kyte_uring_destroy (Some r') s"
  by (simp add: mapped_def kyte_uring_destroy_def)

lemma sleeping_turn:
  assumes E: "ring_kernel E k k' posts" "env_body E = chain (rev ps @ [h]) ds" and h: "is_handle h" "h \<noteq> 2 ^ 63 - 2"
    and w: "ring_at k k' M [] (w_ring w)" "asleep ds t0 h ps n (w_sched w)" and t: "timer_turn h (posts i)"
  shows "\<exists>v ts'. uring_loop E a ts (last (h # ps)) idle i w = uring_loop E a ts' (last (h # ps)) 0 (i + 1) v
    \<and> ring_at k k' M [] (w_ring v) \<and> w_res v = w_res w
    \<and> (if n < length ds then asleep ds t0 h ps (Suc n) (w_sched v) else finished ds t0 h ps (w_sched v))"
proof -
  have some: "posts i \<noteq> []" using t by (auto simp: timer_turn_def)
  obtain u ts' where u: "w_sched u = kyte_reactor_batch_begin (w_sched w)" "ring_at k k' M (posts i) (w_ring u)" "w_res u = w_res w"
    and turn: "\<And>v. dispatch_all (reap_one E i) [0..<length (posts i)] u = Some (Ok v) \<Longrightarrow>
        uring_loop E a ts (last (h # ps)) idle i w
          = uring_loop E a ts' (last (h # ps)) 0 (i + 1) (v\<lparr>w_ring := kyte_uring_advance (w_ring v) (int (length (posts i)))\<rparr>)"
    using ring_turn [OF E(1) w(1) asleep_facts(5) [OF w(2)] some] by blast
  let ?u = "u\<lparr>w_cells := uring_timer_release h (w_cells u)\<rparr>"
  have inv: "ring_world E k k' posts M (w_res w) (posts i) ?u" using E(1) u(2,3) by (simp add: ring_world_def)
  have asleep: "asleep ds t0 h ps n (w_sched ?u)" using asleep_begin [OF w(2)] u(1) by simp
  have "\<exists>v. resume_world E i h ?u = Some (Ok v) \<and> ring_at k k' M (posts i) (w_ring v) \<and> w_res v = w_res w
    \<and> (if n < length ds then asleep ds t0 h ps (Suc n) (w_sched v) else finished ds t0 h ps (w_sched v))"
  proof (cases "n < length ds")
    case True
    then show ?thesis using ring.nap [OF inv asleep True E(2), of i] by (auto simp: ring_world_def)
  next
    case False
    then have "n = length ds" using w(2) by (simp add: asleep_def)
    then show ?thesis using ring.finish [OF inv _ E(2), of t0 i] asleep False by (auto simp: ring_world_def)
  qed
  then obtain v where v: "resume_world E i h ?u = Some (Ok v)" "ring_at k k' M (posts i) (w_ring v)" "w_res v = w_res w"
    "if n < length ds then asleep ds t0 h ps (Suc n) (w_sched v) else finished ds t0 h ps (w_sched v)" by blast
  from turn [OF reap_timer_turn [OF t u(2) h v(1,2)]] show ?thesis
    using v(3,4) advance_ring [OF v(2)]
    by (intro exI [of _ "v\<lparr>w_ring := kyte_uring_advance (w_ring v) (int (length (posts i)))\<rparr>"] exI [of _ ts']) simp
qed

text \<open>Quiet turns up to the next report of the timer.\<close>

lemma wait_for_timer:
  assumes E: "ring_kernel E k k' posts" and p: "\<And>i. quiet_list (posts i) \<or> timer_turn h (posts i)"
    and w: "ring_at k k' M [] (w_ring w)" "asleep ds t0 h ps n (w_sched w)" and t: "timer_turn h (posts (i + j))"
  shows "\<exists>v ts' idle' i'. uring_loop E a ts (last (h # ps)) idle i w = uring_loop E a ts' (last (h # ps)) idle' i' v
    \<and> ring_at k k' M [] (w_ring v) \<and> w_res v = w_res w \<and> asleep ds t0 h ps n (w_sched v) \<and> timer_turn h (posts i')"
  using w t
proof (induction j arbitrary: i w ts idle)
  case 0
  then show ?case by auto
next
  case (Suc j)
  show ?case
  proof (cases "timer_turn h (posts i)")
    case True
    then show ?thesis using Suc.prems(1,2) by blast
  next
    case False
    then have q: "posts i \<noteq> []" "\<forall>e\<in>set (posts i). is_tick e" using p [of i] by (simp_all add: quiet_list_def)
    obtain v ts' where v: "uring_loop E a ts (last (h # ps)) idle i w = uring_loop E a ts' (last (h # ps)) 0 (i + 1) v"
      "w_sched v = kyte_reactor_batch_begin (w_sched w)" "ring_at k k' M [] (w_ring v)" "w_res v = w_res w"
      using quiet_turn [OF E Suc.prems(1) asleep_facts(5) [OF Suc.prems(2)] q] by blast
    have "asleep ds t0 h ps n (w_sched v)" using asleep_begin [OF Suc.prems(2)] v(2) by simp
    moreover have "timer_turn h (posts (i + 1 + j))" using Suc.prems(3) by simp
    ultimately show ?thesis using Suc.IH [OF v(3)] v(1,4) by metis
  qed
qed

lemma ring_sleeps:
  assumes E: "ring_kernel E k k' posts" "env_body E = chain (rev ps @ [h]) ds" and h: "is_handle h" "h \<noteq> 2 ^ 63 - 2"
    and p: "rings_timer h posts" and w: "ring_at k k' M [] (w_ring w)" "asleep ds t0 h ps n (w_sched w)"
  shows "\<exists>v. uring_loop E a ts (last (h # ps)) idle i w = Some (Ok v) \<and> finished ds t0 h ps (w_sched v)
    \<and> ring_at k k' M [] (w_ring v) \<and> w_res v = w_res w"
  using w
proof (induction "length ds - n" arbitrary: n i w ts idle)
  case less: 0
  obtain j where "timer_turn h (posts (i + j))" using p by (auto simp: rings_timer_def)
  then obtain w1 ts1 idle1 i1 where a: "uring_loop E a ts (last (h # ps)) idle i w = uring_loop E a ts1 (last (h # ps)) idle1 i1 w1"
    "ring_at k k' M [] (w_ring w1)" "asleep ds t0 h ps n (w_sched w1)" "timer_turn h (posts i1)" "w_res w1 = w_res w"
    using wait_for_timer [OF E(1) _ less(2,3)] p unfolding rings_timer_def by blast
  obtain v ts2 where "uring_loop E a ts1 (last (h # ps)) idle1 i1 w1 = uring_loop E a ts2 (last (h # ps)) 0 (i1 + 1) v"
    "finished ds t0 h ps (w_sched v)" "ring_at k k' M [] (w_ring v)" "w_res v = w_res w1"
    using sleeping_turn [OF E h a(2-4), where ts = ts1 and idle = idle1 and a = a] less(1) by auto
  moreover have "uring_loop E a ts2 (last (h # ps)) 0 (i1 + 1) v = Some (Ok v)"
    using \<open>finished ds t0 h ps (w_sched v)\<close> unfolding finished_def by (subst uring_loop.simps) (simp add: raw_coro_done_def)
  ultimately show ?case using a(1,5) by auto
next
  case (Suc m)
  obtain j where "timer_turn h (posts (i + j))" using p by (auto simp: rings_timer_def)
  then obtain w1 ts1 idle1 i1 where a: "uring_loop E a ts (last (h # ps)) idle i w = uring_loop E a ts1 (last (h # ps)) idle1 i1 w1"
    "ring_at k k' M [] (w_ring w1)" "asleep ds t0 h ps n (w_sched w1)" "timer_turn h (posts i1)" "w_res w1 = w_res w"
    using wait_for_timer [OF E(1) _ Suc(3,4)] p unfolding rings_timer_def by blast
  obtain v ts2 where v: "uring_loop E a ts1 (last (h # ps)) idle1 i1 w1 = uring_loop E a ts2 (last (h # ps)) 0 (i1 + 1) v"
    "ring_at k k' M [] (w_ring v)" "asleep ds t0 h ps (Suc n) (w_sched v)" "w_res v = w_res w1"
    using sleeping_turn [OF E h a(2-4), where ts = ts1 and idle = idle1 and a = a] Suc(2) by auto
  show ?case using Suc(1) [of "Suc n" v] v Suc(2) a(1,5) by auto
qed

text \<open>
  Property C23 (uring_chain_returns).  On io_uring the chain of awaiting coroutines is driven to its end
  whenever the kernel reports the timer again and again, after however many quiet waits: the drive
  returns with the root finished, every other frame freed, the ring of the caller back in place, the
  descriptor and the mappings of its own ring given back, and the same trace as on the other backends.
\<close>

theorem uring_chain_returns:
  assumes E: "ring_kernel E k k' posts" "env_body E = chain hs ds"
    and hs: "hs \<noteq> []" "distinct hs" "\<forall>h\<in>set hs. is_handle h \<and> h \<noteq> 2 ^ 63 - 2"
    and w: "run_depth w = 0" "fresh_chain hs (w_sched w)" and ring: "kyte_uring_create (env_uring E) 256 (w_res w) = (Some ring, res)" "ring_at k k' M [] (Some ring)" "fresh_os (env_uring E)"
    and time: "rings_timer (last hs) posts"
  shows "\<exists>v. kyte_run_root E A (hd hs) w = Some (Ok v) \<and> w_ring v = w_ring w \<and> w_res v = w_res w
    \<and> frames (w_sched v) (hd hs) = Some True \<and> (\<forall>c\<in>set (tl hs). frames (w_sched v) c = None)
    \<and> trace (w_sched v) = trace (w_sched w) @ map Resumed (butlast hs)
        @ concat (map (\<lambda>d. [Resumed (last hs), Armed (last hs) d]) ds) @ Resumed (last hs) # climbs (rev hs)"
proof -
  obtain root cs where rc: "hs = root # cs" using hs(1) by (cases hs) auto
  define h ps where "h = last hs" and "ps = rev (butlast hs)"
  have hp: "rev ps @ [h] = hs" "last (h # ps) = root" "0 \<notin> set hs" "is_handle h" "h \<noteq> 2 ^ 63 - 2" "root \<noteq> 0"
    using hs by (auto simp: h_def ps_def rc is_handle_def last_rev)
  let ?t = "trace (w_sched w)" and ?w = "started_ring ring (w\<lparr>w_res := res\<rparr>)"
  have d: "descending ?t root [] cs (w_sched ?w)"
    using fresh_descending(2) [of root cs "w\<lparr>w_res := res\<rparr>" ring] w(2) hs(2) hp(3) by (simp add: rc)
  have "w_ring ?w = Some ring" "w_res ?w = res" by (simp_all add: started_ring_def fresh_drive_def)
  then have inv: "ring_world E k k' posts M res [] ?w" using E(1) ring(2) by (simp add: ring_world_def)
  from ring.first [OF inv d E(2) [unfolded rc], of 0] obtain u where u: "resume_world E 0 root ?w = Some (Ok u)"
    "asleep ds ?t h ps 1 (w_sched u) \<or> finished ds ?t h ps (w_sched u)" "ring_at k k' M [] (w_ring u)" "w_res u = res"
    unfolding h_def ps_def rc ring_world_def by blast
  have "\<exists>v. uring_loop E (a_ts_addr A) (a_ts A) root 0 1 u = Some (Ok v) \<and> finished ds ?t h ps (w_sched v)
      \<and> ring_at k k' M [] (w_ring v) \<and> w_res v = w_res u"
    using u(2)
  proof
    assume "asleep ds ?t h ps 1 (w_sched u)"
    then show ?thesis
      using ring_sleeps [OF E(1) E(2) [folded hp(1)] hp(4,5) time [folded h_def] u(3)] unfolding hp(2) by blast
  next
    assume fin: "finished ds ?t h ps (w_sched u)"
    then have "frames (w_sched u) root = Some True" unfolding finished_def hp(2) by blast
    then have "uring_loop E (a_ts_addr A) (a_ts A) root 0 1 u = Some (Ok u)"
      by (subst uring_loop.simps) (simp add: raw_coro_done_def)
    then show ?thesis using fin u(3) by blast
  qed
  then obtain v where v: "uring_loop E (a_ts_addr A) (a_ts A) root 0 1 u = Some (Ok v)" "finished ds ?t h ps (w_sched v)"
    "ring_at k k' M [] (w_ring v)" "w_res v = w_res u" by blast
  let ?v = "leave_reactor (v\<lparr>w_ring := w_ring w, w_res := kyte_uring_destroy (w_ring v) (w_res v)\<rparr>)"
  have "kyte_uring_destroy (w_ring v) res = kyte_uring_destroy (Some ring) res"
    using v(3) ring(2) by (auto simp: ring_at_def intro!: destroy_mapped)
  then have "w_res ?v = w_res w"
    using create_clean [OF ring(3), of "w_res w" 256] ring(1) v(4) u(4) by (simp add: clean_def leave_reactor_def)
  moreover have "frames (w_sched v) root = Some True" using v(2) unfolding finished_def hp(2) by blast
  then have "kyte_run_root E A root w = Some (Ok ?v)"
    using u(1) v(1) w(1) hp(6) ring(1) E(1)
    by (simp add: kyte_run_root_def ring_kernel_def run_root_uring_started and_then_def check_root_def leave_reactor_def raw_coro_done_def)
  moreover have "finished ds ?t h ps (w_sched ?v)" "w_ring ?v = w_ring w"
    using v(2) by (simp_all add: finished_def leave_reactor_def)
  ultimately show ?thesis
    unfolding h_def ps_def finished_chain [OF hs(1)] naps_def by (simp only: rc list.sel) blast
qed

text \<open>The chain of three coroutines on a ring of two entries whose counters are about to wrap.\<close>

definition ring_posts :: "nat \<Rightarrow> cqe list" where
  "ring_posts i = (if i mod 3 = 2 then [\<lparr>cqe_user_data = tagged 12288, cqe_res = - 62, cqe_flags = 0\<rparr>, tick] else [tick])"

definition ring_chain_env :: env where
  "ring_chain_env = (demo_env KYTE_BACKEND_URING)\<lparr>env_body := chain [4096, 8192, 12288] [5, 20], env_enter := serve ring_posts\<rparr>"

lemma ring_posts_rings: "rings_timer 12288 ring_posts"
  unfolding rings_timer_def
proof (intro conjI allI)
  fix i
  have timer: "timer_turn 12288 (ring_posts i)" if "i mod 3 = 2" for i
    unfolding timer_turn_def using that tick_is_tick
    by (intro exI [of _ "[]"] exI [of _ "\<lparr>cqe_user_data = tagged 12288, cqe_res = - 62, cqe_flags = 0\<rparr>"] exI [of _ "[tick]"])
      (simp add: ring_posts_def is_timer_def)
  show "quiet_list (ring_posts i) \<or> timer_turn 12288 (ring_posts i)"
    using timer [of i] tick_is_tick by (cases "i mod 3 = 2") (simp_all add: quiet_list_def ring_posts_def)
  have "(i + (2 - i mod 3)) mod 3 = 2" using mod_add_left_eq [of i 3 "2 - i mod 3"] by simp
  then show "\<exists>j. timer_turn 12288 (ring_posts (i + j))" using timer by blast
qed

theorem uring_chain_returns_witness:
  "\<exists>v. kyte_run_root ring_chain_env quiet_os 4096 chain_world = Some (Ok v) \<and> w_res v = w_res chain_world
     \<and> frames (w_sched v) 4096 = Some True \<and> frames (w_sched v) 8192 = None \<and> frames (w_sched v) 12288 = None
     \<and> trace (w_sched v) = [Resumed 4096, Resumed 8192, Resumed 12288, Armed 12288 5, Resumed 12288, Armed 12288 20,
         Resumed 12288, Resumed 8192, Destroyed 12288, Resumed 4096, Destroyed 8192]"
proof -
  have "ring_kernel ring_chain_env 1 1 ring_posts"
    by (rule serve_kernel) (simp_all add: ring_chain_env_def demo_env_def ring_posts_def)
  moreover have "rings_timer (last [4096, 8192, 12288]) ring_posts" using ring_posts_rings by simp
  moreover have "env_body ring_chain_env = chain [4096, 8192, 12288] [5, 20]" "run_depth chain_world = 0"
    "\<forall>h\<in>set [4096, 8192, 12288]. is_handle h \<and> h \<noteq> 2 ^ 63 - 2" "fresh_chain [4096, 8192, 12288] (w_sched chain_world)"
    "trace (w_sched chain_world) = []"
    by (simp_all add: ring_chain_env_def is_handle_def chain_world_def demo_world_def fresh_chain_def sched0_def)
  moreover have "kyte_uring_create (env_uring ring_chain_env) 256 (w_res chain_world) = (Some drive_ring, drive_res)"
    "fresh_os (env_uring ring_chain_env)"
    using drive_create drive_os_fresh by (simp_all add: ring_chain_env_def chain_world_def demo_env_def)
  ultimately show ?thesis
    using uring_chain_returns [of ring_chain_env 1 1 ring_posts "[4096, 8192, 12288]" "[5, 20]" chain_world drive_ring drive_res
        "mapped drive_ring" quiet_os] drive_ring_at by auto
qed

end
