(* ===== verification/Kyte_Process.thy ===== *)
theory Kyte_Process
  imports Kyte_Memory
begin

text \<open>
  Child processes, \<^verbatim>\<open>src/runtime/io.cpp\<close>: the two pipes, the fork, the argument and
  environment lists, the Linux sandbox of \<^verbatim>\<open>kyte_process_spawn_isolated\<close>, and the handle the
  parent keeps.  A process is its descriptor table; \<^verbatim>\<open>pipe\<close>, \<^verbatim>\<open>fork\<close>,
  \<^verbatim>\<open>waitpid\<close> and the other system calls are parameters.  A string of the language is its
  bytes, NULL is None, and memory for the C copies is available; the copies are counted.
\<close>

section \<open>Descriptors and pipes\<close>

text \<open>An open file: an end of the \<open>n\<close>-th pipe, or a file that was open before.\<close>

datatype open_file = PipeR nat | PipeW nat | Inherited nat

type_synonym fdtab = "int \<Rightarrow> open_file option"

record os =
  fds :: fdtab
  pipes :: nat
  copies :: int
  stacks :: "addr set"

definition close_fd :: "int \<Rightarrow> fdtab \<Rightarrow> fdtab" where
  "close_fd fd T = T(fd := None)"

definition dup2 :: "int \<Rightarrow> int \<Rightarrow> fdtab \<Rightarrow> fdtab" where
  "dup2 old new T = (case T old of None \<Rightarrow> T | Some f \<Rightarrow> T(new := Some f))"

definition os_close :: "int \<Rightarrow> os \<Rightarrow> os" where
  "os_close fd K = K\<lparr>fds := close_fd fd (fds K)\<rparr>"

text \<open>\<open>alloc T\<close> are the two descriptors \<^verbatim>\<open>pipe\<close> picks, None when it fails.\<close>

type_synonym pipe_alloc = "fdtab \<Rightarrow> (int \<times> int) option"

definition open_pipe :: "pipe_alloc \<Rightarrow> os \<Rightarrow> (int \<times> int) option \<times> os" where
  "open_pipe alloc K =
     (case alloc (fds K) of
        None \<Rightarrow> (None, K)
      | Some (r, w) \<Rightarrow>
          (Some (r, w), K\<lparr>fds := (fds K)(r := Some (PipeR (pipes K)), w := Some (PipeW (pipes K))), pipes := pipes K + 1\<rparr>))"

definition two_pipes :: "pipe_alloc \<Rightarrow> os \<Rightarrow> ((int \<times> int) \<times> (int \<times> int)) option \<times> os" where
  "two_pipes alloc K =
     (case open_pipe alloc K of
        (None, K) \<Rightarrow> (None, K)
      | (Some i, K) \<Rightarrow>
          (case open_pipe alloc K of
             (None, K) \<Rightarrow> (None, os_close (snd i) (os_close (fst i) K))
           | (Some out, K) \<Rightarrow> (Some (i, out), K)))"

definition close_all :: "(int \<times> int) \<Rightarrow> (int \<times> int) \<Rightarrow> os \<Rightarrow> os" where
  "close_all i out K = os_close (snd out) (os_close (fst out) (os_close (snd i) (os_close (fst i) K)))"

text \<open>The C copy of a string: its bytes up to the first NUL.\<close>

definition cstr :: "bytes option \<Rightarrow> bytes option" where
  "cstr s = map_option (takeWhile (\<lambda>b. b \<noteq> 0)) s"

definition take_cstr :: "bytes option \<Rightarrow> os \<Rightarrow> os" where
  "take_cstr s K = (if s = None then K else K\<lparr>copies := copies K + 1\<rparr>)"

definition free_cstr :: "bytes option \<Rightarrow> os \<Rightarrow> os" where
  "free_cstr s K = (if s = None then K else K\<lparr>copies := copies K - 1\<rparr>)"

section \<open>Arguments and environment\<close>

definition NL :: u8 where "NL = 10"
definition EQ :: u8 where "EQ = 61"

text \<open>The loop over the argument string: \<open>cur\<close> is the piece being read.\<close>

fun split_args :: "bytes \<Rightarrow> bytes \<Rightarrow> bytes list" where
  "split_args cur [] = [cur]"
| "split_args cur (b # s) = (if b = NL then cur # split_args [] s else split_args (cur @ [b]) s)"

definition kyte_build_argv :: "bytes option \<Rightarrow> bytes option \<Rightarrow> bytes list" where
  "kyte_build_argv cmd args_str =
     (case cmd of None \<Rightarrow> [] | Some c \<Rightarrow> c)
       # (case args_str of None \<Rightarrow> [] | Some s \<Rightarrow> if s = [] then [] else split_args [] s)"

text \<open>One line of the environment string: a key and a value around the first equals sign.\<close>

definition env_entry :: "bytes \<Rightarrow> (bytes \<times> bytes) list" where
  "env_entry cur = (if EQ \<in> set cur then [(takeWhile (\<lambda>b. b \<noteq> EQ) cur, tl (dropWhile (\<lambda>b. b \<noteq> EQ) cur))] else [])"

fun parse_env :: "bytes \<Rightarrow> bytes \<Rightarrow> (bytes \<times> bytes) list" where
  "parse_env cur [] = env_entry cur"
| "parse_env cur (b # s) = (if b = NL then env_entry cur @ parse_env [] s else parse_env (cur @ [b]) s)"

definition env_entries :: "bytes option \<Rightarrow> (bytes \<times> bytes) list" where
  "env_entries env = (case env of None \<Rightarrow> [] | Some s \<Rightarrow> if s = [] then [] else parse_env [] s)"

type_synonym environ = "bytes \<Rightarrow> bytes option"

text \<open>\<^verbatim>\<open>setenv(key, value, 1)\<close>; an empty key is refused.\<close>

definition setenv :: "bytes \<Rightarrow> bytes \<Rightarrow> environ \<Rightarrow> environ" where
  "setenv k v e = (if k = [] then e else e(k \<mapsto> v))"

fun set_all :: "(bytes \<times> bytes) list \<Rightarrow> environ \<Rightarrow> environ" where
  "set_all [] e = e"
| "set_all ((k, v) # kvs) e = set_all kvs (setenv k v e)"

section \<open>Capabilities, namespaces, seccomp\<close>

record caps =
  bounding :: "nat set"
  effective :: "nat set"
  permitted :: "nat set"
  inheritable :: "nat set"

definition CAP_SETPCAP :: nat where "CAP_SETPCAP = 8"
definition CAP_SYS_ADMIN :: nat where "CAP_SYS_ADMIN = 21"

text \<open>\<^verbatim>\<open>prctl(PR_CAPBSET_DROP)\<close> needs CAP_SETPCAP; giving capabilities up needs nothing.\<close>

definition prctl_capbset_drop :: "nat \<Rightarrow> caps \<Rightarrow> caps" where
  "prctl_capbset_drop cap C = (if CAP_SETPCAP \<in> effective C then C\<lparr>bounding := bounding C - {cap}\<rparr> else C)"

definition iso_drop_caps :: "caps \<Rightarrow> caps" where
  "iso_drop_caps C = (fold prctl_capbset_drop [0..<64] C)\<lparr>effective := {}, permitted := {}, inheritable := {}\<rparr>"

text \<open>The classic BPF instructions the filter uses, and their machine; jumps are relative and forward.\<close>

datatype bpf = LD_NR | JEQ u32 nat nat | RET u32

function (sequential) bpf_run :: "bpf list \<Rightarrow> u32 \<Rightarrow> u32 \<Rightarrow> u32 option" where
  "bpf_run [] nr acc = None"
| "bpf_run (LD_NR # p) nr acc = bpf_run p nr nr"
| "bpf_run (JEQ k jt jf # p) nr acc = bpf_run (drop (if acc = k then jt else jf) p) nr acc"
| "bpf_run (RET v # p) nr acc = Some v"
  by pat_completeness auto
termination by (relation "measure (\<lambda>(p, _, _). length p)") auto

definition SECCOMP_RET_ALLOW :: u32 where "SECCOMP_RET_ALLOW = 0x7fff0000"
definition RET_EPERM :: u32 where "RET_EPERM = 0x00050001"

text \<open>
  What the build and the kernel decide: whether the headers define \<^verbatim>\<open>SECCOMP_SET_MODE_FILTER\<close> and
  \<^verbatim>\<open>AUDIT_ARCH_X86_64\<close> (\<^verbatim>\<open>linux/audit.h\<close> defines the latter on every architecture, so the guard
  does not select x86-64), whether the kernel has seccomp filters, its last capability, and the native
  numbers of the five system calls.
\<close>

record platform =
  pf_macros :: bool
  pf_seccomp :: bool
  pf_last_cap :: nat
  SYS_unshare :: u32
  SYS_setns :: u32
  SYS_mount :: u32
  SYS_pivot_root :: u32
  SYS_ptrace :: u32

definition linux_x86_64 :: platform where
  "linux_x86_64 = \<lparr>pf_macros = True, pf_seccomp = True, pf_last_cap = 40, SYS_unshare = 272, SYS_setns = 308,
     SYS_mount = 165, SYS_pivot_root = 155, SYS_ptrace = 101\<rparr>"

definition linux_aarch64 :: platform where
  "linux_aarch64 = \<lparr>pf_macros = True, pf_seccomp = True, pf_last_cap = 40, SYS_unshare = 97, SYS_setns = 268,
     SYS_mount = 40, SYS_pivot_root = 41, SYS_ptrace = 117\<rparr>"

definition deny :: "u32 \<Rightarrow> bpf list" where
  "deny nr = [JEQ nr 0 1, RET RET_EPERM]"

definition iso_filter :: "platform \<Rightarrow> bpf list" where
  "iso_filter pf = LD_NR # deny (SYS_unshare pf) @ deny (SYS_setns pf) @ deny (SYS_mount pf) @ deny (SYS_pivot_root pf)
     @ deny (SYS_ptrace pf) @ [RET SECCOMP_RET_ALLOW]"

text \<open>
  Installing the filter.  The kernel refuses it unless the thread has no-new-privileges or
  CAP_SYS_ADMIN in its user namespace.
\<close>

definition iso_install_seccomp :: "platform \<Rightarrow> bool \<Rightarrow> caps \<Rightarrow> int \<times> bpf list option" where
  "iso_install_seccomp pf nnp C =
     (if \<not> pf_macros pf then (- 1, None)
      else if pf_seccomp pf \<and> (nnp \<or> CAP_SYS_ADMIN \<in> effective C) then (0, Some (iso_filter pf))
      else (- 1, None))"

text \<open>
  The capabilities of a cloned child: those of its parent, or every capability, none of them
  inheritable, in a new user namespace.
\<close>

definition cloned_caps :: "platform \<Rightarrow> bool \<Rightarrow> caps \<Rightarrow> caps" where
  "cloned_caps pf newuser C =
     (if newuser then \<lparr>bounding = {..pf_last_cap pf}, effective = {..pf_last_cap pf}, permitted = {..pf_last_cap pf},
        inheritable = {}\<rparr>
      else C)"

definition KYTE_NS_PID :: u64 where "KYTE_NS_PID = 1"
definition KYTE_NS_MOUNT :: u64 where "KYTE_NS_MOUNT = 2"
definition KYTE_NS_UTS :: u64 where "KYTE_NS_UTS = 4"
definition KYTE_NS_IPC :: u64 where "KYTE_NS_IPC = 8"
definition KYTE_NS_NET :: u64 where "KYTE_NS_NET = 16"
definition KYTE_NS_USER :: u64 where "KYTE_NS_USER = 32"

definition SIGCHLD :: u32 where "SIGCHLD = 17"
definition CLONE_NEWPID :: u32 where "CLONE_NEWPID = 0x20000000"
definition CLONE_NEWNS :: u32 where "CLONE_NEWNS = 0x00020000"
definition CLONE_NEWUTS :: u32 where "CLONE_NEWUTS = 0x04000000"
definition CLONE_NEWIPC :: u32 where "CLONE_NEWIPC = 0x08000000"
definition CLONE_NEWNET :: u32 where "CLONE_NEWNET = 0x40000000"
definition CLONE_NEWUSER :: u32 where "CLONE_NEWUSER = 0x10000000"

definition wants :: "u64 \<Rightarrow> u64 \<Rightarrow> bool" where
  "wants ns_flags b \<longleftrightarrow> ns_flags AND b \<noteq> 0"

definition clone_flags :: "u64 \<Rightarrow> u32" where
  "clone_flags ns_flags =
     (let f = SIGCHLD;
          f = (if wants ns_flags KYTE_NS_PID then f OR CLONE_NEWPID else f);
          f = (if wants ns_flags KYTE_NS_MOUNT then f OR CLONE_NEWNS else f);
          f = (if wants ns_flags KYTE_NS_UTS then f OR CLONE_NEWUTS else f);
          f = (if wants ns_flags KYTE_NS_IPC then f OR CLONE_NEWIPC else f);
          f = (if wants ns_flags KYTE_NS_NET then f OR CLONE_NEWNET else f);
          f = (if wants ns_flags KYTE_NS_USER then f OR CLONE_NEWUSER else f) in f)"

section \<open>What the child does\<close>

text \<open>The calls of the child that name and mount; \<open>fs c\<close> tells whether call \<open>c\<close> succeeds.\<close>

datatype fs_call = MountPrivate | MountBind bytes | Chdir bytes | MkdirOld | PivotRoot | ChdirRoot | UmountOld
  | RmdirOld | MountProc | Sethostname bytes

type_synonym fs = "fs_call \<Rightarrow> bool"

definition iso_setup_rootfs :: "fs \<Rightarrow> bytes \<Rightarrow> int \<times> fs_call list" where
  "iso_setup_rootfs fs rootfs =
     (if \<not> fs MountPrivate then (- 1, [MountPrivate])
      else if \<not> fs (MountBind rootfs) then (- 1, [MountPrivate, MountBind rootfs])
      else if \<not> fs (Chdir rootfs) then (- 1, [MountPrivate, MountBind rootfs, Chdir rootfs])
      else if \<not> fs PivotRoot then (- 1, [MountPrivate, MountBind rootfs, Chdir rootfs, MkdirOld, PivotRoot])
      else if \<not> fs ChdirRoot then (- 1, [MountPrivate, MountBind rootfs, Chdir rootfs, MkdirOld, PivotRoot, ChdirRoot])
      else (0, [MountPrivate, MountBind rootfs, Chdir rootfs, MkdirOld, PivotRoot, ChdirRoot, UmountOld, RmdirOld]))"

text \<open>The state in which the child calls \<^verbatim>\<open>execvp\<close>.\<close>

record sandbox =
  sb_fds :: fdtab
  sb_env :: environ
  sb_cwd :: "bytes option"
  sb_hostname :: "bytes option"
  sb_calls :: "fs_call list"
  sb_no_new_privs :: bool
  sb_caps :: caps
  sb_filter :: "bpf list option"

datatype child = Exec "bytes list" sandbox | Exit int

record parent =
  pa_env :: environ
  pa_caps :: caps
  pa_no_new_privs :: bool

definition fresh_sandbox :: "parent \<Rightarrow> fdtab \<Rightarrow> sandbox" where
  "fresh_sandbox P T = \<lparr>sb_fds = T, sb_env = pa_env P, sb_cwd = None, sb_hostname = None, sb_calls = [],
     sb_no_new_privs = pa_no_new_privs P, sb_caps = pa_caps P, sb_filter = None\<rparr>"

definition child_fds :: "(int \<times> int) \<Rightarrow> (int \<times> int) \<Rightarrow> fdtab \<Rightarrow> fdtab" where
  "child_fds i out T =
     (let T = dup2 (fst i) 0 T;
          T = dup2 (snd out) 1 T in
      close_fd (snd out) (close_fd (fst out) (close_fd (snd i) (close_fd (fst i) T))))"

record iso_child_args =
  ic_argv :: "bytes list"
  ic_in_fd :: int
  ic_out_fd :: int
  ic_ns_flags :: u64
  ic_rootfs :: bytes
  ic_hostname :: bytes
  ic_drop_caps :: bool
  ic_no_new_privs :: bool
  ic_seccomp_deny :: bool

definition iso_mounts :: "fs \<Rightarrow> iso_child_args \<Rightarrow> int \<times> fs_call list" where
  "iso_mounts fs a =
     (if wants (ic_ns_flags a) KYTE_NS_MOUNT then
        (let (n, cs) = (if ic_rootfs a \<noteq> [] then iso_setup_rootfs fs (ic_rootfs a) else (0, [MountPrivate])) in
         if n \<noteq> 0 then (n, cs)
         else (0, if wants (ic_ns_flags a) KYTE_NS_PID then cs @ [MountProc] else cs))
      else (0, []))"

text \<open>A failing \<^verbatim>\<open>sethostname\<close> is ignored: the child keeps the name it had.\<close>

definition set_hostname :: "fs \<Rightarrow> bytes \<Rightarrow> sandbox \<Rightarrow> sandbox" where
  "set_hostname fs h S =
     S\<lparr>sb_calls := sb_calls S @ [Sethostname h], sb_hostname := (if fs (Sethostname h) then Some h else sb_hostname S)\<rparr>"

definition iso_child_entry :: "platform \<Rightarrow> fs \<Rightarrow> iso_child_args \<Rightarrow> sandbox \<Rightarrow> child" where
  "iso_child_entry pf fs a S =
     (let T = dup2 (ic_in_fd a) 0 (sb_fds S);
          T = dup2 (ic_out_fd a) 1 T;
          T = close_fd (ic_in_fd a) T;
          T = close_fd (ic_out_fd a) T;
          S = S\<lparr>sb_fds := T\<rparr>;
          S = (if wants (ic_ns_flags a) KYTE_NS_UTS \<and> ic_hostname a \<noteq> [] then set_hostname fs (ic_hostname a) S else S);
          (n, cs) = iso_mounts fs a in
      if n \<noteq> 0 then Exit 125
      else
        (let S = S\<lparr>sb_calls := sb_calls S @ cs\<rparr>;
             S = (if ic_no_new_privs a then S\<lparr>sb_no_new_privs := True\<rparr> else S);
             S = (if ic_drop_caps a then S\<lparr>sb_caps := iso_drop_caps (sb_caps S)\<rparr> else S);
             S = (if ic_seccomp_deny a then S\<lparr>sb_filter := snd (iso_install_seccomp pf (sb_no_new_privs S) (sb_caps S))\<rparr> else S) in
         Exec (ic_argv a) S))"

section \<open>Spawning\<close>

record process_context =
  pc_pid :: int
  pc_in_fd :: int
  pc_out_fd :: int
  pc_exit_code :: int
  pc_reaped :: bool

definition new_context :: "int \<Rightarrow> int \<Rightarrow> int \<Rightarrow> process_context" where
  "new_context pid in_fd out_fd = \<lparr>pc_pid = pid, pc_in_fd = in_fd, pc_out_fd = out_fd, pc_exit_code = 0, pc_reaped = False\<rparr>"

fun take_all :: "bytes option list \<Rightarrow> os \<Rightarrow> os" where
  "take_all [] K = K"
| "take_all (s # ss) K = take_all ss (take_cstr s K)"

fun free_all :: "bytes option list \<Rightarrow> os \<Rightarrow> os" where
  "free_all [] K = K"
| "free_all (s # ss) K = free_all ss (free_cstr s K)"

text \<open>
  \<open>pid\<close> is the answer of \<^verbatim>\<open>fork\<close> in the parent.  The result is the handle, the child that was
  started, and the parent's own state.
\<close>

definition kyte_process_spawn ::
    "pipe_alloc \<Rightarrow> int \<Rightarrow> parent \<Rightarrow> bytes option \<Rightarrow> bytes option \<Rightarrow> os \<Rightarrow> process_context option \<times> child option \<times> os" where
  "kyte_process_spawn alloc pid P cmd args_str K =
     (let K = take_all [cmd, args_str] K in
      case two_pipes alloc K of
        (None, K) \<Rightarrow> (None, None, free_all [cmd, args_str] K)
      | (Some (i, out), K) \<Rightarrow>
          if pid < 0 then (None, None, free_all [cmd, args_str] (close_all i out K))
          else
            (let child = Exec (kyte_build_argv (cstr cmd) (cstr args_str)) (fresh_sandbox P (child_fds i out (fds K)));
                 K = os_close (snd out) (os_close (fst i) K);
                 K = free_all [cmd, args_str] K in
             (Some (new_context pid (snd i) (fst out)), Some child, K)))"

definition kyte_process_spawn_ex ::
    "pipe_alloc \<Rightarrow> int \<Rightarrow> fs \<Rightarrow> parent \<Rightarrow> bytes option \<Rightarrow> bytes option \<Rightarrow> bytes option \<Rightarrow> bytes option \<Rightarrow> os
     \<Rightarrow> process_context option \<times> child option \<times> os" where
  "kyte_process_spawn_ex alloc pid fs P cmd args_str env_str cwd K =
     (let K = take_all [cmd, args_str, env_str, cwd] K in
      case two_pipes alloc K of
        (None, K) \<Rightarrow> (None, None, free_all [cmd, args_str, env_str, cwd] K)
      | (Some (i, out), K) \<Rightarrow>
          (let argv = kyte_build_argv (cstr cmd) (cstr args_str);
               kvs = env_entries (cstr env_str);
               dir = (case cstr cwd of None \<Rightarrow> [] | Some d \<Rightarrow> d) in
           if pid < 0 then (None, None, free_all [cmd, args_str, env_str, cwd] (close_all i out K))
           else
             (let S = fresh_sandbox P (child_fds i out (fds K));
                  child =
                    (if dir \<noteq> [] \<and> \<not> fs (Chdir dir) then Exit 127
                     else Exec argv (S\<lparr>sb_cwd := (if dir \<noteq> [] then Some dir else None), sb_env := set_all kvs (sb_env S)\<rparr>));
                  K = os_close (snd out) (os_close (fst i) K);
                  K = free_all [cmd, args_str, env_str, cwd] K in
              (Some (new_context pid (snd i) (fst out)), Some child, K))))"

record sandbox_request =
  sr_ns_flags :: u64
  sr_rootfs :: "bytes option"
  sr_hostname :: "bytes option"
  sr_drop_caps :: bool
  sr_no_new_privs :: bool
  sr_seccomp_deny :: bool

text \<open>
  \<open>mmap\<close> is where the stack of the clone is mapped, None when the mapping fails; \<open>clone flags\<close> is
  the answer of \<^verbatim>\<open>clone\<close>.  Without CLONE_FILES and CLONE_VM the child has copies of the table and memory,
  and with CLONE_NEWUSER all capabilities.
\<close>

definition kyte_process_spawn_isolated ::
    "bool \<Rightarrow> platform \<Rightarrow> pipe_alloc \<Rightarrow> (addr set \<Rightarrow> addr option) \<Rightarrow> (u32 \<Rightarrow> int) \<Rightarrow> fs \<Rightarrow> parent \<Rightarrow> bytes option \<Rightarrow> bytes option
     \<Rightarrow> sandbox_request \<Rightarrow> os \<Rightarrow> process_context option \<times> child option \<times> os" where
  "kyte_process_spawn_isolated linux pf alloc mmap clone fs P cmd args_str q K =
     (if \<not> linux then kyte_process_spawn alloc (clone SIGCHLD) P cmd args_str K
      else
        (let strs = [cmd, args_str, sr_rootfs q, sr_hostname q];
             K = take_all strs K in
         case two_pipes alloc K of
           (None, K) \<Rightarrow> (None, None, free_all strs K)
         | (Some (i, out), K) \<Rightarrow>
             (let argv = kyte_build_argv (Some (case cstr cmd of None \<Rightarrow> [] | Some c \<Rightarrow> c)) (cstr args_str);
                  a = \<lparr>ic_argv = argv, ic_in_fd = fst i, ic_out_fd = snd out, ic_ns_flags = sr_ns_flags q,
                       ic_rootfs = (case cstr (sr_rootfs q) of None \<Rightarrow> [] | Some s \<Rightarrow> s),
                       ic_hostname = (case cstr (sr_hostname q) of None \<Rightarrow> [] | Some s \<Rightarrow> s),
                       ic_drop_caps = sr_drop_caps q, ic_no_new_privs = sr_no_new_privs q,
                       ic_seccomp_deny = sr_seccomp_deny q\<rparr>;
                  flags = clone_flags (sr_ns_flags q);
                  stack = mmap (stacks K);
                  K = (case stack of None \<Rightarrow> K | Some s \<Rightarrow> K\<lparr>stacks := insert s (stacks K)\<rparr>);
                  pid = (if stack = None then - 1 else clone flags) in
              if pid < 0 then
                (let K = (case stack of None \<Rightarrow> K | Some s \<Rightarrow> K\<lparr>stacks := stacks K - {s}\<rparr>) in
                 (None, None, free_all strs (close_all i out K)))
              else
                (let child = iso_child_entry pf fs a (fresh_sandbox (P\<lparr>pa_caps := cloned_caps pf (flags AND CLONE_NEWUSER \<noteq> 0) (pa_caps P)\<rparr>) (fds K));
                     K = os_close (snd out) (os_close (fst i) K) in
                 (Some (new_context pid (snd i) (fst out)), Some child, free_all strs K)))))"

section \<open>The handle\<close>

text \<open>\<open>len\<close> is the length header of the string, \<open>body\<close> what is stored from it on; \<open>write fd bytes\<close> the answer of \<^verbatim>\<open>write\<close>.\<close>

definition kyte_process_write_stdin ::
    "(int \<Rightarrow> bytes \<Rightarrow> int) \<Rightarrow> process_context option \<Rightarrow> (int \<times> bytes) option \<Rightarrow> int" where
  "kyte_process_write_stdin write ctx data =
     (case (ctx, data) of
        (Some c, Some (len, body)) \<Rightarrow>
          (if pc_in_fd c < 0 then - 1
           else
             (let n = (if len < 0 \<or> len > 64 * 1024 * 1024 then length (takeWhile (\<lambda>b. b \<noteq> 0) body) else nat len) in
              write (pc_in_fd c) (take n body)))
      | _ \<Rightarrow> - 1)"

definition kyte_process_read_stdout :: "(int \<Rightarrow> nat \<Rightarrow> int) \<Rightarrow> process_context option \<Rightarrow> addr \<Rightarrow> int \<Rightarrow> int" where
  "kyte_process_read_stdout read ctx buf max_len =
     (case ctx of
        None \<Rightarrow> - 1
      | Some c \<Rightarrow> (if pc_out_fd c < 0 \<or> buf = 0 \<or> max_len \<le> 0 then - 1 else read (pc_out_fd c) (nat max_len)))"

text \<open>
  \<open>w i\<close> is the \<open>i\<close>-th answer of \<^verbatim>\<open>waitpid\<close>: its result, whether \<^verbatim>\<open>errno\<close> is EINTR, and the
  status word.
\<close>

type_synonym wait_answers = "nat \<Rightarrow> int \<times> bool \<times> int"

partial_function (option) wait_loop :: "wait_answers \<Rightarrow> nat \<Rightarrow> (int \<times> int) option" where
  "wait_loop w i =
     (case w i of (r, eintr, status) \<Rightarrow> if r < 0 \<and> eintr then wait_loop w (i + 1) else Some (r, status))"

definition WIFEXITED :: "int \<Rightarrow> bool" where
  "WIFEXITED status \<longleftrightarrow> status mod 128 = 0"

definition WEXITSTATUS :: "int \<Rightarrow> int" where
  "WEXITSTATUS status = (status div 256) mod 256"

definition WIFSIGNALED :: "int \<Rightarrow> bool" where
  "WIFSIGNALED status \<longleftrightarrow> 0 < sint (word_of_int (status mod 128 + 1) :: u8) div 2"

definition exit_code_of :: "int \<Rightarrow> int" where
  "exit_code_of status =
     (if WIFEXITED status then WEXITSTATUS status
      else if WIFSIGNALED status then 128 + status mod 128
      else - 1)"

definition kyte_process_wait :: "wait_answers \<Rightarrow> process_context option \<Rightarrow> os \<Rightarrow> (int \<times> process_context option \<times> os) option" where
  "kyte_process_wait w ctx K =
     (case ctx of
        None \<Rightarrow> Some (- 1, None, K)
      | Some c \<Rightarrow>
          (if pc_reaped c then Some (pc_exit_code c, ctx, K)
           else
             (let K = (if pc_in_fd c \<ge> 0 then os_close (pc_in_fd c) K else K);
                  c = (if pc_in_fd c \<ge> 0 then c\<lparr>pc_in_fd := - 1\<rparr> else c) in
              case wait_loop w 0 of
                None \<Rightarrow> None
              | Some (r, status) \<Rightarrow>
                  (if r < 0 then Some (- 1, Some c, K)
                   else
                     (let c = c\<lparr>pc_reaped := True, pc_exit_code := exit_code_of status\<rparr> in
                      Some (pc_exit_code c, Some c, K))))))"

definition kyte_process_pid :: "process_context option \<Rightarrow> int" where
  "kyte_process_pid ctx = (case ctx of None \<Rightarrow> 0 | Some c \<Rightarrow> pc_pid c)"

definition kyte_process_try_wait :: "wait_answers \<Rightarrow> process_context option \<Rightarrow> (int \<times> process_context option) option" where
  "kyte_process_try_wait w ctx =
     (case ctx of
        None \<Rightarrow> Some (- 1, None)
      | Some c \<Rightarrow>
          (if pc_reaped c then Some (pc_exit_code c, ctx)
           else if pc_pid c \<le> 0 then Some (- 1, ctx)
           else
             (case wait_loop w 0 of
                None \<Rightarrow> None
              | Some (r, status) \<Rightarrow>
                  (if r = 0 then Some (- 2, ctx)
                   else if r < 0 then Some (- 1, ctx)
                   else
                     (let c = c\<lparr>pc_reaped := True, pc_exit_code := exit_code_of status\<rparr> in
                      Some (pc_exit_code c, Some c))))))"

text \<open>\<open>kill pid sig\<close> is whether \<^verbatim>\<open>kill\<close> succeeds; the second component is the signal sent.\<close>

definition kyte_process_kill :: "(int \<Rightarrow> int \<Rightarrow> bool) \<Rightarrow> process_context option \<Rightarrow> int \<Rightarrow> int \<times> (int \<times> int) option" where
  "kyte_process_kill kill ctx sig =
     (case ctx of
        None \<Rightarrow> (- 1, None)
      | Some c \<Rightarrow>
          (if pc_pid c \<le> 0 then (- 1, None)
           else (if kill (pc_pid c) sig then 0 else - 1, Some (pc_pid c, sig))))"

text \<open>Freeing the handle; the second component is the process it tries to reap without waiting.\<close>

definition kyte_process_free :: "process_context option \<Rightarrow> os \<Rightarrow> os \<times> int option" where
  "kyte_process_free ctx K =
     (case ctx of
        None \<Rightarrow> (K, None)
      | Some c \<Rightarrow>
          (let K = (if pc_in_fd c \<ge> 0 then os_close (pc_in_fd c) K else K);
               K = (if pc_out_fd c \<ge> 0 then os_close (pc_out_fd c) K else K) in
           (K, if \<not> pc_reaped c \<and> pc_pid c > 0 then Some (pc_pid c) else None)))"

end
