(* ===== verification/Kyte_Process_Props.thy ===== *)
theory Kyte_Process_Props
  imports Kyte_Process
begin

text \<open>
  Child processes get the arguments, environment and pipe ends they are meant to get, failed spawns
  leave nothing behind, and the status of a child is read once and decoded exactly.  The sandbox is
  exact too, including where it is weaker than it looks: the isolated child keeps the writing end of
  its own input, and a filter requested after the capabilities are gone is silently missing.
\<close>

section \<open>Lists of lines\<close>

fun join_lines :: "bytes list \<Rightarrow> bytes" where
  "join_lines [] = []"
| "join_lines [x] = x"
| "join_lines (x # y # xs) = x @ NL # join_lines (y # xs)"

lemma split_plain: "NL \<notin> set x \<Longrightarrow> split_args cur (x @ s) = split_args (cur @ x) s"
  by (induction x arbitrary: cur) auto

lemma split_join: "xs \<noteq> [] \<Longrightarrow> \<forall>x\<in>set xs. NL \<notin> set x \<Longrightarrow> split_args [] (join_lines xs) = xs"
proof (induction xs rule: join_lines.induct)
  case (2 x)
  then show ?case using split_plain [of x "[]" "[]"] by simp
next
  case (3 x y xs)
  then show ?case using split_plain [of x "[]" "NL # join_lines (y # xs)"] by simp
qed simp

lemma parse_env_split: "parse_env cur s = concat (map env_entry (split_args cur s))"
  by (induction cur s rule: parse_env.induct) simp_all

lemma env_entry_eq: "EQ \<notin> set k \<Longrightarrow> env_entry (k @ EQ # v) = [(k, v)]"
proof -
  assume "EQ \<notin> set k"
  then have "\<And>b. b \<in> set k \<Longrightarrow> b \<noteq> EQ" by blast
  then show ?thesis by (simp add: env_entry_def takeWhile_append2 dropWhile_append2)
qed

lemma join_empty: "join_lines xs = [] \<longleftrightarrow> xs = [] \<or> xs = [[]]"
  by (cases xs rule: join_lines.cases) auto

text \<open>
  Property C29 (spawn_arguments).  The newline-separated strings carry their lists: the child is called
  with the command and exactly the given arguments, and its environment is the inherited one with the
  given settings made in order, the last setting of a key winning.  (The one list that is lost is a
  single empty argument, whose text is empty.)
\<close>

theorem spawn_arguments:
  assumes xs: "\<forall>x\<in>set xs. NL \<notin> set x" "xs \<noteq> [[]]"
    and kvs: "\<forall>(k, v)\<in>set kvs. k \<noteq> [] \<and> EQ \<notin> set k \<and> NL \<notin> set k \<and> NL \<notin> set v"
  shows "kyte_build_argv (Some c) (Some (join_lines xs)) = c # xs
    \<and> set_all (env_entries (Some (join_lines (map (\<lambda>(k, v). k @ EQ # v) kvs)))) e = e ++ map_of (rev kvs)"
proof
  show "kyte_build_argv (Some c) (Some (join_lines xs)) = c # xs"
    using xs split_join [of xs] by (cases "xs = []") (auto simp: kyte_build_argv_def join_empty)
  let ?ls = "map (\<lambda>(k, v). k @ EQ # v) kvs"
  have nl: "\<forall>x\<in>set ?ls. NL \<notin> set x" using kvs by (auto simp: NL_def EQ_def)
  have "env_entries (Some (join_lines ?ls)) = kvs"
  proof (cases "kvs = []")
    case True
    then show ?thesis by (simp add: env_entries_def)
  next
    case False
    then have "join_lines ?ls \<noteq> []" by (cases kvs) (auto simp: join_empty)
    moreover have "concat (map env_entry ?ls) = kvs" using kvs by (induction kvs) (auto simp: env_entry_eq)
    ultimately show ?thesis using False split_join [OF _ nl] by (simp add: env_entries_def parse_env_split)
  qed
  moreover have "set_all kvs e = e ++ map_of (rev kvs)"
    using kvs
  proof (induction kvs arbitrary: e)
    case (Cons kv kvs)
    then show ?case by (cases kv) (auto simp: setenv_def map_add_def fun_eq_iff split: option.splits)
  qed simp
  ultimately show "set_all (env_entries (Some (join_lines ?ls))) e = e ++ map_of (rev kvs)" by simp
qed

theorem spawn_arguments_witness:
  "kyte_build_argv (Some [108, 115]) (Some (join_lines [[45, 108], [], [46]])) = [[108, 115], [45, 108], [], [46]]
   \<and> set_all (env_entries (Some (join_lines (map (\<lambda>(k, v). k @ EQ # v) [([80], [56, 61])])))) (\<lambda>_. None) [80] = Some [56, 61]"
  using spawn_arguments [of "[[45, 108], [], [46]]" "[([80], [56, 61])]" "[108, 115]" "\<lambda>_. None"]
  by (simp add: NL_def EQ_def)

section \<open>Pipes\<close>

text \<open>The documented promise of \<^verbatim>\<open>pipe\<close>: two different descriptors that were free.\<close>

definition pipe_ok :: "pipe_alloc \<Rightarrow> bool" where
  "pipe_ok alloc \<longleftrightarrow> (\<forall>T r w. alloc T = Some (r, w) \<longrightarrow> r \<noteq> w \<and> 0 \<le> r \<and> 0 \<le> w \<and> T r = None \<and> T w = None)"

text \<open>No descriptor names a pipe that has not been made yet.\<close>

definition pipes_known :: "os \<Rightarrow> bool" where
  "pipes_known K \<longleftrightarrow> (\<forall>fd n. fds K fd = Some (PipeR n) \<or> fds K fd = Some (PipeW n) \<longrightarrow> n < pipes K)"

lemma copies_simps [simp]:
  "fds (take_cstr s K) = fds K" "pipes (take_cstr s K) = pipes K" "stacks (take_cstr s K) = stacks K"
  "fds (free_cstr s K) = fds K" "pipes (free_cstr s K) = pipes K" "stacks (free_cstr s K) = stacks K"
  by (simp_all add: take_cstr_def free_cstr_def)

lemma all_copies_simps [simp]:
  "fds (take_all ss K) = fds K" "pipes (take_all ss K) = pipes K" "stacks (take_all ss K) = stacks K"
  "fds (free_all ss K) = fds K" "pipes (free_all ss K) = pipes K" "stacks (free_all ss K) = stacks K"
  by (induction ss arbitrary: K) simp_all

lemma copies_balance: "copies (free_all ss K) = copies K - int (length (filter (\<lambda>s. s \<noteq> None) ss))"
  "copies (take_all ss K) = copies K + int (length (filter (\<lambda>s. s \<noteq> None) ss))"
  by (induction ss arbitrary: K) (simp_all add: take_cstr_def free_cstr_def)

lemma os_close_simps [simp]:
  "fds (os_close fd K) = (fds K)(fd := None)" "pipes (os_close fd K) = pipes K" "copies (os_close fd K) = copies K"
  "stacks (os_close fd K) = stacks K"
  by (simp_all add: os_close_def close_fd_def)

lemma two_pipes_fail:
  "pipe_ok alloc \<Longrightarrow> two_pipes alloc K = (None, K') \<Longrightarrow> fds K' = fds K \<and> copies K' = copies K \<and> stacks K' = stacks K"
  by (auto simp: two_pipes_def open_pipe_def pipe_ok_def fun_upd_idem split: option.splits prod.splits)

lemma two_pipes_ok:
  assumes alloc: "pipe_ok alloc" and two: "two_pipes alloc K = (Some (i, out), K')"
  shows "distinct [fst i, snd i, fst out, snd out] \<and> (\<forall>fd\<in>set [fst i, snd i, fst out, snd out]. 0 \<le> fd \<and> fds K fd = None)
    \<and> fds K' = (fds K)(fst i \<mapsto> PipeR (pipes K), snd i \<mapsto> PipeW (pipes K), fst out \<mapsto> PipeR (pipes K + 1), snd out \<mapsto> PipeW (pipes K + 1))
    \<and> copies K' = copies K \<and> stacks K' = stacks K"
proof -
  obtain r w r' w' where a: "alloc (fds K) = Some (r, w)"
    and b: "alloc ((fds K)(r \<mapsto> PipeR (pipes K), w \<mapsto> PipeW (pipes K))) = Some (r', w')"
    and io: "i = (r, w)" "out = (r', w')"
    and K': "K' = K\<lparr>fds := (fds K)(r \<mapsto> PipeR (pipes K), w \<mapsto> PipeW (pipes K), r' \<mapsto> PipeR (pipes K + 1), w' \<mapsto> PipeW (pipes K + 1)),
        pipes := pipes K + 1 + 1\<rparr>"
    using two by (auto simp: two_pipes_def open_pipe_def split: option.splits prod.splits)
  have "r \<noteq> w \<and> 0 \<le> r \<and> 0 \<le> w \<and> fds K r = None \<and> fds K w = None" using alloc a by (simp add: pipe_ok_def)
  moreover have "r' \<noteq> w' \<and> 0 \<le> r' \<and> 0 \<le> w' \<and> ((fds K)(r \<mapsto> PipeR (pipes K), w \<mapsto> PipeW (pipes K))) r' = None
      \<and> ((fds K)(r \<mapsto> PipeR (pipes K), w \<mapsto> PipeW (pipes K))) w' = None"
    using alloc b unfolding pipe_ok_def by blast
  ultimately show ?thesis using io K' by (auto split: if_splits)
qed

lemma close_all_frame:
  assumes "distinct [fst i, snd i, fst out, snd out]" "\<forall>fd\<in>set [fst i, snd i, fst out, snd out]. T fd = None"
    and "fds K = T(fst i \<mapsto> a, snd i \<mapsto> b, fst out \<mapsto> c, snd out \<mapsto> d)"
  shows "fds (close_all i out K) = T \<and> copies (close_all i out K) = copies K \<and> stacks (close_all i out K) = stacks K"
  using assms by (auto simp: close_all_def fun_eq_iff)

lemma keep_ends:
  assumes "distinct [fst i, snd i, fst out, snd out]" "\<forall>fd\<in>set [fst i, snd i, fst out, snd out]. T fd = None"
    and "fds K = T(fst i \<mapsto> a, snd i \<mapsto> b, fst out \<mapsto> c, snd out \<mapsto> d)"
  shows "fds (os_close (snd out) (os_close (fst i) K)) = T(snd i \<mapsto> b, fst out \<mapsto> c)"
  using assms by (auto simp: fun_eq_iff)

lemma child_wiring:
  assumes d: "distinct [fst i, snd i, fst out, snd out]" "\<forall>fd\<in>set [fst i, snd i, fst out, snd out]. 0 \<le> fd \<and> T fd = None"
    and std: "T 0 \<noteq> None" "T 1 \<noteq> None"
    and n: "\<And>fd m. T fd = Some (PipeR m) \<or> T fd = Some (PipeW m) \<Longrightarrow> m < n"
  shows "child_fds i out (T(fst i \<mapsto> PipeR n, snd i \<mapsto> PipeW n, fst out \<mapsto> PipeR (n + 1), snd out \<mapsto> PipeW (n + 1)))
      = T(0 \<mapsto> PipeR n, 1 \<mapsto> PipeW (n + 1))"
proof -
  have "fst i \<noteq> 0" "snd i \<noteq> 0" "fst out \<noteq> 0" "snd out \<noteq> 0" "fst i \<noteq> 1" "snd i \<noteq> 1" "fst out \<noteq> 1" "snd out \<noteq> 1"
    using d(2) std by force+
  then show ?thesis using d by (auto simp: child_fds_def dup2_def close_fd_def Let_def fun_eq_iff)
qed

section \<open>The parent\<close>

definition failed_clean :: "os \<Rightarrow> process_context option \<times> child option \<times> os \<Rightarrow> bool" where
  "failed_clean K = (\<lambda>(c, ch, K'). c = None \<longrightarrow> ch = None \<and> fds K' = fds K \<and> copies K' = copies K \<and> stacks K' = stacks K)"

definition holds_ends :: "os \<Rightarrow> process_context option \<times> child option \<times> os \<Rightarrow> bool" where
  "holds_ends K = (\<lambda>(c, ch, K'). \<forall>p. c = Some p \<longrightarrow>
     fds K' = (fds K)(pc_in_fd p \<mapsto> PipeW (pipes K), pc_out_fd p \<mapsto> PipeR (pipes K + 1)) \<and> pc_in_fd p \<noteq> pc_out_fd p
     \<and> fds K (pc_in_fd p) = None \<and> fds K (pc_out_fd p) = None \<and> copies K' = copies K \<and> \<not> pc_reaped p)"

text \<open>The three states a spawn can leave the parent in.\<close>

lemma spawn_states:
  assumes ok: "pipe_ok alloc" and two: "two_pipes alloc (take_all strs K) = (r, K1)"
  shows "case r of
      None \<Rightarrow> fds K1 = fds K \<and> stacks K1 = stacks K \<and> copies (free_all strs K1) = copies K
    | Some (i, out) \<Rightarrow> fds (close_all i out K1) = fds K \<and> stacks (close_all i out K1) = stacks K
        \<and> copies (free_all strs (close_all i out K1)) = copies K
        \<and> fds (os_close (snd out) (os_close (fst i) K1)) = (fds K)(snd i \<mapsto> PipeW (pipes K), fst out \<mapsto> PipeR (pipes K + 1))
        \<and> copies (free_all strs (os_close (snd out) (os_close (fst i) K1))) = copies K \<and> stacks K1 = stacks K
        \<and> snd i \<noteq> fst out \<and> fds K (snd i) = None \<and> fds K (fst out) = None"
proof (cases r)
  case None
  then show ?thesis using two_pipes_fail [OF ok] two by (simp add: copies_balance)
next
  case (Some io)
  then obtain i out where r: "r = Some (i, out)" by (cases io) auto
  note t = two_pipes_ok [OF ok two [unfolded r]]
  have "fds (close_all i out K1) = fds K \<and> copies (close_all i out K1) = copies K1 \<and> stacks (close_all i out K1) = stacks K1"
    by (rule close_all_frame) (use t in auto)
  moreover have "fds (os_close (snd out) (os_close (fst i) K1)) = (fds K)(snd i \<mapsto> PipeW (pipes K), fst out \<mapsto> PipeR (pipes K + 1))"
    by (rule keep_ends) (use t in auto)
  ultimately show ?thesis using t r by (simp add: copies_balance del: os_close_simps(1))
qed

lemma spawn_parent:
  assumes ok: "pipe_ok alloc"
  shows "failed_clean K (kyte_process_spawn alloc pid P cmd args_str K) \<and> holds_ends K (kyte_process_spawn alloc pid P cmd args_str K)"
proof -
  obtain r K1 where two: "two_pipes alloc (take_all [cmd, args_str] K) = (r, K1)" by fastforce
  show ?thesis using spawn_states [OF ok two]
    by (auto simp: kyte_process_spawn_def two failed_clean_def holds_ends_def new_context_def Let_def
        simp del: take_all.simps free_all.simps os_close_simps(1) split: option.splits prod.splits)
qed

lemma spawn_ex_parent:
  assumes ok: "pipe_ok alloc"
  shows "failed_clean K (kyte_process_spawn_ex alloc pid fs P cmd args_str env_str cwd K)
    \<and> holds_ends K (kyte_process_spawn_ex alloc pid fs P cmd args_str env_str cwd K)"
proof -
  obtain r K1 where two: "two_pipes alloc (take_all [cmd, args_str, env_str, cwd] K) = (r, K1)" by fastforce
  show ?thesis using spawn_states [OF ok two]
    by (auto simp: kyte_process_spawn_ex_def two failed_clean_def holds_ends_def new_context_def Let_def
        simp del: take_all.simps free_all.simps os_close_simps(1) split: option.splits prod.splits)
qed

lemma stacks_commute:
  "os_close fd (K\<lparr>stacks := X\<rparr>) = (os_close fd K)\<lparr>stacks := X\<rparr>" "free_cstr s (K\<lparr>stacks := X\<rparr>) = (free_cstr s K)\<lparr>stacks := X\<rparr>"
  by (simp_all add: os_close_def free_cstr_def)

lemma all_stacks_commute:
  "close_all i out (K\<lparr>stacks := X\<rparr>) = (close_all i out K)\<lparr>stacks := X\<rparr>" "free_all ss (K\<lparr>stacks := X\<rparr>) = (free_all ss K)\<lparr>stacks := X\<rparr>"
proof -
  show "free_all ss (K\<lparr>stacks := X\<rparr>) = (free_all ss K)\<lparr>stacks := X\<rparr>"
    by (induction ss arbitrary: K) (simp_all add: stacks_commute)
qed (simp add: close_all_def stacks_commute)

lemma spawn_isolated_parent:
  assumes ok: "pipe_ok alloc" and mmap: "\<forall>X s. mmap X = Some s \<longrightarrow> s \<notin> X"
  shows "failed_clean K (kyte_process_spawn_isolated True pf alloc mmap clone fs P cmd args_str q K)
    \<and> holds_ends K (kyte_process_spawn_isolated True pf alloc mmap clone fs P cmd args_str q K)
    \<and> (\<forall>c ch K'. kyte_process_spawn_isolated True pf alloc mmap clone fs P cmd args_str q K = (Some c, ch, K') \<longrightarrow>
         (\<exists>s. s \<notin> stacks K \<and> stacks K' = insert s (stacks K)))"
proof -
  let ?ss = "[cmd, args_str, sr_rootfs q, sr_hostname q]"
  obtain r K1 where two: "two_pipes alloc (take_all ?ss K) = (r, K1)" by fastforce
  note st = spawn_states [OF ok two]
  show ?thesis
  proof (cases r)
    case None
    then show ?thesis using st
      by (simp add: kyte_process_spawn_isolated_def two failed_clean_def holds_ends_def Let_def del: take_all.simps free_all.simps)
  next
    case (Some io)
    then obtain i out where r: "r = Some (i, out)" by (cases io) auto
    show ?thesis
    proof (cases "mmap (stacks K1)")
      case None
      then show ?thesis using st two r
        by (simp add: kyte_process_spawn_isolated_def failed_clean_def holds_ends_def Let_def
            del: take_all.simps free_all.simps os_close_simps(1))
    next
      case (Some s)
      then have "s \<notin> stacks K1" "stacks K1 - {s} = stacks K1" using mmap by auto
      then show ?thesis using st two r Some
        by (auto simp: kyte_process_spawn_isolated_def failed_clean_def holds_ends_def Let_def new_context_def stacks_commute
            all_stacks_commute simp del: take_all.simps free_all.simps os_close_simps(1))
    qed
  qed
qed

text \<open>
  Property C30 (spawn_parent_clean).  Each of the three ways to start a process leaves the parent with
  exactly two new descriptors, the writing end of the child's input and the reading end of its output,
  and every C copy freed; a spawn that fails at any point leaves nothing behind.  Only the stack of a
  sandboxed child stays mapped for good.
\<close>

theorem spawn_parent_clean:
  assumes "pipe_ok alloc" "\<forall>X s. mmap X = Some s \<longrightarrow> s \<notin> X"
  shows "failed_clean K (kyte_process_spawn alloc pid P cmd args_str K)
    \<and> holds_ends K (kyte_process_spawn alloc pid P cmd args_str K)
    \<and> failed_clean K (kyte_process_spawn_ex alloc pid fs P cmd args_str env_str cwd K)
    \<and> holds_ends K (kyte_process_spawn_ex alloc pid fs P cmd args_str env_str cwd K)
    \<and> failed_clean K (kyte_process_spawn_isolated True pf alloc mmap clone fs P cmd args_str q K)
    \<and> holds_ends K (kyte_process_spawn_isolated True pf alloc mmap clone fs P cmd args_str q K)
    \<and> (\<forall>c ch K'. kyte_process_spawn_isolated True pf alloc mmap clone fs P cmd args_str q K = (Some c, ch, K') \<longrightarrow>
         (\<exists>s. s \<notin> stacks K \<and> stacks K' = insert s (stacks K)))"
  using spawn_parent [OF assms(1), of K pid P cmd args_str] spawn_ex_parent [OF assms(1), of K pid fs P cmd args_str env_str cwd]
    spawn_isolated_parent [OF assms, of K pf clone fs P cmd args_str q] by simp

text \<open>A kernel that hands out the descriptors from 3 up, and a shell with the three standard ones.\<close>

definition low_pipes :: pipe_alloc where
  "low_pipes T = (if T 3 = None \<and> T 4 = None then Some (3, 4) else if T 5 = None \<and> T 6 = None then Some (5, 6) else None)"

definition demo_os :: os where
  "demo_os = \<lparr>fds = [0 \<mapsto> Inherited 0, 1 \<mapsto> Inherited 1, 2 \<mapsto> Inherited 2], pipes = 0, copies = 0, stacks = {}\<rparr>"

definition demo_parent :: parent where
  "demo_parent = \<lparr>pa_env = (\<lambda>_. None), pa_caps = \<lparr>bounding = {8, 21}, effective = {8, 21}, permitted = {8, 21}, inheritable = {}\<rparr>,
     pa_no_new_privs = False\<rparr>"

definition demo_request :: sandbox_request where
  "demo_request = \<lparr>sr_ns_flags = 3, sr_rootfs = None, sr_hostname = None, sr_drop_caps = True, sr_no_new_privs = False,
     sr_seccomp_deny = True\<rparr>"

lemma low_pipes_ok: "pipe_ok low_pipes"
  by (auto simp: pipe_ok_def low_pipes_def)

theorem spawn_parent_clean_witness:
  "failed_clean demo_os (kyte_process_spawn low_pipes 77 demo_parent (Some [108]) None demo_os)
   \<and> fst (kyte_process_spawn low_pipes 77 demo_parent (Some [108]) None demo_os) = Some (new_context 77 4 5)"
proof
  show "failed_clean demo_os (kyte_process_spawn low_pipes 77 demo_parent (Some [108]) None demo_os)"
    using spawn_parent_clean [of low_pipes "\<lambda>X. if X = {} then Some 4096 else None", OF low_pipes_ok] by auto
  show "fst (kyte_process_spawn low_pipes 77 demo_parent (Some [108]) None demo_os) = Some (new_context 77 4 5)"
    by (simp add: kyte_process_spawn_def two_pipes_def open_pipe_def low_pipes_def demo_os_def take_cstr_def Let_def)
qed

section \<open>The child\<close>

text \<open>
  A spawned child reads its standard input from the pipe whose other end the
  parent writes and writes its standard output to the pipe the parent reads; every other descriptor is
  what the parent had before, so no stray end keeps a pipe open.  This holds for a plain spawn and for one
  with an environment and a directory, which does not run at all when the directory cannot be entered.
\<close>

theorem child_wired:
  assumes ok: "pipe_ok alloc" and known: "pipes_known K" and std: "fds K 0 \<noteq> None" "fds K 1 \<noteq> None"
  shows "(\<forall>c argv S K'. kyte_process_spawn alloc pid P cmd args_str K = (c, Some (Exec argv S), K') \<longrightarrow>
        sb_fds S = (fds K)(0 \<mapsto> PipeR (pipes K), 1 \<mapsto> PipeW (pipes K + 1)))
    \<and> (\<forall>c argv S K'. kyte_process_spawn_ex alloc pid fs P cmd args_str env_str cwd K = (c, Some (Exec argv S), K') \<longrightarrow>
        sb_fds S = (fds K)(0 \<mapsto> PipeR (pipes K), 1 \<mapsto> PipeW (pipes K + 1))
        \<and> (\<forall>d. cstr cwd = Some d \<and> d \<noteq> [] \<longrightarrow> fs (Chdir d) \<and> sb_cwd S = Some d))"
proof -
  have wire: "child_fds i out (fds K1) = (fds K)(0 \<mapsto> PipeR (pipes K), 1 \<mapsto> PipeW (pipes K + 1))"
    if "two_pipes alloc (take_all ss K) = (Some (i, out), K1)" for ss i out K1
  proof -
    note t = two_pipes_ok [OF ok that]
    then have e: "fds K1 = (fds K)(fst i \<mapsto> PipeR (pipes K), snd i \<mapsto> PipeW (pipes K), fst out \<mapsto> PipeR (pipes K + 1),
        snd out \<mapsto> PipeW (pipes K + 1))" by simp
    show ?thesis unfolding e by (rule child_wiring) (use t std known in \<open>auto simp: pipes_known_def\<close>)
  qed
  show ?thesis using wire
    by (auto simp: kyte_process_spawn_def kyte_process_spawn_ex_def Let_def fresh_sandbox_def
        simp del: take_all.simps free_all.simps split: option.splits prod.splits if_splits)
qed

theorem child_wired_witness:
  "\<exists>c S K'. kyte_process_spawn low_pipes 77 demo_parent (Some [108]) None demo_os = (c, Some (Exec [[108]] S), K')
     \<and> sb_fds S 0 = Some (PipeR 0) \<and> sb_fds S 1 = Some (PipeW 1) \<and> sb_fds S 4 = None"
proof -
  have "\<exists>c S K'. kyte_process_spawn low_pipes 77 demo_parent (Some [108]) None demo_os = (c, Some (Exec [[108]] S), K')"
    by (simp add: kyte_process_spawn_def two_pipes_def open_pipe_def low_pipes_def demo_os_def take_cstr_def Let_def
        kyte_build_argv_def cstr_def)
  then obtain c S K' where r: "kyte_process_spawn low_pipes 77 demo_parent (Some [108]) None demo_os = (c, Some (Exec [[108]] S), K')" by blast
  have "pipes_known demo_os" by (auto simp: pipes_known_def demo_os_def split: if_splits)
  then have "sb_fds S = (fds demo_os)(0 \<mapsto> PipeR (pipes demo_os), 1 \<mapsto> PipeW (pipes demo_os + 1))"
    by (intro child_wired [OF low_pipes_ok, THEN conjunct1, rule_format, OF _ _ _ r]) (simp_all add: demo_os_def)
  then show ?thesis using r by (simp add: demo_os_def)
qed

section \<open>The sandbox\<close>

text \<open>The clone asks for exactly the namespaces of the request.\<close>

lemma clone_flags_exact:
  "(clone_flags f AND CLONE_NEWPID \<noteq> 0 \<longleftrightarrow> wants f KYTE_NS_PID) \<and> (clone_flags f AND CLONE_NEWNS \<noteq> 0 \<longleftrightarrow> wants f KYTE_NS_MOUNT)
   \<and> (clone_flags f AND CLONE_NEWUTS \<noteq> 0 \<longleftrightarrow> wants f KYTE_NS_UTS) \<and> (clone_flags f AND CLONE_NEWIPC \<noteq> 0 \<longleftrightarrow> wants f KYTE_NS_IPC)
   \<and> (clone_flags f AND CLONE_NEWNET \<noteq> 0 \<longleftrightarrow> wants f KYTE_NS_NET) \<and> (clone_flags f AND CLONE_NEWUSER \<noteq> 0 \<longleftrightarrow> wants f KYTE_NS_USER)
   \<and> clone_flags f AND 0xff = SIGCHLD"
  by (cases "wants f KYTE_NS_PID"; cases "wants f KYTE_NS_MOUNT"; cases "wants f KYTE_NS_UTS"; cases "wants f KYTE_NS_IPC";
      cases "wants f KYTE_NS_NET"; cases "wants f KYTE_NS_USER")
    (simp_all add: clone_flags_def SIGCHLD_def CLONE_NEWPID_def CLONE_NEWNS_def CLONE_NEWUTS_def CLONE_NEWIPC_def CLONE_NEWNET_def
      CLONE_NEWUSER_def)

lemma iso_child_fds:
  assumes "iso_child_entry pf fs a S0 = Exec argv S"
  shows "sb_fds S = close_fd (ic_out_fd a) (close_fd (ic_in_fd a) (dup2 (ic_out_fd a) 1 (dup2 (ic_in_fd a) 0 (sb_fds S0))))"
  using assms by (auto simp: iso_child_entry_def set_hostname_def Let_def split: prod.splits if_splits)

lemma iso_spawn_run:
  assumes run: "kyte_process_spawn_isolated True pf alloc mmap clone fs P cmd args_str q K = (Some c, Some (Exec argv S), K')"
  shows "\<exists>i out K1 a. two_pipes alloc (take_all [cmd, args_str, sr_rootfs q, sr_hostname q] K) = (Some (i, out), K1)
    \<and> ic_in_fd a = fst i \<and> ic_out_fd a = snd out \<and> ic_drop_caps a = sr_drop_caps q \<and> iso_child_entry pf fs a 
      (fresh_sandbox (P\<lparr>pa_caps := cloned_caps pf (wants (sr_ns_flags q) KYTE_NS_USER) (pa_caps P)\<rparr>) (fds K1)) = Exec argv S
    \<and> c = new_context (clone (clone_flags (sr_ns_flags q))) (snd i) (fst out)"
proof -
  let ?ss = "[cmd, args_str, sr_rootfs q, sr_hostname q]"
  obtain r K1 where two: "two_pipes alloc (take_all ?ss K) = (r, K1)" by fastforce
  obtain i out where r: "r = Some (i, out)"
    using run two by (cases r) (auto simp: kyte_process_spawn_isolated_def Let_def simp del: take_all.simps free_all.simps)
  let ?a = "\<lparr>ic_argv = kyte_build_argv (Some (case cstr cmd of None \<Rightarrow> [] | Some c \<Rightarrow> c)) (cstr args_str), ic_in_fd = fst i,
          ic_out_fd = snd out, ic_ns_flags = sr_ns_flags q, ic_rootfs = (case cstr (sr_rootfs q) of None \<Rightarrow> [] | Some s \<Rightarrow> s),
          ic_hostname = (case cstr (sr_hostname q) of None \<Rightarrow> [] | Some s \<Rightarrow> s), ic_drop_caps = sr_drop_caps q,
          ic_no_new_privs = sr_no_new_privs q, ic_seccomp_deny = sr_seccomp_deny q\<rparr>"
  let ?P = "P\<lparr>pa_caps := cloned_caps pf (wants (sr_ns_flags q) KYTE_NS_USER) (pa_caps P)\<rparr>"
  have user: "(clone_flags (sr_ns_flags q) AND CLONE_NEWUSER \<noteq> 0) = wants (sr_ns_flags q) KYTE_NS_USER"
    using clone_flags_exact by blast
  let ?spawn = "kyte_process_spawn_isolated True pf alloc mmap clone fs P cmd args_str q K"
  have "fst ?spawn = (if mmap (stacks K1) = None \<or> clone (clone_flags (sr_ns_flags q)) < 0 then None else Some (new_context (clone (clone_flags (sr_ns_flags q))) (snd i) (fst out)))"
    "fst (snd ?spawn) = (if mmap (stacks K1) = None \<or> clone (clone_flags (sr_ns_flags q)) < 0 then None else Some (iso_child_entry pf fs ?a (fresh_sandbox ?P (fds K1))))"
    unfolding kyte_process_spawn_isolated_def Let_def two r user by (auto split: option.split)
  then have "c = new_context (clone (clone_flags (sr_ns_flags q))) (snd i) (fst out)" "iso_child_entry pf fs ?a (fresh_sandbox ?P (fds K1)) = Exec argv S"
    using run by (auto split: if_splits)
  moreover have "ic_in_fd ?a = fst i" "ic_out_fd ?a = snd out" "ic_drop_caps ?a = sr_drop_caps q" by simp_all
  ultimately show ?thesis using two r by blast
qed

text \<open>
  A sandboxed child starts with the same two standard streams,
  but it also keeps the writing end of its own input and the reading end of its own output: the clone
  copies the descriptor table and the child closes only the two ends it uses.  Its input therefore never
  ends when the parent closes its side, and a child that reads to the end never exits.
\<close>

theorem iso_child_keeps_writer:
  assumes ok: "pipe_ok alloc" and std: "fds K 0 \<noteq> None" "fds K 1 \<noteq> None"
    and run: "kyte_process_spawn_isolated True pf alloc mmap clone fs P cmd args_str q K = (Some c, Some (Exec argv S), K')"
  shows "sb_fds S 0 = Some (PipeR (pipes K)) \<and> sb_fds S 1 = Some (PipeW (pipes K + 1))
    \<and> sb_fds S (pc_in_fd c) = Some (PipeW (pipes K)) \<and> sb_fds S (pc_out_fd c) = Some (PipeR (pipes K + 1))"
proof -
  let ?ss = "[cmd, args_str, sr_rootfs q, sr_hostname q]"
  obtain i out K1 a where two: "two_pipes alloc (take_all ?ss K) = (Some (i, out), K1)"
    and a: "ic_in_fd a = fst i" "ic_out_fd a = snd out" and e: "iso_child_entry pf fs a
      (fresh_sandbox (P\<lparr>pa_caps := cloned_caps pf (wants (sr_ns_flags q) KYTE_NS_USER) (pa_caps P)\<rparr>) (fds K1)) = Exec argv S"
    and c: "c = new_context (clone (clone_flags (sr_ns_flags q))) (snd i) (fst out)"
    using iso_spawn_run [OF run] by blast
  note t = two_pipes_ok [OF ok two]
  have low: "fst i \<noteq> 0" "snd i \<noteq> 0" "fst out \<noteq> 0" "snd out \<noteq> 0" "fst i \<noteq> 1" "snd i \<noteq> 1" "fst out \<noteq> 1" "snd out \<noteq> 1"
    using t std by force+
  have ne: "fst i \<noteq> snd i" "fst i \<noteq> fst out" "fst i \<noteq> snd out" "snd i \<noteq> fst out" "snd i \<noteq> snd out" "fst out \<noteq> snd out"
    using t by simp_all
  have T: "fds K1 (fst i) = Some (PipeR (pipes K))" "fds K1 (snd i) = Some (PipeW (pipes K))"
    "fds K1 (fst out) = Some (PipeR (pipes K + 1))" "fds K1 (snd out) = Some (PipeW (pipes K + 1))"
    using t ne by simp_all
  have S: "sb_fds S = close_fd (snd out) (close_fd (fst i) (dup2 (snd out) 1 (dup2 (fst i) 0 (fds K1))))"
    using iso_child_fds [OF e] a by (simp add: fresh_sandbox_def)
  show ?thesis unfolding S c using low ne T
    by (simp add: dup2_def close_fd_def new_context_def)
qed

lemma demo_iso:
  "\<exists>S K'. kyte_process_spawn_isolated True linux_x86_64 low_pipes (\<lambda>X. Some 4096) (\<lambda>_. 77) (\<lambda>_. True) demo_parent (Some [108]) None demo_request demo_os
     = (Some (new_context 77 4 5), Some (Exec [[108]] S), K')"
  by (simp add: kyte_process_spawn_isolated_def two_pipes_def open_pipe_def low_pipes_def demo_os_def take_cstr_def Let_def
      kyte_build_argv_def cstr_def demo_request_def iso_child_entry_def iso_mounts_def)

theorem iso_child_keeps_writer_witness:
  "\<exists>S K'. kyte_process_spawn_isolated True linux_x86_64 low_pipes (\<lambda>X. Some 4096) (\<lambda>_. 77) (\<lambda>_. True) demo_parent (Some [108]) None demo_request demo_os
     = (Some (new_context 77 4 5), Some (Exec [[108]] S), K') \<and> sb_fds S 4 = Some (PipeW 0)"
proof -
  obtain S K' where r: "kyte_process_spawn_isolated True linux_x86_64 low_pipes (\<lambda>X. Some 4096) (\<lambda>_. 77) (\<lambda>_. True) demo_parent (Some [108]) None
      demo_request demo_os = (Some (new_context 77 4 5), Some (Exec [[108]] S), K')"
    using demo_iso by blast
  have "fds demo_os 0 \<noteq> None" "fds demo_os 1 \<noteq> None" by (simp_all add: demo_os_def)
  from iso_child_keeps_writer [OF low_pipes_ok this r] have "sb_fds S 4 = Some (PipeW 0)"
    by (simp add: new_context_def) (simp add: demo_os_def)
  then show ?thesis using r by blast
qed

lemma drop_all_caps:
  "effective (fold prctl_capbset_drop caps C) = effective C \<and>
   (CAP_SETPCAP \<in> effective C \<longrightarrow> bounding (fold prctl_capbset_drop caps C) = bounding C - set caps)"
  by (induction caps arbitrary: C) (auto simp: prctl_capbset_drop_def)

lemma iso_setup_ok: "fst (iso_setup_rootfs fs rootfs) = 0 \<longleftrightarrow>
    fs MountPrivate \<and> fs (MountBind rootfs) \<and> fs (Chdir rootfs) \<and> fs PivotRoot \<and> fs ChdirRoot"
  by (simp add: iso_setup_rootfs_def)

definition names_host :: "iso_child_args \<Rightarrow> bool" where
  "names_host a \<longleftrightarrow> wants (ic_ns_flags a) KYTE_NS_UTS \<and> ic_hostname a \<noteq> []"

lemma iso_runs:
  assumes "fst (iso_mounts fs a) = 0"
  shows "\<exists>S. iso_child_entry pf fs a S0 = Exec (ic_argv a) S \<and> sb_no_new_privs S = (ic_no_new_privs a \<or> sb_no_new_privs S0)
    \<and> sb_caps S = (if ic_drop_caps a then iso_drop_caps (sb_caps S0) else sb_caps S0)
    \<and> sb_calls S = sb_calls S0 @ (if names_host a then [Sethostname (ic_hostname a)] else []) @ snd (iso_mounts fs a)
    \<and> sb_hostname S = (if names_host a \<and> fs (Sethostname (ic_hostname a)) then Some (ic_hostname a) else sb_hostname S0)
    \<and> sb_filter S = (if ic_seccomp_deny a then snd (iso_install_seccomp pf (sb_no_new_privs S) (sb_caps S)) else sb_filter S0)"
proof -
  obtain cs where cs: "iso_mounts fs a = (0, cs)" using assms by (metis prod.collapse)
  define S1 where "S1 = S0\<lparr>sb_fds := close_fd (ic_out_fd a) (close_fd (ic_in_fd a) (dup2 (ic_out_fd a) 1 (dup2 (ic_in_fd a) 0 (sb_fds S0))))\<rparr>"
  define S2 where "S2 = (if wants (ic_ns_flags a) KYTE_NS_UTS \<and> ic_hostname a \<noteq> [] then set_hostname fs (ic_hostname a) S1 else S1)"
  define S3 where "S3 = S2\<lparr>sb_calls := sb_calls S2 @ cs\<rparr>"
  define S4 where "S4 = (if ic_no_new_privs a then S3\<lparr>sb_no_new_privs := True\<rparr> else S3)"
  define S5 where "S5 = (if ic_drop_caps a then S4\<lparr>sb_caps := iso_drop_caps (sb_caps S4)\<rparr> else S4)"
  define S6 where "S6 = (if ic_seccomp_deny a then S5\<lparr>sb_filter := snd (iso_install_seccomp pf (sb_no_new_privs S5) (sb_caps S5))\<rparr> else S5)"
  have "sb_no_new_privs S2 = sb_no_new_privs S0" "sb_caps S2 = sb_caps S0" "sb_filter S2 = sb_filter S0"
    by (simp_all add: S2_def S1_def set_hostname_def)
  then have "sb_no_new_privs S4 = (ic_no_new_privs a \<or> sb_no_new_privs S0)" "sb_caps S4 = sb_caps S0" "sb_filter S4 = sb_filter S0"
    by (simp_all add: S4_def S3_def)
  then have "sb_no_new_privs S6 = (ic_no_new_privs a \<or> sb_no_new_privs S0)"
    "sb_caps S6 = (if ic_drop_caps a then iso_drop_caps (sb_caps S0) else sb_caps S0)"
    "sb_filter S6 = (if ic_seccomp_deny a then snd (iso_install_seccomp pf (sb_no_new_privs S6) (sb_caps S6)) else sb_filter S0)"
    by (simp_all add: S6_def S5_def)
  moreover have "sb_hostname S6 = sb_hostname S2" "sb_calls S6 = sb_calls S2 @ cs"
    by (simp_all add: S6_def S5_def S4_def S3_def)
  moreover have "sb_hostname S2 = (if names_host a \<and> fs (Sethostname (ic_hostname a)) then Some (ic_hostname a) else sb_hostname S0)"
    "sb_calls S2 = sb_calls S0 @ (if names_host a then [Sethostname (ic_hostname a)] else [])"
    by (simp_all add: S2_def S1_def set_hostname_def names_host_def)
  moreover have "iso_child_entry pf fs a S0 = Exec (ic_argv a) S6"
    unfolding S6_def S5_def S4_def S3_def S2_def S1_def by (simp only: iso_child_entry_def Let_def cs prod.case) simp
  ultimately show ?thesis using cs by (intro exI [of _ S6]) simp
qed

text \<open>
  The filter refuses exactly unshare, setns, mount, pivot\_root and
  ptrace with EPERM and lets every other number through, whatever is in the accumulator before.  It looks
  at the number only, so the same calls through the x32 entry of x86-64, whose numbers carry bit 30, pass.
\<close>

lemma run_deny: "bpf_run (deny k @ p) nr acc = (if acc = k then Some RET_EPERM else bpf_run p nr acc)"
  by (simp add: deny_def)

lemma filter_run:
  "bpf_run (iso_filter pf) nr acc =
     Some (if nr \<in> {SYS_unshare pf, SYS_setns pf, SYS_mount pf, SYS_pivot_root pf, SYS_ptrace pf} then RET_EPERM
           else SECCOMP_RET_ALLOW)"
  unfolding iso_filter_def bpf_run.simps run_deny by simp

lemma seccomp_filter_exact:
  "bpf_run (iso_filter linux_x86_64) (SYS_mount linux_x86_64 OR 0x40000000) acc = Some SECCOMP_RET_ALLOW"
  by (simp add: filter_run linux_x86_64_def)

text \<open>The five steps of entering a root.\<close>

definition root_entered :: "fs \<Rightarrow> iso_child_args \<Rightarrow> bool" where
  "root_entered fs a \<longleftrightarrow>
     fs MountPrivate \<and> fs (MountBind (ic_rootfs a)) \<and> fs (Chdir (ic_rootfs a)) \<and> fs PivotRoot \<and> fs ChdirRoot"

definition wants_root :: "iso_child_args \<Rightarrow> bool" where
  "wants_root a \<longleftrightarrow> wants (ic_ns_flags a) KYTE_NS_MOUNT \<and> ic_rootfs a \<noteq> []"

lemma mounts_ok: "fst (iso_mounts fs a) = 0 \<longleftrightarrow> (wants_root a \<longrightarrow> root_entered fs a)"
  using iso_setup_ok [of fs "ic_rootfs a"] by (auto simp: iso_mounts_def root_entered_def wants_root_def split: prod.splits)

lemma mounts_pivot: "wants_root a \<Longrightarrow> root_entered fs a \<Longrightarrow>
  {MountBind (ic_rootfs a), PivotRoot, ChdirRoot, UmountOld} \<subseteq> set (snd (iso_mounts fs a))"
  by (auto simp: iso_mounts_def iso_setup_rootfs_def root_entered_def wants_root_def)

lemma caps_dropped:
  "effective (iso_drop_caps C) = {} \<and> permitted (iso_drop_caps C) = {} \<and> inheritable (iso_drop_caps C) = {}
   \<and> (CAP_SETPCAP \<in> effective C \<longrightarrow> bounding (iso_drop_caps C) = bounding C - {..<64})"
  using drop_all_caps [of "[0..<64]" C] by (auto simp: iso_drop_caps_def)

text \<open>
  Property C31 (sandbox_exact).  A sandboxed child fails closed on its file system: it runs its program
  only if no root was asked for or all five steps of entering it succeeded, the change of root among the
  calls it made, and exits with 125 otherwise.  What it runs with is exact: its host name is the
  requested one only if it could be set, no capabilities when they were to be dropped (and with an
  empty bounding set when it could lower it), with no-new-privileges when asked.  The system call filter
  refuses the five native calls with EPERM and lets everything else through, but it does not fail closed:
  where the kernel and its headers have filters it is there only with no-new-privileges, or with
  CAP_SYS_ADMIN kept, so asking for the filter and for dropped capabilities alone gives an unfiltered child.
\<close>

theorem sandbox_exact:
  "(case iso_child_entry pf fs a S0 of
      Exit code \<Rightarrow> code = 125 \<and> wants_root a \<and> \<not> root_entered fs a
    | Exec argv S \<Rightarrow> argv = ic_argv a
        \<and> (wants_root a \<longrightarrow> root_entered fs a
             \<and> {MountBind (ic_rootfs a), PivotRoot, ChdirRoot, UmountOld} \<subseteq> set (sb_calls S))
        \<and> sb_hostname S = (if names_host a \<and> fs (Sethostname (ic_hostname a)) then Some (ic_hostname a) else sb_hostname S0)
        \<and> sb_no_new_privs S = (ic_no_new_privs a \<or> sb_no_new_privs S0)
        \<and> (\<not> ic_drop_caps a \<longrightarrow> sb_caps S = sb_caps S0)
        \<and> (ic_drop_caps a \<longrightarrow> effective (sb_caps S) = {} \<and> permitted (sb_caps S) = {} \<and> inheritable (sb_caps S) = {}
             \<and> (CAP_SETPCAP \<in> effective (sb_caps S0) \<longrightarrow> bounding (sb_caps S) = bounding (sb_caps S0) - {..<64}))
        \<and> (ic_seccomp_deny a \<longrightarrow>
             (if pf_macros pf \<and> pf_seccomp pf
                 \<and> (sb_no_new_privs S \<or> \<not> ic_drop_caps a \<and> CAP_SYS_ADMIN \<in> effective (sb_caps S0))
              then (\<exists>F. sb_filter S = Some F \<and> (\<forall>nr acc. bpf_run F nr acc =
                     Some (if nr \<in> {SYS_unshare pf, SYS_setns pf, SYS_mount pf, SYS_pivot_root pf, SYS_ptrace pf}
                           then RET_EPERM else SECCOMP_RET_ALLOW)))
              else sb_filter S = None)))"
proof (cases "fst (iso_mounts fs a) = 0")
  case True
  obtain S where e: "iso_child_entry pf fs a S0 = Exec (ic_argv a) S" and nnp: "sb_no_new_privs S = (ic_no_new_privs a \<or> sb_no_new_privs S0)"
    and caps: "sb_caps S = (if ic_drop_caps a then iso_drop_caps (sb_caps S0) else sb_caps S0)"
    and calls: "sb_calls S = sb_calls S0 @ (if names_host a then [Sethostname (ic_hostname a)] else []) @ snd (iso_mounts fs a)"
    and host: "sb_hostname S = (if names_host a \<and> fs (Sethostname (ic_hostname a)) then Some (ic_hostname a) else sb_hostname S0)"
    and filt: "sb_filter S = (if ic_seccomp_deny a then snd (iso_install_seccomp pf (sb_no_new_privs S) (sb_caps S)) else sb_filter S0)"
    using iso_runs [OF True] by blast
  have eff: "CAP_SYS_ADMIN \<in> effective (sb_caps S) \<longleftrightarrow> \<not> ic_drop_caps a \<and> CAP_SYS_ADMIN \<in> effective (sb_caps S0)"
    using caps caps_dropped [of "sb_caps S0"] by simp
  have root: "wants_root a \<longrightarrow> root_entered fs a \<and> {MountBind (ic_rootfs a), PivotRoot, ChdirRoot, UmountOld} \<subseteq> set (sb_calls S)"
    using True mounts_ok [of fs a] mounts_pivot [of a fs] unfolding calls set_append by blast
  show ?thesis unfolding e child.case
  proof (intro conjI)
    show "ic_seccomp_deny a \<longrightarrow> (if pf_macros pf \<and> pf_seccomp pf
          \<and> (sb_no_new_privs S \<or> \<not> ic_drop_caps a \<and> CAP_SYS_ADMIN \<in> effective (sb_caps S0))
        then (\<exists>F. sb_filter S = Some F \<and> (\<forall>nr acc. bpf_run F nr acc =
               Some (if nr \<in> {SYS_unshare pf, SYS_setns pf, SYS_mount pf, SYS_pivot_root pf, SYS_ptrace pf}
                     then RET_EPERM else SECCOMP_RET_ALLOW)))
        else sb_filter S = None)"
      unfolding filt iso_install_seccomp_def eff by (auto simp: filter_run)
    show "ic_drop_caps a \<longrightarrow> effective (sb_caps S) = {} \<and> permitted (sb_caps S) = {} \<and> inheritable (sb_caps S) = {}
        \<and> (CAP_SETPCAP \<in> effective (sb_caps S0) \<longrightarrow> bounding (sb_caps S) = bounding (sb_caps S0) - {..<64})"
      using caps caps_dropped [of "sb_caps S0"] by simp
  qed (use host nnp caps root in simp_all)
next
  case False
  obtain n cs where cs: "iso_mounts fs a = (n, cs)" "n \<noteq> 0" using False by (cases "iso_mounts fs a") simp
  then have "iso_child_entry pf fs a S0 = Exit 125" by (simp only: iso_child_entry_def Let_def cs prod.case) simp
  then show ?thesis using mounts_ok False by simp
qed

definition demo_args :: "bool \<Rightarrow> iso_child_args" where
  "demo_args nnp = \<lparr>ic_argv = [[108]], ic_in_fd = 3, ic_out_fd = 6, ic_ns_flags = 7, ic_rootfs = [47], ic_hostname = [104],
     ic_drop_caps = True, ic_no_new_privs = nnp, ic_seccomp_deny = True\<rparr>"

text \<open>
  Dropped capabilities and the filter without no-new-privileges give an unfiltered child on x86-64; with
  them, on arm64, mount (number 40) is refused and number 165, the mount of x86-64, is not.  Both run
  under their old name when \<^verbatim>\<open>sethostname\<close> fails.
\<close>

theorem sandbox_exact_witness:
  "\<exists>S S' F. iso_child_entry linux_x86_64 (\<lambda>c. c \<noteq> Sethostname [104]) (demo_args False) (fresh_sandbox demo_parent (fds demo_os)) = Exec [[108]] S
     \<and> effective (sb_caps S) = {} \<and> ic_seccomp_deny (demo_args False) \<and> sb_filter S = None \<and> sb_hostname S = None
     \<and> iso_child_entry linux_aarch64 (\<lambda>c. c \<noteq> Sethostname [104]) (demo_args True) (fresh_sandbox demo_parent (fds demo_os)) = Exec [[108]] S'
     \<and> sb_filter S' = Some F \<and> bpf_run F 40 0 = Some RET_EPERM \<and> bpf_run F 165 0 = Some SECCOMP_RET_ALLOW"
proof -
  let ?S0 = "fresh_sandbox demo_parent (fds demo_os)"
  let ?fs = "\<lambda>c. c \<noteq> Sethostname [104]"
  have f: "ic_argv (demo_args n) = [[108]]" "ic_drop_caps (demo_args n)" "ic_seccomp_deny (demo_args n)"
    "ic_no_new_privs (demo_args n) = n" "ic_hostname (demo_args n) = [104]" "\<not> sb_no_new_privs ?S0" "sb_hostname ?S0 = None" for n
    by (simp_all add: demo_args_def fresh_sandbox_def demo_parent_def)
  have "fst (iso_mounts ?fs (demo_args n)) = 0" for n by (simp add: mounts_ok root_entered_def)
  then have run: "\<exists>S. iso_child_entry pf ?fs (demo_args n) ?S0 = Exec [[108]] S" for pf n using iso_runs f(1) by metis
  obtain S where S: "iso_child_entry linux_x86_64 ?fs (demo_args False) ?S0 = Exec [[108]] S" using run by blast
  obtain S' where S': "iso_child_entry linux_aarch64 ?fs (demo_args True) ?S0 = Exec [[108]] S'" using run by blast
  have "effective (sb_caps S) = {} \<and> sb_filter S = None \<and> sb_hostname S = None"
    using sandbox_exact [where a = "demo_args False" and fs = ?fs and pf = linux_x86_64 and ?S0.0 = ?S0] S f by simp
  moreover obtain F where "sb_filter S' = Some F" "bpf_run F 40 0 = Some RET_EPERM" "bpf_run F 165 0 = Some SECCOMP_RET_ALLOW"
    using sandbox_exact [where a = "demo_args True" and fs = ?fs and pf = linux_aarch64 and ?S0.0 = ?S0] S' f
    by (auto simp: linux_aarch64_def)
  ultimately show ?thesis using S S' f(3) by blast
qed

text \<open>In a new user namespace the child starts with every capability, whatever its parent has.\<close>

lemma user_namespace_caps:
  assumes "kyte_process_spawn_isolated True pf alloc mmap clone fs P cmd args_str q K = (Some c, Some (Exec argv S), K')"
    and "wants (sr_ns_flags q) KYTE_NS_USER" "\<not> sr_drop_caps q"
  shows "effective (sb_caps S) = {..pf_last_cap pf}"
proof -
  obtain a T where a: "ic_drop_caps a = sr_drop_caps q"
    and e: "iso_child_entry pf fs a (fresh_sandbox (P\<lparr>pa_caps := cloned_caps pf (wants (sr_ns_flags q) KYTE_NS_USER) (pa_caps P)\<rparr>) T) = Exec argv S"
    using iso_spawn_run [OF assms(1)] by blast
  let ?S0 = "fresh_sandbox (P\<lparr>pa_caps := cloned_caps pf (wants (sr_ns_flags q) KYTE_NS_USER) (pa_caps P)\<rparr>) T"
  from e have "fst (iso_mounts fs a) = 0" by (auto simp: iso_child_entry_def Let_def split: prod.splits if_splits)
  then obtain S' where "iso_child_entry pf fs a ?S0 = Exec (ic_argv a) S'"
    "sb_caps S' = (if ic_drop_caps a then iso_drop_caps (sb_caps ?S0) else sb_caps ?S0)"
    using iso_runs by blast
  then have "sb_caps S = cloned_caps pf True (pa_caps P)" using e a assms(2,3) by (simp add: fresh_sandbox_def)
  then show ?thesis by (simp add: cloned_caps_def)
qed

section \<open>The end of a child\<close>

lemma wait_loop_first:
  assumes "\<And>j. j < k \<Longrightarrow> fst (w (i + j)) < 0 \<and> fst (snd (w (i + j)))" and "\<not> (fst (w (i + k)) < 0 \<and> fst (snd (w (i + k))))"
  shows "wait_loop w i = Some (fst (w (i + k)), snd (snd (w (i + k))))"
  using assms
proof (induction k arbitrary: i)
  case 0
  then show ?case by (subst wait_loop.simps) (auto split: prod.splits)
next
  case (Suc k)
  have "wait_loop w (i + 1) = Some (fst (w (i + 1 + k)), snd (snd (w (i + 1 + k))))"
    by (rule Suc.IH) (use Suc.prems in \<open>force simp: add.commute\<close>)+
  moreover have "fst (w i) < 0 \<and> fst (snd (w i))" using Suc.prems(1) [of 0] by simp
  ultimately show ?case by (subst wait_loop.simps) (auto split: prod.splits)
qed

lemma signal_test: "0 \<le> s \<Longrightarrow> s < 128 \<Longrightarrow> 0 < sint (word_of_int (s + 1) :: u8) div 2 \<longleftrightarrow> 1 \<le> s \<and> s \<le> 126"
proof -
  assume s: "0 \<le> s" "s < 128"
  show ?thesis
  proof (cases "s = 127")
    case False
    have e: "sint (word_of_int x :: u8) = x" if "0 \<le> x" "x < 128" for x
      using that by (simp add: sint_sbintrunc' signed_take_bit_int_eq_self)
    have "sint (word_of_int (s + 1) :: u8) = s + 1" by (rule e) (use s False in auto)
    then show ?thesis using s False by (simp only:) auto
  qed simp
qed

lemma exit_code_normal: "0 \<le> code \<Longrightarrow> code < 256 \<Longrightarrow> exit_code_of (code * 256) = code"
proof -
  assume "0 \<le> code" "code < 256"
  moreover have "code * 256 mod 128 = 0" by presburger
  ultimately show ?thesis by (simp add: exit_code_of_def WIFEXITED_def WEXITSTATUS_def)
qed

lemma exit_code_signal: "1 \<le> sig \<Longrightarrow> sig \<le> 126 \<Longrightarrow> core \<in> {0, 128} \<Longrightarrow> exit_code_of (core + sig) = 128 + sig"
proof -
  assume a: "1 \<le> sig" "sig \<le> 126" "core \<in> {0, 128}"
  then have "(core + sig) mod 128 = sig" by auto
  then show ?thesis using a signal_test [of sig] by (simp add: exit_code_of_def WIFEXITED_def WIFSIGNALED_def)
qed

text \<open>
  Property C32 (process_wait_exact).  If \<^verbatim>\<open>waitpid\<close> ever answers with something other than an
  interruption, waiting returns: the exit status of a child that exited, 128 plus the signal of one that
  was killed.  The child's input is closed first, so that it can end; the child is reaped once, a second
  wait answers from the handle without asking the kernel, whatever it would say.
\<close>

theorem process_wait_exact:
  assumes c: "\<not> pc_reaped c" and eintr: "\<And>j. j < k \<Longrightarrow> fst (w j) < 0 \<and> fst (snd (w j))"
    and st: "w k = (pc_pid c, e, status)" "0 < pc_pid c"
    and code: "(0 \<le> code \<and> code < 256 \<and> status = code * 256) \<or> (129 \<le> code \<and> code \<le> 254 \<and> status \<in> {code - 128, code})"
  shows "\<exists>c' K'. kyte_process_wait w (Some c) K = Some (code, Some c', K') \<and> pc_reaped c' \<and> pc_in_fd c' < 0
    \<and> (0 \<le> pc_in_fd c \<longrightarrow> fds K' (pc_in_fd c) = None) \<and> pc_out_fd c' = pc_out_fd c
    \<and> kyte_process_wait w' (Some c') K' = Some (code, Some c', K') \<and> kyte_process_try_wait w' (Some c') = Some (code, Some c')"
proof -
  have "wait_loop w 0 = Some (fst (w (0 + k)), snd (snd (w (0 + k))))" by (rule wait_loop_first) (use eintr st in auto)
  then have wl: "wait_loop w 0 = Some (pc_pid c, status)" using st by simp
  have ex: "exit_code_of status = code"
    using code exit_code_normal [of code] exit_code_signal [of "code - 128" 0] exit_code_signal [of "code - 128" 128] by auto
  show ?thesis using c st wl ex by (auto simp: kyte_process_wait_def kyte_process_try_wait_def Let_def)
qed

theorem process_wait_exact_witness:
  "\<exists>c' K'. kyte_process_wait (\<lambda>j. if j = 0 then (- 1, True, 0) else (77, False, 9)) (Some (new_context 77 4 5)) demo_os
     = Some (137, Some c', K') \<and> pc_reaped c'"
proof -
  have c: "\<not> pc_reaped (new_context 77 4 5)" "pc_pid (new_context 77 4 5) = 77" by (simp_all add: new_context_def)
  show ?thesis
    using process_wait_exact [where w = "\<lambda>j. if j = 0 then (- 1, True, 0) else (77, False, 9)" and w' = "\<lambda>j. (0, False, 0)"
        and k = 1 and c = "new_context 77 4 5" and e = False and status = 9 and code = 137 and K = demo_os] c
    by auto
qed

text \<open>Reaping does not stop the handle from signalling the number, which may belong to another process by then.\<close>

lemma kill_after_reap:
  "pc_reaped c \<Longrightarrow> 0 < pc_pid c \<Longrightarrow> snd (kyte_process_kill kill (Some c) sig) = Some (pc_pid c, sig)"
  by (simp add: kyte_process_kill_def)

lemma long_input_cut:
  "64 * 1024 * 1024 < len \<Longrightarrow> 0 \<le> pc_in_fd c \<Longrightarrow>
     kyte_process_write_stdin write (Some c) (Some (len, body)) = write (pc_in_fd c) (takeWhile (\<lambda>b. b \<noteq> 0) body)"
  by (simp add: kyte_process_write_stdin_def takeWhile_eq_take [symmetric])

end
