(* ===== verification/Kyte_Crypto.thy ===== *)
theory Kyte_Crypto
  imports Kyte_Memory
begin

text \<open>
  \<^verbatim>\<open>src/runtime/crypto.cpp\<close>: the portable AES block and counter mode, the entropy loop, the CPU
  feature probe, the dispatch to the assembly kernels and the limb set-up of one-shot Poly1305.  A block
  and a key schedule are byte lists.  The assembly kernels are not C++ and are parameters, as are CPUID
  and the entropy sources of the systems.
\<close>

section \<open>AES\<close>

definition KYTE_SBOX :: bytes where
  "KYTE_SBOX = [
   99, 124, 119, 123, 242, 107, 111, 197, 48, 1, 103, 43, 254, 215, 171, 118,
   202, 130, 201, 125, 250, 89, 71, 240, 173, 212, 162, 175, 156, 164, 114, 192,
   183, 253, 147, 38, 54, 63, 247, 204, 52, 165, 229, 241, 113, 216, 49, 21,
   4, 199, 35, 195, 24, 150, 5, 154, 7, 18, 128, 226, 235, 39, 178, 117,
   9, 131, 44, 26, 27, 110, 90, 160, 82, 59, 214, 179, 41, 227, 47, 132,
   83, 209, 0, 237, 32, 252, 177, 91, 106, 203, 190, 57, 74, 76, 88, 207,
   208, 239, 170, 251, 67, 77, 51, 133, 69, 249, 2, 127, 80, 60, 159, 168,
   81, 163, 64, 143, 146, 157, 56, 245, 188, 182, 218, 33, 16, 255, 243, 210,
   205, 12, 19, 236, 95, 151, 68, 23, 196, 167, 126, 61, 100, 93, 25, 115,
   96, 129, 79, 220, 34, 42, 144, 136, 70, 238, 184, 20, 222, 94, 11, 219,
   224, 50, 58, 10, 73, 6, 36, 92, 194, 211, 172, 98, 145, 149, 228, 121,
   231, 200, 55, 109, 141, 213, 78, 169, 108, 86, 244, 234, 101, 122, 174, 8,
   186, 120, 37, 46, 28, 166, 180, 198, 232, 221, 116, 31, 75, 189, 139, 138,
   112, 62, 181, 102, 72, 3, 246, 14, 97, 53, 87, 185, 134, 193, 29, 158,
   225, 248, 152, 17, 105, 217, 142, 148, 155, 30, 135, 233, 206, 85, 40, 223,
   140, 161, 137, 13, 191, 230, 66, 104, 65, 153, 45, 15, 176, 84, 187, 22]"

definition xtime :: "u8 \<Rightarrow> u8" where
  "xtime a = push_bit 1 a XOR drop_bit 7 a * 0x1b"

definition add_round_key :: "bytes \<Rightarrow> nat \<Rightarrow> bytes \<Rightarrow> bytes" where
  "add_round_key rk round s = map (\<lambda>i. s ! i XOR rk ! (round * 16 + i)) [0..<16]"

definition sub_bytes :: "bytes \<Rightarrow> bytes" where
  "sub_bytes s = map (\<lambda>b. KYTE_SBOX ! unat b) s"

text \<open>The assignments of ShiftRows in their order.\<close>

definition shift_rows :: "bytes \<Rightarrow> bytes" where
  "shift_rows s =
     (let t = s ! 1; s = s[1 := s ! 5]; s = s[5 := s ! 9]; s = s[9 := s ! 13]; s = s[13 := t];
          t = s ! 2; s = s[2 := s ! 10]; s = s[10 := t];
          t = s ! 6; s = s[6 := s ! 14]; s = s[14 := t];
          t = s ! 15; s = s[15 := s ! 11]; s = s[11 := s ! 7]; s = s[7 := s ! 3]; s = s[3 := t] in s)"

definition mix_column :: "u8 \<Rightarrow> u8 \<Rightarrow> u8 \<Rightarrow> u8 \<Rightarrow> bytes" where
  "mix_column a0 a1 a2 a3 =
     (let h = a0 XOR a1 XOR a2 XOR a3 in
      [a0 XOR h XOR xtime (a0 XOR a1), a1 XOR h XOR xtime (a1 XOR a2),
       a2 XOR h XOR xtime (a2 XOR a3), a3 XOR h XOR xtime (a3 XOR a0)])"

definition mix_columns :: "bytes \<Rightarrow> bytes" where
  "mix_columns s = concat (map (\<lambda>c. mix_column (s ! (4 * c)) (s ! (4 * c + 1)) (s ! (4 * c + 2)) (s ! (4 * c + 3))) [0..<4])"

definition aes_round :: "bytes \<Rightarrow> nat \<Rightarrow> nat \<Rightarrow> bytes \<Rightarrow> bytes" where
  "aes_round rk nr round s =
     (let s = shift_rows (sub_bytes s);
          s = (if round \<noteq> nr then mix_columns s else s) in
      add_round_key rk round s)"

definition kyte_aes_encrypt_block_c :: "bytes \<Rightarrow> nat \<Rightarrow> bytes \<Rightarrow> bytes" where
  "kyte_aes_encrypt_block_c rk nr inp = fold (aes_round rk nr) [1..<Suc nr] (add_round_key rk 0 inp)"

section \<open>Counter mode\<close>

text \<open>The big-endian increment of the last four bytes, from the last one down.\<close>

fun inc_loop :: "nat list \<Rightarrow> bytes \<Rightarrow> bytes" where
  "inc_loop [] ctr = ctr"
| "inc_loop (i # js) ctr =
     (let ctr = ctr[i := ctr ! i + 1] in if ctr ! i \<noteq> 0 then ctr else inc_loop js ctr)"

definition inc_ctr :: "bytes \<Rightarrow> bytes" where
  "inc_ctr = inc_loop [15, 14, 13, 12]"

function ctr_mode :: "(bytes \<Rightarrow> bytes) \<Rightarrow> bytes \<Rightarrow> bytes \<Rightarrow> bytes \<times> bytes" where
  "ctr_mode E ctr inp =
     (if inp = [] then ([], ctr)
      else
        (let ks = E ctr;
             n = min (length inp) 16;
             out = map (\<lambda>i. inp ! i XOR ks ! i) [0..<n];
             (rest, last) = ctr_mode E (inc_ctr ctr) (drop n inp) in
         (out @ rest, last)))"
  by pat_completeness auto
termination by (relation "measure (\<lambda>(_, _, inp). length inp)") auto

declare ctr_mode.simps [simp del]

definition kyte_aes_ctr_c :: "bytes \<Rightarrow> nat \<Rightarrow> bytes \<Rightarrow> bytes \<Rightarrow> bytes \<times> bytes" where
  "kyte_aes_ctr_c rk nr ctr inp = ctr_mode (kyte_aes_encrypt_block_c rk nr) ctr inp"

section \<open>Entropy\<close>

text \<open>
  \<open>getentropy off n\<close> are the bytes the call for \<open>buf + off\<close> delivers, None when it fails; the loop
  stops the process then.  On Windows one call fills the buffer, its length cut to 32 bits.
\<close>

function getrandom_loop :: "(int \<Rightarrow> nat \<Rightarrow> bytes option) \<Rightarrow> addr \<Rightarrow> int \<Rightarrow> int \<Rightarrow> memory \<Rightarrow> memory outcome" where
  "getrandom_loop getentropy buf n off m =
     (if off < n then
        (let chunk = nat (min (n - off) 256) in
         case getentropy off chunk of
           None \<Rightarrow> Trap
         | Some bs \<Rightarrow> getrandom_loop getentropy buf n (off + int chunk) (wr m (buf + off) bs))
      else Ok m)"
  by pat_completeness auto
termination by (relation "measure (\<lambda>(_, _, n, off, _). nat (n - off))") auto

declare getrandom_loop.simps [simp del]

definition kyte_getrandom :: "(int \<Rightarrow> nat \<Rightarrow> bytes option) \<Rightarrow> addr \<Rightarrow> int \<Rightarrow> memory \<Rightarrow> memory outcome" where
  "kyte_getrandom getentropy buf n m = getrandom_loop getentropy buf n 0 m"

definition kyte_getrandom_windows :: "(nat \<Rightarrow> bytes option) \<Rightarrow> addr \<Rightarrow> int \<Rightarrow> memory \<Rightarrow> memory outcome" where
  "kyte_getrandom_windows bcrypt buf n m =
     (case bcrypt (unat (word_of_int n :: u32)) of None \<Rightarrow> Trap | Some bs \<Rightarrow> Ok (wr m buf bs))"

section \<open>The CPU and the dispatch\<close>

record features =
  ssse3 :: bool
  sse41 :: bool
  aes :: bool
  pclmul :: bool
  sha :: bool
  avx2 :: bool
  asm_disabled :: bool

text \<open>\<open>leaf n\<close> are the registers a, b, c, d of CPUID leaf \<open>n\<close>, None if the leaf is not there; \<open>off\<close> is KYTE_NO_ASM_CRYPTO.\<close>

definition kyte_x86_detect :: "string option \<Rightarrow> (nat \<Rightarrow> (u32 \<times> u32 \<times> u32 \<times> u32) option) \<Rightarrow> features" where
  "kyte_x86_detect off leaf =
     (let f = \<lparr>ssse3 = False, sse41 = False, aes = False, pclmul = False, sha = False, avx2 = False,
               asm_disabled = (case off of None \<Rightarrow> False | Some s \<Rightarrow> s \<noteq> [] \<and> hd s = CHR ''1'')\<rparr>;
          f = (case leaf 1 of
                 None \<Rightarrow> f
               | Some (a, b, c, d) \<Rightarrow> f\<lparr>pclmul := bit c 1, ssse3 := bit c 9, sse41 := bit c 19, aes := bit c 25\<rparr>) in
      case leaf 7 of
        None \<Rightarrow> f
      | Some (a, b, c, d) \<Rightarrow> f\<lparr>avx2 := bit b 5, sha := bit b 29\<rparr>)"

text \<open>The builds: the host architecture and whether the x86-64 assembly is linked.\<close>

datatype build = Arm64_Apple | Arm64_Linux bool bool | Arm64_Other | X86_Asm features | X86_Plain features | Portable

definition kyte_cpu_has_aes :: "build \<Rightarrow> int" where
  "kyte_cpu_has_aes b =
     (case b of
        Arm64_Apple \<Rightarrow> 1
      | Arm64_Linux hw_aes hw_pmull \<Rightarrow> (if hw_aes \<and> hw_pmull then 1 else 0)
      | Arm64_Other \<Rightarrow> 0
      | X86_Asm f \<Rightarrow> (if aes f \<and> pclmul f then 1 else 0)
      | X86_Plain f \<Rightarrow> (if aes f \<and> pclmul f then 1 else 0)
      | Portable \<Rightarrow> 0)"

definition kyte_has_asm_crypto :: "build \<Rightarrow> int" where
  "kyte_has_asm_crypto b =
     (case b of
        X86_Asm f \<Rightarrow> (if asm_disabled f then 0 else if aes f \<and> pclmul f \<and> ssse3 f \<and> sse41 f then 1 else 0)
      | X86_Plain f \<Rightarrow> 0
      | Portable \<Rightarrow> 0
      | _ \<Rightarrow> 1)"

text \<open>
  The x86-64 dispatchers over the feature record, None for the builds without the assembly.  A kernel
  is any function of its arguments.
\<close>

definition kyte_aes_encrypt_block :: "features option \<Rightarrow> (bytes \<Rightarrow> nat \<Rightarrow> bytes \<Rightarrow> bytes) \<Rightarrow> bytes \<Rightarrow> nat \<Rightarrow> bytes \<Rightarrow> bytes" where
  "kyte_aes_encrypt_block f aesni rk nr inp =
     (case f of
        None \<Rightarrow> kyte_aes_encrypt_block_c rk nr inp
      | Some f \<Rightarrow> (if aes f then aesni rk nr inp else kyte_aes_encrypt_block_c rk nr inp))"

definition kyte_aes_ctr ::
    "features option \<Rightarrow> (bytes \<Rightarrow> nat \<Rightarrow> bytes \<Rightarrow> bytes \<Rightarrow> bytes \<times> bytes) \<Rightarrow> bytes \<Rightarrow> nat \<Rightarrow> bytes \<Rightarrow> bytes \<Rightarrow> bytes \<times> bytes" where
  "kyte_aes_ctr f aesni rk nr ctr inp =
     (case f of
        None \<Rightarrow> kyte_aes_ctr_c rk nr ctr inp
      | Some f \<Rightarrow> (if aes f \<and> sse41 f then aesni rk nr ctr inp else kyte_aes_ctr_c rk nr ctr inp))"

definition kyte_ghash :: "features option \<Rightarrow> ('a \<Rightarrow> 'b) \<Rightarrow> 'a \<Rightarrow> 'b outcome" where
  "kyte_ghash f clmul x =
     (case f of None \<Rightarrow> Trap | Some f \<Rightarrow> if \<not> (pclmul f \<and> ssse3 f) then Trap else Ok (clmul x))"

definition kyte_gcm_seal :: "features option \<Rightarrow> ('a \<Rightarrow> 'b) \<Rightarrow> 'a \<Rightarrow> 'b outcome" where
  "kyte_gcm_seal f aesni x =
     (case f of None \<Rightarrow> Trap | Some f \<Rightarrow> if \<not> (aes f \<and> sse41 f \<and> pclmul f \<and> ssse3 f) then Trap else Ok (aesni x))"

definition kyte_chacha20_xor :: "features option \<Rightarrow> ('a \<Rightarrow> 'b) \<Rightarrow> 'a \<Rightarrow> 'b outcome" where
  "kyte_chacha20_xor f sse x = (case f of None \<Rightarrow> Trap | Some f \<Rightarrow> if \<not> ssse3 f then Trap else Ok (sse x))"

definition kyte_sha256_blocks :: "features option \<Rightarrow> ('a \<Rightarrow> 'b) \<Rightarrow> ('a \<Rightarrow> 'b) \<Rightarrow> 'a \<Rightarrow> 'b outcome" where
  "kyte_sha256_blocks f shani sse x =
     (case f of
        None \<Rightarrow> Trap
      | Some f \<Rightarrow> if sha f \<and> sse41 f then Ok (shani x) else if \<not> ssse3 f then Trap else Ok (sse x))"

definition kyte_sha512_blocks :: "features option \<Rightarrow> ('a \<Rightarrow> 'b) \<Rightarrow> 'a \<Rightarrow> 'b outcome" where
  "kyte_sha512_blocks f sse x = (case f of None \<Rightarrow> Trap | Some f \<Rightarrow> if \<not> ssse3 f then Trap else Ok (sse x))"

definition kyte_poly1305_blocks :: "features option \<Rightarrow> ('a \<Rightarrow> 'b) \<Rightarrow> 'a \<Rightarrow> 'b outcome" where
  "kyte_poly1305_blocks f x64 x = (case f of None \<Rightarrow> Trap | Some _ \<Rightarrow> Ok (x64 x))"

definition kyte_poly1305_finish :: "features option \<Rightarrow> ('a \<Rightarrow> 'b) \<Rightarrow> 'a \<Rightarrow> 'b outcome" where
  "kyte_poly1305_finish f x64 x = (case f of None \<Rightarrow> Trap | Some _ \<Rightarrow> Ok (x64 x))"

text \<open>The state of one-shot Poly1305: three limbs of the clamped key, the two multiples, the sum.\<close>

definition poly1305_state :: "bytes \<Rightarrow> u64 list" where
  "poly1305_state key =
     (let t0 = le_word (take 8 key);
          t1 = le_word (take 8 (drop 8 key));
          s0 = t0 AND 0x00000ffc0fffffff;
          s1 = (drop_bit 44 t0 OR push_bit 20 t1) AND 0x00000fffffc0ffff;
          s2 = drop_bit 24 t1 AND 0x00000ffffffc0f in
      [s0, s1, s2, s1 * 20, s2 * 20, 0, 0, 0])"

text \<open>\<open>blocks st data n\<close> and \<open>finish st tail n padLo padHi\<close> are the kernels.\<close>

definition kyte_poly1305 ::
    "features option \<Rightarrow> (u64 list \<Rightarrow> bytes \<Rightarrow> nat \<Rightarrow> u64 list) \<Rightarrow> (u64 list \<Rightarrow> bytes \<Rightarrow> nat \<Rightarrow> u64 \<Rightarrow> u64 \<Rightarrow> bytes) \<Rightarrow>
      bytes \<Rightarrow> bytes \<Rightarrow> bytes outcome" where
  "kyte_poly1305 f blocks finish key msg =
     (case f of
        None \<Rightarrow> Trap
      | Some _ \<Rightarrow>
          (let padLo = le_word (take 8 (drop 16 key));
               padHi = le_word (take 8 (drop 24 key));
               n = length msg div 16;
               st = blocks (poly1305_state key) msg n in
           Ok (finish st (drop (n * 16) msg) (length msg mod 16) padLo padHi)))"

end
