(* ===== verification/Kyte_Aes.thy ===== *)
theory Kyte_Aes
  imports Kyte_Crypto
begin

text \<open>
  The portable AES of \<^verbatim>\<open>src/runtime/crypto.cpp\<close> against the standard: its table is the affine image of
  the inverse in the field with 256 elements, its column mixing is the product with the matrix, the
  block function is a permutation, and it is the cipher of FIPS-197.
\<close>

section \<open>The S-box\<close>

definition INV_SBOX :: bytes where
  "INV_SBOX = [
   82, 9, 106, 213, 48, 54, 165, 56, 191, 64, 163, 158, 129, 243, 215, 251,
   124, 227, 57, 130, 155, 47, 255, 135, 52, 142, 67, 68, 196, 222, 233, 203,
   84, 123, 148, 50, 166, 194, 35, 61, 238, 76, 149, 11, 66, 250, 195, 78,
   8, 46, 161, 102, 40, 217, 36, 178, 118, 91, 162, 73, 109, 139, 209, 37,
   114, 248, 246, 100, 134, 104, 152, 22, 212, 164, 92, 204, 93, 101, 182, 146,
   108, 112, 72, 80, 253, 237, 185, 218, 94, 21, 70, 87, 167, 141, 157, 132,
   144, 216, 171, 0, 140, 188, 211, 10, 247, 228, 88, 5, 184, 179, 69, 6,
   208, 44, 30, 143, 202, 63, 15, 2, 193, 175, 189, 3, 1, 19, 138, 107,
   58, 145, 17, 65, 79, 103, 220, 234, 151, 242, 207, 206, 240, 180, 230, 115,
   150, 172, 116, 34, 231, 173, 53, 133, 226, 249, 55, 232, 28, 117, 223, 110,
   71, 241, 26, 113, 29, 41, 197, 137, 111, 183, 98, 14, 170, 24, 190, 27,
   252, 86, 62, 75, 198, 210, 121, 32, 154, 219, 192, 254, 120, 205, 90, 244,
   31, 221, 168, 51, 136, 7, 199, 49, 177, 18, 16, 89, 39, 128, 236, 95,
   96, 81, 127, 169, 25, 181, 74, 13, 45, 229, 122, 159, 147, 201, 156, 239,
   160, 224, 59, 77, 174, 42, 245, 176, 200, 235, 187, 60, 131, 83, 153, 97,
   23, 43, 4, 126, 186, 119, 214, 38, 225, 105, 20, 99, 85, 33, 12, 125]"

text \<open>The powers of the generator 3 of the multiplicative group.\<close>

definition POWERS :: bytes where
  "POWERS = [1, 3, 5, 15, 17, 51, 85, 255, 26, 46, 114, 150, 161, 248, 19, 53, 95, 225, 56, 72, 216, 115, 149, 164, 247, 
   2, 6, 10, 30, 34, 102, 170, 229, 52, 92, 228, 55, 89, 235, 38, 106, 190, 217, 112, 144, 171, 230, 49, 83, 
   245, 4, 12, 20, 60, 68, 204, 79, 209, 104, 184, 211, 110, 178, 205, 76, 212, 103, 169, 224, 59, 77, 215, 98, 
   166, 241, 8, 24, 40, 120, 136, 131, 158, 185, 208, 107, 189, 220, 127, 129, 152, 179, 206, 73, 219, 118, 154, 
   181, 196, 87, 249, 16, 48, 80, 240, 11, 29, 39, 105, 187, 214, 97, 163, 254, 25, 43, 125, 135, 146, 173, 236, 
   47, 113, 147, 174, 233, 32, 96, 160, 251, 22, 58, 78, 210, 109, 183, 194, 93, 231, 50, 86, 250, 21, 63, 65, 
   195, 94, 226, 61, 71, 201, 64, 192, 91, 237, 44, 116, 156, 191, 218, 117, 159, 186, 213, 100, 172, 239, 42, 
   126, 130, 157, 188, 223, 122, 142, 137, 128, 155, 182, 193, 88, 232, 35, 101, 175, 234, 37, 111, 177, 200, 
   67, 197, 84, 252, 31, 33, 99, 165, 244, 7, 9, 27, 45, 119, 153, 176, 203, 70, 202, 69, 207, 74, 222, 121, 
   139, 134, 145, 168, 227, 62, 66, 198, 81, 243, 14, 18, 54, 90, 238, 41, 123, 141, 140, 143, 138, 133, 148, 
   167, 242, 13, 23, 57, 75, 221, 124, 132, 151, 162, 253, 28, 36, 108, 180, 199, 82, 246]"

definition times3 :: "u8 \<Rightarrow> u8" where
  "times3 x = xtime x XOR x"

definition rotl :: "nat \<Rightarrow> u8 \<Rightarrow> u8" where
  "rotl n b = push_bit n b OR drop_bit (8 - n) b"

definition affine :: "u8 \<Rightarrow> u8" where
  "affine b = b XOR rotl 1 b XOR rotl 2 b XOR rotl 3 b XOR rotl 4 b XOR 0x63"

lemma powers_cycle: "map times3 POWERS = rotate1 POWERS"
  by (simp add: POWERS_def times3_def xtime_def)

lemma sbox_at_powers: "map (\<lambda>x. KYTE_SBOX ! unat x) POWERS = map affine (hd POWERS # rev (tl POWERS))"
  by (simp add: POWERS_def KYTE_SBOX_def affine_def rotl_def)

lemma length_powers: "length POWERS = 255"
  by (simp add: POWERS_def)

lemma powers_nth: "k < 255 \<Longrightarrow> POWERS ! k = (times3 ^^ k) 1"
proof (induction k)
  case 0
  then show ?case by (simp add: POWERS_def)
next
  case (Suc k)
  have "map times3 POWERS ! k = rotate1 POWERS ! k" by (simp add: powers_cycle)
  then show ?case using Suc length_powers by (simp add: nth_rotate1)
qed

lemma powers_period: "(times3 ^^ 255) 1 = (1 :: u8)"
proof -
  have "map times3 POWERS ! 254 = rotate1 POWERS ! 254" by (simp add: powers_cycle)
  then have "times3 (POWERS ! 254) = POWERS ! 0" using length_powers by (simp add: nth_rotate1)
  then have "times3 ((times3 ^^ 254) 1) = 1" using powers_nth [of 254] powers_nth [of 0] by simp
  then have "(times3 ^^ Suc 254) 1 = (1 :: u8)" by (simp only: funpow.simps o_apply)
  then show ?thesis by simp
qed

text \<open>The S-box maps a power of 3 to the affine image of its inverse.\<close>

lemma sbox_inverse_affine:
  assumes "k < 255"
  shows "KYTE_SBOX ! unat ((times3 ^^ k) 1) = affine ((times3 ^^ ((255 - k) mod 255)) 1)"
proof -
  have "map (\<lambda>x. KYTE_SBOX ! unat x) POWERS ! k = map affine (hd POWERS # rev (tl POWERS)) ! k" by (simp only: sbox_at_powers)
  moreover have "(hd POWERS # rev (tl POWERS)) ! k = POWERS ! ((255 - k) mod 255)"
  proof (cases k)
    case 0
    have "POWERS \<noteq> []" using length_powers by auto
    then show ?thesis using 0 by (simp add: hd_conv_nth)
  next
    case (Suc j)
    then have j: "j < length (tl POWERS)" using assms length_powers by simp
    have "rev (tl POWERS) ! j = tl POWERS ! (253 - j)" using rev_nth [OF j] length_powers by simp
    also have "\<dots> = POWERS ! (254 - j)" using j length_powers assms Suc by (simp add: nth_tl Suc_diff_le [symmetric])
    finally show ?thesis using Suc assms by simp
  qed
  moreover have "map affine (hd POWERS # rev (tl POWERS)) ! k = affine ((hd POWERS # rev (tl POWERS)) ! k)"
    by (rule nth_map) (use assms length_powers in simp)
  moreover have "POWERS ! ((255 - k) mod 255) = (times3 ^^ ((255 - k) mod 255)) 1" by (rule powers_nth) simp
  ultimately show ?thesis using assms length_powers powers_nth [of k] by (simp del: list.map)
qed

lemma inv_sbox_table: "map (\<lambda>x. INV_SBOX ! unat x) KYTE_SBOX = map word_of_nat [0..<256]"
  by (simp add: INV_SBOX_def KYTE_SBOX_def upt_rec)

lemma inv_sbox: "INV_SBOX ! unat (KYTE_SBOX ! unat b) = b"
proof -
  have "unat b < 2 ^ LENGTH(8)" by (rule unsigned_less)
  then have b: "unat b < 256" by simp
  have l: "length KYTE_SBOX = 256" by (simp add: KYTE_SBOX_def)
  have "map (\<lambda>x. INV_SBOX ! unat x) KYTE_SBOX ! unat b = (map word_of_nat [0..<256] :: bytes) ! unat b" by (simp only: inv_sbox_table)
  then show ?thesis using b l by simp
qed

section \<open>MixColumns\<close>

lemma xtime_bits: "xtime a = push_bit 1 a XOR (if bit a 7 then 0x1b else 0)"
proof -
  have "drop_bit 7 a = (if bit a 7 then 1 else 0)"
  proof (rule bit_word_eqI)
    fix n
    show "bit (drop_bit 7 a) n = bit (if bit a 7 then 1 else 0 :: u8) n"
      using bit_imp_le_length [of a "7 + n"] by (cases n) (auto simp: bit_drop_bit_eq bit_1_iff)
  qed
  then show ?thesis by (simp add: xtime_def)
qed

lemma xtime_xor: "xtime (a XOR b) = xtime a XOR xtime b"
  by (simp add: xtime_bits push_bit_xor bit_xor_iff xor.assoc xor.left_commute)

lemmas xor_ac = xor.assoc xor.commute xor.left_commute

lemma xor_cancel: "a XOR (a XOR b) = (b :: u8)"
  by (simp add: xor.assoc [symmetric])

text \<open>The product with the FIPS-197 matrix: 2 and 3 times a byte are \<open>xtime\<close> and \<open>times3\<close>.\<close>

lemma mix_column_matrix:
  "mix_column a0 a1 a2 a3 =
     [xtime a0 XOR times3 a1 XOR a2 XOR a3, a0 XOR xtime a1 XOR times3 a2 XOR a3,
      a0 XOR a1 XOR xtime a2 XOR times3 a3, times3 a0 XOR a1 XOR a2 XOR xtime a3]"
  by (simp add: mix_column_def times3_def Let_def xtime_xor xor_ac xor_cancel)

definition x4 :: "u8 \<Rightarrow> u8" where
  "x4 a = xtime (xtime a)"

lemma x4_xor: "x4 (a XOR b) = x4 a XOR x4 b"
  by (simp add: x4_def xtime_xor)

definition mix_list :: "bytes \<Rightarrow> bytes" where
  "mix_list c = mix_column (c ! 0) (c ! 1) (c ! 2) (c ! 3)"

lemma mix_twice:
  "mix_list (mix_list [a0, a1, a2, a3]) =
     [a0 XOR x4 (a0 XOR a2), a1 XOR x4 (a1 XOR a3), a2 XOR x4 (a0 XOR a2), a3 XOR x4 (a1 XOR a3)]"
  by (simp add: mix_list_def mix_column_matrix times3_def x4_def xtime_xor xor_ac xor_cancel)

lemma mix_order_4: "(mix_list ^^ 4) [a0, a1, a2, a3] = [a0, a1, a2, a3]"
proof -
  have "(mix_list ^^ 4) c = mix_list (mix_list (mix_list (mix_list c)))" for c by (simp add: eval_nat_numeral)
  then show ?thesis unfolding mix_twice by (simp add: mix_twice x4_xor xor_ac xor_cancel)
qed

section \<open>The cipher is a permutation\<close>

definition unshift_rows :: "bytes \<Rightarrow> bytes" where
  "unshift_rows s = shift_rows (shift_rows (shift_rows s))"

definition unmix_columns :: "bytes \<Rightarrow> bytes" where
  "unmix_columns s = mix_columns (mix_columns (mix_columns s))"

definition aes_round_inv :: "bytes \<Rightarrow> nat \<Rightarrow> nat \<Rightarrow> bytes \<Rightarrow> bytes" where
  "aes_round_inv rk nr round s =
     (let s = add_round_key rk round s;
          s = (if round \<noteq> nr then unmix_columns s else s) in
      map (\<lambda>b. INV_SBOX ! unat b) (unshift_rows s))"

definition aes_decrypt_block :: "bytes \<Rightarrow> nat \<Rightarrow> bytes \<Rightarrow> bytes" where
  "aes_decrypt_block rk nr out = add_round_key rk 0 (fold (aes_round_inv rk nr) (rev [1..<Suc nr]) out)"

lemma block_cases:
  assumes "length s = 16"
  obtains a b c d e f g h i j k l m n p q where "s = [a, b, c, d, e, f, g, h, i, j, k, l, m, n, p, q]"
  using assms by (auto simp: numeral_eq_Suc length_Suc_conv)

lemma shift_rows_list:
  "shift_rows [a, b, c, d, e, f, g, h, i, j, k, l, m, n, p, q] = [a, f, k, q, e, j, p, d, i, n, c, h, m, b, g, l]"
  by (simp add: shift_rows_def)

lemma unshift_shift: "length s = 16 \<Longrightarrow> unshift_rows (shift_rows s) = s"
  by (erule block_cases) (simp add: unshift_rows_def shift_rows_list)

lemma length_shift_rows [simp]: "length (shift_rows s) = length s"
  by (simp add: shift_rows_def Let_def)

lemma mix_columns_list:
  "mix_columns [a, b, c, d, e, f, g, h, i, j, k, l, m, n, p, q] =
     mix_column a b c d @ mix_column e f g h @ mix_column i j k l @ mix_column m n p q"
  by (simp add: mix_columns_def numeral_eq_Suc)

lemma mix_column_list: "\<exists>w x y z. mix_column a b c d = [w, x, y, z]"
  by (simp add: mix_column_def Let_def)

lemma mix_columns_split:
  "mix_columns [a, b, c, d, e, f, g, h, i, j, k, l, m, n, p, q] =
     mix_list [a, b, c, d] @ mix_list [e, f, g, h] @ mix_list [i, j, k, l] @ mix_list [m, n, p, q]"
  by (simp add: mix_columns_list mix_list_def)

lemma length_mix_list: "length (mix_list c) = 4"
  by (simp add: mix_list_def mix_column_def Let_def)

lemma mix_columns_blocks:
  assumes "length c0 = 4" "length c1 = 4" "length c2 = 4" "length c3 = 4"
  shows "mix_columns (c0 @ c1 @ c2 @ c3) = mix_list c0 @ mix_list c1 @ mix_list c2 @ mix_list c3"
proof -
  have four: "\<exists>w x y z. c = [w, x, y, z]" if "length c = 4" for c :: bytes
    using that by (auto simp: numeral_eq_Suc length_Suc_conv)
  show ?thesis using four [OF assms(1)] four [OF assms(2)] four [OF assms(3)] four [OF assms(4)]
    by (auto simp: mix_columns_split)
qed

lemma unmix_mix: "length s = 16 \<Longrightarrow> unmix_columns (mix_columns s) = s"
proof (erule block_cases)
  fix a b c d e f g h i j k l m n p q
  assume s: "s = [a, b, c, d, e, f, g, h, i, j, k, l, m, n, p, q]"
  have four: "mix_list (mix_list (mix_list (mix_list [w, x, y, z]))) = [w, x, y, z]" for w x y z
    using mix_order_4 [of w x y z] by (simp add: eval_nat_numeral)
  have "s = [a, b, c, d] @ [e, f, g, h] @ [i, j, k, l] @ [m, n, p, q]" by (simp add: s)
  then show ?thesis by (simp only: unmix_columns_def mix_columns_blocks length_mix_list four list.size)
qed

lemma length_add_round_key [simp]: "length (add_round_key rk round s) = 16"
  by (simp add: add_round_key_def)

lemma add_round_key_twice: "length s = 16 \<Longrightarrow> add_round_key rk round (add_round_key rk round s) = s"
  by (rule nth_equalityI) (simp_all add: add_round_key_def xor.assoc)

lemma length_mix_columns [simp]: "length (mix_columns s) = 16"
  by (simp add: mix_columns_def mix_column_def Let_def numeral_eq_Suc)

lemma aes_round_undo:
  assumes "length s = 16"
  shows "aes_round_inv rk nr round (aes_round rk nr round s) = s \<and> length (aes_round rk nr round s) = 16"
proof -
  have l: "length (shift_rows (sub_bytes s)) = 16" using assms by (simp add: sub_bytes_def)
  have "map (\<lambda>b. INV_SBOX ! unat b) (sub_bytes s) = s" by (simp add: sub_bytes_def inv_sbox map_idI)
  then show ?thesis using l assms
    by (simp add: aes_round_def aes_round_inv_def Let_def add_round_key_twice unmix_mix unshift_shift sub_bytes_def)
qed

lemma fold_undo:
  assumes "\<And>x s. P s \<Longrightarrow> g x (f x s) = s \<and> P (f x s)" and "P s"
  shows "fold g (rev xs) (fold f xs s) = s \<and> P (fold f xs s)"
  using assms(2)
proof (induction xs arbitrary: s)
  case (Cons x xs)
  then show ?case using assms(1) [of s x] by simp
qed simp

text \<open>
  Under every key schedule the portable AES block function is a
  permutation of the 16-byte blocks: undoing the rounds in reverse order gives the block back.
\<close>

theorem aes_block_permutation:
  assumes "length inp = 16"
  shows "aes_decrypt_block rk nr (kyte_aes_encrypt_block_c rk nr inp) = inp \<and> length (kyte_aes_encrypt_block_c rk nr inp) = 16"
proof -
  have "fold (aes_round_inv rk nr) (rev [1..<Suc nr]) (fold (aes_round rk nr) [1..<Suc nr] (add_round_key rk 0 inp)) = add_round_key rk 0 inp
      \<and> length (fold (aes_round rk nr) [1..<Suc nr] (add_round_key rk 0 inp)) = 16"
    by (rule fold_undo) (simp_all add: aes_round_undo)
  then show ?thesis using assms by (simp add: aes_decrypt_block_def kyte_aes_encrypt_block_c_def add_round_key_twice)
qed

theorem aes_block_permutation_witness:
  "aes_decrypt_block (replicate 176 7) 10 (kyte_aes_encrypt_block_c (replicate 176 7) 10 (replicate 16 255)) = replicate 16 255"
  using aes_block_permutation [of "replicate 16 255" "replicate 176 7" 10] by simp

section \<open>The field with 256 elements\<close>

definition LOGS :: "nat list" where
  "LOGS = [
   0, 25, 1, 50, 2, 26, 198, 75, 199, 27, 104, 51, 238, 223, 3, 100, 4, 224, 14, 52, 141, 129, 239, 76, 113,
   8, 200, 248, 105, 28, 193, 125, 194, 29, 181, 249, 185, 39, 106, 77, 228, 166, 114, 154, 201, 9, 120, 101,
   47, 138, 5, 33, 15, 225, 36, 18, 240, 130, 69, 53, 147, 218, 142, 150, 143, 219, 189, 54, 208, 206, 148,
   19, 92, 210, 241, 64, 70, 131, 56, 102, 221, 253, 48, 191, 6, 139, 98, 179, 37, 226, 152, 34, 136, 145,
   16, 126, 110, 72, 195, 163, 182, 30, 66, 58, 107, 40, 84, 250, 133, 61, 186, 43, 121, 10, 21, 155, 159,
   94, 202, 78, 212, 172, 229, 243, 115, 167, 87, 175, 88, 168, 80, 244, 234, 214, 116, 79, 174, 233, 213,
   231, 230, 173, 232, 44, 215, 117, 122, 235, 22, 11, 245, 89, 203, 95, 176, 156, 169, 81, 160, 127, 12,
   246, 111, 23, 196, 73, 236, 216, 67, 31, 45, 164, 118, 123, 183, 204, 187, 62, 90, 251, 96, 177, 134, 59,
   82, 161, 108, 170, 85, 41, 157, 151, 178, 135, 144, 97, 190, 220, 252, 188, 149, 207, 205, 55, 63, 91,
   209, 83, 57, 132, 60, 65, 162, 109, 71, 20, 42, 158, 93, 86, 242, 211, 171, 68, 17, 146, 217, 35, 32, 46,
   137, 180, 124, 184, 38, 119, 153, 227, 165, 103, 74, 237, 222, 197, 49, 254, 24, 13, 99, 140, 128, 192,
   247, 112, 7]"

text \<open>The product of the field: the sum of the shifts of \<open>b\<close> at the bits of \<open>c\<close>; the inverse is the 254th power.\<close>

definition gmul :: "u8 \<Rightarrow> u8 \<Rightarrow> u8" where
  "gmul b c = fold (\<lambda>i acc. acc XOR (if bit c i then (xtime ^^ i) b else 0)) [0..<8] 0"

definition gf_inv :: "u8 \<Rightarrow> u8" where
  "gf_inv b = (gmul b ^^ 254) 1"

text \<open>The affine transformation, bit by bit as the standard writes it.\<close>

definition fips_affine :: "u8 \<Rightarrow> u8" where
  "fips_affine b = horner_sum of_bool 2
     (map (\<lambda>i. bit b i \<noteq> (bit b ((i + 4) mod 8) \<noteq> (bit b ((i + 5) mod 8) \<noteq> (bit b ((i + 6) mod 8) \<noteq>
            (bit b ((i + 7) mod 8) \<noteq> bit (0x63 :: u8) i))))) [0..<8])"

lemma powers_at_logs: "map (\<lambda>k. POWERS ! k) LOGS = map word_of_nat [1..<256]"
  by (simp add: POWERS_def LOGS_def upt_rec)

lemma upt_8: "[0..<8] = [0, 1, 2, 3, 4, 5, 6, 7]"
  by (simp add: upt_rec)

definition additive :: "(u8 \<Rightarrow> u8) \<Rightarrow> bool" where
  "additive F \<longleftrightarrow> (\<forall>a b. F (a XOR b) = F a XOR F b)"

lemma additive_0: "additive F \<Longrightarrow> F 0 = 0"
  unfolding additive_def by (metis xor_self_eq)

text \<open>Additive functions that agree on the eight single bits are equal.\<close>

lemma additive_eq:
  assumes "additive F" "additive G" "\<And>i. i < 8 \<Longrightarrow> F (2 ^ i) = G (2 ^ i)"
  shows "F b = G b"
proof -
  have "F (take_bit n b) = G (take_bit n b)" if "n \<le> 8" for n
    using that
  proof (induction n)
    case 0
    then show ?case by (simp add: additive_0 [OF assms(1)] additive_0 [OF assms(2)])
  next
    case (Suc n)
    have "take_bit (Suc n) b = take_bit n b XOR (if bit b n then 2 ^ n else 0)"
      by (rule bit_word_eqI) (auto simp: bit_take_bit_iff bit_xor_iff bit_exp_iff less_Suc_eq)
    then show ?case using Suc assms additive_0 [OF assms(1)] additive_0 [OF assms(2)] by (auto simp: additive_def)
  qed
  from this [of 8] show ?thesis by (simp add: take_bit_word_eq_self)
qed

lemma less_8: "i < 8 \<Longrightarrow> i \<in> {0, 1, 2, 3, 4, 5, 6, 7 :: nat}"
  by auto

lemma xtime_pow_xor: "(xtime ^^ k) (a XOR b) = (xtime ^^ k) a XOR (xtime ^^ k) b"
  by (induction k) (simp_all add: xtime_xor)

lemma additive_xtime_pow: "additive (xtime ^^ k)"
  by (simp add: additive_def xtime_pow_xor)

lemma xtime_0: "(xtime ^^ k) 0 = 0"
  by (rule additive_0) (rule additive_xtime_pow)

lemma xtime_single_bits:
  "xtime 1 = 2" "xtime 2 = 4" "xtime 4 = 8" "xtime 8 = 16" "xtime 16 = 32" "xtime 32 = 64" "xtime 64 = 128" "xtime 128 = 27"
  "xtime 27 = 54" "xtime 54 = 108" "xtime 108 = 216" "xtime 216 = 171" "xtime 171 = 77" "xtime 77 = 154" "xtime 154 = 47"
  by (simp_all add: xtime_def)

lemma xtime_8: "(xtime ^^ 8) b = (xtime ^^ 4) b XOR (xtime ^^ 3) b XOR xtime b XOR b"
proof (rule additive_eq [where F = "xtime ^^ 8" and G = "\<lambda>b. (xtime ^^ 4) b XOR (xtime ^^ 3) b XOR xtime b XOR b"])
  show "additive (\<lambda>b. (xtime ^^ 4) b XOR (xtime ^^ 3) b XOR xtime b XOR b)"
    by (simp add: additive_def xtime_pow_xor xtime_xor xor_ac)
  have "(xtime ^^ 8) a = xtime (xtime (xtime (xtime (xtime (xtime (xtime (xtime a)))))))"
    "(xtime ^^ 4) a = xtime (xtime (xtime (xtime a)))" "(xtime ^^ 3) a = xtime (xtime (xtime a))" for a
    by (simp_all add: numeral_eq_Suc)
  then show "(xtime ^^ 8) (2 ^ i) = (xtime ^^ 4) (2 ^ i) XOR (xtime ^^ 3) (2 ^ i) XOR xtime (2 ^ i) XOR 2 ^ i" if "i < 8" for i :: nat
    using less_8 [OF that] by (auto simp: xtime_single_bits)
qed (rule additive_xtime_pow)

lemma gmul_xor_right: "gmul b (c XOR d) = gmul b c XOR gmul b d"
proof -
  have bit: "(if bit (c XOR d) i then x else 0) = (if bit c i then x else 0) XOR (if bit d i then x else (0 :: u8))" for i x
    by (simp add: bit_xor_iff)
  have "fold (\<lambda>i acc. acc XOR (if bit (c XOR d) i then (xtime ^^ i) b else 0)) is (u XOR v) =
      fold (\<lambda>i acc. acc XOR (if bit c i then (xtime ^^ i) b else 0)) is u XOR fold (\<lambda>i acc. acc XOR (if bit d i then (xtime ^^ i) b else 0)) is v" for "is" u v
  proof (induction "is" arbitrary: u v)
    case (Cons j js)
    have "(u XOR v) XOR (if bit (c XOR d) j then (xtime ^^ j) b else 0) =
        (u XOR (if bit c j then (xtime ^^ j) b else 0)) XOR (v XOR (if bit d j then (xtime ^^ j) b else 0))"
      by (simp only: bit xor_ac)
    then show ?case using Cons by (simp only: fold_simps)
  qed simp
  from this [of _ 0 0] show ?thesis by (simp add: gmul_def)
qed

lemma gmul_power_2:
  assumes "i < 8"
  shows "gmul b (2 ^ i) = (xtime ^^ i) b"
proof -
  have "gmul b (2 ^ i) = fold (\<lambda>j acc. acc XOR (if j < 8 \<and> j = i then (xtime ^^ j) b else 0)) [0..<8] 0"
    by (simp add: gmul_def bit_exp_iff)
  also have "\<dots> = (xtime ^^ i) b" using less_8 [OF assms] by (auto simp: upt_8)
  finally show ?thesis .
qed

text \<open>Multiplication commutes with doubling: \<open>x ^ 8 = x ^ 4 + x ^ 3 + x + 1\<close> in the field.\<close>

lemma gmul_xtime: "gmul b (xtime c) = xtime (gmul b c)"
proof (rule additive_eq [where F = "\<lambda>c. gmul b (xtime c)" and G = "\<lambda>c. xtime (gmul b c)"])
  show "additive (\<lambda>c. gmul b (xtime c))" by (simp add: additive_def gmul_xor_right xtime_xor)
  show "additive (\<lambda>c. xtime (gmul b c))" by (simp add: additive_def gmul_xor_right xtime_xor)
  show "gmul b (xtime (2 ^ i)) = xtime (gmul b (2 ^ i))" if "i < 8" for i :: nat
  proof (cases "i = 7")
    case True
    have "gmul b (xtime (2 ^ i)) = gmul b (2 ^ 4 XOR (2 ^ 3 XOR (2 ^ 1 XOR 2 ^ 0)))" by (simp add: True xtime_single_bits)
    also have "\<dots> = (xtime ^^ 8) b" by (simp only: gmul_xor_right gmul_power_2 xtime_8) simp
    also have "\<dots> = xtime (gmul b (2 ^ i))" using gmul_power_2 [of 7 b] by (simp add: True eval_nat_numeral(2,3))
    finally show ?thesis .
  next
    case False
    then have i: "Suc i < 8" using that by simp
    have "xtime (2 ^ i) = 2 ^ Suc i" using less_8 [OF that] False by (auto simp: xtime_single_bits)
    then show ?thesis using gmul_power_2 [OF i] gmul_power_2 [OF that] by simp
  qed
qed

lemma gmul_times3: "gmul b ((times3 ^^ k) c) = (times3 ^^ k) (gmul b c)"
  by (induction k) (simp_all add: times3_def gmul_xor_right gmul_xtime)

lemma gmul_powers: "gmul ((times3 ^^ j) 1) ((times3 ^^ k) 1) = (times3 ^^ (j + k)) 1"
proof -
  have "gmul b 1 = b" for b using gmul_power_2 [of 0 b] by simp
  then show ?thesis by (simp add: gmul_times3 add.commute [of j] funpow_add)
qed

lemma powers_period_mult: "(times3 ^^ (255 * q + k)) 1 = (times3 ^^ k) (1 :: u8)"
proof (induction q)
  case (Suc q)
  have "255 * Suc q + k = (255 * q + k) + 255" by simp
  then show ?case using funpow_add [of "255 * q + k" 255 times3] by (simp only: o_apply powers_period Suc)
qed simp

lemma powers_mod: "(times3 ^^ k) 1 = (times3 ^^ (k mod 255)) (1 :: u8)"
  using powers_period_mult [of "k div 255" "k mod 255"] by simp

text \<open>3 generates the multiplicative group.\<close>

lemma byte_power:
  assumes "b \<noteq> 0"
  obtains k where "k < 255" "b = (times3 ^^ k) 1"
proof -
  define j where "j = unat b - 1"
  have "unat b < 2 ^ LENGTH(8)" by (rule unsigned_less)
  then have "0 < unat b" "unat b < 256" using assms by (simp_all add: unat_gt_0)
  then have j: "j < 255" "b = word_of_nat (1 + j)" by (simp_all add: j_def)
  have l: "length LOGS = 255" and a: "list_all (\<lambda>k. k < 255) LOGS" by (simp_all add: LOGS_def)
  have "map (\<lambda>k. POWERS ! k) LOGS ! j = (map word_of_nat [1..<256] :: bytes) ! j" by (simp only: powers_at_logs)
  then have "POWERS ! (LOGS ! j) = b" using j l by simp
  moreover have "LOGS ! j < 255" using a j l by (simp add: list_all_length)
  ultimately show ?thesis using that powers_nth by blast
qed

lemma gf_inv_power: "gf_inv ((times3 ^^ k) 1) = (times3 ^^ (254 * k)) 1"
proof -
  have "(gmul ((times3 ^^ k) 1) ^^ m) 1 = (times3 ^^ (m * k)) 1" for m
    by (induction m) (simp_all add: gmul_powers)
  then show ?thesis by (simp add: gf_inv_def)
qed

lemma gf_inv_inverse: "b \<noteq> 0 \<Longrightarrow> gmul b (gf_inv b) = 1"
proof (erule byte_power)
  fix k
  assume "b = (times3 ^^ k) 1"
  then have "gmul b (gf_inv b) = (times3 ^^ (255 * k + 0)) 1" by (simp only: gf_inv_power gmul_powers) simp
  then show ?thesis by (simp only: powers_period_mult) simp
qed

lemma gmul_0: "gmul 0 c = 0"
proof -
  have "fold (\<lambda>i acc. acc XOR (if bit c i then (xtime ^^ i) 0 else 0)) is 0 = 0" for "is"
    by (induction "is") (simp_all add: xtime_0)
  then show ?thesis by (simp add: gmul_def)
qed

lemma gf_inv_0: "gf_inv 0 = 0"
proof -
  have "(gmul 0 ^^ Suc m) 1 = 0" for m by (simp add: gmul_0)
  from this [of 253] show ?thesis by (simp add: gf_inv_def)
qed

lemma bit_rotl:
  assumes "k \<le> 8" "n < 8"
  shows "bit (rotl k b) n = bit b ((n + (8 - k)) mod 8)"
proof (cases "k \<le> n")
  case True
  then have "\<not> bit b (8 - k + n)" and "(n + (8 - k)) mod 8 = n - k"
    using assms bit_imp_le_length [of b "8 - k + n"] by (auto simp: mod_if)
  then show ?thesis using True assms by (simp add: rotl_def bit_or_iff bit_push_bit_iff bit_drop_bit_eq)
next
  case False
  then show ?thesis using assms by (simp add: rotl_def bit_or_iff bit_push_bit_iff bit_drop_bit_eq add.commute)
qed

lemma affine_fips: "affine b = fips_affine b"
proof (rule bit_word_eqI)
  fix n
  assume "n < LENGTH(8)"
  then have n: "n < 8" by simp
  have "bit (affine b) n = (bit b n \<noteq> (bit b ((n + 7) mod 8) \<noteq> (bit b ((n + 6) mod 8) \<noteq> (bit b ((n + 5) mod 8) \<noteq>
      (bit b ((n + 4) mod 8) \<noteq> bit (0x63 :: u8) n)))))"
    using n by (auto simp: affine_def bit_xor_iff bit_rotl)
  also have "\<dots> = bit (fips_affine b) n"
    unfolding fips_affine_def bit_horner_sum_bit_iff using n by auto
  finally show "bit (affine b) n = bit (fips_affine b) n" .
qed

text \<open>The table is the S-box of the standard.\<close>

lemma sbox_fips: "KYTE_SBOX ! unat b = fips_affine (gf_inv b)"
proof (cases "b = 0")
  case True
  have "fips_affine 0 = 99" unfolding affine_fips [symmetric] by (simp add: affine_def rotl_def)
  then show ?thesis using True by (simp add: gf_inv_0 KYTE_SBOX_def)
next
  case False
  then obtain k where k: "k < 255" "b = (times3 ^^ k) 1" by (rule byte_power)
  have "(254 * k) mod 255 = (255 - k) mod 255"
  proof -
    have "254 * k + 255 = (255 - k) + 255 * k" using k(1) by simp
    then show ?thesis by (metis mod_add_self2 mod_mult_self2)
  qed
  then have "gf_inv b = (times3 ^^ ((255 - k) mod 255)) 1"
    using powers_mod [of "254 * k"] by (simp add: k(2) gf_inv_power)
  then show ?thesis using sbox_inverse_affine [OF k(1)] by (simp add: k(2) affine_fips)
qed

section \<open>The cipher of FIPS-197\<close>

text \<open>The state is four rows of four columns, filled column by column.\<close>

type_synonym state = "nat \<Rightarrow> nat \<Rightarrow> u8"

definition state_of :: "bytes \<Rightarrow> state" where
  "state_of inp = (\<lambda>r c. inp ! (r + 4 * c))"

definition bytes_of :: "state \<Rightarrow> bytes" where
  "bytes_of s = map (\<lambda>i. s (i mod 4) (i div 4)) [0..<16]"

definition SubBytes :: "state \<Rightarrow> state" where
  "SubBytes s = (\<lambda>r c. fips_affine (gf_inv (s r c)))"

definition ShiftRows :: "state \<Rightarrow> state" where
  "ShiftRows s = (\<lambda>r c. s r ((c + r) mod 4))"

definition MixColumns :: "state \<Rightarrow> state" where
  "MixColumns s = (\<lambda>r c. fold (\<lambda>k acc. acc XOR gmul (s k c) ([2, 3, 1, 1] ! ((k + 4 - r) mod 4))) [0..<4] 0)"

definition AddRoundKey :: "bytes \<Rightarrow> nat \<Rightarrow> state \<Rightarrow> state" where
  "AddRoundKey w round s = (\<lambda>r c. s r c XOR w ! (4 * (4 * round + c) + r))"

definition Cipher :: "bytes \<Rightarrow> nat \<Rightarrow> bytes \<Rightarrow> bytes" where
  "Cipher w nr inp =
     (let s = AddRoundKey w 0 (state_of inp);
          s = fold (\<lambda>round s. AddRoundKey w round (MixColumns (ShiftRows (SubBytes s)))) [1..<nr] s in
      bytes_of (AddRoundKey w nr (ShiftRows (SubBytes s))))"

lemma upt_16: "[0..<16] = [0, 1, 2, 3, 4, 5, 6, 7, 8, 9, 10, 11, 12, 13, 14, 15]"
  by (simp add: upt_rec)

lemma bytes_of_list:
  "bytes_of s = [s 0 0, s 1 0, s 2 0, s 3 0, s 0 1, s 1 1, s 2 1, s 3 1, s 0 2, s 1 2, s 2 2, s 3 2, s 0 3, s 1 3, s 2 3, s 3 3]"
  by (simp add: bytes_of_def upt_16)

lemma bytes_of_state: "length b = 16 \<Longrightarrow> bytes_of (state_of b) = b"
  by (rule nth_equalityI) (simp_all add: bytes_of_def state_of_def add.commute)

lemma SubBytes_bytes: "bytes_of (SubBytes s) = sub_bytes (bytes_of s)"
  by (simp add: bytes_of_def sub_bytes_def SubBytes_def sbox_fips)

lemma ShiftRows_bytes: "bytes_of (ShiftRows s) = shift_rows (bytes_of s)"
  by (simp add: bytes_of_list shift_rows_list ShiftRows_def numeral_2_eq_2 [symmetric])

lemma gmul_small: "gmul b 1 = b \<and> gmul b 2 = xtime b \<and> gmul b 3 = times3 b"
proof -
  have "gmul b (2 ^ 0) = b" "gmul b (2 ^ 1) = xtime b" by (simp_all only: gmul_power_2) simp_all
  moreover have "gmul b 3 = gmul b (2 ^ 1 XOR 2 ^ 0)" by simp
  ultimately show ?thesis by (simp only: gmul_xor_right times3_def) simp
qed

lemma MixColumns_bytes: "bytes_of (MixColumns s) = mix_columns (bytes_of s)"
proof -
  have "[0..<4] = [0, 1, 2, 3]" by (simp add: upt_rec)
  then show ?thesis
    by (simp add: bytes_of_list mix_columns_list mix_column_matrix MixColumns_def gmul_small xor_ac)
qed

lemma AddRoundKey_bytes: "bytes_of (AddRoundKey w round s) = add_round_key w round (bytes_of s)"
  by (rule nth_equalityI) (simp_all add: bytes_of_def add_round_key_def AddRoundKey_def algebra_simps)

lemma round_bytes:
  "bytes_of (AddRoundKey w round (MixColumns (ShiftRows (SubBytes s)))) =
     add_round_key w round (mix_columns (shift_rows (sub_bytes (bytes_of s))))"
  by (simp add: AddRoundKey_bytes MixColumns_bytes ShiftRows_bytes SubBytes_bytes)

text \<open>
  Property C33 (aes_is_fips197).  For every key schedule and every number of rounds from 1 on (AES uses 10,
  12 and 14), the portable block function is the cipher of FIPS-197: SubBytes as the affine image of
  the inverse in the field of 256 elements, ShiftRows by its index formula, MixColumns as the product with
  the polynomial \<open>{03} x\<^sup>3 + {01} x\<^sup>2 + {01} x + {02}\<close>, AddRoundKey by columns of the schedule.
\<close>

theorem aes_is_fips197:
  assumes "length inp = 16" "1 \<le> nr"
  shows "kyte_aes_encrypt_block_c w nr inp = Cipher w nr inp"
proof -
  define s0 where "s0 = AddRoundKey w 0 (state_of inp)"
  have rounds: "bytes_of (fold (\<lambda>round s. AddRoundKey w round (MixColumns (ShiftRows (SubBytes s)))) rs s) =
      fold (aes_round w nr) rs (bytes_of s)" if "nr \<notin> set rs" for rs s
    using that by (induction rs arbitrary: s) (simp_all add: round_bytes aes_round_def Let_def)
  have "[1..<Suc nr] = [1..<nr] @ [nr]" using assms(2) by simp
  then have "kyte_aes_encrypt_block_c w nr inp = aes_round w nr nr (fold (aes_round w nr) [1..<nr] (bytes_of s0))"
    using assms(1) by (simp add: kyte_aes_encrypt_block_c_def s0_def AddRoundKey_bytes bytes_of_state)
  also have "\<dots> = Cipher w nr inp"
    using rounds [of "[1..<nr]" s0]
    by (simp add: Cipher_def Let_def s0_def aes_round_def AddRoundKey_bytes ShiftRows_bytes SubBytes_bytes)
  finally show ?thesis .
qed

text \<open>The schedule of the key in appendix A.1 of the standard, and the block of appendix B.\<close>

definition SCHEDULE :: bytes where
  "SCHEDULE = [
   43, 126, 21, 22, 40, 174, 210, 166, 171, 247, 21, 136, 9, 207, 79, 60, 160, 250, 254, 23, 136, 84, 44,
   177, 35, 163, 57, 57, 42, 108, 118, 5, 242, 194, 149, 242, 122, 150, 185, 67, 89, 53, 128, 122, 115, 89,
   246, 127, 61, 128, 71, 125, 71, 22, 254, 62, 30, 35, 126, 68, 109, 122, 136, 59, 239, 68, 165, 65, 168,
   82, 91, 127, 182, 113, 37, 59, 219, 11, 173, 0, 212, 209, 198, 248, 124, 131, 157, 135, 202, 242, 184,
   188, 17, 249, 21, 188, 109, 136, 163, 122, 17, 11, 62, 253, 219, 249, 134, 65, 202, 0, 147, 253, 78, 84,
   247, 14, 95, 95, 201, 243, 132, 166, 79, 178, 78, 166, 220, 79, 234, 210, 115, 33, 181, 141, 186, 210, 49,
   43, 245, 96, 127, 141, 41, 47, 172, 119, 102, 243, 25, 250, 220, 33, 40, 209, 41, 65, 87, 92, 0, 110, 208,
   20, 249, 168, 201, 238, 37, 137, 225, 63, 12, 200, 182, 99, 12, 166]"

theorem aes_is_fips197_witness:
  "Cipher SCHEDULE 10 [50, 67, 246, 168, 136, 90, 48, 141, 49, 49, 152, 162, 224, 55, 7, 52] =
     [57, 37, 132, 29, 2, 220, 9, 251, 220, 17, 133, 151, 25, 106, 11, 50]"
proof -
  have "kyte_aes_encrypt_block_c SCHEDULE 10 [50, 67, 246, 168, 136, 90, 48, 141, 49, 49, 152, 162, 224, 55, 7, 52] =
      [57, 37, 132, 29, 2, 220, 9, 251, 220, 17, 133, 151, 25, 106, 11, 50]"
    unfolding SCHEDULE_def by code_simp
  then show ?thesis by (simp add: aes_is_fips197)
qed

end
