(* ===== verification/Kyte_Crypto_Props.thy ===== *)
theory Kyte_Crypto_Props
  imports Kyte_Aes
begin

text \<open>
  Counter mode is a stream cipher over any block cipher, the gate of the assembly keeps its promise, the
  entropy loop fills the buffer or stops the process, and the limbs of Poly1305 are the clamped key.
\<close>

section \<open>Counter mode\<close>

text \<open>The counter: the last four bytes of the block, big-endian.\<close>

definition counter :: "bytes \<Rightarrow> u32" where
  "counter c = word_of_int (uint (c ! 12) * 2 ^ 24 + uint (c ! 13) * 2 ^ 16 + uint (c ! 14) * 2 ^ 8 + uint (c ! 15))"

lemma byte_inc: "uint (b + 1 :: u8) = (if b + 1 = 0 then 0 else uint b + 1) \<and> (b + 1 = 0 \<longrightarrow> uint b = 255)"
proof -
  have "uint b < 2 ^ LENGTH(8)" by (rule unsigned_less)
  then have b: "0 \<le> uint b" "uint b < 256" by simp_all
  have e: "uint (b + 1) = (uint b + 1) mod 256" by (simp add: uint_word_ariths)
  show ?thesis
  proof (cases "uint b = 255")
    case True
    then have "uint (b + 1) = uint (0 :: u8)" using e by simp
    then have "b + 1 = 0" by (simp only: word_uint_eq_iff)
    then show ?thesis using True by simp
  next
    case False
    then have u: "uint (b + 1) = uint b + 1" using e b by (simp add: mod_pos_pos_trivial)
    have "b + 1 \<noteq> 0"
    proof
      assume "b + 1 = 0"
      then have "uint b + 1 = 0" using u by simp
      then show False using b(1) by linarith
    qed
    then show ?thesis using u False by auto
  qed
qed

lemma inc_ctr_counter:
  assumes "length c = 16"
  shows "length (inc_ctr c) = 16 \<and> take 12 (inc_ctr c) = take 12 c \<and> counter (inc_ctr c) = counter c + 1"
proof -
  note b = byte_inc [of "c ! 15"] byte_inc [of "c ! 14"] byte_inc [of "c ! 13"] byte_inc [of "c ! 12"]
  have w: "word_of_int x + 1 = (word_of_int (x + 1) :: u32)" for x by simp
  have wrap: "(word_of_int 4294967296 :: u32) = 0" by simp
  show ?thesis
    unfolding inc_ctr_def counter_def w
    using assms b by (auto simp: Let_def nth_list_update take_update_cancel ac_simps simp del: of_int_add of_int_mult split: if_splits)
      (simp_all add: iszero_def take_bit_eq_mod)
qed

lemma funpow_inc:
  assumes "length c = 16"
  shows "length ((inc_ctr ^^ k) c) = 16 \<and> take 12 ((inc_ctr ^^ k) c) = take 12 c \<and> counter ((inc_ctr ^^ k) c) = counter c + word_of_nat k"
  using assms by (induction k) (simp_all add: inc_ctr_counter ac_simps)

text \<open>What counter mode needs of a block cipher: it turns blocks into blocks.\<close>

locale block_cipher =
  fixes E :: "bytes \<Rightarrow> bytes"
  assumes block: "length c = 16 \<Longrightarrow> length (E c) = 16"
begin

definition stream :: "bytes \<Rightarrow> nat \<Rightarrow> u8" where
  "stream c i = E ((inc_ctr ^^ (i div 16)) c) ! (i mod 16)"

lemma stream_shift: "stream (inc_ctr c) i = stream c (16 + i)"
proof -
  have "(16 + i) div 16 = Suc (i div 16)" by simp
  then show ?thesis by (simp add: stream_def funpow_swap1)
qed

lemma stream_split:
  assumes "n = min (length inp) 16"
  shows "map (\<lambda>i. inp ! i XOR E c ! i) [0..<n] @ map (\<lambda>i. drop n inp ! i XOR stream (inc_ctr c) i) [0..<length inp - n]
      = map (\<lambda>i. inp ! i XOR stream c i) [0..<length inp]"
proof (rule nth_equalityI)
  fix i
  assume "i < length (map (\<lambda>i. inp ! i XOR E c ! i) [0..<n] @ map (\<lambda>i. drop n inp ! i XOR stream (inc_ctr c) i) [0..<length inp - n])"
  then have i: "i < length inp" using assms by simp
  show "(map (\<lambda>i. inp ! i XOR E c ! i) [0..<n] @ map (\<lambda>i. drop n inp ! i XOR stream (inc_ctr c) i) [0..<length inp - n]) ! i
      = map (\<lambda>i. inp ! i XOR stream c i) [0..<length inp] ! i"
  proof (cases "i < n")
    case True
    then show ?thesis using i assms by (simp add: nth_append stream_def)
  next
    case False
    then have n16: "n = 16" using i assms by simp
    then have "i - 16 < length inp - 16" "16 \<le> i" using i False by simp_all
    then show ?thesis using i n16 by (simp add: nth_append stream_shift)
  qed
qed (use assms in simp)

lemma blocks_started:
  assumes "0 < n"
  shows "(n + 15) div 16 = Suc ((n - min n 16 + 15) div (16 :: nat))"
proof (cases "n \<le> 16")
  case True
  then have "(n + 15) div 16 = 1" using assms by presburger
  then show ?thesis using True by simp
next
  case False
  then obtain k where "n = 16 + k" by (metis le_add_diff_inverse nat_le_linear)
  then show ?thesis by simp
qed

lemma ctr_exact:
  "ctr_mode E c inp = (map (\<lambda>i. inp ! i XOR stream c i) [0..<length inp], (inc_ctr ^^ ((length inp + 15) div 16)) c)"
proof (induction "length inp" arbitrary: c inp rule: less_induct)
  case less
  show ?case
  proof (cases "inp = []")
    case True
    then show ?thesis by (simp add: ctr_mode.simps [of E c "[]"])
  next
    case False
    define n where "n = min (length inp) 16"
    have n: "0 < n" "n \<le> length inp" using False by (simp_all add: n_def)
    have IH: "ctr_mode E (inc_ctr c) (drop n inp) =
        (map (\<lambda>i. drop n inp ! i XOR stream (inc_ctr c) i) [0..<length (drop n inp)], (inc_ctr ^^ ((length (drop n inp) + 15) div 16)) (inc_ctr c))"
      by (rule less) (use n in simp)
    have "ctr_mode E c inp = (map (\<lambda>i. inp ! i XOR E c ! i) [0..<n] @ fst (ctr_mode E (inc_ctr c) (drop n inp)),
        snd (ctr_mode E (inc_ctr c) (drop n inp)))"
      using False by (subst ctr_mode.simps) (simp add: n_def Let_def split: prod.split)
    moreover have "(inc_ctr ^^ ((length inp - n + 15) div 16)) (inc_ctr c) = (inc_ctr ^^ ((length inp + 15) div 16)) c"
      using blocks_started [of "length inp"] False by (simp add: n_def funpow_swap1)
    ultimately show ?thesis using stream_split [OF n_def, of c] IH by simp
  qed
qed

lemma ctr_twice: "fst (ctr_mode E c (fst (ctr_mode E c inp))) = inp"
  by (rule nth_equalityI) (simp_all add: ctr_exact xor.assoc)

end

text \<open>The portable block function is a block cipher whatever the key schedule.\<close>

lemma length_aes: "length (kyte_aes_encrypt_block_c rk nr c) = 16"
proof -
  have "length (fold (aes_round rk nr) xs s) = 16" if "length s = 16" for xs s
    using that by (induction xs arbitrary: s) (simp_all add: aes_round_undo)
  then show ?thesis by (simp add: kyte_aes_encrypt_block_c_def)
qed

interpretation aes: block_cipher "kyte_aes_encrypt_block_c rk nr" for rk nr
  by unfold_locales (rule length_aes)

text \<open>
  Property C34 (ctr_stream).  The portable counter mode xors byte \<open>i\<close> of the text with byte \<open>i mod 16\<close> of
  the encrypted counter block number \<open>i div 16\<close>; it leaves the counter block advanced by the number of
  started blocks in its last four bytes, modulo \<open>2 ^ 32\<close>, and untouched in the others; and applying it
  again from the same counter gives the text back.
\<close>

theorem ctr_stream:
  assumes "length c = 16" "i < length inp"
  shows "fst (kyte_aes_ctr_c rk nr c inp) ! i = inp ! i XOR kyte_aes_encrypt_block_c rk nr ((inc_ctr ^^ (i div 16)) c) ! (i mod 16)
    \<and> counter ((inc_ctr ^^ (i div 16)) c) = counter c + word_of_nat (i div 16)
    \<and> counter (snd (kyte_aes_ctr_c rk nr c inp)) = counter c + word_of_nat ((length inp + 15) div 16)
    \<and> take 12 (snd (kyte_aes_ctr_c rk nr c inp)) = take 12 c
    \<and> fst (kyte_aes_ctr_c rk nr c (fst (kyte_aes_ctr_c rk nr c inp))) = inp"
  using assms funpow_inc [OF assms(1)] aes.ctr_twice [of rk nr c inp]
  by (simp add: kyte_aes_ctr_c_def aes.ctr_exact aes.stream_def)

theorem ctr_stream_witness:
  "counter (snd (kyte_aes_ctr_c (replicate 176 7) 10 (replicate 16 255) (replicate 17 0))) = 1"
  using ctr_stream [of "replicate 16 255" 0 "replicate 17 0" "replicate 176 7" 10]
  by (simp add: counter_def)

section \<open>The gate of the assembly\<close>

text \<open>
  A build that answers 1 to \<^verbatim>\<open>kyte_has_asm_crypto\<close> on x86-64 never
  traps in any entry point behind the gate, whichever kernel it picks, and also answers 1 for hardware
  AES.  The two AES entry points never trap at all, and agree with the portable code whenever the AES
  kernels do.
\<close>

theorem asm_gate_safe:
  "(kyte_has_asm_crypto (X86_Asm f) = 1 \<longrightarrow>
      kyte_ghash (Some f) k x = Ok (k x) \<and> kyte_gcm_seal (Some f) k x = Ok (k x) \<and> kyte_chacha20_xor (Some f) k x = Ok (k x)
      \<and> kyte_sha256_blocks (Some f) k k' x \<in> {Ok (k x), Ok (k' x)} \<and> kyte_sha512_blocks (Some f) k x = Ok (k x)
      \<and> kyte_poly1305_blocks (Some f) k x = Ok (k x) \<and> kyte_poly1305_finish (Some f) k x = Ok (k x)
      \<and> kyte_cpu_has_aes (X86_Asm f) = 1)
   \<and> (blk = kyte_aes_encrypt_block_c \<longrightarrow> kyte_aes_encrypt_block g blk rk nr inp = kyte_aes_encrypt_block_c rk nr inp)
   \<and> (str = kyte_aes_ctr_c \<longrightarrow> kyte_aes_ctr g str rk nr c inp = kyte_aes_ctr_c rk nr c inp)"
  by (auto simp: kyte_has_asm_crypto_def kyte_ghash_def kyte_gcm_seal_def kyte_chacha20_xor_def kyte_sha256_blocks_def
      kyte_sha512_blocks_def kyte_poly1305_blocks_def kyte_poly1305_finish_def kyte_cpu_has_aes_def kyte_aes_encrypt_block_def
      kyte_aes_ctr_def split: if_splits option.splits)

definition westmere :: features where
  "westmere = kyte_x86_detect None (\<lambda>n. if n = 1 then Some (0, 0, 0x02080202, 0) else None)"

theorem asm_gate_safe_witness:
  "kyte_has_asm_crypto (X86_Asm westmere) = 1 \<and> kyte_gcm_seal (Some westmere) length [0 :: u8] = Ok 1"
proof -
  have "kyte_has_asm_crypto (X86_Asm westmere) = 1"
    by (simp add: westmere_def kyte_x86_detect_def kyte_has_asm_crypto_def)
  then show ?thesis
    using asm_gate_safe [of westmere length "[0 :: u8]" length "\<lambda>_ _ x. x" None "[]" 0 "[]" "\<lambda>_ _ _ x. (x, x)" "[]"] by simp
qed

section \<open>Entropy\<close>

text \<open>The bytes the source is asked for, chunk by chunk.\<close>

definition full_source :: "(int \<Rightarrow> nat \<Rightarrow> bytes option) \<Rightarrow> (int \<Rightarrow> u8) \<Rightarrow> bool" where
  "full_source getentropy r \<longleftrightarrow> (\<forall>off k. k \<le> 256 \<longrightarrow> getentropy off k = Some (map (\<lambda>i. r (off + int i)) [0..<k]))"

lemma getrandom_loop_full:
  assumes "full_source getentropy r" "off \<le> n"
  shows "\<exists>m'. getrandom_loop getentropy buf n off m = Ok m'
    \<and> (\<forall>a. m' a = (if buf + off \<le> a \<and> a < buf + n then r (a - buf) else m a))"
  using assms(2)
proof (induction "nat (n - off)" arbitrary: off m rule: less_induct)
  case less
  show ?case
  proof (cases "off < n")
    case False
    then show ?thesis using less.prems by (subst getrandom_loop.simps) auto
  next
    case True
    let ?k = "nat (min (n - off) 256)"
    let ?bs = "map (\<lambda>i. r (off + int i)) [0..<?k]"
    have k: "0 < ?k" "int ?k \<le> n - off" "int ?k = min (n - off) 256" using True by simp_all
    have g: "getentropy off ?k = Some ?bs" using assms(1) by (simp add: full_source_def)
    have "nat (n - (off + int ?k)) < nat (n - off)" using True k by linarith
    then obtain m' where m': "getrandom_loop getentropy buf n (off + int ?k) (wr m (buf + off) ?bs) = Ok m'"
      and frame: "\<forall>a. m' a = (if buf + (off + int ?k) \<le> a \<and> a < buf + n then r (a - buf) else wr m (buf + off) ?bs a)"
      using less.hyps [of "off + int ?k" "wr m (buf + off) ?bs"] k by auto
    have "getrandom_loop getentropy buf n off m = Ok m'" using True g m' by (subst getrandom_loop.simps) (simp add: Let_def)
    moreover have "m' a = (if buf + off \<le> a \<and> a < buf + n then r (a - buf) else m a)" for a
    proof (cases "buf + off \<le> a \<and> a < buf + off + int ?k")
      case inside: True
      then have "nat (a - (buf + off)) < ?k" using k by linarith
      then have "wr m (buf + off) ?bs a = r (a - buf)" using inside by (simp add: wr_def)
      then show ?thesis using frame inside k by auto
    next
      case False
      then have "wr m (buf + off) ?bs a = m a" by (intro wr_outside) auto
      then show ?thesis using frame False k by auto
    qed
    ultimately show ?thesis by blast
  qed
qed

text \<open>
  With a source that delivers what each call of at most 256 bytes asks
  for, the entropy loop writes exactly the \<open>n\<close> bytes of the buffer, each from the source, and nothing
  else; when the source fails the process is stopped, it never returns with bytes it did not write.
\<close>

theorem getrandom_fills:
  assumes "full_source getentropy r" "0 \<le> n"
  shows "(\<exists>m'. kyte_getrandom getentropy buf n m = Ok m' \<and> (\<forall>a. m' a = (if buf \<le> a \<and> a < buf + n then r (a - buf) else m a)))
    \<and> (0 < n \<longrightarrow> kyte_getrandom (\<lambda>_ _. None) buf n m = Trap)"
  using getrandom_loop_full [OF assms, of buf m] by (simp add: kyte_getrandom_def getrandom_loop.simps [of "\<lambda>_ _. None"])

theorem getrandom_fills_witness:
  "\<exists>m'. kyte_getrandom (\<lambda>off k. Some (replicate k 9)) 4096 300 (\<lambda>_. 0) = Ok m' \<and> m' 4395 = 9 \<and> m' 4396 = 0"
  using getrandom_fills [of "\<lambda>off k. Some (replicate k 9)" "\<lambda>_. 9" 300 4096 "\<lambda>_. 0"]
  by (auto simp: full_source_def map_replicate_const)

text \<open>On Windows the length is cut to 32 bits: a request for \<open>2 ^ 32\<close> bytes writes none and returns.\<close>

lemma windows_length_cut:
  "bcrypt 0 = Some [] \<Longrightarrow> kyte_getrandom_windows bcrypt buf (2 ^ 32) m = Ok m"
  by (simp add: kyte_getrandom_windows_def wr_nil)

section \<open>Poly1305\<close>

lemma limb_masks:
  "(0x00000ffc0fffffff :: u64) = mask 28 OR push_bit 34 (mask 10)"
  "(0x00000fffffc0ffff :: u64) = mask 16 OR push_bit 22 (mask 22)"
  "(0x00000ffffffc0f :: u64) = mask 4 OR push_bit 10 (mask 26)"
  by (simp_all add: mask_eq_exp_minus_1)

definition clamp_mask :: u128 where
  "clamp_mask = 0x0ffffffc0ffffffc0ffffffc0fffffff"

lemma clamp_mask_runs: "clamp_mask = mask 28 OR push_bit 34 (mask 26) OR push_bit 66 (mask 26) OR push_bit 98 (mask 26)"
  by (simp add: clamp_mask_def mask_eq_exp_minus_1)

text \<open>Bit by bit: the limbs on one side, the clamped number on the other.\<close>
lemma limb_bit: "bit (ucast (a AND 0x00000ffc0fffffff) :: u128) n \<longleftrightarrow> bit a n \<and> (n < 28 \<or> 34 \<le> n \<and> n < 44)"
   "bit (push_bit 44 (ucast ((drop_bit 44 a OR push_bit 20 b) AND 0x00000fffffc0ffff)) :: u128) n
     \<longleftrightarrow> 44 \<le> n \<and> (bit a n \<or> 64 \<le> n \<and> bit b (n - 64)) \<and> (n < 60 \<or> 66 \<le> n \<and> n < 88)"
   "bit (push_bit 88 (ucast (drop_bit 24 b AND 0x00000ffffffc0f)) :: u128) n
     \<longleftrightarrow> 88 \<le> n \<and> bit b (n - 64) \<and> (n < 92 \<or> 98 \<le> n \<and> n < 124)"
  for a b :: u64
proof -
  have l: "bit a j \<Longrightarrow> j < 64" "bit b j \<Longrightarrow> j < 64" for j using bit_imp_le_length [of a j] bit_imp_le_length [of b j] by simp_all
  show "bit (ucast (a AND 0x00000ffc0fffffff) :: u128) n \<longleftrightarrow> bit a n \<and> (n < 28 \<or> 34 \<le> n \<and> n < 44)"
    unfolding limb_masks using l(1) [of n] by (simp add: bit_simps) linarith
  show "bit (push_bit 44 (ucast ((drop_bit 44 a OR push_bit 20 b) AND 0x00000fffffc0ffff)) :: u128) n
     \<longleftrightarrow> 44 \<le> n \<and> (bit a n \<or> 64 \<le> n \<and> bit b (n - 64)) \<and> (n < 60 \<or> 66 \<le> n \<and> n < 88)"
  proof (cases "44 \<le> n")
    case True
    then obtain k where n: "n = 44 + k" using le_Suc_ex by blast
    have "k - 20 = n - 64" using n by simp
    show ?thesis unfolding limb_masks n
      using l(1) [of "44 + k"] l(2) [of "k - 20"] by (simp add: bit_simps) linarith
  qed (simp add: bit_simps)
  show "bit (push_bit 88 (ucast (drop_bit 24 b AND 0x00000ffffffc0f)) :: u128) n
     \<longleftrightarrow> 88 \<le> n \<and> bit b (n - 64) \<and> (n < 92 \<or> 98 \<le> n \<and> n < 124)"
  proof (cases "88 \<le> n")
    case True
    then obtain k where n: "n = 88 + k" using le_Suc_ex by blast
    show ?thesis unfolding limb_masks n
      using l(2) [of "24 + k"] by (simp add: bit_simps) linarith
  qed (simp add: bit_simps)
qed

lemma clamp_bit: "bit ((ucast a OR push_bit 64 (ucast b)) AND clamp_mask) n
   \<longleftrightarrow> (bit a n \<or> 64 \<le> n \<and> bit b (n - 64))
      \<and> (n < 28 \<or> 34 \<le> n \<and> n < 60 \<or> 66 \<le> n \<and> n < 92 \<or> 98 \<le> n \<and> n < 124)"
  for a b :: u64
proof -
  have l: "bit a n \<Longrightarrow> n < 64" "bit b (n - 64) \<Longrightarrow> n - 64 < 64" using bit_imp_le_length [of a n] bit_imp_le_length [of b "n - 64"] by simp_all
  have c: "bit clamp_mask n \<longleftrightarrow> (n < 28 \<or> 34 \<le> n \<and> n < 60 \<or> 66 \<le> n \<and> n < 92 \<or> 98 \<le> n \<and> n < 124)"
    unfolding clamp_mask_runs by (simp add: bit_simps) linarith
  have v: "bit (ucast a OR push_bit 64 (ucast b) :: u128) n \<longleftrightarrow> bit a n \<or> 64 \<le> n \<and> bit b (n - 64)"
    using l by (simp add: bit_simps) linarith
  show ?thesis by (simp add: bit_and_iff c v)
qed

lemma limbs_clamped:
  "(ucast (a AND 0x00000ffc0fffffff) OR push_bit 44 (ucast ((drop_bit 44 a OR push_bit 20 b) AND 0x00000fffffc0ffff))
      OR push_bit 88 (ucast (drop_bit 24 b AND 0x00000ffffffc0f)) :: u128) = (ucast a OR push_bit 64 (ucast b)) AND clamp_mask"
  for a b :: u64
proof (rule bit_word_eqI)
  fix n
  have "bit a n \<Longrightarrow> n < 64" using bit_imp_le_length [of a n] by simp
  then show "bit (ucast (a AND 0x00000ffc0fffffff) OR push_bit 44 (ucast ((drop_bit 44 a OR push_bit 20 b) AND 0x00000fffffc0ffff))
      OR push_bit 88 (ucast (drop_bit 24 b AND 0x00000ffffffc0f)) :: u128) n = bit ((ucast a OR push_bit 64 (ucast b)) AND clamp_mask) n"
    unfolding bit_or_iff limb_bit clamp_bit by linarith
qed

text \<open>
  The three limbs of 44, 44 and 42 bits that one-shot Poly1305 starts
  from are together the first sixteen key bytes, read as a little-endian number and clamped as RFC 8439
  asks; the other two are their multiples by 20, and the sum starts at zero.
\<close>

theorem poly1305_clamp:
  "(let st = poly1305_state key; r = ucast (le_word (take 8 (drop 8 key)) :: u64) :: u128 in
      ucast (st ! 0) OR push_bit 44 (ucast (st ! 1)) OR push_bit 88 (ucast (st ! 2))
        = (ucast (le_word (take 8 key) :: u64) OR push_bit 64 r) AND clamp_mask
      \<and> st ! 0 < 2 ^ 44 \<and> st ! 1 < 2 ^ 44 \<and> st ! 2 < 2 ^ 42
      \<and> st ! 3 = st ! 1 * 20 \<and> st ! 4 = st ! 2 * 20 \<and> drop 5 st = [0, 0, 0])"
proof -
  let ?t0 = "le_word (take 8 key) :: u64" and ?t1 = "le_word (take 8 (drop 8 key)) :: u64"
  have lt: "x AND y < z" if "y < z" for x y z :: u64 using that by (meson word_and_le1 le_less_trans)
  show ?thesis unfolding Let_def poly1305_state_def
    using limbs_clamped [of ?t0 ?t1] by (simp add: lt)
qed

end
