(* ===== verification/Kyte_Sync.thy ===== *)
theory Kyte_Sync
  imports Kyte_Channel Kyte_Memory
begin

text \<open>
  The synchronisation primitives of \<^verbatim>\<open>src/runtime/core.cpp\<close>: the spin lock over an
  \<^verbatim>\<open>atomic_flag\<close>, the wrappers of \<^verbatim>\<open>std::mutex\<close>, \<^verbatim>\<open>std::condition_variable_any\<close>
  and \<^verbatim>\<open>std::shared_mutex\<close>, and the atomic cells.  A thread is an index of the list of
  places; a call that blocks leaves the thread at a place, and \<open>turn\<close> is what the scheduler lets it do
  there.  What C++ leaves undefined is a result of its own.  The atomic operations are sequentially
  consistent, so each is one step on memory.
\<close>

section \<open>Objects, threads and results\<close>

type_synonym tid = nat

datatype place = Runs | Spins addr | AtMutex addr | AtCond addr addr | AtRead addr | AtWrite addr

text \<open>
  \<open>flags\<close> are the spin locks, \<open>mutexes\<close> the owners, \<open>rwlocks\<close> the readers and the writer.  An address
  that is not, or no longer, of an object has no entry; using it is undefined.
\<close>

record sync =
  flags :: "addr \<rightharpoonup> bool"
  mutexes :: "addr \<rightharpoonup> tid option"
  condvars :: "addr \<Rightarrow> bool"
  rwlocks :: "addr \<rightharpoonup> tid list \<times> tid option"
  places :: "place list"
  warned :: "tid \<Rightarrow> bool"

datatype 'a effect = Done 'a | Aborts | Undefined

record env =
  ndebug :: bool
  reactor_thread :: "tid \<Rightarrow> bool"

definition go :: "tid \<Rightarrow> place \<Rightarrow> sync \<Rightarrow> sync" where
  "go t p s = s\<lparr>places := (places s)[t := p]\<rparr>"

definition report :: "env \<Rightarrow> tid \<Rightarrow> sync \<Rightarrow> sync effect" where
  "report env t s =
     (case kyte_report_block_on_reactor (ndebug env) (reactor_thread env t) (warned s t) of
        Ok (_, w) \<Rightarrow> Done (s\<lparr>warned := (warned s)(t := w)\<rparr>)
      | _ \<Rightarrow> Aborts)"

section \<open>The spin lock\<close>

definition kyte_spin_create :: "addr \<Rightarrow> sync \<Rightarrow> addr \<times> sync" where
  "kyte_spin_create new s = (new, s\<lparr>flags := (flags s)(new \<mapsto> False)\<rparr>)"

text \<open>One turn of the loop: \<^verbatim>\<open>test_and_set\<close> sets the flag and says whether it was set.\<close>

definition spin_turn :: "tid \<Rightarrow> addr \<Rightarrow> sync \<Rightarrow> sync effect" where
  "spin_turn t h s =
     (case flags s h of
        None \<Rightarrow> Undefined
      | Some True \<Rightarrow> Done (go t (Spins h) s)
      | Some False \<Rightarrow> Done (go t Runs (s\<lparr>flags := (flags s)(h \<mapsto> True)\<rparr>)))"

definition kyte_spin_lock :: "tid \<Rightarrow> addr \<Rightarrow> sync \<Rightarrow> sync effect" where
  "kyte_spin_lock t h s = (if h = 0 then Done s else spin_turn t h s)"

definition kyte_spin_unlock :: "addr \<Rightarrow> sync \<Rightarrow> sync effect" where
  "kyte_spin_unlock h s =
     (if h = 0 then Done s
      else case flags s h of
        None \<Rightarrow> Undefined
      | Some _ \<Rightarrow> Done (s\<lparr>flags := (flags s)(h \<mapsto> False)\<rparr>))"

section \<open>The mutex\<close>

definition kyte_mutex_create :: "addr \<Rightarrow> sync \<Rightarrow> addr \<times> sync" where
  "kyte_mutex_create new s = (new, s\<lparr>mutexes := (mutexes s)(new \<mapsto> None)\<rparr>)"

definition try_lock :: "tid \<Rightarrow> addr \<Rightarrow> sync \<Rightarrow> (bool \<times> sync) effect" where
  "try_lock t h s =
     (case mutexes s h of
        None \<Rightarrow> Undefined
      | Some None \<Rightarrow> Done (True, s\<lparr>mutexes := (mutexes s)(h \<mapsto> Some t)\<rparr>)
      | Some (Some u) \<Rightarrow> if u = t then Undefined else Done (False, s))"

text \<open>A turn inside \<^verbatim>\<open>lock\<close>: it returns with the mutex or goes on waiting.\<close>

definition lock_turn :: "tid \<Rightarrow> addr \<Rightarrow> sync \<Rightarrow> sync effect" where
  "lock_turn t h s =
     (case try_lock t h s of
        Done (True, s) \<Rightarrow> Done (go t Runs s)
      | Done (False, s) \<Rightarrow> Done (go t (AtMutex h) s)
      | Aborts \<Rightarrow> Aborts
      | Undefined \<Rightarrow> Undefined)"

definition kyte_mutex_lock :: "env \<Rightarrow> tid \<Rightarrow> addr \<Rightarrow> sync \<Rightarrow> sync effect" where
  "kyte_mutex_lock env t h s =
     (if h = 0 then Done s
      else case try_lock t h s of
        Done (True, s) \<Rightarrow> Done s
      | Done (False, s) \<Rightarrow> (case report env t s of Done s \<Rightarrow> lock_turn t h s | e \<Rightarrow> e)
      | Aborts \<Rightarrow> Aborts
      | Undefined \<Rightarrow> Undefined)"

definition kyte_mutex_unlock :: "tid \<Rightarrow> addr \<Rightarrow> sync \<Rightarrow> sync effect" where
  "kyte_mutex_unlock t h s =
     (if h = 0 then Done s
      else if mutexes s h = Some (Some t) then Done (s\<lparr>mutexes := (mutexes s)(h \<mapsto> None)\<rparr>)
      else Undefined)"

text \<open>\<^verbatim>\<open>delete\<close>: nothing looks at who owns the mutex or waits for it; a second one is undefined.\<close>

definition kyte_mutex_destroy :: "addr \<Rightarrow> sync \<Rightarrow> sync effect" where
  "kyte_mutex_destroy h s =
     (if h = 0 then Done s
      else if mutexes s h \<noteq> None then Done (s\<lparr>mutexes := (mutexes s)(h := None)\<rparr>)
      else Undefined)"

section \<open>The condition variable\<close>

definition kyte_condvar_create :: "addr \<Rightarrow> sync \<Rightarrow> addr \<times> sync" where
  "kyte_condvar_create new s = (new, s\<lparr>condvars := (condvars s)(new := True)\<rparr>)"

text \<open>
  The wait reports, gives the mutex up and starts waiting in one step; woken, it locks the mutex again
  before it returns.  \<^verbatim>\<open>release\<close> leaves the mutex to the caller.
\<close>

definition kyte_condvar_wait :: "env \<Rightarrow> tid \<Rightarrow> addr \<Rightarrow> addr \<Rightarrow> sync \<Rightarrow> sync effect" where
  "kyte_condvar_wait env t cv m s =
     (if cv \<noteq> 0 \<and> m \<noteq> 0 then
        (case report env t s of
           Done s \<Rightarrow>
             if condvars s cv \<and> mutexes s m = Some (Some t)
             then Done (go t (AtCond cv m) (s\<lparr>mutexes := (mutexes s)(m \<mapsto> None)\<rparr>))
             else Undefined
         | e \<Rightarrow> e)
      else Done s)"

definition waits_on :: "addr \<Rightarrow> place \<Rightarrow> bool" where
  "waits_on cv p = (case p of AtCond c m \<Rightarrow> c = cv | _ \<Rightarrow> False)"

definition waiters :: "addr \<Rightarrow> sync \<Rightarrow> tid list" where
  "waiters cv s = filter (\<lambda>t. waits_on cv (places s ! t)) [0..<length (places s)]"

definition woken :: "place \<Rightarrow> place" where
  "woken p = (case p of AtCond c m \<Rightarrow> AtMutex m | p \<Rightarrow> p)"

definition wake :: "tid \<Rightarrow> sync \<Rightarrow> sync" where
  "wake t s = go t (woken (places s ! t)) s"

text \<open>\<^verbatim>\<open>notify_one\<close> wakes one waiter, the library chooses which.\<close>

definition kyte_condvar_signal :: "nat \<Rightarrow> addr \<Rightarrow> sync \<Rightarrow> sync effect" where
  "kyte_condvar_signal pick cv s =
     (if cv = 0 then Done s
      else if \<not> condvars s cv then Undefined
      else let ws = waiters cv s in Done (if ws = [] then s else wake (ws ! (pick mod length ws)) s))"

definition kyte_condvar_broadcast :: "addr \<Rightarrow> sync \<Rightarrow> sync effect" where
  "kyte_condvar_broadcast cv s =
     (if cv = 0 then Done s
      else if \<not> condvars s cv then Undefined
      else Done (s\<lparr>places := map (\<lambda>p. if waits_on cv p then woken p else p) (places s)\<rparr>))"

definition kyte_condvar_destroy :: "addr \<Rightarrow> sync \<Rightarrow> sync effect" where
  "kyte_condvar_destroy cv s =
     (if cv = 0 then Done s
      else if condvars s cv then Done (s\<lparr>condvars := (condvars s)(cv := False)\<rparr>)
      else Undefined)"

section \<open>The read-write lock\<close>

text \<open>The calls block at their place; a turn there is granted when the other side has left.\<close>

definition kyte_rwlock_create :: "addr \<Rightarrow> sync \<Rightarrow> addr \<times> sync" where
  "kyte_rwlock_create new s = (new, s\<lparr>rwlocks := (rwlocks s)(new \<mapsto> ([], None))\<rparr>)"

definition rw_enter :: "place \<Rightarrow> tid \<Rightarrow> addr \<Rightarrow> sync \<Rightarrow> sync effect" where
  "rw_enter p t h s =
     (case rwlocks s h of
        None \<Rightarrow> Undefined
      | Some (rs, w) \<Rightarrow> if t \<in> set rs \<or> w = Some t then Undefined else Done (go t p s))"

definition read_turn :: "tid \<Rightarrow> addr \<Rightarrow> sync \<Rightarrow> sync effect" where
  "read_turn t h s =
     (case rwlocks s h of
        Some (rs, None) \<Rightarrow> Done (go t Runs (s\<lparr>rwlocks := (rwlocks s)(h \<mapsto> (t # rs, None))\<rparr>))
      | Some (rs, Some w) \<Rightarrow> Done s
      | None \<Rightarrow> Undefined)"

definition write_turn :: "tid \<Rightarrow> addr \<Rightarrow> sync \<Rightarrow> sync effect" where
  "write_turn t h s =
     (case rwlocks s h of
        Some ([], None) \<Rightarrow> Done (go t Runs (s\<lparr>rwlocks := (rwlocks s)(h \<mapsto> ([], Some t))\<rparr>))
      | Some _ \<Rightarrow> Done s
      | None \<Rightarrow> Undefined)"

definition kyte_rwlock_acquire_read :: "tid \<Rightarrow> addr \<Rightarrow> sync \<Rightarrow> sync effect" where
  "kyte_rwlock_acquire_read t h s = (if h = 0 then Done s else rw_enter (AtRead h) t h s)"

definition kyte_rwlock_acquire_write :: "tid \<Rightarrow> addr \<Rightarrow> sync \<Rightarrow> sync effect" where
  "kyte_rwlock_acquire_write t h s = (if h = 0 then Done s else rw_enter (AtWrite h) t h s)"

definition kyte_rwlock_release_read :: "tid \<Rightarrow> addr \<Rightarrow> sync \<Rightarrow> sync effect" where
  "kyte_rwlock_release_read t h s =
     (if h = 0 then Done s
      else case rwlocks s h of
        Some (rs, w) \<Rightarrow> if t \<in> set rs then Done (s\<lparr>rwlocks := (rwlocks s)(h \<mapsto> (remove1 t rs, w))\<rparr>) else Undefined
      | None \<Rightarrow> Undefined)"

definition kyte_rwlock_release_write :: "tid \<Rightarrow> addr \<Rightarrow> sync \<Rightarrow> sync effect" where
  "kyte_rwlock_release_write t h s =
     (if h = 0 then Done s
      else case rwlocks s h of
        Some (rs, w) \<Rightarrow> if w = Some t then Done (s\<lparr>rwlocks := (rwlocks s)(h \<mapsto> (rs, None))\<rparr>) else Undefined
      | None \<Rightarrow> Undefined)"

definition kyte_rwlock_destroy :: "addr \<Rightarrow> sync \<Rightarrow> sync effect" where
  "kyte_rwlock_destroy h s =
     (if h = 0 then Done s
      else if rwlocks s h \<noteq> None then Done (s\<lparr>rwlocks := (rwlocks s)(h := None)\<rparr>)
      else Undefined)"

section \<open>Threads\<close>

datatype sync_call =
    Spin_create addr | Spin_lock addr | Spin_unlock addr
  | Mutex_create addr | Mutex_lock addr | Mutex_unlock addr | Mutex_destroy addr
  | Cond_create addr | Cond_wait addr addr | Cond_signal addr nat | Cond_broadcast addr | Cond_destroy addr
  | Rw_create addr | Read_acquire addr | Read_release addr | Write_acquire addr | Write_release addr | Rw_destroy addr

text \<open>A new object is at an address the allocator hands out: not zero and of no other object.\<close>

definition fresh :: "addr \<Rightarrow> sync \<Rightarrow> bool" where
  "fresh a s \<longleftrightarrow> a \<noteq> 0 \<and> flags s a = None \<and> mutexes s a = None \<and> \<not> condvars s a \<and> rwlocks s a = None"

definition created :: "(addr \<Rightarrow> sync \<Rightarrow> addr \<times> sync) \<Rightarrow> addr \<Rightarrow> sync \<Rightarrow> sync effect" where
  "created f a s = (if fresh a s then Done (snd (f a s)) else Undefined)"

fun perform :: "env \<Rightarrow> sync_call \<Rightarrow> tid \<Rightarrow> sync \<Rightarrow> sync effect" where
  "perform env (Spin_create a) t s = created kyte_spin_create a s"
| "perform env (Spin_lock h) t s = kyte_spin_lock t h s"
| "perform env (Spin_unlock h) t s = kyte_spin_unlock h s"
| "perform env (Mutex_create a) t s = created kyte_mutex_create a s"
| "perform env (Mutex_lock h) t s = kyte_mutex_lock env t h s"
| "perform env (Mutex_unlock h) t s = kyte_mutex_unlock t h s"
| "perform env (Mutex_destroy h) t s = kyte_mutex_destroy h s"
| "perform env (Cond_create a) t s = created kyte_condvar_create a s"
| "perform env (Cond_wait cv m) t s = kyte_condvar_wait env t cv m s"
| "perform env (Cond_signal cv pick) t s = kyte_condvar_signal pick cv s"
| "perform env (Cond_broadcast cv) t s = kyte_condvar_broadcast cv s"
| "perform env (Cond_destroy cv) t s = kyte_condvar_destroy cv s"
| "perform env (Rw_create a) t s = created kyte_rwlock_create a s"
| "perform env (Read_acquire h) t s = kyte_rwlock_acquire_read t h s"
| "perform env (Read_release h) t s = kyte_rwlock_release_read t h s"
| "perform env (Write_acquire h) t s = kyte_rwlock_acquire_write t h s"
| "perform env (Write_release h) t s = kyte_rwlock_release_write t h s"
| "perform env (Rw_destroy h) t s = kyte_rwlock_destroy h s"

text \<open>A turn of a thread inside a call.  A wait may also wake up on its own.\<close>

definition turn :: "tid \<Rightarrow> sync \<Rightarrow> sync effect" where
  "turn t s =
     (case places s ! t of
        Runs \<Rightarrow> Done s
      | Spins h \<Rightarrow> spin_turn t h s
      | AtMutex h \<Rightarrow> lock_turn t h s
      | AtCond cv m \<Rightarrow> if condvars s cv then Done (wake t s) else Undefined
      | AtRead h \<Rightarrow> read_turn t h s
      | AtWrite h \<Rightarrow> write_turn t h s)"

definition no_objects :: "nat \<Rightarrow> sync" where
  "no_objects n = \<lparr>flags = Map.empty, mutexes = Map.empty, condvars = (\<lambda>_. False), rwlocks = Map.empty,
     places = replicate n Runs, warned = (\<lambda>_. False)\<rparr>"

section \<open>Atomic cells\<close>

definition kyte_atomic_add_i32 :: "addr \<Rightarrow> u32 \<Rightarrow> memory \<Rightarrow> u32 \<times> memory" where
  "kyte_atomic_add_i32 p d m = (load32 m p, store32 m p (load32 m p + d))"

definition kyte_atomic_sub_i32 :: "addr \<Rightarrow> u32 \<Rightarrow> memory \<Rightarrow> u32 \<times> memory" where
  "kyte_atomic_sub_i32 p d m = (load32 m p, store32 m p (load32 m p - d))"

definition kyte_atomic_cas_i32 :: "addr \<Rightarrow> u32 \<Rightarrow> u32 \<Rightarrow> memory \<Rightarrow> int \<times> memory" where
  "kyte_atomic_cas_i32 p e des m = (if load32 m p = e then (1, store32 m p des) else (0, m))"

definition kyte_atomic_load_i32 :: "addr \<Rightarrow> memory \<Rightarrow> u32" where
  "kyte_atomic_load_i32 p m = load32 m p"

definition kyte_atomic_store_i32 :: "addr \<Rightarrow> u32 \<Rightarrow> memory \<Rightarrow> memory" where
  "kyte_atomic_store_i32 p v m = store32 m p v"

definition kyte_atomic_add_i64 :: "addr \<Rightarrow> u64 \<Rightarrow> memory \<Rightarrow> u64 \<times> memory" where
  "kyte_atomic_add_i64 p d m = (load64 m p, store64 m p (load64 m p + d))"

definition kyte_atomic_sub_i64 :: "addr \<Rightarrow> u64 \<Rightarrow> memory \<Rightarrow> u64 \<times> memory" where
  "kyte_atomic_sub_i64 p d m = (load64 m p, store64 m p (load64 m p - d))"

definition kyte_atomic_cas_i64 :: "addr \<Rightarrow> u64 \<Rightarrow> u64 \<Rightarrow> memory \<Rightarrow> int \<times> memory" where
  "kyte_atomic_cas_i64 p e des m = (if load64 m p = e then (1, store64 m p des) else (0, m))"

definition kyte_atomic_load_i64 :: "addr \<Rightarrow> memory \<Rightarrow> u64" where
  "kyte_atomic_load_i64 p m = load64 m p"

definition kyte_atomic_store_i64 :: "addr \<Rightarrow> u64 \<Rightarrow> memory \<Rightarrow> memory" where
  "kyte_atomic_store_i64 p v m = store64 m p v"

text \<open>The boolean cell is one byte; the arguments are cut to it.\<close>

definition kyte_atomic_cas_bool :: "addr \<Rightarrow> u32 \<Rightarrow> u32 \<Rightarrow> memory \<Rightarrow> int \<times> memory" where
  "kyte_atomic_cas_bool p e des m = (if m p = ucast e then (1, m(p := ucast des)) else (0, m))"

definition kyte_atomic_load_bool :: "addr \<Rightarrow> memory \<Rightarrow> u32" where
  "kyte_atomic_load_bool p m = ucast (m p)"

definition kyte_atomic_store_bool :: "addr \<Rightarrow> u32 \<Rightarrow> memory \<Rightarrow> memory" where
  "kyte_atomic_store_bool p v m = m(p := ucast v)"

end
