(* ===== verification/Kyte_Sync_Props.thy ===== *)
theory Kyte_Sync_Props
  imports Kyte_Sync
begin

text \<open>
  Threads that keep to the rules of C++ run into nothing undefined and exclude each other as the locks
  promise, along every run of every number of threads; the condition variable hands over and loses no
  wake-up; and the atomic cells count and decide once under every interleaving.
\<close>

section \<open>The invariant\<close>

text \<open>A thread blocked in a call names a live object of the right class that it does not hold.\<close>

definition place_ok :: "sync \<Rightarrow> tid \<Rightarrow> place \<Rightarrow> bool" where
  "place_ok s t p =
     (case p of
        Runs \<Rightarrow> True
      | Spins h \<Rightarrow> flags s h \<noteq> None
      | AtMutex h \<Rightarrow> mutexes s h \<noteq> None \<and> mutexes s h \<noteq> Some (Some t)
      | AtCond c h \<Rightarrow> condvars s c \<and> mutexes s h \<noteq> None \<and> mutexes s h \<noteq> Some (Some t)
      | AtRead h \<Rightarrow> (case rwlocks s h of None \<Rightarrow> False | Some (rs, w) \<Rightarrow> t \<notin> set rs \<and> w \<noteq> Some t)
      | AtWrite h \<Rightarrow> (case rwlocks s h of None \<Rightarrow> False | Some (rs, w) \<Rightarrow> t \<notin> set rs \<and> w \<noteq> Some t))"

definition rw_ok :: "tid list \<times> tid option \<Rightarrow> bool" where
  "rw_ok x \<longleftrightarrow> distinct (fst x) \<and> (snd x = None \<or> fst x = [])"

definition sync_ok :: "sync \<Rightarrow> bool" where
  "sync_ok s \<longleftrightarrow>
     (\<forall>t < length (places s). place_ok s t (places s ! t))
   \<and> (\<forall>h x. rwlocks s h = Some x \<longrightarrow> rw_ok x)"

lemma sync_okI:
  assumes "\<And>t. t < length (places s) \<Longrightarrow> place_ok s t (places s ! t)"
    and "\<And>h x. rwlocks s h = Some x \<Longrightarrow> rw_ok x"
  shows "sync_ok s"
  using assms by (simp add: sync_ok_def)

lemma sync_okD:
  assumes "sync_ok s"
  shows "t < length (places s) \<Longrightarrow> place_ok s t (places s ! t)"
    and "rwlocks s h = Some x \<Longrightarrow> rw_ok x"
  using assms unfolding sync_ok_def by blast+

lemma go_simps [simp]:
  "flags (go t p s) = flags s" "mutexes (go t p s) = mutexes s" "condvars (go t p s) = condvars s"
  "rwlocks (go t p s) = rwlocks s" "warned (go t p s) = warned s"
  "places (go t p s) = (places s)[t := p]"
  by (simp_all add: go_def)

lemma place_ok_cong:
  "flags s' = flags s \<Longrightarrow> mutexes s' = mutexes s \<Longrightarrow> condvars s' = condvars s \<Longrightarrow> rwlocks s' = rwlocks s
    \<Longrightarrow> place_ok s' t p = place_ok s t p"
  by (simp add: place_ok_def split: place.splits)

lemma nth_list_update': "j < length xs \<Longrightarrow> xs[i := x] ! j = (if i = j then x else xs ! j)"
  by (cases "i = j") simp_all

lemma go_ok: "sync_ok s \<Longrightarrow> place_ok s t p \<Longrightarrow> sync_ok (go t p s)"
  by (rule sync_okI) (auto simp: sync_okD nth_list_update' place_ok_cong [of "go t p s" s])

lemma place_ok_Runs [simp]: "place_ok s t Runs"
  by (simp add: place_ok_def)

text \<open>An update of one lock keeps the invariant when the places still fit it.\<close>

lemma spin_update_ok:
  assumes "sync_ok s" "flags s h \<noteq> None"
  shows "sync_ok (s\<lparr>flags := (flags s)(h \<mapsto> b)\<rparr>)"
  using assms by (intro sync_okI) (auto simp: sync_okD place_ok_def split: place.splits dest!: sync_okD(1))

lemma mutex_update_ok:
  assumes "sync_ok s" "mutexes s h \<noteq> None"
    and "\<And>t. ow = Some t \<Longrightarrow> t < length (places s) \<and> places s ! t = Runs"
  shows "sync_ok (s\<lparr>mutexes := (mutexes s)(h \<mapsto> ow)\<rparr>)"
  using assms by (intro sync_okI) (auto simp: sync_okD place_ok_def split: place.splits dest!: sync_okD(1))

lemma rw_update_ok:
  assumes "sync_ok s" "rwlocks s h = Some x" "rw_ok y"
    and "\<And>t. t \<in> set (fst y) \<or> snd y = Some t \<Longrightarrow> t \<in> set (fst x) \<or> snd x = Some t \<or> places s ! t = Runs"
  shows "sync_ok (s\<lparr>rwlocks := (rwlocks s)(h \<mapsto> y)\<rparr>)"
proof (rule sync_okI)
  fix t
  assume "t < length (places (s\<lparr>rwlocks := (rwlocks s)(h \<mapsto> y)\<rparr>))"
  then have "place_ok s t (places s ! t)" using assms(1) by (simp add: sync_okD)
  then show "place_ok (s\<lparr>rwlocks := (rwlocks s)(h \<mapsto> y)\<rparr>) t (places (s\<lparr>rwlocks := (rwlocks s)(h \<mapsto> y)\<rparr>) ! t)"
    using assms(2) assms(4) [of t] by (cases x; cases y) (auto simp: place_ok_def split: place.splits)
qed (use assms in \<open>auto simp: sync_okD split: if_splits\<close>)

lemma go_commute:
  "go t p (s\<lparr>mutexes := a\<rparr>) = (go t p s)\<lparr>mutexes := a\<rparr>" "go t p (s\<lparr>rwlocks := b\<rparr>) = (go t p s)\<lparr>rwlocks := b\<rparr>"
  by (simp_all add: go_def)

section \<open>Every operation keeps it\<close>

lemma spin_turn_ok: "sync_ok s \<Longrightarrow> spin_turn t h s = Done s' \<Longrightarrow> sync_ok s'"
  using spin_update_ok [of s h True]
  by (auto simp: spin_turn_def place_ok_def intro!: go_ok split: option.splits bool.splits)

lemma spin_unlock_ok: "sync_ok s \<Longrightarrow> kyte_spin_unlock h s = Done s' \<Longrightarrow> sync_ok s'"
  using spin_update_ok [of s h False]
  by (auto simp: kyte_spin_unlock_def split: option.splits if_splits)

lemma lock_turn_ok:
  assumes "sync_ok s" "t < length (places s)" "lock_turn t h s = Done s'"
  shows "sync_ok s'"
proof -
  have "sync_ok (go t Runs s)" using assms(1) by (simp add: go_ok)
  from mutex_update_ok [OF this, of h "Some t"] show ?thesis
    using assms by (auto simp: lock_turn_def try_lock_def go_commute place_ok_def intro!: go_ok split: option.splits if_splits)
qed

lemma warned_ok: "sync_ok (s\<lparr>warned := w\<rparr>) = sync_ok s"
  by (simp add: sync_ok_def place_ok_cong [of "s\<lparr>warned := w\<rparr>" s])

lemma report_ok: "sync_ok s \<Longrightarrow> report env t s = Done s' \<Longrightarrow> sync_ok s' \<and> (\<exists>w. s' = s\<lparr>warned := w\<rparr>)"
  by (auto simp: report_def warned_ok split: outcome.splits prod.splits)

lemma mutex_lock_ok:
  assumes "sync_ok s" "t < length (places s)" "places s ! t = Runs" "kyte_mutex_lock env t h s = Done s'"
  shows "sync_ok s'"
proof (cases "mutexes s h = Some None \<and> h \<noteq> 0")
  case True
  then show ?thesis using assms mutex_update_ok [of s h "Some t"] by (auto simp: kyte_mutex_lock_def try_lock_def)
next
  case False
  then show ?thesis using assms report_ok [OF assms(1), of env t] lock_turn_ok [of _ t h s']
    by (auto simp: kyte_mutex_lock_def try_lock_def split: if_splits option.splits effect.splits)
qed

lemma mutex_unlock_ok: "sync_ok s \<Longrightarrow> kyte_mutex_unlock t h s = Done s' \<Longrightarrow> sync_ok s'"
  using mutex_update_ok [of s h None] by (auto simp: kyte_mutex_unlock_def split: if_splits)

lemma condvar_wait_ok:
  assumes "sync_ok s" "kyte_condvar_wait env t cv m s = Done s'"
  shows "sync_ok s'"
proof (cases "cv \<noteq> 0 \<and> m \<noteq> 0")
  case True
  then obtain s0 where s0: "report env t s = Done s0" "condvars s0 cv" "mutexes s0 m = Some (Some t)"
    "s' = go t (AtCond cv m) (s0\<lparr>mutexes := (mutexes s0)(m \<mapsto> None)\<rparr>)"
    using assms(2) by (auto simp: kyte_condvar_wait_def split: effect.splits if_splits)
  have "sync_ok (s0\<lparr>mutexes := (mutexes s0)(m \<mapsto> None)\<rparr>)"
    using report_ok [OF assms(1) s0(1)] s0(3) by (intro mutex_update_ok) auto
  then show ?thesis using s0 by (auto intro!: go_ok simp: place_ok_def)
qed (use assms in \<open>auto simp: kyte_condvar_wait_def\<close>)

lemma woken_ok: "place_ok s t p \<Longrightarrow> place_ok s t (woken p)"
  by (auto simp: woken_def place_ok_def split: place.splits)

lemma wake_ok: "sync_ok s \<Longrightarrow> t < length (places s) \<Longrightarrow> sync_ok (wake t s)"
  by (simp add: wake_def go_ok woken_ok sync_okD)

lemma set_waiters: "set (waiters cv s) = {t. t < length (places s) \<and> waits_on cv (places s ! t)}"
  by (auto simp: waiters_def)

lemma signal_ok: "sync_ok s \<Longrightarrow> kyte_condvar_signal pick cv s = Done s' \<Longrightarrow> sync_ok s'"
  using set_waiters [of cv s] nth_mem [of "pick mod length (waiters cv s)" "waiters cv s"]
  by (auto simp: kyte_condvar_signal_def Let_def intro!: wake_ok split: if_splits)

lemma broadcast_ok: "sync_ok s \<Longrightarrow> kyte_condvar_broadcast cv s = Done s' \<Longrightarrow> sync_ok s'"
  by (auto simp: kyte_condvar_broadcast_def sync_okD woken_ok place_ok_cong [of "s\<lparr>places := _\<rparr>" s]
      intro!: sync_okI split: if_splits)

text \<open>The operations that create and destroy objects leave the places alone.\<close>

lemma objects_ok:
  assumes "sync_ok s" "places s' = places s"
    and "\<And>t. t < length (places s) \<Longrightarrow> place_ok s t (places s ! t) \<Longrightarrow> place_ok s' t (places s ! t)"
    and "\<And>h x. rwlocks s' h = Some x \<Longrightarrow> rw_ok x"
  shows "sync_ok s'"
  using assms by (simp add: sync_ok_def)

text \<open>Destroying an object leaves the places valid when no place names it.\<close>

lemma destroy_ok:
  assumes "sync_ok s"
    and "s' = s\<lparr>mutexes := (mutexes s)(h := None)\<rparr> \<and> (\<forall>t < length (places s). places s ! t \<notin> {AtMutex h} \<union> range (\<lambda>cv. AtCond cv h))
      \<or> s' = s\<lparr>condvars := (condvars s)(h := False)\<rparr> \<and> (\<forall>t < length (places s). places s ! t \<notin> range (AtCond h))
      \<or> s' = s\<lparr>rwlocks := (rwlocks s)(h := None)\<rparr> \<and> (\<forall>t < length (places s). places s ! t \<notin> {AtRead h, AtWrite h})"
  shows "sync_ok s'"
  using assms(1)
proof (rule objects_ok)
  fix t
  assume t: "t < length (places s)" and ok: "place_ok s t (places s ! t)"
  show "place_ok s' t (places s ! t)"
    using assms(2) t ok by (elim disjE conjE; cases "places s ! t") (auto simp: place_ok_def)
qed (use assms in \<open>auto simp: sync_okD split: if_splits\<close>)

lemma rw_enter_ok: "sync_ok s \<Longrightarrow> p = AtRead h \<or> p = AtWrite h \<Longrightarrow> rw_enter p t h s = Done s' \<Longrightarrow> sync_ok s'"
  by (auto simp: rw_enter_def place_ok_def intro!: go_ok split: option.splits prod.splits if_splits)

lemma rw_turn_ok:
  assumes "sync_ok s" "t < length (places s)" "places s ! t = AtRead h \<and> read_turn t h s = Done s' \<or> places s ! t = AtWrite h \<and> write_turn t h s = Done s'"
  shows "sync_ok s'"
proof -
  have ok: "sync_ok (go t Runs s)" using assms(1) by (simp add: go_ok)
  have runs: "places (go t Runs s) ! t = Runs" using assms(2) by simp
  have h: "place_ok s t (places s ! t)" using assms by (simp add: sync_okD)
  obtain rs w where x: "rwlocks s h = Some (rs, w)" "t \<notin> set rs" "w \<noteq> Some t"
    using h assms(3) by (auto simp: place_ok_def split: option.splits)
  have d: "distinct rs" using sync_okD(2) [OF assms(1) x(1)] by (simp add: rw_ok_def)
  have "sync_ok ((go t Runs s)\<lparr>rwlocks := (rwlocks s)(h \<mapsto> (t # rs, None))\<rparr>)"
    using rw_update_ok [OF ok, of h "(rs, w)" "(t # rs, None)"] x d runs by (auto simp: rw_ok_def)
  moreover have "sync_ok ((go t Runs s)\<lparr>rwlocks := (rwlocks s)(h \<mapsto> ([], Some t))\<rparr>)"
    using rw_update_ok [OF ok, of h "(rs, w)" "([], Some t)"] x runs by (auto simp: rw_ok_def)
  ultimately show ?thesis
    using assms x by (auto simp: read_turn_def write_turn_def go_commute split: option.splits list.splits)
qed

lemma rw_release_read_ok:
  assumes "sync_ok s" "kyte_rwlock_release_read t h s = Done s'"
  shows "sync_ok s'"
proof (cases "h = 0")
  case False
  then obtain rs w where x: "rwlocks s h = Some (rs, w)" "s' = s\<lparr>rwlocks := (rwlocks s)(h \<mapsto> (remove1 t rs, w))\<rparr>"
    using assms(2) by (auto simp: kyte_rwlock_release_read_def split: option.splits if_splits)
  have "rw_ok (remove1 t rs, w)" using sync_okD(2) [OF assms(1) x(1)] by (auto simp: rw_ok_def)
  then have "sync_ok (s\<lparr>rwlocks := (rwlocks s)(h \<mapsto> (remove1 t rs, w))\<rparr>)"
    by (rule rw_update_ok [OF assms(1) x(1)]) (auto dest: notin_set_remove1)
  then show ?thesis by (simp add: x(2))
qed (use assms in \<open>simp add: kyte_rwlock_release_read_def\<close>)

lemma rw_release_write_ok:
  assumes "sync_ok s" "kyte_rwlock_release_write t h s = Done s'"
  shows "sync_ok s'"
proof (cases "h = 0")
  case False
  then obtain rs w where x: "rwlocks s h = Some (rs, w)" "s' = s\<lparr>rwlocks := (rwlocks s)(h \<mapsto> (rs, None))\<rparr>"
    using assms(2) by (auto simp: kyte_rwlock_release_write_def split: option.splits if_splits)
  have "rw_ok (rs, None)" using sync_okD(2) [OF assms(1) x(1)] by (auto simp: rw_ok_def)
  then have "sync_ok (s\<lparr>rwlocks := (rwlocks s)(h \<mapsto> (rs, None))\<rparr>)"
    by (rule rw_update_ok [OF assms(1) x(1)]) auto
  then show ?thesis by (simp add: x(2))
qed (use assms in \<open>simp add: kyte_rwlock_release_write_def\<close>)

lemma create_ok:
  assumes "sync_ok s" "created f a s = Done s'" "f \<in> {kyte_spin_create, kyte_mutex_create, kyte_condvar_create, kyte_rwlock_create}"
  shows "sync_ok s'"
proof -
  have a: "fresh a s" "s' = snd (f a s)" using assms(2) by (simp_all add: created_def split: if_splits)
  show ?thesis using assms(1)
  proof (rule objects_ok)
    fix t
    assume "t < length (places s)" "place_ok s t (places s ! t)"
    then show "place_ok s' t (places s ! t)" using a assms(3)
      by (auto simp: fresh_def kyte_spin_create_def kyte_mutex_create_def kyte_condvar_create_def
        kyte_rwlock_create_def place_ok_def split: place.splits if_splits)
  next
    show "rw_ok x" if "rwlocks s' h = Some x" for h x
      using that a assms(3) sync_okD(2) [OF assms(1), of h x]
      by (auto simp: kyte_spin_create_def kyte_mutex_create_def kyte_condvar_create_def kyte_rwlock_create_def rw_ok_def split: if_splits)
  qed (use a assms(3) in \<open>auto simp: kyte_spin_create_def kyte_mutex_create_def kyte_condvar_create_def kyte_rwlock_create_def\<close>)
qed

lemma turn_ok: "sync_ok s \<Longrightarrow> t < length (places s) \<Longrightarrow> turn t s = Done s' \<Longrightarrow> sync_ok s'"
  using rw_turn_ok [of s t]
  by (auto simp: turn_def intro: spin_turn_ok lock_turn_ok wake_ok split: place.splits if_splits)

section \<open>Threads and their rules\<close>

text \<open>
  What a thread knows of itself: the call it is in, and the zones it has entered and not left.  A
  zone is entered when the call that locks returns and left when the call that unlocks is made; a
  wait leaves the mutex's zone and is back in it when it returns.  No lock is looked at for this.
\<close>

datatype zone = In_Spin addr | In_Mutex addr | In_Read addr | In_Write addr

fun enters :: "sync_call \<Rightarrow> zone set" where
  "enters (Spin_lock h) = (if h = 0 then {} else {In_Spin h})"
| "enters (Mutex_lock h) = (if h = 0 then {} else {In_Mutex h})"
| "enters (Cond_wait cv m) = (if cv \<noteq> 0 \<and> m \<noteq> 0 then {In_Mutex m} else {})"
| "enters (Read_acquire h) = (if h = 0 then {} else {In_Read h})"
| "enters (Write_acquire h) = (if h = 0 then {} else {In_Write h})"
| "enters _ = {}"

fun leaves :: "sync_call \<Rightarrow> zone set" where
  "leaves (Spin_unlock h) = (if h = 0 then {} else {In_Spin h})"
| "leaves (Mutex_unlock h) = (if h = 0 then {} else {In_Mutex h})"
| "leaves (Cond_wait cv m) = (if cv \<noteq> 0 \<and> m \<noteq> 0 then {In_Mutex m} else {})"
| "leaves (Read_release h) = (if h = 0 then {} else {In_Read h})"
| "leaves (Write_release h) = (if h = 0 then {} else {In_Write h})"
| "leaves _ = {}"

record client =
  obj :: sync
  pending :: "tid \<Rightarrow> sync_call option"
  secs :: "tid \<Rightarrow> zone set"

text \<open>
  The rules of C++: a call names a live object or null; only who is in a zone leaves it; nobody
  locks what he holds; one waits with a mutex he holds; and what is destroyed has nobody inside and no
  call under way on it.
\<close>

definition unused :: "addr \<Rightarrow> zone set \<Rightarrow> sync_call set \<Rightarrow> client \<Rightarrow> bool" where
  "unused h S C w \<longleftrightarrow> (\<forall>u. secs w u \<inter> S = {} \<and> (\<forall>c. pending w u = Some c \<longrightarrow> c \<notin> C))"

fun mannered :: "sync_call \<Rightarrow> tid \<Rightarrow> client \<Rightarrow> bool" where
  "mannered (Spin_create a) t w \<longleftrightarrow> fresh a (obj w)"
| "mannered (Spin_lock h) t w \<longleftrightarrow> h = 0 \<or> flags (obj w) h \<noteq> None"
| "mannered (Spin_unlock h) t w \<longleftrightarrow> h = 0 \<or> In_Spin h \<in> secs w t"
| "mannered (Mutex_create a) t w \<longleftrightarrow> fresh a (obj w)"
| "mannered (Mutex_lock h) t w \<longleftrightarrow> h = 0 \<or> mutexes (obj w) h \<noteq> None \<and> In_Mutex h \<notin> secs w t"
| "mannered (Mutex_unlock h) t w \<longleftrightarrow> h = 0 \<or> In_Mutex h \<in> secs w t"
| "mannered (Mutex_destroy h) t w \<longleftrightarrow> h = 0 \<or> mutexes (obj w) h \<noteq> None
     \<and> unused h {In_Mutex h} ({Mutex_lock h} \<union> range (\<lambda>cv. Cond_wait cv h)) w"
| "mannered (Cond_create a) t w \<longleftrightarrow> fresh a (obj w)"
| "mannered (Cond_wait cv m) t w \<longleftrightarrow> cv = 0 \<or> m = 0 \<or> condvars (obj w) cv \<and> In_Mutex m \<in> secs w t"
| "mannered (Cond_signal cv pick) t w \<longleftrightarrow> cv = 0 \<or> condvars (obj w) cv"
| "mannered (Cond_broadcast cv) t w \<longleftrightarrow> cv = 0 \<or> condvars (obj w) cv"
| "mannered (Cond_destroy cv) t w \<longleftrightarrow> cv = 0 \<or> condvars (obj w) cv \<and> unused cv {} (range (Cond_wait cv)) w"
| "mannered (Rw_create a) t w \<longleftrightarrow> fresh a (obj w)"
| "mannered (Read_acquire h) t w \<longleftrightarrow> h = 0 \<or> rwlocks (obj w) h \<noteq> None \<and> In_Read h \<notin> secs w t \<and> In_Write h \<notin> secs w t"
| "mannered (Read_release h) t w \<longleftrightarrow> h = 0 \<or> In_Read h \<in> secs w t"
| "mannered (Write_acquire h) t w \<longleftrightarrow> h = 0 \<or> rwlocks (obj w) h \<noteq> None \<and> In_Read h \<notin> secs w t \<and> In_Write h \<notin> secs w t"
| "mannered (Write_release h) t w \<longleftrightarrow> h = 0 \<or> In_Write h \<in> secs w t"
| "mannered (Rw_destroy h) t w \<longleftrightarrow> h = 0 \<or> rwlocks (obj w) h \<noteq> None
     \<and> unused h {In_Read h, In_Write h} {Read_acquire h, Write_acquire h} w"

text \<open>The state \<open>s\<close> a step of \<open>t\<close> in the call \<open>c\<close> leaves: the call has returned, or it has not.\<close>

definition settle :: "tid \<Rightarrow> sync_call \<Rightarrow> sync \<Rightarrow> zone set \<Rightarrow> client \<Rightarrow> client" where
  "settle t c s S w =
     (if places s ! t = Runs
      then w\<lparr>obj := s, pending := (pending w)(t := None), secs := (secs w)(t := S \<union> enters c)\<rparr>
      else w\<lparr>obj := s, pending := (pending w)(t := Some c), secs := (secs w)(t := S)\<rparr>)"

inductive client_step :: "env \<Rightarrow> client \<Rightarrow> client \<Rightarrow> bool" for env where
  Call: "t < length (places (obj w)) \<Longrightarrow> pending w t = None \<Longrightarrow> mannered c t w \<Longrightarrow> perform env c t (obj w) = Done s \<Longrightarrow>
     client_step env w (settle t c s (secs w t - leaves c) w)"
| Turn: "t < length (places (obj w)) \<Longrightarrow> pending w t = Some c \<Longrightarrow> turn t (obj w) = Done s \<Longrightarrow>
     client_step env w (settle t c s (secs w t) w)"

definition clients :: "nat \<Rightarrow> client" where
  "clients n = \<lparr>obj = no_objects n, pending = (\<lambda>_. None), secs = (\<lambda>_. {})\<rparr>"

text \<open>Which two threads may not be in at once.\<close>

fun conflict :: "zone \<Rightarrow> zone \<Rightarrow> bool" where
  "conflict (In_Spin g) (In_Spin h) = (g = h)"
| "conflict (In_Mutex g) (In_Mutex h) = (g = h)"
| "conflict (In_Write g) (In_Write h) = (g = h)"
| "conflict (In_Write g) (In_Read h) = (g = h)"
| "conflict (In_Read g) (In_Write h) = (g = h)"
| "conflict _ _ = False"

section \<open>The threads' view and the locks agree\<close>

definition locks_ok :: "sync \<Rightarrow> (tid \<Rightarrow> zone set) \<Rightarrow> bool" where
  "locks_ok s S \<longleftrightarrow>
     (\<forall>h. flags s h = Some True \<longleftrightarrow> (\<exists>t. In_Spin h \<in> S t))
   \<and> (\<forall>h t u. In_Spin h \<in> S t \<longrightarrow> In_Spin h \<in> S u \<longrightarrow> t = u)
   \<and> (\<forall>h t. In_Mutex h \<in> S t \<longleftrightarrow> mutexes s h = Some (Some t))
   \<and> (\<forall>h t. In_Read h \<in> S t \<longleftrightarrow> (\<exists>rs w. rwlocks s h = Some (rs, w) \<and> t \<in> set rs))
   \<and> (\<forall>h t. In_Write h \<in> S t \<longleftrightarrow> (\<exists>rs. rwlocks s h = Some (rs, Some t)))"

fun spots :: "sync_call \<Rightarrow> place set" where
  "spots (Spin_lock h) = (if h = 0 then {} else {Spins h})"
| "spots (Mutex_lock h) = (if h = 0 then {} else {AtMutex h})"
| "spots (Cond_wait cv m) = (if cv \<noteq> 0 \<and> m \<noteq> 0 then {AtCond cv m, AtMutex m} else {})"
| "spots (Read_acquire h) = (if h = 0 then {} else {AtRead h})"
| "spots (Write_acquire h) = (if h = 0 then {} else {AtWrite h})"
| "spots _ = {}"

lemma spots_enters:
  "Spins h \<in> spots c \<Longrightarrow> c = Spin_lock h \<and> h \<noteq> 0" "AtMutex h \<in> spots c \<Longrightarrow> enters c = {In_Mutex h}"
  "AtRead h \<in> spots c \<Longrightarrow> c = Read_acquire h \<and> h \<noteq> 0" "AtWrite h \<in> spots c \<Longrightarrow> c = Write_acquire h \<and> h \<noteq> 0"
  "AtCond cv h \<in> spots c \<Longrightarrow> c = Cond_wait cv h \<and> enters c = {In_Mutex h} \<and> AtMutex h \<in> spots c" "Runs \<notin> spots c"
  by (cases c; auto split: if_splits)+

definition spot_ok :: "sync_call option \<Rightarrow> place \<Rightarrow> bool" where
  "spot_ok c p = (case c of None \<Rightarrow> p = Runs | Some c \<Rightarrow> p \<in> spots c)"

lemma spot_ok_simps [simp]: "spot_ok None p = (p = Runs)" "spot_ok (Some c) p = (p \<in> spots c)"
  by (simp_all add: spot_ok_def)

definition agrees :: "nat \<Rightarrow> client \<Rightarrow> bool" where
  "agrees n w \<longleftrightarrow> length (places (obj w)) = n \<and> sync_ok (obj w) \<and> locks_ok (obj w) (secs w)
     \<and> (\<forall>t < n. spot_ok (pending w t) (places (obj w) ! t))"

lemma locks_same [simp]:
  "locks_ok (s\<lparr>condvars := x\<rparr>) S = locks_ok s S" "locks_ok (s\<lparr>places := y\<rparr>) S = locks_ok s S"
  "locks_ok (s\<lparr>warned := z\<rparr>) S = locks_ok s S" "locks_ok (go t p s) S = locks_ok s S"
  by (simp_all add: locks_ok_def)

lemma locks_spin:
  assumes "locks_ok s S"
  shows "flags s h = Some False \<Longrightarrow> locks_ok (s\<lparr>flags := (flags s)(h \<mapsto> True)\<rparr>) (S(t := insert (In_Spin h) (S t)))"
    and "In_Spin h \<in> S t \<Longrightarrow> locks_ok (s\<lparr>flags := (flags s)(h \<mapsto> False)\<rparr>) (S(t := S t - {In_Spin h}))"
    and "flags s h = None \<Longrightarrow> locks_ok (s\<lparr>flags := (flags s)(h \<mapsto> False)\<rparr>) S"
  using assms by (auto simp: locks_ok_def) (metis option.inject option.distinct(1))+

lemma locks_mutex:
  assumes "locks_ok s S"
  shows "mutexes s h = Some None \<Longrightarrow> locks_ok (s\<lparr>mutexes := (mutexes s)(h \<mapsto> Some t)\<rparr>) (S(t := insert (In_Mutex h) (S t)))"
    and "In_Mutex h \<in> S t \<Longrightarrow> locks_ok (s\<lparr>mutexes := (mutexes s)(h \<mapsto> None)\<rparr>) (S(t := S t - {In_Mutex h}))"
    and "mutexes s h = None \<Longrightarrow> locks_ok (s\<lparr>mutexes := (mutexes s)(h \<mapsto> None)\<rparr>) S"
    and "(\<And>u. In_Mutex h \<notin> S u) \<Longrightarrow> locks_ok (s\<lparr>mutexes := (mutexes s)(h := None)\<rparr>) S"
  using assms by (auto simp: locks_ok_def)

lemma locks_rw:
  assumes "locks_ok s S"
  shows "rwlocks s h = Some (rs, None) \<Longrightarrow> locks_ok (s\<lparr>rwlocks := (rwlocks s)(h \<mapsto> (t # rs, None))\<rparr>) (S(t := insert (In_Read h) (S t)))"
    and "rwlocks s h = Some (rs, x) \<Longrightarrow> distinct rs \<Longrightarrow> locks_ok (s\<lparr>rwlocks := (rwlocks s)(h \<mapsto> (remove1 t rs, x))\<rparr>) (S(t := S t - {In_Read h}))"
    and "rwlocks s h = Some ([], None) \<Longrightarrow> locks_ok (s\<lparr>rwlocks := (rwlocks s)(h \<mapsto> ([], Some t))\<rparr>) (S(t := insert (In_Write h) (S t)))"
    and "rwlocks s h = Some (rs, Some t) \<Longrightarrow> locks_ok (s\<lparr>rwlocks := (rwlocks s)(h \<mapsto> (rs, None))\<rparr>) (S(t := S t - {In_Write h}))"
    and "rwlocks s h = None \<Longrightarrow> locks_ok (s\<lparr>rwlocks := (rwlocks s)(h \<mapsto> ([], None))\<rparr>) S"
    and "(\<And>u. In_Read h \<notin> S u \<and> In_Write h \<notin> S u) \<Longrightarrow> locks_ok (s\<lparr>rwlocks := (rwlocks s)(h := None)\<rparr>) S"
  using assms by (auto simp: locks_ok_def)

lemma report_warned: "report env t s = Done s' \<Longrightarrow> \<exists>x. s' = s\<lparr>warned := x\<rparr>"
  by (auto simp: report_def split: outcome.splits prod.splits)

lemma report_defined: "report env t s \<noteq> Undefined"
  by (auto simp: report_def split: outcome.splits prod.splits)

lemma lock_turn_cases:
  "mutexes s h = Some None \<Longrightarrow> lock_turn t h s = Done (go t Runs (s\<lparr>mutexes := (mutexes s)(h \<mapsto> Some t)\<rparr>))"
  "mutexes s h = Some (Some u) \<Longrightarrow> u \<noteq> t \<Longrightarrow> lock_turn t h s = Done (go t (AtMutex h) s)"
  by (simp_all add: lock_turn_def try_lock_def)

lemma mutex_lock_cases:
  assumes "h \<noteq> 0"
  shows "mutexes s h = Some None \<Longrightarrow> kyte_mutex_lock env t h s = Done (s\<lparr>mutexes := (mutexes s)(h \<mapsto> Some t)\<rparr>)"
    and "mutexes s h = Some (Some u) \<Longrightarrow> u \<noteq> t \<Longrightarrow> kyte_mutex_lock env t h s =
      (case report env t s of Done s \<Rightarrow> Done (go t (AtMutex h) s) | e \<Rightarrow> e)"
  using assms lock_turn_cases(2) [of _ h u t]
  by (auto simp: kyte_mutex_lock_def try_lock_def split: effect.splits dest!: report_warned)

text \<open>What a call does to the locks is what the thread's view says.\<close>

definition gained :: "tid \<Rightarrow> sync_call \<Rightarrow> sync \<Rightarrow> zone set" where
  "gained t c s = (if places s ! t = Runs then enters c else {})"

lemma mutex_calls_agree:
  assumes w: "locks_ok (obj w) (secs w)" "t < length (places (obj w))" "places (obj w) ! t = Runs" "mannered c t w"
    and c: "c \<in> {Mutex_lock h, Mutex_unlock h, Mutex_destroy h, Cond_wait cv h}" and p: "perform env c t (obj w) = Done s"
  shows "locks_ok s ((secs w)(t := secs w t - leaves c \<union> gained t c s))"
proof -
  have own: "In_Mutex h \<in> secs w u \<longleftrightarrow> mutexes (obj w) h = Some (Some u)" for u using w(1) by (simp add: locks_ok_def)
  note upd = locks_mutex [OF w(1), of h]
  consider "c = Mutex_lock h" "h \<noteq> 0" | "c = Cond_wait cv h" "h \<noteq> 0 \<and> cv \<noteq> 0"
    | "c = Mutex_unlock h" "h \<noteq> 0" | "c = Mutex_destroy h" "h \<noteq> 0" | "s = obj w \<and> leaves c = {} \<and> enters c = {}"
    using c p by (auto simp: kyte_mutex_lock_def kyte_mutex_unlock_def kyte_mutex_destroy_def kyte_condvar_wait_def split: if_splits)
  then show ?thesis
  proof cases
    case 1
    then have "mutexes (obj w) h \<noteq> None" "mutexes (obj w) h \<noteq> Some (Some t)" using w(4) own by simp_all
    then consider "mutexes (obj w) h = Some None" | u where "mutexes (obj w) h = Some (Some u)" "u \<noteq> t"
      by (metis option.exhaust)
    then show ?thesis
    proof cases
      case a: 1
      then have "s = (obj w)\<lparr>mutexes := (mutexes (obj w))(h \<mapsto> Some t)\<rparr>" using p 1 mutex_lock_cases(1) by simp
      then show ?thesis using upd(1) [OF a, of t] w(3) 1 by (simp add: gained_def)
    next
      case a: 2
      then obtain x where "s = go t (AtMutex h) ((obj w)\<lparr>warned := x\<rparr>)"
        using p 1 mutex_lock_cases(2) [OF 1(2) a] by (auto split: effect.splits dest!: report_warned)
      then show ?thesis using w(1,2) 1 by (simp add: gained_def)
    qed
  next
    case 2
    then obtain x where "s = go t (AtCond cv h) ((obj w)\<lparr>warned := x, mutexes := (mutexes (obj w))(h \<mapsto> None)\<rparr>)"
      using p by (auto simp: kyte_condvar_wait_def split: effect.splits if_splits dest!: report_warned)
    moreover have "In_Mutex h \<in> secs w t" using w(4) 2 by auto
    moreover have "(obj w)\<lparr>warned := x, mutexes := (mutexes (obj w))(h \<mapsto> None)\<rparr> = (obj w)\<lparr>mutexes := (mutexes (obj w))(h \<mapsto> None)\<rparr>\<lparr>warned := x\<rparr>"
      by simp
    ultimately show ?thesis using upd(2) [of t] w(2) 2 by (simp only: locks_same) (simp add: gained_def)
  next
    case 3
    then show ?thesis using p w(3,4) upd(2) [of t] by (auto simp: kyte_mutex_unlock_def gained_def split: if_splits)
  next
    case 4
    then show ?thesis using p w(3,4) upd(4) by (auto simp: kyte_mutex_destroy_def gained_def unused_def split: if_splits)
  qed (use w(1) in \<open>simp add: gained_def\<close>)
qed

lemma rw_calls_agree:
  assumes w: "locks_ok (obj w) (secs w)" "t < length (places (obj w))" "places (obj w) ! t = Runs" "mannered c t w" "sync_ok (obj w)"
    and c: "c \<in> {Read_acquire h, Read_release h, Write_acquire h, Write_release h, Rw_destroy h}" and p: "perform env c t (obj w) = Done s"
  shows "locks_ok s ((secs w)(t := secs w t - leaves c \<union> gained t c s))"
proof -
  note upd = locks_rw [OF w(1), of h]
  have d: "distinct rs" if "rwlocks (obj w) h = Some (rs, x)" for rs x using sync_okD(2) [OF w(5) that] by (simp add: rw_ok_def)
  consider "h = 0" | "c = Read_acquire h \<or> c = Write_acquire h" "h \<noteq> 0" | "c = Read_release h" "h \<noteq> 0" | "c = Write_release h" "h \<noteq> 0" | "c = Rw_destroy h" "h \<noteq> 0"
    using c by auto
  then show ?thesis
  proof cases
    case 1
    then show ?thesis using c p w(1)
      by (auto simp: gained_def kyte_rwlock_acquire_read_def kyte_rwlock_acquire_write_def kyte_rwlock_release_read_def
        kyte_rwlock_release_write_def kyte_rwlock_destroy_def)
  next
    case 2
    then show ?thesis using p w(1,2)
      by (auto simp: gained_def kyte_rwlock_acquire_read_def kyte_rwlock_acquire_write_def rw_enter_def split: option.splits if_splits)
  next
    case 3
    then show ?thesis using p w(3) upd(2) d
      by (auto simp: gained_def kyte_rwlock_release_read_def split: option.splits if_splits)
  next
    case 4
    then show ?thesis using p w(3) upd(4)
      by (auto simp: gained_def kyte_rwlock_release_write_def split: option.splits if_splits)
  next
    case 5
    then show ?thesis using p w(3,4) upd(6)
      by (auto simp: gained_def kyte_rwlock_destroy_def unused_def split: if_splits)
  qed
qed

lemma spin_calls_agree:
  assumes w: "locks_ok (obj w) (secs w)" "t < length (places (obj w))" "places (obj w) ! t = Runs" "mannered c t w"
    and c: "c \<in> {Spin_lock h, Spin_unlock h}" and p: "perform env c t (obj w) = Done s"
  shows "locks_ok s ((secs w)(t := secs w t - leaves c \<union> gained t c s))"
  using assms locks_spin [OF w(1), of h]
  by (auto simp: gained_def kyte_spin_lock_def kyte_spin_unlock_def spin_turn_def split: if_splits option.splits bool.splits)

lemma creates_agree:
  assumes "locks_ok s0 S" "created f a s0 = Done s" "f \<in> {kyte_spin_create, kyte_mutex_create, kyte_condvar_create, kyte_rwlock_create}"
  shows "locks_ok s S"
  using assms locks_spin(3) [OF assms(1), of a] locks_mutex(3) [OF assms(1), of a] locks_rw(5) [OF assms(1), of a]
  by (auto simp: created_def fresh_def kyte_spin_create_def kyte_mutex_create_def kyte_condvar_create_def
    kyte_rwlock_create_def split: if_splits)

lemma cond_calls_locks:
  "kyte_condvar_signal pick cv s = Done s' \<Longrightarrow> locks_ok s' S = locks_ok s S"
  "kyte_condvar_broadcast cv s = Done s' \<Longrightarrow> locks_ok s' S = locks_ok s S"
  "kyte_condvar_destroy cv s = Done s' \<Longrightarrow> locks_ok s' S = locks_ok s S"
  by (auto simp: kyte_condvar_signal_def kyte_condvar_broadcast_def kyte_condvar_destroy_def Let_def wake_def
    split: if_splits)

lemma perform_agrees:
  assumes "locks_ok (obj w) (secs w)" "t < length (places (obj w))" "places (obj w) ! t = Runs" "mannered c t w" "sync_ok (obj w)"
    and "perform env c t (obj w) = Done s"
  shows "locks_ok s ((secs w)(t := secs w t - leaves c \<union> gained t c s))"
proof (cases "leaves c = {} \<and> enters c = {} \<and> (\<forall>h. c \<noteq> Mutex_destroy h \<and> c \<noteq> Rw_destroy h)")
  case False
  then show ?thesis
    using mutex_calls_agree [OF assms(1-4) _ assms(6)] rw_calls_agree [OF assms(1-5) _ assms(6)] spin_calls_agree [OF assms(1-4) _ assms(6)]
    by (cases c) simp_all
next
  case plain: True
  show ?thesis
  proof (cases c)
    case (Cond_wait cv m)
    then have "s = obj w" using plain assms(6) by (auto simp: kyte_condvar_wait_def split: if_splits)
    then show ?thesis using assms(1) plain by (simp add: gained_def)
  qed (use plain assms in \<open>auto simp: gained_def cond_calls_locks kyte_spin_lock_def kyte_spin_unlock_def kyte_mutex_lock_def
      kyte_mutex_unlock_def kyte_rwlock_acquire_read_def kyte_rwlock_acquire_write_def kyte_rwlock_release_read_def
      kyte_rwlock_release_write_def split: if_splits dest: creates_agree\<close>)
qed

lemma turn_agrees:
  assumes "locks_ok (obj w) (secs w)" "t < length (places (obj w))" "places (obj w) ! t \<in> spots c" "sync_ok (obj w)"
    and "turn t (obj w) = Done s"
  shows "locks_ok s ((secs w)(t := secs w t \<union> gained t c s))"
proof -
  have ok: "place_ok (obj w) t (places (obj w) ! t)" using sync_okD(1) [OF assms(4,2)] .
  note upd = locks_spin(1) [OF assms(1)] locks_mutex(1) [OF assms(1)] locks_rw(1,3) [OF assms(1)]
  show ?thesis
  proof (cases "places (obj w) ! t")
    case Runs
    then show ?thesis using assms(3) spots_enters(6) by simp
  next
    case (Spins h)
    then have "c = Spin_lock h" "h \<noteq> 0" using assms(3) spots_enters(1) by auto
    then show ?thesis using assms ok Spins upd(1) [of h t]
      by (auto simp: turn_def spin_turn_def place_ok_def gained_def split: option.splits bool.splits)
  next
    case (AtMutex h)
    have e: "enters c = {In_Mutex h}" using assms(3) AtMutex spots_enters(2) by simp
    obtain y where "mutexes (obj w) h = Some y" "y \<noteq> Some t" using ok AtMutex by (auto simp: place_ok_def)
    then consider "mutexes (obj w) h = Some None" | u where "mutexes (obj w) h = Some (Some u)" "u \<noteq> t" by (cases y) auto
    then show ?thesis
    proof cases
      case 1
      then have "s = go t Runs ((obj w)\<lparr>mutexes := (mutexes (obj w))(h \<mapsto> Some t)\<rparr>)"
        using assms(5) AtMutex lock_turn_cases(1) by (simp add: turn_def)
      then show ?thesis using assms(2) e upd(2) [OF 1, of t] by (simp add: gained_def)
    next
      case 2
      then have "s = go t (AtMutex h) (obj w)" using assms(5) AtMutex lock_turn_cases(2) by (simp add: turn_def)
      then show ?thesis using assms(1,2) by (simp add: gained_def)
    qed
  next
    case (AtCond cv m)
    then show ?thesis using assms(1,2,5) by (auto simp: turn_def wake_def woken_def gained_def split: if_splits)
  next
    case (AtRead h)
    then have "c = Read_acquire h" "h \<noteq> 0" using assms(3) spots_enters(3) by auto
    then show ?thesis using assms ok AtRead upd(3) [of h _ t]
      by (auto simp: turn_def read_turn_def place_ok_def gained_def split: option.splits)
  next
    case (AtWrite h)
    then have "c = Write_acquire h" "h \<noteq> 0" using assms(3) spots_enters(4) by auto
    then show ?thesis using assms ok AtWrite upd(4) [of h t]
      by (auto simp: turn_def write_turn_def place_ok_def gained_def split: option.splits list.splits)
  qed
qed

text \<open>A call moves its own thread to where it blocks, and wakes others at most.\<close>

lemma spot_woken: "spot_ok c p \<Longrightarrow> spot_ok c (if b then woken p else p)"
  by (cases p; cases c) (auto simp: spot_ok_def woken_def dest: spots_enters(1-5))

lemma perform_places:
  assumes "places s ! t = Runs" "t < length (places s)" "perform env c t s = Done s'"
  shows "length (places s') = length (places s) \<and> (places s' ! t = Runs \<or> places s' ! t \<in> spots c)
    \<and> (\<forall>u < length (places s). u \<noteq> t \<longrightarrow> places s' ! u = places s ! u \<or> places s' ! u = woken (places s ! u))"
proof (cases c)
  case (Cond_signal cv pick)
  define u where "u = waiters cv s ! (pick mod length (waiters cv s))"
  have fin: "kyte_condvar_signal pick cv s = Done s'" using Cond_signal assms(3) by simp
  show ?thesis
  proof (cases "cv = 0 \<or> waiters cv s = []")
    case True
    then have "s' = s" using fin by (auto simp: kyte_condvar_signal_def split: if_splits)
    then show ?thesis using assms by simp
  next
    case False
    then have s': "s' = wake u s" using fin by (auto simp: kyte_condvar_signal_def Let_def u_def split: if_splits)
    have "u \<in> set (waiters cv s)" using False by (simp add: u_def)
    then have "u \<noteq> t" using assms(1) by (auto simp: set_waiters waits_on_def)
    then show ?thesis using s' assms(1) by (auto simp: wake_def nth_list_update')
  qed
next
  case (Mutex_lock h)
  consider "h = 0" | "mutexes s h = None" | "h \<noteq> 0" "mutexes s h = Some None" | "mutexes s h = Some (Some t)"
    | v where "h \<noteq> 0" "mutexes s h = Some (Some v)" "v \<noteq> t" by (metis option.exhaust)
  then show ?thesis
    by cases (use assms Mutex_lock mutex_lock_cases in \<open>auto simp: kyte_mutex_lock_def try_lock_def split: effect.splits dest!: report_warned\<close>)
next
  case (Cond_wait cv m)
  then show ?thesis using assms
    by (auto simp: kyte_condvar_wait_def split: if_splits effect.splits dest!: report_warned)
next
  case (Spin_lock h)
  then show ?thesis using assms
    by (auto simp: kyte_spin_lock_def spin_turn_def split: if_splits option.splits bool.splits)
next
  case (Read_acquire h)
  then show ?thesis using assms
    by (auto simp: kyte_rwlock_acquire_read_def rw_enter_def split: if_splits option.splits)
next
  case (Write_acquire h)
  then show ?thesis using assms
    by (auto simp: kyte_rwlock_acquire_write_def rw_enter_def split: if_splits option.splits)
next
  case (Cond_broadcast cv)
  then show ?thesis using assms
    by (auto simp: kyte_condvar_broadcast_def waits_on_def split: if_splits)
qed (use assms in \<open>auto simp: created_def kyte_spin_create_def kyte_mutex_create_def kyte_condvar_create_def kyte_rwlock_create_def
    kyte_spin_unlock_def kyte_mutex_unlock_def kyte_mutex_destroy_def kyte_condvar_destroy_def kyte_rwlock_destroy_def
    kyte_rwlock_release_read_def kyte_rwlock_release_write_def split: if_splits option.splits\<close>)

lemma turn_places:
  assumes "t < length (places s)" "places s ! t \<in> spots c" "turn t s = Done s'"
  shows "length (places s') = length (places s) \<and> (places s' ! t = Runs \<or> places s' ! t \<in> spots c)
    \<and> (\<forall>u < length (places s). u \<noteq> t \<longrightarrow> places s' ! u = places s ! u)"
  using assms spots_enters(5)
  by (cases "places s ! t")
    (auto simp: turn_def spin_turn_def lock_turn_def try_lock_def wake_def woken_def read_turn_def write_turn_def
      split: option.splits bool.splits if_splits list.splits)

section \<open>Every run\<close>

lemma agreesD:
  assumes "agrees n w"
  shows "length (places (obj w)) = n" "sync_ok (obj w)" "locks_ok (obj w) (secs w)"
    and "t < n \<Longrightarrow> spot_ok (pending w t) (places (obj w) ! t)"
  using assms by (simp_all add: agrees_def)

text \<open>No place names an object nobody has a call under way on.\<close>

lemma unused_places:
  assumes "agrees n w" "unused h S C w" "u < n"
  shows "C = {Mutex_lock h} \<union> range (\<lambda>cv. Cond_wait cv h) \<Longrightarrow> places (obj w) ! u \<notin> {AtMutex h} \<union> range (\<lambda>cv. AtCond cv h)"
    and "C = range (Cond_wait h) \<Longrightarrow> places (obj w) ! u \<notin> range (AtCond h)"
    and "C = {Read_acquire h, Write_acquire h} \<Longrightarrow> places (obj w) ! u \<notin> {AtRead h, AtWrite h}"
proof -
  have "places (obj w) ! u = Runs \<or> (\<exists>c. places (obj w) ! u \<in> spots c \<and> c \<notin> C)"
    using agreesD(4) [OF assms(1,3)] assms(2) by (cases "pending w u") (auto simp: spot_ok_def unused_def)
  moreover have "c \<in> {Mutex_lock h} \<union> range (\<lambda>cv. Cond_wait cv h)" if "AtMutex h \<in> spots c" for c
    using that by (cases c) (auto split: if_splits)
  ultimately show "C = {Mutex_lock h} \<union> range (\<lambda>cv. Cond_wait cv h) \<Longrightarrow> places (obj w) ! u \<notin> {AtMutex h} \<union> range (\<lambda>cv. AtCond cv h)"
    "C = range (Cond_wait h) \<Longrightarrow> places (obj w) ! u \<notin> range (AtCond h)"
    "C = {Read_acquire h, Write_acquire h} \<Longrightarrow> places (obj w) ! u \<notin> {AtRead h, AtWrite h}"
    using spots_enters(3-5) by fastforce+
qed

lemma perform_ok:
  assumes w: "agrees n w" and t: "t < n" "pending w t = None" and m: "mannered c t w" and p: "perform env c t (obj w) = Done s"
  shows "sync_ok s"
proof -
  have ok: "sync_ok (obj w)" and len: "t < length (places (obj w))" and runs: "places (obj w) ! t = Runs"
    using agreesD(1,2) [OF w] agreesD(4) [OF w t(1)] t by (simp_all add: spot_ok_def)
  show ?thesis
  proof (cases c)
    case (Spin_lock h)
    then show ?thesis using p ok spin_turn_ok [of "obj w" t h] by (auto simp: kyte_spin_lock_def split: if_splits)
  next
    case (Read_acquire h)
    then show ?thesis using p ok rw_enter_ok [of "obj w" "AtRead h" h t] by (auto simp: kyte_rwlock_acquire_read_def split: if_splits)
  next
    case (Write_acquire h)
    then show ?thesis using p ok rw_enter_ok [of "obj w" "AtWrite h" h t] by (auto simp: kyte_rwlock_acquire_write_def split: if_splits)
  next
    case (Mutex_destroy h)
    have "places (obj w) ! u \<notin> {AtMutex h} \<union> range (\<lambda>cv. AtCond cv h)" if "h \<noteq> 0" "u < n" for u
      using unused_places [OF w _ that(2), of h "{In_Mutex h}"] m that(1) Mutex_destroy by simp
    then show ?thesis using p ok destroy_ok [OF ok, of s] agreesD(1) [OF w] Mutex_destroy
      by (auto simp: kyte_mutex_destroy_def split: if_splits)
  next
    case (Cond_destroy h)
    have "places (obj w) ! u \<notin> range (AtCond h)" if "h \<noteq> 0" "u < n" for u
      using unused_places [OF w _ that(2), of h "{}"] m that(1) Cond_destroy by simp
    then show ?thesis using p ok destroy_ok [OF ok, of s] agreesD(1) [OF w] Cond_destroy
      by (auto simp: kyte_condvar_destroy_def split: if_splits)
  next
    case (Rw_destroy h)
    have "places (obj w) ! u \<notin> {AtRead h, AtWrite h}" if "h \<noteq> 0" "u < n" for u
      using unused_places [OF w _ that(2), of h "{In_Read h, In_Write h}"] m that(1) Rw_destroy by simp
    then show ?thesis using p ok destroy_ok [OF ok, of s] agreesD(1) [OF w] Rw_destroy
      by (auto simp: kyte_rwlock_destroy_def split: if_splits)
  qed (use p ok len runs in \<open>auto intro: spin_unlock_ok mutex_lock_ok mutex_unlock_ok condvar_wait_ok signal_ok broadcast_ok
    rw_release_read_ok rw_release_write_ok create_ok\<close>)
qed

text \<open>What a mannered thread calls is defined, and so is a turn inside a call.\<close>

lemma perform_defined:
  assumes l: "locks_ok (obj w) (secs w)" and m: "mannered c t w"
  shows "perform env c t (obj w) \<noteq> Undefined"
proof (cases c)
  case (Mutex_lock h)
  show ?thesis
  proof (cases "h = 0")
    case False
    then have "mutexes (obj w) h \<noteq> None" "mutexes (obj w) h \<noteq> Some (Some t)" using l m Mutex_lock by (auto simp: locks_ok_def)
    then consider "mutexes (obj w) h = Some None" | u where "mutexes (obj w) h = Some (Some u)" "u \<noteq> t"
      by (metis option.exhaust)
    then show ?thesis using False Mutex_lock report_defined [of env t "obj w"]
      by cases (simp_all add: mutex_lock_cases split: effect.split)
  qed (simp add: Mutex_lock kyte_mutex_lock_def)
next
  case (Cond_wait cv h)
  show ?thesis
  proof (cases "report env t (obj w)")
    case (Done s)
    then obtain x where "s = (obj w)\<lparr>warned := x\<rparr>" using report_warned by blast
    then show ?thesis using l m Cond_wait Done by (auto simp: kyte_condvar_wait_def locks_ok_def)
  qed (use Cond_wait report_defined in \<open>auto simp: kyte_condvar_wait_def\<close>)
next
  case (Read_release h)
  then have "h = 0 \<or> (\<exists>rs x. rwlocks (obj w) h = Some (rs, x) \<and> t \<in> set rs)" using l m by (auto simp: locks_ok_def)
  then show ?thesis using Read_release by (auto simp: kyte_rwlock_release_read_def)
next
  case (Write_release h)
  then have "h = 0 \<or> (\<exists>rs. rwlocks (obj w) h = Some (rs, Some t))" using l m by (auto simp: locks_ok_def)
  then show ?thesis using Write_release by (auto simp: kyte_rwlock_release_write_def)
next
  case (Spin_unlock h)
  then have "h = 0 \<or> flags (obj w) h = Some True" using l m by (auto simp: locks_ok_def)
  then show ?thesis using Spin_unlock by (auto simp: kyte_spin_unlock_def)
next
  case (Read_acquire h)
  then show ?thesis using l m by (auto simp: kyte_rwlock_acquire_read_def rw_enter_def locks_ok_def split: option.splits)
next
  case (Write_acquire h)
  then show ?thesis using l m by (auto simp: kyte_rwlock_acquire_write_def rw_enter_def locks_ok_def split: option.splits)
qed (use l m in \<open>auto simp: created_def locks_ok_def kyte_spin_lock_def spin_turn_def kyte_mutex_unlock_def kyte_mutex_destroy_def
    kyte_condvar_signal_def kyte_condvar_broadcast_def kyte_condvar_destroy_def kyte_rwlock_destroy_def Let_def
    split: option.splits bool.splits\<close>)

lemma turn_defined: "place_ok s t (places s ! t) \<Longrightarrow> turn t s \<noteq> Undefined"
  by (auto simp: turn_def place_ok_def spin_turn_def lock_turn_def try_lock_def read_turn_def write_turn_def
      split: place.splits option.splits bool.splits list.splits)

lemma settle_agrees:
  assumes w: "agrees n w" and t: "t < n" and s: "sync_ok s" "locks_ok s ((secs w)(t := S \<union> gained t c s))"
    and p: "length (places s) = n" "places s ! t = Runs \<or> places s ! t \<in> spots c"
      "\<And>u. u < n \<Longrightarrow> u \<noteq> t \<Longrightarrow> places s ! u = places (obj w) ! u \<or> places s ! u = woken (places (obj w) ! u)"
  shows "agrees n (settle t c s S w)"
proof -
  have "spot_ok (pending w u) (places s ! u)" if "u < n" "u \<noteq> t" for u
    using p(3) [OF that] agreesD(4) [OF w that(1)] spot_woken [of "pending w u" "places (obj w) ! u" True] by auto
  then show ?thesis using s p by (auto simp: agrees_def settle_def gained_def)
qed

lemma agrees_step:
  assumes "client_step env w w'" "agrees n w"
  shows "agrees n w'"
  using assms(1)
proof cases
  case (Call t c s)
  then have t: "t < n" "places (obj w) ! t = Runs" using agreesD(1) [OF assms(2)] agreesD(4) [OF assms(2), of t] by simp_all
  note p = perform_places [OF t(2) Call(2) Call(5)]
  show ?thesis unfolding Call(1)
  proof (rule settle_agrees [OF assms(2) t(1)])
    show "sync_ok s" using perform_ok [OF assms(2) t(1) Call(3-5)] .
    show "locks_ok s ((secs w)(t := secs w t - leaves c \<union> gained t c s))"
      using perform_agrees [OF _ Call(2) t(2) Call(4) _ Call(5)] agreesD [OF assms(2)] by simp
  qed (use p agreesD(1) [OF assms(2)] in auto)
next
  case (Turn t c s)
  then have t: "t < n" "places (obj w) ! t \<in> spots c" using agreesD(1) [OF assms(2)] agreesD(4) [OF assms(2), of t] by simp_all
  note p = turn_places [OF Turn(2) t(2) Turn(4)]
  show ?thesis unfolding Turn(1)
  proof (rule settle_agrees [OF assms(2) t(1)])
    show "sync_ok s" using turn_ok [OF _ Turn(2,4)] agreesD(2) [OF assms(2)] by simp
    show "locks_ok s ((secs w)(t := secs w t \<union> gained t c s))"
      using turn_agrees [OF _ Turn(2) t(2) _ Turn(4)] agreesD [OF assms(2)] by simp
  qed (use p agreesD(1) [OF assms(2)] in auto)
qed

lemma clients_agree: "agrees n (clients n)"
  by (simp add: agrees_def clients_def no_objects_def sync_ok_def locks_ok_def)

lemma agrees_run: "(client_step env)\<^sup>*\<^sup>* (clients n) w \<Longrightarrow> agrees n w"
  by (induction rule: rtranclp_induct) (auto intro: clients_agree agrees_step)

text \<open>Two threads are never in conflicting zones.\<close>

lemma agrees_exclusive:
  assumes "agrees n w" "a \<in> secs w t" "b \<in> secs w u" "t \<noteq> u"
  shows "\<not> conflict a b"
proof -
  have l: "locks_ok (obj w) (secs w)" and ok: "\<And>h x. rwlocks (obj w) h = Some x \<Longrightarrow> rw_ok x"
    using agreesD [OF assms(1)] sync_okD(2) by blast+
  show ?thesis
    using l assms(2-4) ok by (cases a; cases b) (fastforce simp: locks_ok_def rw_ok_def)+
qed

text \<open>A thread that waits for a lock no conflicting zone of which is entered gets it at its next turn.\<close>

lemma turn_enters:
  assumes w: "agrees n w" and t: "t < n" "pending w t = Some c" and c: "\<And>cv m. c \<noteq> Cond_wait cv m"
    and free: "\<And>a u b. a \<in> enters c \<Longrightarrow> b \<in> secs w u \<Longrightarrow> \<not> conflict a b"
  shows "\<exists>s. turn t (obj w) = Done s \<and> places s ! t = Runs"
proof -
  have l: "locks_ok (obj w) (secs w)" and len: "t < length (places (obj w))" and ok: "sync_ok (obj w)"
    using agreesD [OF w] t by simp_all
  have spot: "places (obj w) ! t \<in> spots c" using agreesD(4) [OF w t(1)] t(2) by (simp)
  have place: "place_ok (obj w) t (places (obj w) ! t)" using sync_okD(1) [OF ok len] .
  show ?thesis
  proof (cases c)
    case (Spin_lock h)
    then have p: "places (obj w) ! t = Spins h" "h \<noteq> 0" using spot by (auto split: if_splits)
    have "In_Spin h \<notin> secs w u" for u using free [of "In_Spin h" "In_Spin h" u] Spin_lock p by auto
    then have "flags (obj w) h = Some False" using l place p by (cases "flags (obj w) h") (auto simp: locks_ok_def place_ok_def)
    then show ?thesis using p len by (simp add: turn_def spin_turn_def)
  next
    case (Mutex_lock h)
    then have p: "places (obj w) ! t = AtMutex h" "h \<noteq> 0" using spot by (auto split: if_splits)
    have "In_Mutex h \<notin> secs w u" for u using free [of "In_Mutex h" "In_Mutex h" u] Mutex_lock p by auto
    then have "mutexes (obj w) h \<noteq> Some (Some u)" for u using l by (auto simp: locks_ok_def)
    moreover obtain y where "mutexes (obj w) h = Some y" using place p by (auto simp: place_ok_def)
    ultimately have "mutexes (obj w) h = Some None" by (cases y) auto
    then show ?thesis using p len by (simp add: turn_def lock_turn_cases)
  next
    case (Read_acquire h)
    then have p: "places (obj w) ! t = AtRead h" "h \<noteq> 0" using spot by (auto split: if_splits)
    have "In_Write h \<notin> secs w u" for u using free [of "In_Read h" "In_Write h" u] Read_acquire p by auto
    then obtain rs where "rwlocks (obj w) h = Some (rs, None)" using l place p
      by (fastforce simp: locks_ok_def place_ok_def split: option.splits)
    then show ?thesis using p len by (simp add: turn_def read_turn_def)
  next
    case (Write_acquire h)
    then have p: "places (obj w) ! t = AtWrite h" "h \<noteq> 0" using spot by (auto split: if_splits)
    have "In_Write h \<notin> secs w u" "In_Read h \<notin> secs w u" for u
      using free [of "In_Write h" "In_Write h" u] free [of "In_Write h" "In_Read h" u] Write_acquire p by auto
    then have "rwlocks (obj w) h = Some ([], None)" using l place p
      by (fastforce simp: locks_ok_def place_ok_def split: option.splits)
    then show ?thesis using p len by (simp add: turn_def write_turn_def)
  qed (use spot c in auto)
qed

text \<open>
  Property C35 (locks_exclude).  Any number of threads call the primitives on objects they create and
  destroy, each keeping to the rules of C++; what a thread is in is read off the calls that returned,
  not off the locks.  Then in every state they reach: no two threads are in the same spin lock, in the
  same mutex, in the same read-write lock as writers, or in it as a writer and a reader; no call a
  thread may make next and no call under way is undefined; and a thread that waits for a lock nobody
  in a conflicting zone has entered can take its turn, by which its call returns and it is in the zone.
\<close>

theorem locks_exclude:
  assumes "(client_step env)\<^sup>*\<^sup>* (clients n) w" "t < n"
  shows "(a \<in> secs w t \<and> b \<in> secs w u \<and> t \<noteq> u \<longrightarrow> \<not> conflict a b)
    \<and> (pending w t = None \<and> mannered c t w \<longrightarrow> perform env c t (obj w) \<noteq> Undefined)
    \<and> (pending w t = Some c \<longrightarrow> turn t (obj w) \<noteq> Undefined)
    \<and> (pending w t = Some c \<and> (\<forall>cv m. c \<noteq> Cond_wait cv m) \<and> (\<forall>x \<in> enters c. \<forall>v. \<forall>y \<in> secs w v. \<not> conflict x y) \<longrightarrow>
         (\<exists>w'. client_step env w w' \<and> pending w' t = None \<and> secs w' t = secs w t \<union> enters c))"
proof -
  have w: "agrees n w" using agrees_run [OF assms(1)] .
  have len: "t < length (places (obj w))" using agreesD(1) [OF w] assms(2) by simp
  have "perform env c t (obj w) \<noteq> Undefined" if "mannered c t w"
    using perform_defined [OF agreesD(3) [OF w] that] .
  moreover have "turn t (obj w) \<noteq> Undefined"
    using turn_defined sync_okD(1) [OF agreesD(2) [OF w] len] by blast
  moreover have "\<exists>w'. client_step env w w' \<and> pending w' t = None \<and> secs w' t = secs w t \<union> enters c"
    if c: "pending w t = Some c" "\<forall>cv m. c \<noteq> Cond_wait cv m" "\<forall>x \<in> enters c. \<forall>v. \<forall>y \<in> secs w v. \<not> conflict x y"
  proof -
    obtain s where s: "turn t (obj w) = Done s" "places s ! t = Runs" using turn_enters [OF w assms(2) c(1)] c(2,3) by blast
    then show ?thesis using Turn [OF len c(1) s(1), of env] by (intro exI [of _ "settle t c s (secs w t) w"]) (simp add: settle_def)
  qed
  ultimately show ?thesis using agrees_exclusive [OF w] by blast
qed

text \<open>One thread is in a mutex, another waits for it.\<close>

theorem locks_exclude_witness:
  "\<exists>w. (client_step \<lparr>ndebug = False, reactor_thread = \<lambda>_. False\<rparr>)\<^sup>*\<^sup>* (clients 2) w
     \<and> secs w 0 = {In_Mutex 8} \<and> pending w 1 = Some (Mutex_lock 8) \<and> In_Mutex 8 \<notin> secs w 1 \<and> turn 1 (obj w) \<noteq> Undefined"
proof -
  let ?e = "\<lparr>ndebug = False, reactor_thread = \<lambda>_. False\<rparr>"
  let ?s1 = "(no_objects 2)\<lparr>mutexes := [8 \<mapsto> None]\<rparr>" and ?s2 = "(no_objects 2)\<lparr>mutexes := [8 \<mapsto> Some 0]\<rparr>"
  let ?s3 = "(no_objects 2)\<lparr>mutexes := [8 \<mapsto> Some 0], places := [Runs, AtMutex 8]\<rparr>"
  let ?w1 = "(clients 2)\<lparr>obj := ?s1\<rparr>" and ?w2 = "(clients 2)\<lparr>obj := ?s2, secs := (\<lambda>_. {})(0 := {In_Mutex 8})\<rparr>"
  let ?w3 = "(clients 2)\<lparr>obj := ?s3, secs := (\<lambda>_. {})(0 := {In_Mutex 8}, 1 := {}), pending := (\<lambda>_. None)(1 \<mapsto> Mutex_lock 8)\<rparr>"
  have two: "replicate 2 Runs = [Runs, Runs]" by (simp add: numeral_2_eq_2)
  have nil: "(\<lambda>_ :: tid. {} :: zone set)(0 := {}) = (\<lambda>_. {})" "(\<lambda>_ :: tid. False)(Suc 0 := False) = (\<lambda>_. False)"
    by (rule ext, simp)+
  note d = clients_def no_objects_def two settle_def nil
  have "perform ?e (Mutex_create 8) 0 (obj (clients 2)) = Done ?s1"
    by (simp add: created_def fresh_def kyte_mutex_create_def d)
  from Call [of 0 "clients 2" "Mutex_create 8", OF _ _ _ this] have 1: "client_step ?e (clients 2) ?w1" by (simp add: d fresh_def)
  have "perform ?e (Mutex_lock 8) 0 (obj ?w1) = Done ?s2" by (simp add: mutex_lock_cases d)
  from Call [of 0 ?w1 "Mutex_lock 8", OF _ _ _ this] have 2: "client_step ?e ?w1 ?w2" by (simp add: d)
  have "perform ?e (Mutex_lock 8) 1 (obj ?w2) = Done ?s3"
    by (simp add: mutex_lock_cases(2) [of _ _ 0] report_def kyte_report_block_on_reactor_def go_def d)
  from Call [of 1 ?w2 "Mutex_lock 8", OF _ _ _ this] have 3: "client_step ?e ?w2 ?w3" by (simp add: d)
  have run: "(client_step ?e)\<^sup>*\<^sup>* (clients 2) ?w3" using 1 2 3 by (meson converse_rtranclp_into_rtranclp rtranclp.rtrancl_refl)
  have "In_Mutex 8 \<notin> secs ?w3 1" using locks_exclude [OF run, of 0 "In_Mutex 8" "In_Mutex 8" 1] by auto
  moreover have "turn 1 (obj ?w3) \<noteq> Undefined"
    using locks_exclude [OF run, of 1 _ _ _ "Mutex_lock 8"] by (simp add: clients_def)
  ultimately show ?thesis using run by (intro exI [of _ ?w3]) simp
qed

text \<open>Without the rules the flag of a spin lock protects nothing: anyone may clear it.\<close>

lemma foreign_unlock:
  "flags s h = Some True \<Longrightarrow> h \<noteq> 0 \<Longrightarrow> \<exists>s'. kyte_spin_unlock h s = Done s' \<and> flags s' h = Some False"
  by (simp add: kyte_spin_unlock_def)

text \<open>
  A contended mutex and every wait report a reactor thread that is about to block; a read-write lock
  never does.
\<close>

lemma rw_silent:
  "kyte_rwlock_acquire_write t h s \<noteq> Aborts" "kyte_rwlock_acquire_read t h s \<noteq> Aborts"
  "kyte_rwlock_acquire_write t h s = Done s' \<Longrightarrow> warned s' = warned s"
  "kyte_rwlock_acquire_read t h s = Done s' \<Longrightarrow> warned s' = warned s"
  by (auto simp: kyte_rwlock_acquire_write_def kyte_rwlock_acquire_read_def rw_enter_def split: if_splits option.splits)

lemma mutex_reports:
  "h \<noteq> 0 \<Longrightarrow> mutexes s h = Some (Some u) \<Longrightarrow> u \<noteq> t \<Longrightarrow> \<not> ndebug env \<Longrightarrow> reactor_thread env t \<Longrightarrow> kyte_mutex_lock env t h s = Aborts"
  "cv \<noteq> 0 \<Longrightarrow> m \<noteq> 0 \<Longrightarrow> \<not> ndebug env \<Longrightarrow> reactor_thread env t \<Longrightarrow> kyte_condvar_wait env t cv m s = Aborts"
  by (simp_all add: kyte_mutex_lock_def try_lock_def report_def kyte_report_block_on_reactor_def kyte_condvar_wait_def)

section \<open>No wake-up is lost\<close>

lemma waits_on_woken: "waits_on cv p \<Longrightarrow> \<not> waits_on cv' (woken p)"
  by (auto simp: waits_on_def woken_def split: place.splits)

lemma waiters_wake:
  assumes "t \<in> set (waiters cv s)"
  shows "waiters cv (wake t s) = remove1 t (waiters cv s)"
proof -
  have t: "t < length (places s)" "waits_on cv (places s ! t)" using assms by (simp_all add: set_waiters)
  have "distinct (waiters cv s)" by (simp add: waiters_def)
  then have "remove1 t (waiters cv s) = filter ((\<noteq>) t) (waiters cv s)" by (simp add: distinct_remove1_removeAll removeAll_filter_not_eq)
  also have "\<dots> = waiters cv (wake t s)"
    unfolding waiters_def filter_filter using t waits_on_woken [OF t(2)]
    by (intro filter_cong) (auto simp: wake_def nth_list_update')
  finally show ?thesis ..
qed

lemma signal_one:
  assumes "cv \<noteq> 0" "condvars s cv" "waiters cv s \<noteq> []"
    and "v = waiters cv s ! (pick mod length (waiters cv s))"
  shows "kyte_condvar_signal pick cv s = Done (wake v s)" "v \<in> set (waiters cv s)"
    and "waiters cv (wake v s) = remove1 v (waiters cv s)"
    and "\<exists>h. places s ! v = AtCond cv h \<and> wake v s = go v (AtMutex h) s"
proof -
  show "kyte_condvar_signal pick cv s = Done (wake v s)" using assms by (simp add: kyte_condvar_signal_def Let_def)
  show v: "v \<in> set (waiters cv s)" using assms by simp
  show "waiters cv (wake v s) = remove1 v (waiters cv s)" by (rule waiters_wake [OF v])
  show "\<exists>h. places s ! v = AtCond cv h \<and> wake v s = go v (AtMutex h) s"
    using v by (auto simp: set_waiters waits_on_def wake_def woken_def split: place.splits)
qed

text \<open>
  Property C36 (condvar_wakes).  A thread \<open>t\<close> that holds the mutex and may block waits: the call is
  under way, the mutex is free, \<open>t\<close> is among the waiters and nobody else has moved, all in one step.
  Another thread \<open>u\<close> can lock the mutex and signal: exactly one waiter \<open>v\<close> leaves the waiters, for its
  mutex.  If it is \<open>t\<close> (it is when \<open>t\<close> is the only one), a turn of \<open>t\<close> while \<open>u\<close> holds the mutex does
  nothing; after the unlock of \<open>u\<close> the next turn of \<open>t\<close> returns from the wait with \<open>t\<close> holding the mutex
  again, and everyone else is where he was.
\<close>

theorem condvar_wakes:
  assumes "cv \<noteq> 0" "m \<noteq> 0" "condvars s cv" "mutexes s m = Some (Some t)"
    and t: "t < length (places s)" "places s ! t = Runs" and u: "t \<noteq> u" "places s ! u = Runs"
    and "ndebug env \<or> \<not> reactor_thread env t"
  shows "\<exists>s1 s2 s3 v. kyte_condvar_wait env t cv m s = Done s1 \<and> mutexes s1 m = Some None
      \<and> set (waiters cv s1) = insert t (set (waiters cv s)) \<and> (\<forall>x. x \<noteq> t \<longrightarrow> places s1 ! x = places s ! x)
    \<and> kyte_mutex_lock env u m s1 = Done s2 \<and> mutexes s2 m = Some (Some u)
    \<and> kyte_condvar_signal pick cv s2 = Done s3 \<and> v \<in> set (waiters cv s1) \<and> waiters cv s3 = remove1 v (waiters cv s1)
      \<and> (\<exists>h. places s1 ! v = AtCond cv h \<and> places s3 = (places s1)[v := AtMutex h])
    \<and> (v = t \<longrightarrow> turn t s3 = Done s3
        \<and> (\<exists>s4 s5. kyte_mutex_unlock u m s3 = Done s4 \<and> turn t s4 = Done s5
            \<and> mutexes s5 m = Some (Some t) \<and> places s5 = places s))"
proof -
  have "report env t s \<noteq> Aborts" using assms(9) by (auto simp: report_def kyte_report_block_on_reactor_def)
  then obtain x where rep: "report env t s = Done (s\<lparr>warned := x\<rparr>)"
    using report_defined [of env t s] by (cases "report env t s") (auto dest: report_warned)
  define s1 where "s1 = go t (AtCond cv m) (s\<lparr>warned := x, mutexes := (mutexes s)(m \<mapsto> None)\<rparr>)"
  have wait: "kyte_condvar_wait env t cv m s = Done s1" using assms rep by (simp add: kyte_condvar_wait_def s1_def)
  have s1: "mutexes s1 m = Some None" "condvars s1 = condvars s" "places s1 = (places s)[t := AtCond cv m]" by (simp_all add: s1_def)
  have ws: "set (waiters cv s1) = insert t (set (waiters cv s))"
    using t by (auto simp: set_waiters s1(3) nth_list_update' waits_on_def)
  define s2 where "s2 = s1\<lparr>mutexes := (mutexes s1)(m \<mapsto> Some u)\<rparr>"
  have lock: "kyte_mutex_lock env u m s1 = Done s2" using mutex_lock_cases(1) [OF assms(2) s1(1)] by (simp add: s2_def)
  have s2: "mutexes s2 m = Some (Some u)" "condvars s2 cv" "places s2 = places s1" "waiters cv s2 = waiters cv s1"
    using assms(3) s1(2) by (simp_all add: s2_def waiters_def)
  then have "waiters cv s2 \<noteq> []" using ws by auto
  note sig = signal_one [OF assms(1) s2(2) this refl, of pick]
  define v where "v = waiters cv s2 ! (pick mod length (waiters cv s2))"
  define s3 where "s3 = wake v s2"
  obtain h where h: "places s1 ! v = AtCond cv h" "s3 = go v (AtMutex h) s2" using sig(4) s2(3) by (auto simp: v_def s3_def)
  have "turn t s3 = Done s3 \<and> (\<exists>s4 s5. kyte_mutex_unlock u m s3 = Done s4 \<and> turn t s4 = Done s5
            \<and> mutexes s5 m = Some (Some t) \<and> places s5 = places s)" if "v = t"
  proof -
    have "h = m" using h(1) that t by (simp add: s1(3))
    then have p: "places s3 = (places s)[t := AtMutex m]" "mutexes s3 = mutexes s2" using h(2) that by (simp_all add: s2(3) s1(3))
    then have at: "places s3 ! t = AtMutex m" using t by simp
    have "go t (AtMutex m) s3 = s3" by (simp add: go_def p(1))
    then have "turn t s3 = Done s3" using at lock_turn_cases(2) [of s3 m u t] s2(1) p(2) u(1) by (simp add: turn_def)
    moreover define s4 where "s4 = s3\<lparr>mutexes := (mutexes s3)(m \<mapsto> None)\<rparr>"
    moreover have "kyte_mutex_unlock u m s3 = Done s4" using assms(2) s2(1) p(2) by (simp add: kyte_mutex_unlock_def s4_def)
    moreover have "turn t s4 = Done (go t Runs (s4\<lparr>mutexes := (mutexes s4)(m \<mapsto> Some t)\<rparr>))"
      using at lock_turn_cases(1) [of s4 m t] by (simp add: turn_def s4_def)
    moreover have "places (go t Runs (s4\<lparr>mutexes := (mutexes s4)(m \<mapsto> Some t)\<rparr>)) = places s"
      using t by (simp add: s4_def p(1)) (metis list_update_id)
    ultimately show ?thesis by auto
  qed
  then show ?thesis
    using wait s1 ws lock s2 sig h by (intro exI [of _ s1] exI [of _ s2] exI [of _ s3] exI [of _ v]) (simp add: v_def s3_def)
qed

definition holding :: sync where
  "holding = (no_objects 2)\<lparr>mutexes := [16 \<mapsto> Some 0], condvars := (\<lambda>a. a = 24)\<rparr>"

text \<open>Thread 0 waits, thread 1 locks, signals and unlocks, and thread 0 has the mutex again.\<close>

theorem condvar_wakes_witness:
  "\<exists>s1 s2 s3 s4 s5. kyte_condvar_wait \<lparr>ndebug = False, reactor_thread = \<lambda>_. False\<rparr> 0 24 16 holding = Done s1
     \<and> kyte_mutex_lock \<lparr>ndebug = False, reactor_thread = \<lambda>_. False\<rparr> 1 16 s1 = Done s2 \<and> kyte_condvar_signal 7 24 s2 = Done s3
     \<and> kyte_mutex_unlock 1 16 s3 = Done s4 \<and> turn 0 s4 = Done s5 \<and> mutexes s5 16 = Some (Some 0) \<and> places s5 = [Runs, Runs]"
proof -
  let ?e = "\<lparr>ndebug = False, reactor_thread = \<lambda>_. False\<rparr>"
  have h: "condvars holding 24" "mutexes holding 16 = Some (Some 0)" "0 < length (places holding)" "places holding = [Runs, Runs]"
    "waiters 24 holding = []"
    by (simp_all add: holding_def no_objects_def waiters_def waits_on_def numeral_2_eq_2)
  obtain s1 s2 s3 v where s: "kyte_condvar_wait ?e 0 24 16 holding = Done s1" "kyte_mutex_lock ?e 1 16 s1 = Done s2"
    "kyte_condvar_signal 7 24 s2 = Done s3" "v \<in> set (waiters 24 s1)" "set (waiters 24 s1) = insert 0 (set (waiters 24 holding))"
    and v: "v = 0 \<longrightarrow> turn 0 s3 = Done s3 \<and> (\<exists>s4 s5. kyte_mutex_unlock 1 16 s3 = Done s4 \<and> turn 0 s4 = Done s5
            \<and> mutexes s5 16 = Some (Some 0) \<and> places s5 = places holding)"
    using condvar_wakes [of 24 16 holding 0 1 ?e 7] h by auto
  have "v = 0" using s(4,5) h(5) by simp
  then show ?thesis using s(1-3) v h(4) by metis
qed

definition waiting_pair :: sync where
  "waiting_pair = (no_objects 2)\<lparr>mutexes := [16 \<mapsto> None], condvars := (\<lambda>a. a = 24), places := [AtCond 24 16, AtCond 24 16]\<rparr>"

text \<open>The threads of \<open>ts\<close> in turn get to run, and give the mutex up when they are done.\<close>

fun served :: "addr \<Rightarrow> tid list \<Rightarrow> sync \<Rightarrow> sync effect" where
  "served m [] s = Done s"
| "served m (t # ts) s =
     (case turn t s of
        Done s \<Rightarrow> (case kyte_mutex_unlock t m s of Done s \<Rightarrow> served m ts s | e \<Rightarrow> e)
      | e \<Rightarrow> e)"

lemma served_all:
  assumes "m \<noteq> 0" "distinct ts" "\<And>t. t \<in> set ts \<Longrightarrow> t < length (places s) \<and> places s ! t = AtMutex m" "mutexes s m = Some None"
  shows "\<exists>s'. served m ts s = Done s' \<and> mutexes s' m = Some None \<and> length (places s') = length (places s)
    \<and> (\<forall>u < length (places s). places s' ! u = (if u \<in> set ts then Runs else places s ! u))"
  using assms(2-)
proof (induction ts arbitrary: s)
  case (Cons t ts)
  define s1 where "s1 = s\<lparr>places := (places s)[t := Runs], mutexes := (mutexes s)(m \<mapsto> None)\<rparr>"
  have t: "t < length (places s)" "places s ! t = AtMutex m" using Cons.prems(2) by simp_all
  have "turn t s = Done (go t Runs (s\<lparr>mutexes := (mutexes s)(m \<mapsto> Some t)\<rparr>))"
    using t Cons.prems(3) by (simp add: turn_def lock_turn_def try_lock_def)
  then have step: "served m (t # ts) s = served m ts s1"
    using assms(1) by (simp add: kyte_mutex_unlock_def go_def s1_def)
  have "u < length (places s1) \<and> places s1 ! u = AtMutex m" if "u \<in> set ts" for u
    using Cons.prems(1,2) that by (auto simp: s1_def nth_list_update)
  from Cons.IH [OF _ this] Cons.prems(1) obtain s' where s': "served m ts s1 = Done s'" "mutexes s' m = Some None"
    "length (places s') = length (places s)" "\<forall>u < length (places s1). places s' ! u = (if u \<in> set ts then Runs else places s1 ! u)"
    by (auto simp: s1_def)
  have "places s1 = (places s)[t := Runs]" by (simp add: s1_def)
  then show ?case unfolding step using s' Cons.prems(1) by (auto simp: nth_list_update)
qed simp

text \<open>
  Property C37 (broadcast_drains).  After a broadcast on a condition variable whose waiters all wait with
  the same, free mutex, every waiter returns from its wait in whatever order the scheduler picks them:
  each gets the mutex at its turn, and when the last has given it up nobody waits, every thread that
  was not among them is where it was, and the mutex is free.
\<close>

theorem broadcast_drains:
  assumes "cv \<noteq> 0" "m \<noteq> 0" "condvars s cv" "mutexes s m = Some None"
    and "\<And>t. t \<in> set (waiters cv s) \<Longrightarrow> places s ! t = AtCond cv m"
    and "distinct ts" "set ts = set (waiters cv s)"
  shows "\<exists>s1 s2. kyte_condvar_broadcast cv s = Done s1 \<and> served m ts s1 = Done s2
    \<and> waiters cv s2 = [] \<and> mutexes s2 m = Some None
    \<and> places s2 = map (\<lambda>p. if waits_on cv p then Runs else p) (places s)"
proof -
  define s1 where "s1 = s\<lparr>places := map (\<lambda>p. if waits_on cv p then woken p else p) (places s)\<rparr>"
  have b: "kyte_condvar_broadcast cv s = Done s1" using assms(1,3) by (simp add: kyte_condvar_broadcast_def s1_def)
  have at: "t < length (places s1) \<and> places s1 ! t = AtMutex m" if "t \<in> set ts" for t
  proof -
    have "t < length (places s)" "waits_on cv (places s ! t)" using that assms(7) by (simp_all add: set_waiters)
    then show ?thesis using that assms(5) [of t] assms(7) by (simp add: s1_def woken_def)
  qed
  have "mutexes s1 m = Some None" using assms(4) by (simp add: s1_def)
  from served_all [OF assms(2,6) at this] obtain s2 where s2: "served m ts s1 = Done s2" "mutexes s2 m = Some None"
    "length (places s2) = length (places s1)" "\<forall>u < length (places s1). places s2 ! u = (if u \<in> set ts then Runs else places s1 ! u)"
    by blast
  have pl: "places s2 = map (\<lambda>p. if waits_on cv p then Runs else p) (places s)"
  proof (rule nth_equalityI)
    fix u
    assume "u < length (places s2)"
    then have "u < length (places s)" "u \<in> set ts \<longleftrightarrow> waits_on cv (places s ! u)"
      using s2(3) by (simp_all add: s1_def assms(7) set_waiters)
    then show "places s2 ! u = map (\<lambda>p. if waits_on cv p then Runs else p) (places s) ! u"
      using s2(4) by (simp add: s1_def)
  qed (use s2(3) in \<open>simp add: s1_def\<close>)
  have "\<not> waits_on cv Runs" by (simp add: waits_on_def)
  then have "set (waiters cv s2) = {}" by (auto simp: set_waiters pl)
  then show ?thesis using b s2(1,2) pl by simp
qed

theorem broadcast_drains_witness:
  "\<exists>s1 s2. kyte_condvar_broadcast 24 waiting_pair = Done s1 \<and> served 16 [1, 0] s1 = Done s2 \<and> places s2 = [Runs, Runs]"
proof -
  have w: "waiters 24 waiting_pair = [0, 1]" by (simp add: waiters_def waiting_pair_def waits_on_def)
  have "places waiting_pair ! t = AtCond 24 16" if "t \<in> set (waiters 24 waiting_pair)" for t
    using that unfolding w by (auto simp: waiting_pair_def)
  moreover have "condvars waiting_pair 24" "mutexes waiting_pair 16 = Some None" by (simp_all add: waiting_pair_def)
  ultimately obtain s1 s2 where "kyte_condvar_broadcast 24 waiting_pair = Done s1" "served 16 [1, 0] s1 = Done s2"
    and pl: "places s2 = map (\<lambda>p. if waits_on 24 p then Runs else p) (places waiting_pair)"
    using broadcast_drains [of 24 16 waiting_pair "[1, 0]"] w by auto
  moreover have "places s2 = [Runs, Runs]" unfolding pl by (simp add: waiting_pair_def waits_on_def)
  ultimately show ?thesis by blast
qed

section \<open>Atomic cells under every interleaving\<close>

text \<open>The additions several threads make, in the order they reach the cell; the values they get back.\<close>

primrec adds :: "(addr \<Rightarrow> 'v \<Rightarrow> memory \<Rightarrow> 'v \<times> memory) \<Rightarrow> addr \<Rightarrow> 'v list \<Rightarrow> memory \<Rightarrow> 'v list \<times> memory" where
  "adds add p [] m = ([], m)"
| "adds add p (d # ds) m =
     (let (v, m) = add p d m; (vs, m) = adds add p ds m in (v # vs, m))"

text \<open>Attempts to swap \<open>e\<close> for each of the values in turn.\<close>

primrec tries :: "(addr \<Rightarrow> 'v \<Rightarrow> 'v \<Rightarrow> memory \<Rightarrow> int \<times> memory) \<Rightarrow> addr \<Rightarrow> 'v \<Rightarrow> 'v list \<Rightarrow> memory \<Rightarrow> int list \<times> memory" where
  "tries cas p e [] m = ([], m)"
| "tries cas p e (d # ds) m =
     (let (r, m) = cas p e d m; (rs, m) = tries cas p e ds m in (r # rs, m))"

lemma of_nat_inj_on: "n \<le> 2 ^ LENGTH('l::len) \<Longrightarrow> i < n \<Longrightarrow> j < n \<Longrightarrow> (word_of_nat i :: 'l word) = word_of_nat j \<Longrightarrow> i = j"
  by (auto simp: word_of_nat_eq_iff take_bit_nat_eq_self_iff take_bit_nat_eq_self)

locale atomic_cell = cell get put sz
  for get :: "memory \<Rightarrow> addr \<Rightarrow> 'l::len word" and put :: "memory \<Rightarrow> addr \<Rightarrow> 'l word \<Rightarrow> memory" and sz :: nat +
  fixes add sub :: "addr \<Rightarrow> 'l word \<Rightarrow> memory \<Rightarrow> 'l word \<times> memory"
    and cas :: "addr \<Rightarrow> 'l word \<Rightarrow> 'l word \<Rightarrow> memory \<Rightarrow> int \<times> memory"
  assumes add_cell: "add p d m = (get m p, put m p (get m p + d))"
    and sub_cell: "sub p d m = (get m p, put m p (get m p - d))"
    and cas_cell: "cas p e d m = (if get m p = e then (1, put m p d) else (0, m))"
begin

lemma sub_add: "sub p d m = add p (- d) m"
  by (simp add: add_cell sub_cell)

lemma adds_sum:
  "fst (adds add p ds m) = map (\<lambda>i. get m p + sum_list (take i ds)) [0..<length ds]
    \<and> snd (adds add p ds m) = put m p (get m p + sum_list ds)"
proof (induction ds arbitrary: m)
  case Nil
  show ?case by (simp add: put_get)
next
  case (Cons d ds)
  have "map (\<lambda>i. get m p + sum_list (take i (d # ds))) [0..<length (d # ds)]
      = get m p # map (\<lambda>i. get m p + d + sum_list (take i ds)) [0..<length ds]"
    by (simp add: upt_conv_Cons map_Suc_upt [symmetric] add.assoc del: upt_Suc map_Suc_upt)
  then show ?case using Cons [of "put m p (get m p + d)"]
    by (simp add: add_cell get_put put_put split_def Let_def add.assoc)
qed

lemma tickets:
  assumes "n \<le> 2 ^ LENGTH('l)"
  shows "fst (adds add p (replicate n 1) m) = map (\<lambda>i. get m p + word_of_nat i) [0..<n]
    \<and> distinct (fst (adds add p (replicate n 1) m))"
proof -
  have "fst (adds add p (replicate n 1) m) = map (\<lambda>i. get m p + word_of_nat i) [0..<n]"
    unfolding adds_sum [THEN conjunct1] by (intro map_cong) (simp_all add: sum_list_replicate)
  then show ?thesis using of_nat_inj_on [OF assms] by (simp add: distinct_map inj_on_def)
qed

lemma tries_lost: "get m p \<noteq> e \<Longrightarrow> tries cas p e ds m = (replicate (length ds) 0, m)"
  by (induction ds) (simp_all add: cas_cell)

lemma one_winner:
  assumes "get m p = e" "e \<noteq> d"
  shows "tries cas p e (d # ds) m = (1 # replicate (length ds) 0, put m p d)"
  using assms tries_lost [of "put m p d" p e ds] by (simp add: cas_cell get_put)

end

interpretation a32: atomic_cell load32 store32 4 kyte_atomic_add_i32 kyte_atomic_sub_i32 kyte_atomic_cas_i32
  by unfold_locales (simp_all add: kyte_atomic_add_i32_def kyte_atomic_sub_i32_def kyte_atomic_cas_i32_def)

interpretation a64: atomic_cell load64 store64 8 kyte_atomic_add_i64 kyte_atomic_sub_i64 kyte_atomic_cas_i64
  by unfold_locales (simp_all add: kyte_atomic_add_i64_def kyte_atomic_sub_i64_def kyte_atomic_cas_i64_def)

text \<open>
  Whatever additions reach a 32- or 64-bit cell in whatever order, the cell
  ends at its start plus their sum, and each caller gets the value before its own; up to \<open>2 ^ 32\<close>
  increments of the 32-bit cell, and up to \<open>2 ^ 64\<close> of the other, give different numbers.  Of several
  attempts to swap the present value for another one exactly the first succeeds.
\<close>

theorem atomic_cells:
  assumes "i < length ds" "j < length es" "n \<le> 2 ^ 32" "k \<le> 2 ^ 64" "load32 m p \<noteq> d" "load64 m p \<noteq> e"
  shows "load32 (snd (adds kyte_atomic_add_i32 p ds m)) p = load32 m p + sum_list ds
    \<and> fst (adds kyte_atomic_add_i32 p ds m) ! i = load32 m p + sum_list (take i ds)
    \<and> load64 (snd (adds kyte_atomic_add_i64 p es m)) p = load64 m p + sum_list es
    \<and> fst (adds kyte_atomic_add_i64 p es m) ! j = load64 m p + sum_list (take j es)
    \<and> distinct (fst (adds kyte_atomic_add_i32 p (replicate n 1) m))
    \<and> distinct (fst (adds kyte_atomic_add_i64 p (replicate k 1) m))
    \<and> fst (tries kyte_atomic_cas_i32 p (load32 m p) (d # ds) m) = 1 # replicate (length ds) 0
    \<and> fst (tries kyte_atomic_cas_i64 p (load64 m p) (e # es) m) = 1 # replicate (length es) 0"
  using assms a32.tickets [of n p m] a64.tickets [of k p m]
  by (simp add: a32.adds_sum a64.adds_sum c32.get_put c64.get_put a32.one_winner a64.one_winner del: tries.simps)

theorem atomic_cells_witness:
  "load32 (snd (adds kyte_atomic_add_i32 64 [5, - 2, 7] (\<lambda>_. 0))) 64 = 10
    \<and> fst (tries kyte_atomic_cas_i64 64 0 [3, 4] (\<lambda>_. 0)) = [1, 0]"
proof -
  have "le_word (replicate k 0 :: bytes) = (0 :: 'l::len word)" for k
    by (rule bit_word_eqI) (simp add: bit_le_word)
  then have z: "load32 (\<lambda>_. 0) 64 = 0" "load64 (\<lambda>_. 0) 64 = 0"
    by (simp_all add: load32_def load64_def rd_def map_replicate_const)
  show ?thesis using atomic_cells [of 0 "[5, - 2, 7]" 0 "[4]" 3 3 "\<lambda>_. 0" 64 1 3] by (simp add: z)
qed

text \<open>The boolean cell sees only the low byte of its arguments.\<close>

lemma bool_cut:
  "kyte_atomic_load_bool p (kyte_atomic_store_bool p 256 m) = 0"
  "m p = 0 \<Longrightarrow> fst (kyte_atomic_cas_bool p 256 1 m) = 1"
  by (simp_all add: kyte_atomic_load_bool_def kyte_atomic_store_bool_def kyte_atomic_cas_bool_def)

end
