(* ===== verification/Kyte_Float.thy ===== *)
theory Kyte_Float
  imports Kyte_Str_Props
begin

text \<open>
  Doubles in \<^verbatim>\<open>src/runtime/core.cpp\<close>: their text, and the wire and binary forms they are read
  from.  A double is its 64-bit pattern, a float its 32-bit pattern.  A finite double is a whole number
  of \<open>2 ^ - 1074\<close>, which is how comparisons and truncation are modelled.  \<^verbatim>\<open>snprintf\<close> with
  \<^verbatim>\<open>%.*g\<close> and \<^verbatim>\<open>strtod\<close> are parameters.
\<close>

section \<open>IEEE patterns\<close>

definition f64_exp :: "u64 \<Rightarrow> nat" where
  "f64_exp v = unat (drop_bit 52 v AND mask 11)"

definition f64_frac :: "u64 \<Rightarrow> nat" where
  "f64_frac v = unat (v AND mask 52)"

definition f64_finite :: "u64 \<Rightarrow> bool" where
  "f64_finite v \<longleftrightarrow> f64_exp v \<noteq> 2047"

definition f64_nan :: "u64 \<Rightarrow> bool" where
  "f64_nan v \<longleftrightarrow> f64_exp v = 2047 \<and> f64_frac v \<noteq> 0"

definition f64_is_zero :: "u64 \<Rightarrow> bool" where
  "f64_is_zero v \<longleftrightarrow> v AND mask 63 = 0"

text \<open>The comparison \<^verbatim>\<open>==\<close>: a NaN equals nothing, the two zeros each other.\<close>

definition f64_eq :: "u64 \<Rightarrow> u64 \<Rightarrow> bool" where
  "f64_eq a b \<longleftrightarrow> \<not> f64_nan a \<and> \<not> f64_nan b \<and> (a = b \<or> f64_is_zero a \<and> f64_is_zero b)"

text \<open>The value of a finite double times \<open>2 ^ 1074\<close>.\<close>

definition f64_scaled :: "u64 \<Rightarrow> int" where
  "f64_scaled v =
     (let m = (if f64_exp v = 0 then int (f64_frac v) else int (2 ^ 52 + f64_frac v) * 2 ^ (f64_exp v - 1)) in
      if bit v 63 then - m else m)"

section \<open>A double as text\<close>

text \<open>The comparisons with the bounds \<open>2 ^ 53\<close>, and the cast, which truncates toward zero.\<close>

definition f64_small :: "u64 \<Rightarrow> bool" where
  "f64_small v \<longleftrightarrow> f64_finite v \<and> - (2 ^ 53) * 2 ^ 1074 \<le> f64_scaled v \<and> f64_scaled v \<le> 2 ^ 53 * 2 ^ 1074"

definition f64_to_i64 :: "u64 \<Rightarrow> int" where
  "f64_to_i64 v = (if f64_scaled v < 0 then - (- f64_scaled v div 2 ^ 1074) else f64_scaled v div 2 ^ 1074)"

text \<open>The cast back: an integer of at most 53 bits converts to a double exactly.\<close>

fun msb_pos :: "nat \<Rightarrow> nat" where
  "msb_pos n = (if n < 2 then 0 else Suc (msb_pos (n div 2)))"

declare msb_pos.simps [simp del]

definition f64_make :: "bool \<Rightarrow> nat \<Rightarrow> nat \<Rightarrow> u64" where
  "f64_make neg e f = word_of_nat ((if neg then 2 ^ 63 else 0) + e * 2 ^ 52 + f)"

definition f64_of_int :: "int \<Rightarrow> u64" where
  "f64_of_int i =
     (let n = nat \<bar>i\<bar>; k = msb_pos n in
      if i = 0 then 0 else f64_make (i < 0) (k + 1023) (if k \<le> 52 then (n - 2 ^ k) * 2 ^ (52 - k) else 0))"

fun search_prec :: "(nat \<Rightarrow> u64 \<Rightarrow> bytes) \<Rightarrow> (bytes \<Rightarrow> u64) \<Rightarrow> u64 \<Rightarrow> nat list \<Rightarrow> bytes \<Rightarrow> bytes" where
  "search_prec printg strtod v [] buf = buf"
| "search_prec printg strtod v (p # ps) buf =
     (let buf = printg p v in if f64_eq (strtod buf) v then buf else search_prec printg strtod v ps buf)"

definition f64_text :: "(nat \<Rightarrow> u64 \<Rightarrow> bytes) \<Rightarrow> (bytes \<Rightarrow> u64) \<Rightarrow> u64 \<Rightarrow> bytes" where
  "f64_text printg strtod v =
     (if f64_eq v 0 then [48]
      else if f64_small v \<and> f64_eq (f64_of_int (f64_to_i64 v)) v then kyte_i64_fmt (f64_to_i64 v)
      else search_prec printg strtod v [1..<18] [])"

definition kyte_f64_to_string ::
    "(nat \<Rightarrow> u64 \<Rightarrow> bytes) \<Rightarrow> (bytes \<Rightarrow> u64) \<Rightarrow> platform \<Rightarrow> heap \<Rightarrow> addr \<Rightarrow> u64 \<Rightarrow> addr \<Rightarrow> (addr \<times> heap) outcome" where
  "kyte_f64_to_string printg strtod P h lit v site =
     (let buf = f64_text printg strtod v in kyte_string_from P h lit buf (int (length buf)) site)"

section \<open>Floats, wire and binary forms\<close>

text \<open>The conversion of a float: exact; a subnormal float is a normal double, a NaN becomes quiet.\<close>

definition f32_exp :: "u32 \<Rightarrow> nat" where
  "f32_exp x = unat (drop_bit 23 x AND mask 8)"

definition f32_frac :: "u32 \<Rightarrow> nat" where
  "f32_frac x = unat (x AND mask 23)"

definition f64_of_f32 :: "u32 \<Rightarrow> u64" where
  "f64_of_f32 x =
     (let s = bit x 31; e = f32_exp x; f = f32_frac x in
      if e = 255 then f64_make s 2047 (if f = 0 then 0 else 2 ^ 51 + (f mod 2 ^ 22) * 2 ^ 29)
      else if e = 0 then
        (if f = 0 then f64_make s 0 0
         else (let k = msb_pos f in f64_make s (k + 874) ((f - 2 ^ k) * 2 ^ (52 - k))))
      else f64_make s (e + 896) (f * 2 ^ 29))"

definition kyte_ieee_le_to_str ::
    "(nat \<Rightarrow> u64 \<Rightarrow> bytes) \<Rightarrow> (bytes \<Rightarrow> u64) \<Rightarrow> platform \<Rightarrow> heap \<Rightarrow> addr \<Rightarrow> addr \<Rightarrow> int \<Rightarrow> addr \<Rightarrow> (addr \<times> heap) outcome" where
  "kyte_ieee_le_to_str printg strtod P h lit data len site =
     (let str = (\<lambda>v. kyte_f64_to_string printg strtod P h lit v site) in
      if data = 0 then str 0
      else
        (let n = (if len = 4 \<or> len = 8 then nat len else 0);
             b = rd (mem h) data n @ replicate (8 - n) 0 in
         if len = 4 then str (f64_of_f32 (le_word (take 4 b)))
         else str (if len = 8 then le_word b else 0)))"

definition kyte_f64_bits :: "u64 \<Rightarrow> int" where
  "kyte_f64_bits d = sint d"

definition kyte_pg_be_f64 :: "memory \<Rightarrow> addr \<Rightarrow> int \<Rightarrow> u64" where
  "kyte_pg_be_f64 m ptr len =
     (if ptr = 0 then 0
      else if len = 8 then le_word (map (\<lambda>i. m (ptr + (7 - int i))) [0..<8])
      else if len = 4 then f64_of_f32 (le_word (map (\<lambda>i. m (ptr + (3 - int i))) [0..<4]))
      else 0)"

section \<open>The bits\<close>

lemma f64_zero: "f64_eq v 0 \<longleftrightarrow> f64_is_zero v"
proof -
  have z: "\<not> f64_nan 0" "f64_is_zero 0" by (simp_all add: f64_nan_def f64_frac_def f64_is_zero_def)
  have "\<not> f64_nan v" if "f64_is_zero v"
  proof -
    have b: "\<not> bit v n" if "n < 63" for n
    proof -
      have "bit (v AND mask 63) n = bit v n" using that by (simp add: bit_simps)
      then show ?thesis using \<open>f64_is_zero v\<close> by (simp add: f64_is_zero_def)
    qed
    have "v AND mask 52 = 0" by (rule bit_word_eqI) (auto simp: bit_simps b)
    then show ?thesis by (simp add: f64_nan_def f64_frac_def)
  qed
  then show ?thesis using z by (auto simp: f64_eq_def)
qed

lemma f64_eq_refl: "\<not> f64_nan v \<Longrightarrow> f64_eq v v"
  by (simp add: f64_eq_def)

lemma unat_and_mask: "unat (w AND mask n) = unat w mod 2 ^ n"
  unfolding take_bit_eq_mask [symmetric] unsigned_take_bit_eq by (rule take_bit_eq_mod)

lemma f64_make_fields:
  assumes "e < 2 ^ 11" "f < 2 ^ 52"
  shows "f64_exp (f64_make s e f) = e" "f64_frac (f64_make s e f) = f" "bit (f64_make s e f) 63 = s"
proof -
  define N where "N = (if s then 2 ^ 63 else 0) + e * 2 ^ 52 + f"
  have hi: "N = (if s then 2 ^ 11 + e else e) * 2 ^ 52 + f" by (simp add: N_def)
  then have d: "N div 2 ^ 52 = (if s then 2 ^ 11 + e else e)" "N mod 2 ^ 52 = f" using assms(2) by simp_all
  have lt: "N < 2 ^ 64" using assms by (simp add: N_def)
  then have u: "unat (f64_make s e f) = N"
    unfolding f64_make_def N_def [symmetric] by (simp only: unat_of_nat) simp
  show "f64_exp (f64_make s e f) = e" using assms(1) d(1)
    by (simp only: f64_exp_def u unat_and_mask unat_drop_bit_eq drop_bit_eq_div [where a = "_ :: nat"]) simp
  show "f64_frac (f64_make s e f) = f" using d(2) by (simp add: f64_frac_def u unat_and_mask)
  have "bit (f64_make s e f) 63 = bit N 63" unfolding u [symmetric] by (simp add: bit_unsigned_iff)
  also have "\<dots> = odd (N div 2 ^ 52 div 2 ^ 11)" by (simp add: bit_iff_odd div_mult2_eq [symmetric] flip: power_add)
  also have "\<dots> = s"
  proof -
    have "(2048 + e) div 2048 = 1" using assms(1) by (intro div_nat_eqI) simp_all
    then show ?thesis unfolding d(1) using assms(1) by simp
  qed
  finally show "bit (f64_make s e f) 63 = s" .
qed

lemma msb_pos_bounds: "n \<noteq> 0 \<Longrightarrow> 2 ^ msb_pos n \<le> n \<and> n < 2 * 2 ^ msb_pos n"
proof (induction n rule: msb_pos.induct)
  case (1 n)
  show ?case
  proof (cases "n < 2")
    case True
    then show ?thesis using 1 by (simp add: msb_pos.simps)
  next
    case False
    then have "2 ^ msb_pos (n div 2) \<le> n div 2 \<and> n div 2 < 2 * 2 ^ msb_pos (n div 2)" using 1 by simp
    then show ?thesis using False by (simp add: msb_pos.simps [of n]) linarith
  qed
qed

lemma msb_pos_less: "n \<noteq> 0 \<Longrightarrow> n < 2 ^ k \<Longrightarrow> msb_pos n < k"
  using msb_pos_bounds [of n] by (metis not_less order.strict_trans1 power_increasing le_less_trans one_le_numeral order_trans)

text \<open>A positive number below \<open>2 ^ 53\<close>, written with its leading bit hidden.\<close>

lemma hidden_bit:
  assumes "n \<noteq> 0" "msb_pos n \<le> 52"
  shows "(n - 2 ^ msb_pos n) * 2 ^ (52 - msb_pos n) < 2 ^ 52"
    and "2 ^ 52 + (n - 2 ^ msb_pos n) * 2 ^ (52 - msb_pos n) = n * 2 ^ (52 - msb_pos n)"
proof -
  let ?k = "msb_pos n"
  have p: "(2 :: nat) ^ ?k * 2 ^ (52 - ?k) = 2 ^ 52" using assms(2) by (simp flip: power_add)
  have b: "2 ^ ?k \<le> n" "n < 2 * 2 ^ ?k" using msb_pos_bounds [OF assms(1)] by simp_all
  then have "n - 2 ^ ?k < 2 ^ ?k" by linarith
  then have "(n - 2 ^ ?k) * 2 ^ (52 - ?k) < 2 ^ ?k * 2 ^ (52 - ?k)" by simp
  then show "(n - 2 ^ ?k) * 2 ^ (52 - ?k) < 2 ^ 52" by (simp only: p)
  have "2 ^ ?k * 2 ^ (52 - ?k) + (n - 2 ^ ?k) * 2 ^ (52 - ?k) = n * 2 ^ (52 - ?k)"
    using b(1) by (simp flip: add_mult_distrib)
  then show "2 ^ 52 + (n - 2 ^ ?k) * 2 ^ (52 - ?k) = n * 2 ^ (52 - ?k)" by (simp only: p)
qed

section \<open>A float widened keeps its value\<close>

definition f32_scaled :: "u32 \<Rightarrow> int" where
  "f32_scaled x =
     (let m = (if f32_exp x = 0 then int (f32_frac x) else int (2 ^ 23 + f32_frac x) * 2 ^ (f32_exp x - 1)) in
      if bit x 31 then - m else m)"

lemma f32_bounds: "f32_exp x < 256" "f32_frac x < 2 ^ 23"
  by (simp_all add: f32_exp_def f32_frac_def unat_and_mask)

text \<open>The value of a float in units of \<open>2 ^ - 149\<close> is the value of the double in units of \<open>2 ^ - 1074\<close>.\<close>

lemma f64_of_f32_exact:
  assumes "f32_exp x \<noteq> 255"
  shows "f64_scaled (f64_of_f32 x) = f32_scaled x * 2 ^ 925 \<and> f64_finite (f64_of_f32 x)"
proof (cases "f32_exp x = 0")
  case sub: True
  show ?thesis
  proof (cases "f32_frac x = 0")
    case True
    then show ?thesis using sub f64_make_fields [of 0 0 "bit x 31"]
      by (simp add: f64_of_f32_def f64_scaled_def f32_scaled_def f64_finite_def Let_def)
  next
    case False
    let ?f = "f32_frac x" and ?k = "msb_pos (f32_frac x)"
    have k: "?k < 23" using msb_pos_less [OF False f32_bounds(2)] .
    have e: "?k + 874 < 2 ^ 11" "?k + 874 - 1 = ?k + 873" using k by simp_all
    have h: "(?f - 2 ^ ?k) * 2 ^ (52 - ?k) < 2 ^ 52" "2 ^ 52 + (?f - 2 ^ ?k) * 2 ^ (52 - ?k) = ?f * 2 ^ (52 - ?k)"
      using hidden_bit [OF False] k by simp_all
    have d: "f64_of_f32 x = f64_make (bit x 31) (?k + 874) ((?f - 2 ^ ?k) * 2 ^ (52 - ?k))"
      using sub False by (simp add: f64_of_f32_def Let_def)
    have p: "(2 :: int) ^ (52 - ?k) * 2 ^ (?k + 873) = 2 ^ 925" using k by (simp flip: power_add)
    have "int (2 ^ 52 + (?f - 2 ^ ?k) * 2 ^ (52 - ?k)) * 2 ^ (?k + 873) = int ?f * 2 ^ 925"
      unfolding h(2) using p by (simp add: mult.assoc)
    then show ?thesis unfolding d f64_scaled_def f32_scaled_def f64_finite_def f64_make_fields [OF e(1) h(1)] e(2)
      using sub k by (simp add: Let_def)
  qed
next
  case False
  let ?e = "f32_exp x" and ?f = "f32_frac x"
  have e: "?e + 896 < 2 ^ 11" "?f * 2 ^ 29 < 2 ^ 52" "?e + 896 - 1 = (?e - 1) + 896"
    using f32_bounds [of x] False by simp_all
  have d: "f64_of_f32 x = f64_make (bit x 31) (?e + 896) (?f * 2 ^ 29)"
    using assms False by (simp add: f64_of_f32_def Let_def)
  have "int (2 ^ 52 + ?f * 2 ^ 29) = int (2 ^ 23 + ?f) * 2 ^ 29" by simp
  then have "int (2 ^ 52 + ?f * 2 ^ 29) * 2 ^ ((?e - 1) + 896) = int (2 ^ 23 + ?f) * 2 ^ (?e - 1) * 2 ^ 925"
    by (simp add: power_add)
  then show ?thesis unfolding d f64_scaled_def f32_scaled_def f64_finite_def f64_make_fields [OF e(1,2)] e(3)
    using False f32_bounds(1) [of x] by (simp add: Let_def)
qed

section \<open>The text reads back\<close>

text \<open>
  What C promises: 17 significant digits identify a double, and the text of an integer that a double
  can hold reads as that double.
\<close>

definition correct_text :: "(nat \<Rightarrow> u64 \<Rightarrow> bytes) \<Rightarrow> (bytes \<Rightarrow> u64) \<Rightarrow> bool" where
  "correct_text printg strtod \<longleftrightarrow>
     (\<forall>v. \<not> f64_nan v \<longrightarrow> f64_eq (strtod (printg 17 v)) v)
   \<and> (\<forall>i. - (2 ^ 53) \<le> i \<and> i \<le> 2 ^ 53 \<longrightarrow> strtod (kyte_i64_fmt i) = f64_of_int i)"

lemma search_prec_first:
  assumes "\<exists>q \<in> set ps. f64_eq (strtod (printg q v)) v" "sorted_wrt (<) ps"
  shows "\<exists>q \<in> set ps. search_prec printg strtod v ps buf = printg q v \<and> f64_eq (strtod (printg q v)) v
    \<and> (\<forall>r \<in> set ps. r < q \<longrightarrow> \<not> f64_eq (strtod (printg r v)) v)"
  using assms by (induction ps arbitrary: buf) (auto simp: Let_def)

lemma f64_small_cast: "f64_small v \<Longrightarrow> - (2 ^ 53) \<le> f64_to_i64 v \<and> f64_to_i64 v \<le> 2 ^ 53"
proof -
  define u :: int where "u = 2 ^ 1074"
  assume "f64_small v"
  then have b: "- (2 ^ 53) * u \<le> f64_scaled v" "f64_scaled v \<le> 2 ^ 53 * u" by (simp_all add: f64_small_def u_def)
  have u: "0 < u" by (simp add: u_def)
  have "x div u \<le> 2 ^ 53" if "x \<le> 2 ^ 53 * u" for x :: int
    using zdiv_mono1 [OF that u] u by simp
  moreover have "0 \<le> x div u" if "0 \<le> x" for x :: int using that u by (simp add: pos_imp_zdiv_nonneg_iff)
  moreover have "f64_to_i64 v = (if f64_scaled v < 0 then - (- f64_scaled v div u) else f64_scaled v div u)"
    by (simp add: f64_to_i64_def u_def)
  ultimately show ?thesis using b
    by (smt (verit, ccfv_threshold) mult_minus_left)
qed

section \<open>Values\<close>

text \<open>The magnitude an exponent and a fraction stand for determines them.\<close>

definition magnitude :: "nat \<Rightarrow> nat \<Rightarrow> nat" where
  "magnitude e f = (if e = 0 then f else (2 ^ 52 + f) * 2 ^ (e - 1))"

lemma magnitude_less:
  assumes "e < e'" "f < 2 ^ 52"
  shows "magnitude e f < magnitude e' f'"
proof -
  have "magnitude e f < 2 ^ 52 * 2 ^ e"
  proof (cases e)
    case (Suc d)
    have "(2 ^ 52 + f) * 2 ^ d < (2 * 2 ^ 52) * (2 ^ d :: nat)" using assms(2) by simp
    then show ?thesis by (simp add: magnitude_def Suc)
  qed (use assms(2) in \<open>simp add: magnitude_def\<close>)
  also have "\<dots> \<le> 2 ^ 52 * 2 ^ (e' - 1)" using assms(1) by (intro mult_le_mono2 power_increasing) simp_all
  also have "\<dots> \<le> magnitude e' f'" using assms(1) by (simp add: magnitude_def add_mult_distrib)
  finally show ?thesis .
qed

lemma magnitude_inj:
  assumes "magnitude e f = magnitude e' f'" "f < 2 ^ 52" "f' < 2 ^ 52"
  shows "e = e' \<and> f = f'"
proof -
  have "e = e'" using assms magnitude_less [of e e' f f'] magnitude_less [of e' e f' f] by (metis less_irrefl linorder_neqE_nat)
  then show ?thesis using assms(1) by (simp add: magnitude_def split: if_splits)
qed

lemma f64_scaled_magnitude:
  "f64_scaled v = (if bit v 63 then - int (magnitude (f64_exp v) (f64_frac v)) else int (magnitude (f64_exp v) (f64_frac v)))"
  by (simp add: f64_scaled_def magnitude_def)

lemma f64_frac_bound: "f64_frac v < 2 ^ 52"
  by (simp add: f64_frac_def unat_and_mask)

text \<open>A pattern is its sign, its exponent and its fraction.\<close>

lemma f64_fields_inj:
  assumes "bit v 63 = bit w 63" "f64_exp v = f64_exp w" "f64_frac v = f64_frac w"
  shows "v = (w :: u64)"
proof (rule bit_word_eqI)
  fix n
  assume n: "n < LENGTH(64)"
  have frac: "v AND mask 52 = w AND mask 52" and ex: "drop_bit 52 v AND mask 11 = drop_bit 52 w AND mask 11"
    using assms(2,3) unfolding f64_frac_def f64_exp_def by (metis unsigned_word_eqI)+
  consider "n < 52" | "52 \<le> n" "n < 63" | "n = 63" using n by fastforce
  then show "bit v n = bit w n"
  proof cases
    case 1
    then show ?thesis using arg_cong [OF frac, of "\<lambda>x. bit x n"] by (simp add: bit_simps)
  next
    case 2
    then have "n - 52 < 11" by simp
    then show ?thesis using 2 arg_cong [OF ex, of "\<lambda>x. bit x (n - 52)"] by (simp add: bit_simps)
  qed (use assms(1) in simp)
qed

lemma f64_scaled_inj:
  assumes "f64_scaled v = f64_scaled w"
  shows "v = w \<or> f64_is_zero v \<and> f64_is_zero w"
proof -
  have m: "magnitude (f64_exp v) (f64_frac v) = magnitude (f64_exp w) (f64_frac w)"
    using assms by (auto simp: f64_scaled_magnitude split: if_splits)
  then have ef: "f64_exp v = f64_exp w" "f64_frac v = f64_frac w" using magnitude_inj f64_frac_bound by blast+
  show ?thesis
  proof (cases "magnitude (f64_exp w) (f64_frac w) = 0")
    case True
    then have z: "f64_exp w = 0" "f64_frac w = 0" by (auto simp: magnitude_def split: if_splits)
    have "f64_is_zero x" if x: "f64_exp x = 0" "f64_frac x = 0" for x
    proof -
      have "x AND mask 63 = 0"
      proof (rule bit_word_eqI)
        fix n
        assume n: "n < LENGTH(64)"
        have frac: "x AND mask 52 = 0" and ex: "drop_bit 52 x AND mask 11 = 0"
          using x by (simp_all add: f64_frac_def f64_exp_def unat_eq_0)
        consider "n < 52" | "52 \<le> n" "n < 63" | "63 \<le> n" by linarith
        then show "bit (x AND mask 63) n = bit (0 :: u64) n"
        proof cases
          case 1
          then show ?thesis using arg_cong [OF frac, of "\<lambda>x. bit x n"] by (simp add: bit_simps)
        next
          case 2
          then have "n - 52 < 11" by simp
          then show ?thesis using 2 arg_cong [OF ex, of "\<lambda>x. bit x (n - 52)"] by (simp add: bit_simps)
        qed (simp add: bit_simps)
      qed
      then show ?thesis by (simp add: f64_is_zero_def)
    qed
    then show ?thesis using z ef by metis
  next
    case False
    then have "bit v 63 = bit w 63" using assms m by (auto simp: f64_scaled_magnitude split: if_splits)
    then show ?thesis using f64_fields_inj ef by blast
  qed
qed

text \<open>An integer of at most 53 bits converts exactly.\<close>

lemma f64_of_int_exact:
  assumes "\<bar>i\<bar> \<le> 2 ^ 53"
  shows "f64_finite (f64_of_int i) \<and> f64_scaled (f64_of_int i) = i * 2 ^ 1074"
proof (cases "i = 0")
  case True
  then show ?thesis by (simp add: f64_of_int_def f64_finite_def f64_scaled_def f64_exp_def f64_frac_def)
next
  case False
  define n k where "n = nat \<bar>i\<bar>" and "k = msb_pos n"
  have n: "n \<noteq> 0" "n \<le> 2 ^ 53" "\<bar>i\<bar> = int n" using assms False by (simp_all add: n_def nat_le_iff)
  have k: "2 ^ k \<le> n" "n < 2 * 2 ^ k" using msb_pos_bounds [OF n(1)] by (simp_all add: k_def)
  then have k53: "k \<le> 53" using n(2) power_le_imp_le_exp [of "2 :: nat" k 53] by simp
  define f where "f = (if k \<le> 52 then (n - 2 ^ k) * 2 ^ (52 - k) else 0)"
  have f: "f < 2 ^ 52 \<and> (2 ^ 52 + f) * 2 ^ (k + 1022) = n * 2 ^ 1074"
  proof (cases "k \<le> 52")
    case True
    have h: "(n - 2 ^ k) * 2 ^ (52 - k) < 2 ^ 52" "2 ^ 52 + (n - 2 ^ k) * 2 ^ (52 - k) = n * 2 ^ (52 - k)"
      using hidden_bit [OF n(1)] True by (simp_all only: k_def)
    have "(2 :: nat) ^ (52 - k) * 2 ^ (k + 1022) = 2 ^ 1074" using True by (simp flip: power_add)
    moreover have "f = (n - 2 ^ k) * 2 ^ (52 - k)" using True by (simp add: f_def)
    ultimately show ?thesis using h by (simp only: mult.assoc)
  next
    case False
    then have "k = 53" using k53 by simp
    then have "n = 2 ^ 53" "f = 0" using k(1) n(2) by (simp_all add: f_def)
    then show ?thesis unfolding \<open>k = 53\<close> \<open>n = 2 ^ 53\<close> by (simp flip: power_add)
  qed
  have e: "k + 1023 < 2 ^ 11" "k + 1023 - 1 = k + 1022" "k + 1023 \<noteq> 2047" using k53 by simp_all
  have d: "f64_of_int i = f64_make (i < 0) (k + 1023) f" using False by (simp add: f64_of_int_def Let_def n_def k_def f_def)
  have "magnitude (k + 1023) f = (2 ^ 52 + f) * 2 ^ (k + 1023 - 1)" unfolding magnitude_def by (rule if_not_P) simp
  then have "magnitude (k + 1023) f = n * 2 ^ 1074" using f unfolding e(2) by (simp only:)
  then have "f64_scaled (f64_of_int i) = (if i < 0 then - int (n * 2 ^ 1074) else int (n * 2 ^ 1074))"
    unfolding f64_scaled_magnitude d f64_make_fields [OF e(1) f [THEN conjunct1]] by simp
  moreover have "i = (if i < 0 then - int n else int n)" using n(3) by (auto simp: abs_if split: if_splits)
  ultimately show ?thesis
    unfolding f64_finite_def d f64_make_fields [OF e(1) f [THEN conjunct1]] using e(3) by (metis minus_mult_left of_nat_mult of_nat_numeral of_nat_power)
qed

lemma f64_zero_scaled: "f64_is_zero x \<Longrightarrow> f64_scaled x = 0 \<and> f64_finite x"
proof -
  assume "f64_is_zero x"
  then have m: "x AND mask 63 = 0" by (simp add: f64_is_zero_def)
  have bits: "\<not> bit x n" if "n < 63" for n using arg_cong [OF m, of "\<lambda>y. bit y n"] that by (simp add: bit_simps)
  have "x AND mask 52 = 0" by (rule bit_word_eqI) (auto simp: bit_simps bits)
  moreover have "drop_bit 52 x AND mask 11 = 0" by (rule bit_word_eqI) (auto simp: bit_simps bits)
  ultimately show ?thesis by (simp add: f64_scaled_def f64_exp_def f64_frac_def f64_finite_def)
qed

text \<open>A finite double is the integer \<open>i\<close>, at most \<open>2 ^ 53\<close> in size: exactly the doubles the second branch takes.\<close>

definition f64_is_int :: "u64 \<Rightarrow> int \<Rightarrow> bool" where
  "f64_is_int v i \<longleftrightarrow> f64_finite v \<and> f64_scaled v = i * 2 ^ 1074 \<and> \<bar>i\<bar> \<le> 2 ^ 53"

lemma whole_branch:
  assumes "f64_is_int v i"
  shows "f64_to_i64 v = i \<and> f64_small v \<and> f64_eq (f64_of_int i) v"
proof -
  define u :: int where "u = 2 ^ 1074"
  have u: "0 < u" by (simp add: u_def)
  have v: "f64_finite v" "f64_scaled v = i * u" "\<bar>i\<bar> \<le> 2 ^ 53" using assms by (simp_all add: f64_is_int_def u_def)
  have neg: "i * u < 0 \<longleftrightarrow> i < 0" using u by (simp add: mult_less_0_iff)
  have "f64_to_i64 v = (if i * u < 0 then - (- (i * u) div u) else i * u div u)" unfolding f64_to_i64_def u_def [symmetric] v(2) by (rule refl)
  also have "\<dots> = i"
  proof -
    have "- (i * u) = (- i) * u" by simp
    then have "- (i * u) div u = - i" using u by (simp only: nonzero_mult_div_cancel_right)
    then show ?thesis using u by simp
  qed
  finally have "f64_to_i64 v = i" .
  moreover have "f64_small v"
    using v(1,3) mult_right_mono [of "- (2 ^ 53)" i u] mult_right_mono [of i "2 ^ 53" u] u
    unfolding f64_small_def u_def [symmetric] v(2) by (simp add: abs_le_iff)
  moreover have "f64_scaled (f64_of_int i) = f64_scaled v" "f64_finite (f64_of_int i)"
    using f64_of_int_exact [OF v(3)] v(2) by (simp_all add: u_def)
  ultimately show ?thesis
    using f64_scaled_inj [of "f64_of_int i" v] v(1) by (auto simp: f64_eq_def f64_nan_def f64_finite_def)
qed

lemma f64_is_zero_int: "f64_is_zero v \<Longrightarrow> f64_is_int v 0"
  using f64_zero_scaled [of v] by (simp add: f64_is_int_def)

lemma branch_whole:
  assumes "f64_small v" "f64_eq (f64_of_int (f64_to_i64 v)) v"
  shows "f64_is_int v (f64_to_i64 v)"
proof -
  have b: "\<bar>f64_to_i64 v\<bar> \<le> 2 ^ 53" using f64_small_cast [OF assms(1)] by (simp add: abs_le_iff)
  have "f64_scaled (f64_of_int (f64_to_i64 v)) = f64_scaled v" using assms(2) f64_zero_scaled by (auto simp: f64_eq_def)
  then show ?thesis using f64_of_int_exact [OF b] assms(1) b by (simp add: f64_is_int_def f64_small_def)
qed

text \<open>
  Property C38 (f64_text_roundtrip).  With a C library that prints and reads correctly, the text of every
  double that is not a NaN reads back to an equal double.  Both zeros are \<open>0\<close>; a double whose value is
  an integer of at most \<open>2 ^ 53\<close> in size has the decimal text of that integer; and a double that is not
  has the fewest significant digits that read back.
\<close>

theorem f64_text_roundtrip:
  assumes c: "correct_text printg strtod" and v: "\<not> f64_nan v"
  shows "f64_eq (strtod (f64_text printg strtod v)) v
    \<and> (f64_is_zero v \<longrightarrow> f64_text printg strtod v = [48])
    \<and> (\<forall>i. f64_is_int v i \<longrightarrow> f64_text printg strtod v = kyte_i64_fmt i)
    \<and> ((\<forall>i. \<not> f64_is_int v i) \<longrightarrow>
         (\<exists>p \<in> {1..17}. f64_text printg strtod v = printg p v
            \<and> (\<forall>q \<in> {1..<p}. \<not> f64_eq (strtod (printg q v)) v)))"
proof -
  have zero: "kyte_i64_fmt 0 = [48]" by (simp add: kyte_i64_fmt_def fmt_digits.simps)
  have ints: "strtod (kyte_i64_fmt i) = f64_of_int i" if "\<bar>i\<bar> \<le> 2 ^ 53" for i
    using c that by (simp add: correct_text_def abs_le_iff)
  consider i where "f64_is_int v i" | "\<forall>i. \<not> f64_is_int v i" by blast
  then show ?thesis
  proof cases
    case 1
    have i: "f64_to_i64 v = i" "f64_small v" "f64_eq (f64_of_int i) v" using whole_branch [OF 1] by simp_all
    have uniq: "j = i" if "f64_is_int v j" for j using whole_branch [OF that] i(1) by simp
    have t: "f64_text printg strtod v = kyte_i64_fmt i"
    proof (cases "f64_is_zero v")
      case True
      then have "0 = i" by (intro uniq f64_is_zero_int)
      then show ?thesis using True by (simp add: f64_text_def f64_zero zero)
    next
      case False
      then show ?thesis using i by (simp add: f64_text_def f64_zero)
    qed
    have "f64_eq (strtod (kyte_i64_fmt i)) v" using i(3) ints 1 by (simp add: f64_is_int_def)
    moreover have "kyte_i64_fmt i = [48]" if "f64_is_zero v" using t that by (simp add: f64_text_def f64_zero)
    ultimately show ?thesis unfolding t using 1 uniq by blast
  next
    case 2
    have nz: "\<not> f64_is_zero v" using 2 f64_is_zero_int by blast
    have no: "\<not> (f64_small v \<and> f64_eq (f64_of_int (f64_to_i64 v)) v)" using 2 branch_whole by blast
    have "\<exists>q \<in> set [1..<18]. f64_eq (strtod (printg q v)) v"
      using c v by (intro bexI [of _ 17]) (simp_all add: correct_text_def)
    then have "\<exists>q \<in> set [1..<18]. search_prec printg strtod v [1..<18] [] = printg q v \<and> f64_eq (strtod (printg q v)) v
        \<and> (\<forall>r \<in> set [1..<18]. r < q \<longrightarrow> \<not> f64_eq (strtod (printg r v)) v)"
      by (rule search_prec_first) (simp only: sorted_wrt_upt)
    then obtain q where q: "1 \<le> q" "q \<le> 17" "search_prec printg strtod v [1..<18] [] = printg q v" "f64_eq (strtod (printg q v)) v"
      "\<forall>r \<in> {1..<q}. \<not> f64_eq (strtod (printg r v)) v" by (auto simp del: upt_Suc)
    have t: "f64_text printg strtod v = printg q v" using q(3) nz no by (auto simp: f64_text_def f64_zero)
    show ?thesis unfolding t using nz 2 q(1,2,4,5) by auto
  qed
qed

definition demo_printg :: "nat \<Rightarrow> u64 \<Rightarrow> bytes" where
  "demo_printg p v = 112 # rev (digits_rev (unat v))"

definition demo_strtod :: "bytes \<Rightarrow> u64" where
  "demo_strtod t = (if t \<noteq> [] \<and> hd t = 112 then word_of_nat (digits_val (tl t)) else f64_of_int (parse_i64 t))"

lemma demo_text: "correct_text demo_printg demo_strtod"
proof -
  have "demo_strtod (kyte_i64_fmt i) = f64_of_int i" if "- (2 ^ 53) \<le> i \<and> i \<le> 2 ^ 53" for i
  proof -
    have b: "- (2 ^ 63) \<le> i" "i < 2 ^ 63" using that by simp_all
    obtain ds where ds: "kyte_i64_fmt i = (if i < 0 then [45] else []) @ ds" "ds \<noteq> []" "list_all is_digit ds"
      and p: "parse_i64 (kyte_i64_fmt i) = i" using i64_text [of i] b by blast
    have "is_digit (hd ds)" using ds(2,3) by (auto simp: list_all_iff)
    then have "hd (kyte_i64_fmt i) \<noteq> 112" using ds(1,2) by (auto simp: is_digit_def)
    then show ?thesis by (simp add: demo_strtod_def p)
  qed
  moreover have "demo_strtod (demo_printg p v) = v" for p v by (simp add: demo_strtod_def demo_printg_def)
  ultimately show ?thesis by (simp add: correct_text_def f64_eq_refl)
qed

theorem f64_text_roundtrip_witness:
  "f64_eq (demo_strtod (f64_text demo_printg demo_strtod 0x3FF8000000000000)) 0x3FF8000000000000
    \<and> f64_text demo_printg demo_strtod (f64_of_int (- 3)) = [45, 51]"
proof
  show "f64_eq (demo_strtod (f64_text demo_printg demo_strtod 0x3FF8000000000000)) 0x3FF8000000000000"
    using f64_text_roundtrip [OF demo_text, of "0x3FF8000000000000"]
    by (simp add: f64_nan_def f64_exp_def f64_frac_def mask_eq_exp_minus_1)
  have i: "f64_is_int (f64_of_int (- 3)) (- 3)" using f64_of_int_exact [of "- 3"] by (simp add: f64_is_int_def)
  then have "\<not> f64_nan (f64_of_int (- 3))" by (simp add: f64_is_int_def f64_nan_def f64_finite_def)
  with i have "f64_text demo_printg demo_strtod (f64_of_int (- 3)) = kyte_i64_fmt (- 3)"
    using f64_text_roundtrip [OF demo_text] by blast
  also have "\<dots> = [45, 51]" by (simp add: kyte_i64_fmt_def fmt_digits.simps)
  finally show "f64_text demo_printg demo_strtod (f64_of_int (- 3)) = [45, 51]" .
qed

text \<open>The sign of a negative zero is lost.\<close>

lemma negative_zero_lost: "f64_text printg strtod (2 ^ 63) = f64_text printg strtod 0"
  by (simp add: f64_text_def f64_zero f64_is_zero_def mask_eq_exp_minus_1)

text \<open>The big-endian bytes of a pattern on the wire are read back to it.\<close>

lemma pg_be_f64_reads:
  assumes "ptr \<noteq> 0" "rd m ptr 8 = rev (le_bytes 8 w)"
  shows "kyte_pg_be_f64 m ptr 8 = w"
proof -
  have "map (\<lambda>i. m (ptr + (7 - int i))) [0..<8] = rev (rd m ptr 8)"
    by (simp add: rd_def upt_rec)
  then show ?thesis using assms by (simp add: kyte_pg_be_f64_def le_word_le_bytes)
qed

end
