(* ===== verification/Kyte_Sockets.thy ===== *)
theory Kyte_Sockets
  imports Kyte_Memory
begin

text \<open>
  The system shims of \<^verbatim>\<open>src/runtime/core.cpp\<close>: passing a descriptor over a socket, the
  non-blocking flag, sleeping, and the POSIX names the Windows build provides, among them a
  \<^verbatim>\<open>socketpair\<close> over the loopback interface.  What the kernel answers is a parameter; what the code
  hands it and what it leaves open is the model.
\<close>

unbundle bit_operations_syntax

section \<open>Descriptors over a socket\<close>

text \<open>A message: the payload and the ancillary blocks, each a level, a type and its data.\<close>

record message =
  payload :: bytes
  control :: "(int \<times> int \<times> bytes) list"

definition SOL_SOCKET :: int where "SOL_SOCKET = 1"
definition SCM_RIGHTS :: int where "SCM_RIGHTS = 1"

text \<open>
  \<^verbatim>\<open>do n = call while (n < 0 && errno == EINTR)\<close>: \<open>answer i\<close> is what the call of number \<open>i\<close> returns and
  whether it was interrupted.
\<close>

partial_function (option) retry :: "(nat \<Rightarrow> int \<times> bool) \<Rightarrow> nat \<Rightarrow> (nat \<times> int) option" where
  "retry answer i =
     (if fst (answer i) < 0 \<and> snd (answer i) then retry answer (Suc i) else Some (i, fst (answer i)))"

definition fd_message :: "memory \<Rightarrow> addr \<Rightarrow> int \<Rightarrow> int \<Rightarrow> message" where
  "fd_message m data len fd =
     \<lparr>payload = (if len > 0 then rd m data (nat len) else [0]),
      control = [(SOL_SOCKET, SCM_RIGHTS, le_bytes 4 (word_of_int fd :: u32))]\<rparr>"

text \<open>The result, and the message each call of \<^verbatim>\<open>sendmsg\<close> gets.\<close>

definition kyte_send_fd :: "(nat \<Rightarrow> message \<Rightarrow> int \<times> bool) \<Rightarrow> memory \<Rightarrow> addr \<Rightarrow> int \<Rightarrow> int \<Rightarrow> (int \<times> message) option" where
  "kyte_send_fd sendmsg m data len fd =
     (let msg = fd_message m data len fd in
      case retry (\<lambda>i. sendmsg i msg) 0 of None \<Rightarrow> None | Some (_, n) \<Rightarrow> Some (n, msg))"

text \<open>The first ancillary block that carries descriptors.\<close>

fun got_fd :: "(int \<times> int \<times> bytes) list \<Rightarrow> int" where
  "got_fd [] = - 1"
| "got_fd ((level, type, data) # cs) =
     (if level = SOL_SOCKET \<and> type = SCM_RIGHTS then sint (le_word (take 4 data) :: u32) else got_fd cs)"

text \<open>
  \<open>delivered i cap\<close> is what the successful call fills in, given room for \<open>cap\<close> bytes, the request read
  as an unsigned size.
\<close>

definition size_t :: "int \<Rightarrow> nat" where
  "size_t n = unat (word_of_int n :: u64)"

definition kyte_recv_fd ::
    "(nat \<Rightarrow> int \<times> bool) \<Rightarrow> (nat \<Rightarrow> nat \<Rightarrow> message) \<Rightarrow> addr \<Rightarrow> int \<Rightarrow> addr \<Rightarrow> memory \<Rightarrow> (int \<times> memory) option" where
  "kyte_recv_fd recvmsg delivered buf cap out_fd_ptr m =
     (case retry recvmsg 0 of
        None \<Rightarrow> None
      | Some (i, n) \<Rightarrow>
          (let m = (if n \<ge> 0 then wr m buf (take (nat n) (payload (delivered i (size_t cap)))) else m);
               got = (if n \<ge> 0 then got_fd (control (delivered i (size_t cap))) else - 1);
               m = (if out_fd_ptr \<noteq> 0 then store32 m out_fd_ptr (word_of_int got) else m) in
           Some (n, m)))"

section \<open>Flags, sleep and files\<close>

definition kyte_set_nonblock :: "int \<Rightarrow> (int \<Rightarrow> int) \<Rightarrow> int \<Rightarrow> int" where
  "kyte_set_nonblock getfl setfl O_NONBLOCK = (if getfl < 0 then - 1 else setfl (getfl OR O_NONBLOCK))"

datatype sleeping = No_sleep | Nanosleep int int | Win_sleep u32

definition kyte_sleep_ms :: "bool \<Rightarrow> int \<Rightarrow> sleeping" where
  "kyte_sleep_ms windows ms =
     (if ms \<le> 0 then No_sleep
      else if windows then Win_sleep (word_of_int ms)
      else Nanosleep (ms div 1000) (ms mod 1000 * 1000000))"

text \<open>The Windows memory and file calls: \<open>alloc\<close> is the base address or 0, \<open>handle\<close> the file or None.\<close>

definition win_mmap :: "(int \<Rightarrow> addr) \<Rightarrow> int \<Rightarrow> addr" where
  "win_mmap alloc len = (if len \<le> 0 then - 1 else let p = alloc len in if p \<noteq> 0 then p else - 1)"

definition win_munmap :: "(addr \<Rightarrow> bool) \<Rightarrow> addr \<Rightarrow> int" where
  "win_munmap virtual_free p = (if virtual_free p then 0 else - 1)"

definition win_fsync :: "'h option \<Rightarrow> ('h \<Rightarrow> bool) \<Rightarrow> int" where
  "win_fsync handle flush = (case handle of None \<Rightarrow> - 1 | Some f \<Rightarrow> if flush f then 0 else - 1)"

section \<open>The Windows socketpair\<close>

text \<open>
  \<open>open_socks\<close> are the open sockets, \<open>backlog\<close> the clients waiting on the listener in order, \<open>peers\<close>
  the client of each accepted socket.
\<close>

record sockets =
  open_socks :: "int list"
  backlog :: "int list"
  peers :: "(int \<times> int) list"

text \<open>The answers of the calls; \<open>strangers\<close> are the processes that connect to the listener meanwhile.\<close>

record pair_answers =
  pa_listener :: int
  pa_bind :: bool
  pa_name :: bool
  pa_listen :: bool
  pa_strangers :: "int list"
  pa_client :: int
  pa_connect :: bool
  pa_server :: int

definition INVALID_SOCKET :: int where "INVALID_SOCKET = - 1"

definition os_socket :: "int \<Rightarrow> sockets \<Rightarrow> sockets" where
  "os_socket s K = (if s = INVALID_SOCKET then K else K\<lparr>open_socks := open_socks K @ [s]\<rparr>)"

definition closesocket :: "int \<Rightarrow> sockets \<Rightarrow> sockets" where
  "closesocket s K = K\<lparr>open_socks := remove1 s (open_socks K)\<rparr>"

definition os_connect :: "int \<Rightarrow> sockets \<Rightarrow> sockets" where
  "os_connect client K = K\<lparr>backlog := backlog K @ [client]\<rparr>"

definition os_accept :: "int \<Rightarrow> sockets \<Rightarrow> sockets" where
  "os_accept server K =
     (if server = INVALID_SOCKET then K
      else (os_socket server K)\<lparr>backlog := tl (backlog K), peers := peers K @ [(server, hd (backlog K))]\<rparr>)"

text \<open>The result and the two descriptors written to \<open>sv\<close>, cut to \<^verbatim>\<open>int\<close>.\<close>

definition win_socketpair :: "pair_answers \<Rightarrow> sockets \<Rightarrow> int \<times> (int \<times> int) option \<times> sockets" where
  "win_socketpair a K =
     (let listener = pa_listener a; K = os_socket listener K in
      if listener = INVALID_SOCKET then (- 1, None, K)
      else if \<not> pa_bind a \<or> \<not> pa_name a \<or> \<not> pa_listen a then (- 1, None, closesocket listener K)
      else
        (let K = K\<lparr>backlog := pa_strangers a\<rparr>; client = pa_client a; K = os_socket client K in
         if client = INVALID_SOCKET then (- 1, None, closesocket listener K)
         else if \<not> pa_connect a then (- 1, None, closesocket client (closesocket listener K))
         else
           (let K = os_connect client K; server = pa_server a; K = os_accept server K; K = closesocket listener K in
            if server = INVALID_SOCKET then (- 1, None, closesocket client K)
            else (0, Some (sint (word_of_int client :: u32), sint (word_of_int server :: u32)), K))))"

section \<open>Facts\<close>

lemma retry_first:
  assumes "\<forall>j < k. fst (answer (i + j)) < 0 \<and> snd (answer (i + j))" "\<not> (fst (answer (i + k)) < 0 \<and> snd (answer (i + k)))"
  shows "retry answer i = Some (i + k, fst (answer (i + k)))"
  using assms
proof (induction k arbitrary: i)
  case 0
  then show ?case by (subst retry.simps) auto
next
  case (Suc k)
  have "retry answer (Suc i) = Some (Suc i + k, fst (answer (Suc i + k)))"
    using Suc.prems by (intro Suc.IH) (auto dest: spec [of _ "Suc _"])
  moreover have "fst (answer i) < 0 \<and> snd (answer i)" using Suc.prems(1) by (auto dest: spec [of _ 0])
  ultimately show ?case by (subst retry.simps) simp
qed

lemma got_fd_range: "- (2 ^ 31) \<le> got_fd cs \<and> got_fd cs < 2 ^ 31"
proof (induction cs rule: got_fd.induct)
  case (2 level type data cs)
  then show ?case using sint_ge [of "le_word (take 4 data) :: u32"] sint_lt [of "le_word (take 4 data) :: u32"] by simp
qed simp

text \<open>
  What \<^verbatim>\<open>unix(7)\<close> promises of SCM_RIGHTS.  The descriptors a message carries are the 32-bit numbers in
  its blocks of that kind.  The receiver gets the bytes the sender's call accepted, or the first of them,
  and for each descriptor sent one of its own: a number the kernel picks among those that are free in the
  receiver, which from then on names the open file that the sender's number named.  Blocks of other kinds
  may stand beside them.
\<close>

fun ints :: "bytes \<Rightarrow> int list" where
  "ints (a # b # c # d # r) = sint (le_word [a, b, c, d] :: u32) # ints r"
| "ints _ = []"

fun rights :: "(int \<times> int \<times> bytes) list \<Rightarrow> int list" where
  "rights [] = []"
| "rights ((level, type, data) # cs) = (if level = SOL_SOCKET \<and> type = SCM_RIGHTS then ints data else []) @ rights cs"

definition full_blocks :: "(int \<times> int \<times> bytes) list \<Rightarrow> bool" where
  "full_blocks cs \<longleftrightarrow> (\<forall>(level, type, data) \<in> set cs. level = SOL_SOCKET \<and> type = SCM_RIGHTS \<longrightarrow> 4 \<le> length data)"

type_synonym 'f files = "int \<Rightarrow> 'f option"

definition scm_transfer :: "'f files \<Rightarrow> message \<Rightarrow> 'f files \<Rightarrow> nat \<Rightarrow> message \<Rightarrow> 'f files \<Rightarrow> bool" where
  "scm_transfer S sent R n got R' \<longleftrightarrow>
     n \<le> length (payload sent) \<and> take n (payload got) = take n (payload sent)
     \<and> full_blocks (control got)
     \<and> list_all2 (\<lambda>f g. S f \<noteq> None \<and> R g = None \<and> R' g = S f) (rights (control sent)) (rights (control got))
     \<and> distinct (rights (control got))
     \<and> (\<forall>x. x \<notin> set (rights (control got)) \<longrightarrow> R' x = R x)"

lemma take4:
  assumes "4 \<le> length d"
  obtains a b c e r where "d = a # b # c # e # r"
  using assms by (auto simp: numeral_eq_Suc Suc_le_length_iff)

lemma ints_word: "length d = 4 \<Longrightarrow> ints d = [sint (le_word d :: u32)]"
  by (auto simp: numeral_eq_Suc length_Suc_conv)

lemma got_fd_first: "full_blocks cs \<Longrightarrow> rights cs = g # gs \<Longrightarrow> got_fd cs = g"
proof (induction cs rule: got_fd.induct)
  case (2 level type data cs)
  show ?case
  proof (cases "level = SOL_SOCKET \<and> type = SCM_RIGHTS")
    case True
    then have "4 \<le> length data" using 2(2) by (simp add: full_blocks_def)
    then obtain a b c e r where "data = a # b # c # e # r" by (rule take4)
    then show ?thesis using True 2(3) by simp
  next
    case False
    then show ?thesis using 2 by (auto simp: full_blocks_def)
  qed
qed simp

lemma sent_rights: "- (2 ^ 31) \<le> fd \<Longrightarrow> fd < 2 ^ 31 \<Longrightarrow> rights (control (fd_message m data len fd)) = [fd]"
  using sint32_of_int [of fd] by (simp add: fd_message_def ints_word le_word_le_bytes)

text \<open>
  Property C39 (fd_handoff).  After any number of interruptions one call sends the payload, or one zero
  byte when there is none, with the descriptor in one ancillary block.  A receiver to which the kernel
  passes that message stores the payload, as much as its call says it got, and the descriptor number that
  its own kernel picked, among whatever other ancillary data came along: that number was free, it now names
  the open file of the sender's descriptor, no other descriptor changed, and neither did other memory.
\<close>

theorem fd_handoff:
  fixes S R R' :: "'f files"
  assumes "\<forall>j < k. fst (sendmsg j (fd_message m data len fd)) < 0 \<and> snd (sendmsg j (fd_message m data len fd))"
    and "fst (sendmsg k (fd_message m data len fd)) = sent" "0 \<le> sent"
    and "\<forall>j < l. fst (recvmsg j) < 0 \<and> snd (recvmsg j)" "fst (recvmsg l) = n" "0 \<le> n"
    and "scm_transfer S ((fd_message m data len fd)\<lparr>payload := take (nat sent) (payload (fd_message m data len fd))\<rparr>)
           R (nat n) (delivered l (size_t cap)) R'"
    and "- (2 ^ 31) \<le> fd" "fd < 2 ^ 31" "out \<noteq> 0" "apart buf (nat n) out 4"
  shows "kyte_send_fd sendmsg m data len fd = Some (sent, fd_message m data len fd)
    \<and> (\<exists>m'. kyte_recv_fd recvmsg delivered buf cap out m0 = Some (n, m')
        \<and> rd m' buf (nat n) = take (nat n) (if len > 0 then rd m data (nat len) else [0])
        \<and> S fd \<noteq> None \<and> R (sint (load32 m' out)) = None \<and> R' = R(sint (load32 m' out) := S fd)
        \<and> (\<forall>b j. apart b j buf (nat n) \<and> apart b j out 4 \<longrightarrow> rd m' b j = rd m0 b j))"
proof
  let ?msg = "fd_message m data len fd"
  let ?got = "delivered l (size_t cap)"
  have "retry (\<lambda>i. sendmsg i ?msg) 0 = Some (k, sent)"
    using retry_first [of k "\<lambda>i. sendmsg i ?msg" 0] assms(1,2,3) by simp
  then show "kyte_send_fd sendmsg m data len fd = Some (sent, ?msg)" by (simp add: kyte_send_fd_def Let_def)
  have r: "retry recvmsg 0 = Some (l, n)" using retry_first [of l recvmsg 0] assms(4,5,6) by simp
  obtain g where g: "rights (control ?got) = [g]" "S fd \<noteq> None" "R g = None" "R' g = S fd" "\<forall>x. x \<noteq> g \<longrightarrow> R' x = R x"
    using assms(7) sent_rights [OF assms(8,9), of m data len] by (auto simp: scm_transfer_def list_all2_Cons1)
  have got: "got_fd (control ?got) = g" using got_fd_first g(1) assms(7) by (auto simp: scm_transfer_def)
  let ?p = "take (nat n) (payload ?got)"
  have p: "?p = take (nat n) (payload ?msg)" "nat n \<le> nat sent" "nat n \<le> length (payload ?msg)"
    using assms(7) by (auto simp: scm_transfer_def min_def split: if_splits)
  then have lp: "length ?p = nat n" by simp
  define m' where "m' = store32 (wr m0 buf ?p) out (word_of_int g)"
  have m': "kyte_recv_fd recvmsg delivered buf cap out m0 = Some (n, m')"
    using assms(6,10) by (simp add: kyte_recv_fd_def r got m'_def)
  have "sint (load32 m' out) = g"
    using got_fd_range [of "control ?got"] sint32_of_int [of g] got by (simp add: m'_def c32.get_put)
  moreover have "rd m' buf (nat n) = ?p"
    using assms(11) lp by (simp add: m'_def c32.rd_put mem_simps)
  moreover have "rd m' b j = rd m0 b j" if "apart b j buf (nat n) \<and> apart b j out 4" for b j
    using that lp by (simp add: m'_def c32.rd_put mem_simps)
  moreover have "R' = R(g := S fd)" using g by auto
  ultimately show "\<exists>m'. kyte_recv_fd recvmsg delivered buf cap out m0 = Some (n, m')
        \<and> rd m' buf (nat n) = take (nat n) (if len > 0 then rd m data (nat len) else [0])
        \<and> S fd \<noteq> None \<and> R (sint (load32 m' out)) = None \<and> R' = R(sint (load32 m' out) := S fd)
        \<and> (\<forall>b j. apart b j buf (nat n) \<and> apart b j out 4 \<longrightarrow> rd m' b j = rd m0 b j)"
    using m' p(1) g by (intro exI [of _ m']) (simp add: fd_message_def)
qed

text \<open>
  A sender passes its descriptor 5, which names file 42; the receiver has 0 to 2 open, and its kernel
  delivers, after one interruption and beside a block of credentials, the free number 3.
\<close>

definition demo_message :: message where
  "demo_message = \<lparr>payload = [7, 7], control = [(SOL_SOCKET, 2, [1, 0, 0, 0]), (SOL_SOCKET, SCM_RIGHTS, [3, 0, 0, 0])]\<rparr>"

theorem fd_handoff_witness:
  "\<exists>m'. kyte_recv_fd (\<lambda>i. if i = 0 then (- 1, True) else (2, False)) (\<lambda>_ _. demo_message) 128 16 256 (\<lambda>_. 0) = Some (2, m')
     \<and> rd m' 128 2 = [7, 7] \<and> sint (load32 m' 256) = 3"
proof -
  let ?R = "[0 \<mapsto> 0, 1 \<mapsto> 1, 2 \<mapsto> 2] :: nat files"
  have two: "rd (\<lambda>_. 7) 64 2 = [7, 7]" by (simp add: rd_def upt_rec)
  have pay: "payload (fd_message (\<lambda>_. 7) 64 2 5) = [7, 7]" by (simp add: fd_message_def two)
  have "scm_transfer [5 \<mapsto> 42] ((fd_message (\<lambda>_. 7) 64 2 5)\<lparr>payload := take (nat 2) (payload (fd_message (\<lambda>_. 7) 64 2 5))\<rparr>)
      ?R (nat 2) demo_message (?R(3 \<mapsto> 42))"
    unfolding scm_transfer_def pay using sent_rights [of 5 "\<lambda>_. 7" 64 2]
    by (simp add: demo_message_def full_blocks_def SOL_SOCKET_def SCM_RIGHTS_def)
  from fd_handoff [of 0 "\<lambda>_ _. (2, False)" "\<lambda>_. 7" 64 2 5 2 1 "\<lambda>i. if i = 0 then (- 1, True) else (2, False)" 2
      "[5 \<mapsto> 42]" ?R "\<lambda>_ _. demo_message" 16 "?R(3 \<mapsto> 42)" 256 128 "\<lambda>_. 0", OF _ _ _ _ _ _ this]
  obtain m' where m': "kyte_recv_fd (\<lambda>i. if i = 0 then (- 1, True) else (2, False)) (\<lambda>_ _. demo_message) 128 16 256 (\<lambda>_. 0) = Some (2, m')"
    "rd m' 128 2 = [7, 7]" "?R(3 \<mapsto> 42) = ?R(sint (load32 m' 256) \<mapsto> 42)"
    by (auto simp: apart_def two)
  from fun_cong [OF m'(3), of 3] have "sint (load32 m' 256) = 3" by (auto split: if_splits)
  then show ?thesis using m' by blast
qed

text \<open>Without a place to store it the descriptor that arrived is dropped and stays open.\<close>

lemma fd_dropped:
  "kyte_recv_fd (\<lambda>_. (1, False)) (\<lambda>_ _. \<lparr>payload = [0], control = c\<rparr>) buf cap 0 m = Some (1, wr m buf [0])"
  using retry_first [of 0 "\<lambda>_. (1, False)" 0] by (simp add: kyte_recv_fd_def)

text \<open>An empty payload travels as one zero byte, as a payload of one zero byte does.\<close>

lemma empty_payload_ambiguous: "m data = 0 \<Longrightarrow> fd_message m data 0 fd = fd_message m data 1 fd"
  by (simp add: fd_message_def rd_def)

lemma sleep_exact:
  assumes "kyte_sleep_ms False ms = Nanosleep s ns"
  shows "s * 1000 + ns div 1000000 = ms \<and> 0 \<le> ns \<and> ns < 1000000000 \<and> ns mod 1000000 = 0"
  using assms by (auto simp: kyte_sleep_ms_def split: if_splits)

lemma windows_sleep_cut: "kyte_sleep_ms True (2 ^ 32) = Win_sleep 0"
  by (simp add: kyte_sleep_ms_def)

text \<open>
  Property C40 (socketpair_clean).  The Windows pair leaves exactly its two sockets open when it
  succeeds and none when it fails, wherever it fails; but the socket it accepts belongs to whoever
  connected to the listener first, which need not be its own client.
\<close>

theorem socketpair_clean:
  assumes "distinct [pa_listener a, pa_client a, pa_server a]"
    and "set [pa_listener a, pa_client a, pa_server a] \<inter> set (open_socks K) = {}" "open_socks K = os"
    and "win_socketpair a K = (r, sv, K')"
  shows "(r \<noteq> 0 \<longrightarrow> r = - 1 \<and> sv = None \<and> open_socks K' = os)
    \<and> (r = 0 \<longrightarrow> open_socks K' = os @ [pa_client a, pa_server a]
         \<and> sv = Some (sint (word_of_int (pa_client a) :: u32), sint (word_of_int (pa_server a) :: u32))
         \<and> peers K' = peers K @ [(pa_server a, hd (pa_strangers a @ [pa_client a]))])"
  using assms
  by (auto simp: win_socketpair_def Let_def os_socket_def closesocket_def os_connect_def os_accept_def remove1_append
      INVALID_SOCKET_def split: if_splits)

definition demo_pair :: pair_answers where
  "demo_pair = \<lparr>pa_listener = 10, pa_bind = True, pa_name = True, pa_listen = True, pa_strangers = [99], pa_client = 11,
     pa_connect = True, pa_server = 12\<rparr>"

theorem socketpair_clean_witness:
  "(case win_socketpair demo_pair \<lparr>open_socks = [3], backlog = [], peers = []\<rparr> of
      (r, sv, K) \<Rightarrow> r = 0 \<and> open_socks K = [3, 11, 12] \<and> peers K = [(12, 99)])"
proof -
  obtain r sv K where e: "win_socketpair demo_pair \<lparr>open_socks = [3], backlog = [], peers = []\<rparr> = (r, sv, K)"
    by (cases "win_socketpair demo_pair \<lparr>open_socks = [3], backlog = [], peers = []\<rparr>") auto
  moreover have "r = 0" using e
    by (auto simp: demo_pair_def win_socketpair_def Let_def INVALID_SOCKET_def os_socket_def)
  ultimately show ?thesis
    using socketpair_clean [OF _ _ _ e, of "[3]"] by (simp add: demo_pair_def)
qed

end
