(* ===== verification/Kyte_Console.thy ===== *)
theory Kyte_Console
  imports Kyte_Str_Props
begin

text \<open>
  What \<^verbatim>\<open>src/runtime/core.cpp\<close> tells its user: the log functions, the trace file, crash and
  panic reports, test failures, coverage counters, stack traces, the I/O statistics.  Output is the
  bytes written; files, frames and symbol names come from the system and are parameters.
\<close>

definition ascii :: "string \<Rightarrow> bytes" where
  "ascii s = map of_char s"

definition upto_nul :: "bytes \<Rightarrow> bytes" where
  "upto_nul s = takeWhile (\<lambda>c. c \<noteq> 0) s"

text \<open>The C string at \<open>c\<close>, as \<^verbatim>\<open>%s\<close> prints it.\<close>

definition c_text :: "heap \<Rightarrow> addr \<Rightarrow> bytes outcome" where
  "c_text h c = (case strlen (mem h) c of None \<Rightarrow> Trap | Some n \<Rightarrow> Ok (rd (mem h) c n))"

section \<open>Logging\<close>

text \<open>The common body: the bytes printed, and the heap after the C copy is gone.\<close>

definition log_with :: "bytes \<Rightarrow> platform \<Rightarrow> heap \<Rightarrow> addr \<Rightarrow> (bytes \<times> heap) outcome" where
  "log_with pre P h s =
     (if s = 0 then Ok ([], h)
      else
        (let (c, h) = kyte_to_cstr P h s in
         if c \<noteq> 0 then bind_outcome (c_text h c) (\<lambda>t. Ok (pre @ t @ [10], kyte_free_cstr h s c))
         else Ok ([], h)))"

definition kyte_log_string :: "platform \<Rightarrow> heap \<Rightarrow> addr \<Rightarrow> (bytes \<times> heap) outcome" where
  "kyte_log_string = log_with []"

definition kyte_log_info :: "platform \<Rightarrow> heap \<Rightarrow> addr \<Rightarrow> (bytes \<times> heap) outcome" where
  "kyte_log_info = log_with ([27] @ ascii ''[34m[INFO]'' @ [27] @ ascii ''[0m '')"

definition kyte_log_debug :: "platform \<Rightarrow> heap \<Rightarrow> addr \<Rightarrow> (bytes \<times> heap) outcome" where
  "kyte_log_debug = log_with ([27] @ ascii ''[90m[DEBUG]'' @ [27] @ ascii ''[0m '')"

definition kyte_log_err :: "platform \<Rightarrow> heap \<Rightarrow> addr \<Rightarrow> (bytes \<times> heap) outcome" where
  "kyte_log_err = log_with ([27] @ ascii ''[31m[ERROR]'' @ [27] @ ascii ''[0m '')"

section \<open>The trace file\<close>

text \<open>\<open>trace_path\<close> is KYTE_TRACE, \<open>trace_open\<close> whether the file is open, \<open>trace_out\<close> what it holds.\<close>

record trace_file =
  trace_path :: "string option"
  trace_open :: bool
  trace_out :: bytes

definition kyte_trace_enabled :: "trace_file \<Rightarrow> int" where
  "kyte_trace_enabled t = (if trace_path t \<noteq> None then 1 else 0)"

text \<open>\<open>fopen\<close> says whether the file can be opened for appending.\<close>

definition kyte_trace_fp :: "(string \<Rightarrow> bool) \<Rightarrow> trace_file \<Rightarrow> trace_file" where
  "kyte_trace_fp fopen t =
     (if \<not> trace_open t
      then (case trace_path t of None \<Rightarrow> t | Some path \<Rightarrow> t\<lparr>trace_open := fopen path\<rparr>)
      else t)"

definition trace_write :: "(string \<Rightarrow> bool) \<Rightarrow> bytes \<Rightarrow> trace_file \<Rightarrow> trace_file" where
  "trace_write fopen line t =
     (let t = kyte_trace_fp fopen t in if trace_open t then t\<lparr>trace_out := trace_out t @ line\<rparr> else t)"

definition kyte_trace_line :: "(string \<Rightarrow> bool) \<Rightarrow> bytes option \<Rightarrow> trace_file \<Rightarrow> trace_file" where
  "kyte_trace_line fopen s t =
     (if trace_path t = None then t
      else trace_write fopen ((case s of Some s \<Rightarrow> s | None \<Rightarrow> []) @ [10]) t)"

text \<open>The C copy of a Kyte string, None when there is none.\<close>

definition copy_text :: "platform \<Rightarrow> heap \<Rightarrow> addr \<Rightarrow> (bytes option \<times> addr \<times> heap) outcome" where
  "copy_text P h s =
     (let (c, h) = kyte_to_cstr P h s in
      if c = 0 then Ok (None, 0, h) else bind_outcome (c_text h c) (\<lambda>t. Ok (Some t, c, h)))"

definition kyte_trace_msg :: "(string \<Rightarrow> bool) \<Rightarrow> platform \<Rightarrow> heap \<Rightarrow> addr \<Rightarrow> trace_file \<Rightarrow> (trace_file \<times> heap) outcome" where
  "kyte_trace_msg fopen P h s t =
     (if trace_path t = None then Ok (t, h)
      else bind_outcome (copy_text P h s) (\<lambda>(c_str, c, h). Ok (kyte_trace_line fopen c_str t, kyte_free_cstr h s c)))"

definition kyte_trace_kv :: "(string \<Rightarrow> bool) \<Rightarrow> platform \<Rightarrow> heap \<Rightarrow> addr \<Rightarrow> int \<Rightarrow> trace_file \<Rightarrow> (trace_file \<times> heap) outcome" where
  "kyte_trace_kv fopen P h s v t =
     (if trace_path t = None then Ok (t, h)
      else bind_outcome (copy_text P h s) (\<lambda>(c_str, c, h).
        Ok (trace_write fopen ((case c_str of Some s \<Rightarrow> s | None \<Rightarrow> []) @ ascii ''='' @ kyte_i64_fmt v @ [10]) t, kyte_free_cstr h s c)))"

text \<open>\<open>formatted\<close> is what \<^verbatim>\<open>vfprintf\<close> makes of the arguments.\<close>

definition kyte_tracef :: "(string \<Rightarrow> bool) \<Rightarrow> bytes \<Rightarrow> trace_file \<Rightarrow> trace_file" where
  "kyte_tracef fopen formatted t = (if trace_path t = None then t else trace_write fopen (formatted @ [10]) t)"

section \<open>Crashes, panics and failed tests\<close>

datatype signal = SIGSEGV | SIGBUS | SIGILL | SIGFPE

text \<open>The handler is installed for these signals, on a stack of its own, when KYTE_CRASH_TRACE is set.\<close>

definition kyte_install_crash_handler :: "string option \<Rightarrow> signal list" where
  "kyte_install_crash_handler env = (if env = None then [] else [SIGSEGV, SIGBUS, SIGILL, SIGFPE])"

text \<open>\<open>trace\<close> is what \<^verbatim>\<open>backtrace_symbols_fd\<close> writes, None without \<^verbatim>\<open>execinfo.h\<close>.\<close>

definition kyte_crash_handler :: "bytes option \<Rightarrow> int \<Rightarrow> u64 option \<Rightarrow> int \<times> bytes" where
  "kyte_crash_handler trace sig info =
     (128 + sig,
      [10] @ ascii ''=== KYTE CRASH: fatal signal '' @ kyte_write_hex (word_of_int sig)
        @ ascii '' at fault addr '' @ kyte_write_hex (case info of Some a \<Rightarrow> a | None \<Rightarrow> 0) @ ascii '' ==='' @ [10]
        @ (case trace of Some t \<Rightarrow> t | None \<Rightarrow> ascii ''(no backtrace: this libc has no execinfo.h)'' @ [10])
        @ ascii ''=== end crash ==='' @ [10])"

definition kyte_panic :: "heap \<Rightarrow> addr \<Rightarrow> int \<times> bytes" where
  "kyte_panic h msg =
     (134,
      if msg \<noteq> 0
      then (let n = sint (hdr_len h msg); len = (if n < 0 then 0 else n) in
            [10] @ ascii ''kyte: panic: '' @ upto_nul (rd (mem h) msg (nat len)) @ [10])
      else [10] @ ascii ''kyte: panic'' @ [10])"

definition kyte_panic_cstr :: "bytes option \<Rightarrow> int \<times> bytes" where
  "kyte_panic_cstr msg = (134, [10] @ ascii ''kyte: panic: '' @ (case msg of Some m \<Rightarrow> m | None \<Rightarrow> []) @ [10])"

definition kyte_optional_deref_fail :: "bytes option \<Rightarrow> int \<times> bytes" where
  "kyte_optional_deref_fail loc =
     (134,
      [10] @ ascii ''abort: member access on an absent optional'' @ (case loc of Some l \<Rightarrow> ascii '' at '' @ l | None \<Rightarrow> []) @ [10]
        @ ascii ''  a `T | undefined` value was `undefined` when a field/method was read.'' @ [10]
        @ ascii ''  narrow it first: `if (x != undefined) { x.field }`  (specs '' @ [194, 167] @ ascii ''3.4)'' @ [10])"

text \<open>The report of a failed assertion and the exit status; the buffers hold C strings.\<close>

definition test_fail_report :: "test_state \<Rightarrow> int \<times> bytes" where
  "test_fail_report t =
     (let msg = upto_nul (t_msg t); cur = t_current t in
      (1,
       (if cur \<noteq> []
        then [10] @ ascii ''  FAIL  '' @ cur @ [10] @ ascii ''        '' @ (if msg \<noteq> [] then msg else ascii ''assertion failed'') @ [10]
        else [10] @ ascii ''Assertion failed: '' @ (if msg \<noteq> [] then msg else ascii ''(no message)'') @ [10])
       @ [10] @ ascii ''  (the suite aborts at the first failing assertion, a test cannot be'' @ [10]
       @ ascii ''   unwound out of, so later tests do not run. Fix this one and re-run.)'' @ [10]))"

section \<open>Coverage\<close>

text \<open>\<open>at_exit\<close> counts the registrations; \<open>cov_file\<close> is the data file.\<close>

record coverage =
  cov_counters :: addr
  cov_count :: int
  at_exit :: nat
  cov_file :: "bytes option"

definition kyte_coverage_init :: "platform \<Rightarrow> heap \<Rightarrow> int \<Rightarrow> coverage \<Rightarrow> coverage \<times> heap" where
  "kyte_coverage_init P h cnt c =
     (if cnt \<le> 0 then (c, h)
      else
        (let (p, h) = malloc_block P h (nat cnt * 8);
             h = (if p = 0 then h else h\<lparr>mem := wr (mem h) p (replicate (nat cnt * 8) 0)\<rparr>) in
         (c\<lparr>cov_counters := p, cov_count := cnt, at_exit := at_exit c + 1\<rparr>, h)))"

definition kyte_coverage_dump :: "bool \<Rightarrow> heap \<Rightarrow> int \<Rightarrow> coverage \<Rightarrow> coverage" where
  "kyte_coverage_dump fopen h cnt c =
     (if cov_counters c = 0 \<or> cnt \<le> 0 then c
      else if \<not> fopen then c
      else c\<lparr>cov_file := Some (rd (mem h) (cov_counters c) (nat cnt * 8))\<rparr>)"

definition cov_atexit :: "bool \<Rightarrow> heap \<Rightarrow> coverage \<Rightarrow> coverage" where
  "cov_atexit fopen h c =
     (if cov_counters c \<noteq> 0 \<and> cov_count c > 0 then kyte_coverage_dump fopen h (cov_count c) c else c)"

text \<open>
  How a program ends: \<^verbatim>\<open>main\<close> returns and the registered functions run, or \<^verbatim>\<open>_Exit\<close> is
  called, by \<^verbatim>\<open>kyte_exit\<close>, a panic or a failed test, and they do not.
\<close>

datatype ending = Main_returns | Exit_now int

definition kyte_exit :: "int \<Rightarrow> ending" where
  "kyte_exit code = Exit_now code"

definition end_process :: "bool \<Rightarrow> heap \<Rightarrow> ending \<Rightarrow> coverage \<Rightarrow> coverage" where
  "end_process fopen h e c =
     (case e of Main_returns \<Rightarrow> (cov_atexit fopen h ^^ at_exit c) c | Exit_now _ \<Rightarrow> c)"

section \<open>Stack traces\<close>

text \<open>The callback of the unwinder: at most 64 addresses are kept.\<close>

definition kyte_unwind_cb :: "u64 list \<Rightarrow> u64 \<Rightarrow> u64 list" where
  "kyte_unwind_cb addrs ip = (if length addrs < 64 then addrs @ [ip] else addrs)"

text \<open>The symbol lines written into the object at \<open>p\<close>, from offset \<open>off\<close> on.\<close>

fun copy_syms :: "addr \<Rightarrow> int \<Rightarrow> bytes list \<Rightarrow> memory \<Rightarrow> memory" where
  "copy_syms p off [] m = m"
| "copy_syms p off (s # ss) m =
     (let l = int (length s);
          m = wr m (p + off) s;
          m = wr m (p + off + l) [10] in
      copy_syms p (off + l + 1) ss m)"

text \<open>
  Where the frames come from: the symbol names of \<^verbatim>\<open>backtrace\<close> (None when they cannot be had), the
  addresses of the Windows call, the addresses the unwinder visits, or nowhere.
\<close>

datatype tracer = Backtrace nat "bytes list option" | Rtl "u64 list" | Unwind "u64 list" | No_tracer

definition kyte_get_stacktrace :: "tracer \<Rightarrow> platform \<Rightarrow> heap \<Rightarrow> addr \<Rightarrow> (addr \<times> heap) outcome" where
  "kyte_get_stacktrace tr P h site =
     (case tr of
        Backtrace n syms \<Rightarrow>
          (if n \<le> 1 then Ok (kyte_bytes_alloc P h 0 site)
           else (case syms of
                   None \<Rightarrow> Ok (kyte_bytes_alloc P h 0 site)
                 | Some syms \<Rightarrow>
                     (let lines = drop 1 (take n syms);
                          total = (\<Sum>s\<leftarrow>lines. int (length s) + 1);
                          (buf, h) = kyte_bytes_alloc P h total site in
                      if buf = 0 then Trap else Ok (buf, h\<lparr>mem := copy_syms buf 0 lines (mem h)\<rparr>))))
      | Rtl frames \<Rightarrow> kyte_stacktrace_from_addrs P h (take 63 frames) site
      | Unwind ips \<Rightarrow>
          (let addrs = foldl kyte_unwind_cb [] ips in
           if length addrs \<le> 1 then Ok (kyte_bytes_alloc P h 0 site)
           else kyte_stacktrace_from_addrs P h (drop 1 addrs) site)
      | No_tracer \<Rightarrow> Ok (kyte_bytes_alloc P h 0 site))"

section \<open>Statistics, errno and clocks\<close>

record io_stats =
  io_issued :: int
  io_completed :: int
  resume_skips :: int
  watchdog :: bool

definition kyte_io_stat_issued :: "io_stats \<Rightarrow> io_stats" where
  "kyte_io_stat_issued s = s\<lparr>io_issued := io_issued s + 1\<rparr>"

definition kyte_io_stat_completed :: "io_stats \<Rightarrow> io_stats" where
  "kyte_io_stat_completed s = s\<lparr>io_completed := io_completed s + 1\<rparr>"

definition kyte_io_stat_resume_skipped :: "io_stats \<Rightarrow> io_stats" where
  "kyte_io_stat_resume_skipped s = s\<lparr>resume_skips := resume_skips s + 1\<rparr>"

text \<open>Whether this call starts the reporting thread, which also turns on atomic reference counts.\<close>

definition kyte_io_watchdog_start :: "string option \<Rightarrow> io_stats \<Rightarrow> bool \<times> io_stats" where
  "kyte_io_watchdog_start env s =
     (if env = None then (False, s)
      else if watchdog s then (False, s)
      else (True, s\<lparr>watchdog := True\<rparr>))"

text \<open>One turn of that thread: the line, and the counts the next turn compares with.\<close>

definition watchdog_turn :: "int \<times> int \<Rightarrow> io_stats \<Rightarrow> bytes \<times> (int \<times> int)" where
  "watchdog_turn prev s =
     (let i = io_issued s; c = io_completed s;
          tag = (if i = fst prev \<and> c = snd prev then ascii ''  <- IDLE (nothing moving)'' else []) in
      (ascii ''kyte io: issued='' @ kyte_i64_fmt i @ ascii '' completed='' @ kyte_i64_fmt c @ ascii '' outstanding=''
         @ kyte_i64_fmt (i - c) @ ascii '' resume_skipped='' @ kyte_i64_fmt (resume_skips s) @ tag @ [10], (i, c)))"

definition kyte_ffi_set_errno :: "int \<Rightarrow> int" where
  "kyte_ffi_set_errno v = sint (word_of_int v :: u32)"

definition kyte_ffi_errno :: "int \<Rightarrow> int" where
  "kyte_ffi_errno errno = errno"

text \<open>The clocks, in nanoseconds; \<^verbatim>\<open>duration_cast\<close> truncates toward zero.\<close>

definition duration_cast :: "int \<Rightarrow> int \<Rightarrow> int" where
  "duration_cast unit ns = (if ns < 0 then - (- ns div unit) else ns div unit)"

definition kyte_time_now :: "int \<Rightarrow> int" where
  "kyte_time_now ns = duration_cast 1000000000 ns"

definition kyte_time_now_ns :: "int \<Rightarrow> int" where
  "kyte_time_now_ns ns = duration_cast 1 ns"

definition kyte_mono_ms :: "int \<Rightarrow> int" where
  "kyte_mono_ms ns = duration_cast 1000000 ns"

section \<open>Facts\<close>

text \<open>Every log line is its prefix, the string and a newline, and the C copy is given back.\<close>

lemma log_line:
  assumes "good_heap P h" "kyte_string h s bs" "0 \<notin> set bs" "length bs < 2 ^ 31" "s \<noteq> 0"
    and "blocks h (s - 8) = Some (length bs + 9)" "log_with pre P h s = Ok (t, h')" "t \<noteq> []"
  shows "t = pre @ bs @ [10] \<and> (\<forall>a. blocks h' a \<noteq> None \<longrightarrow> blocks h a \<noteq> None)"
proof -
  obtain c h1 where c: "kyte_to_cstr P h s = (c, h1)" "c \<noteq> 0"
    using assms(5,7,8) by (auto simp: log_with_def split: prod.splits if_splits)
  from cstr_copy [OF assms(1-6) c] have "strlen (mem h1) c = Some (length bs)" "rd (mem h1) c (length bs) = bs"
    "blocks (kyte_free_cstr h1 s c) = (blocks h)(c := None)" by simp_all
  then show ?thesis using assms(5,7) c by (auto simp: log_with_def c_text_def split: if_splits)
qed


lemma copy_syms_write:
  "copy_syms p off lines m = wr m (p + off) (concat (map (\<lambda>s. s @ [10]) lines))"
proof (induction lines arbitrary: off m)
  case Nil
  show ?case by (simp add: mem_simps)
next
  case (Cons s ss)
  have "copy_syms p off (s # ss) m = wr (wr (wr m (p + off) s) (p + off + int (length s)) [10]) (p + (off + int (length s) + 1)) (concat (map (\<lambda>s. s @ [10]) ss))"
    by (simp add: Let_def Cons)
  also have "\<dots> = wr (wr m (p + off) (s @ [10])) (p + off + int (length (s @ [10]))) (concat (map (\<lambda>s. s @ [10]) ss))"
    by (simp add: wr_append add_ac)
  also have "\<dots> = wr m (p + off) ((s @ [10]) @ concat (map (\<lambda>s. s @ [10]) ss))" by (simp only: wr_append)
  finally show ?case by simp
qed

text \<open>The total computed first is the length written: the trace fills its object exactly.\<close>

lemma stacktrace_fills:
  assumes "kyte_get_stacktrace (Backtrace n (Some syms)) P h site = Ok (p, h')" "1 < n"
  defines "body \<equiv> concat (map (\<lambda>s. s @ [10]) (drop 1 (take n syms)))"
  shows "p \<noteq> 0 \<and> (\<exists>h0. kyte_bytes_alloc P h (int (length body)) site = (p, h0) \<and> h' = h0\<lparr>mem := wr (mem h0) p body\<rparr>)"
proof -
  have "(\<Sum>s\<leftarrow>lines. int (length s) + 1) = int (length (concat (map (\<lambda>s. s @ [10 :: u8]) lines)))" for lines
    by (induction lines) simp_all
  then show ?thesis using assms
    by (auto simp: kyte_get_stacktrace_def copy_syms_write Let_def split: prod.splits if_splits)
qed

lemma unwind_kept: "foldl kyte_unwind_cb acc ips = acc @ take (64 - length acc) ips"
  by (induction ips arbitrary: acc) (auto simp: kyte_unwind_cb_def take_Cons' Suc_diff_Suc)

text \<open>An ended \<^verbatim>\<open>main\<close> leaves the counters, as they stand, in the file; every other end leaves none.\<close>

lemma dumps_same: "(cov_atexit fopen h ^^ n) c = (if n = 0 then c else cov_atexit fopen h c)"
  by (induction n) (auto simp: cov_atexit_def kyte_coverage_dump_def)

lemma coverage_kept:
  assumes "kyte_coverage_init P h cnt c = (c1, h1)" "0 < cnt" "cov_counters c1 \<noteq> 0"
  shows "cov_file (end_process True h2 Main_returns c1) = Some (rd (mem h2) (cov_counters c1) (nat cnt * 8))
    \<and> end_process True h2 (Exit_now code) c1 = c1
    \<and> rd (mem h1) (cov_counters c1) (nat cnt * 8) = replicate (nat cnt * 8) 0"
proof -
  have a: "0 < at_exit c1" "cov_count c1 = cnt"
    and z: "rd (mem h1) (cov_counters c1) (nat cnt * 8) = replicate (nat cnt * 8) 0"
    using assms by (auto simp: kyte_coverage_init_def Let_def mem_simps split: prod.splits if_splits)
  have "end_process True h2 Main_returns c1 = cov_atexit True h2 c1" using a(1) by (simp add: end_process_def dumps_same)
  then have "cov_file (end_process True h2 Main_returns c1) = Some (rd (mem h2) (cov_counters c1) (nat cnt * 8))"
    using a(2) assms(2,3) by (simp add: cov_atexit_def kyte_coverage_dump_def)
  then show ?thesis using z by (simp add: end_process_def)
qed

lemma watchdog_once:
  "kyte_io_watchdog_start env s = (True, s') \<Longrightarrow> kyte_io_watchdog_start env' s' = (False, s')"
  by (auto simp: kyte_io_watchdog_start_def split: if_splits)

lemma errno_kept: "- (2 ^ 31) \<le> v \<Longrightarrow> v < 2 ^ 31 \<Longrightarrow> kyte_ffi_errno (kyte_ffi_set_errno v) = v"
  using sint32_of_int [of v] by (simp add: kyte_ffi_errno_def kyte_ffi_set_errno_def)

end
