(* ===== verification/Kyte_Entry.thy ===== *)
theory Kyte_Entry
  imports Kyte_Channel Kyte_Str
begin

text \<open>
  The edges of the runtime: the entry point, the threads of the reactors, plain spawning and sleeping,
  the retired socket functions and the flags of \<^verbatim>\<open>src/runtime/concurrency.cpp\<close>,
  \<^verbatim>\<open>src/runtime/alloc.cpp\<close> and \<^verbatim>\<open>src/runtime/io.cpp\<close>, and the linker shim
  \<^verbatim>\<open>src/backend/linker/lld_link.cpp\<close>.  Compiled code is a parameter.
\<close>

section \<open>Entry\<close>

text \<open>Whether SIGPIPE is ignored, the arguments kept, and the exit code of the compiled main.\<close>

definition main :: "bool \<Rightarrow> (process_args \<Rightarrow> int) \<Rightarrow> int \<Rightarrow> addr list option \<Rightarrow> bool \<times> process_args \<times> int" where
  "main windows kyte_main argc argv =
     (let args = kyte_set_args argc argv in
      (\<not> windows, args, sint (word_of_int (kyte_main args) :: u32)))"

section \<open>Closures and threads\<close>

text \<open>A closure box holds the code and its environment; \<open>code fn env\<close> runs it.\<close>

definition kyte_concurrency_spawn :: "(u64 \<Rightarrow> u64 \<Rightarrow> heap \<Rightarrow> heap outcome) \<Rightarrow> heap \<Rightarrow> addr \<Rightarrow> heap outcome" where
  "kyte_concurrency_spawn code h closure =
     (if closure = 0 then Ok h else code (load64 (mem h) closure) (load64 (mem h) (closure + 8)) h)"

text \<open>The milliseconds slept, after the report: whether it printed, and its new flag.\<close>

definition kyte_concurrency_sleep :: "bool \<Rightarrow> bool \<Rightarrow> bool \<Rightarrow> int \<Rightarrow> ((bool \<times> bool) \<times> int) outcome" where
  "kyte_concurrency_sleep ndebug here warned ms =
     bind_outcome (kyte_report_block_on_reactor ndebug here warned) (\<lambda>r. Ok (r, ms))"

text \<open>The calls the threads make, one each, all joined, and whether reference counts become atomic.\<close>

definition kyte_run_reactors :: "memory \<Rightarrow> int \<Rightarrow> addr \<Rightarrow> bool \<Rightarrow> (u64 \<times> u64 \<times> int) list \<times> bool" where
  "kyte_run_reactors m n box mt =
     (if box = 0 \<or> n \<le> 0 then ([], mt)
      else (map (\<lambda>i. (load64 m box, load64 m (box + 8), int i)) [0..<nat n], True))"

definition kyte_thread_id :: int where "kyte_thread_id = 0"

definition kyte_worker_count :: "int option \<Rightarrow> nat \<Rightarrow> nat" where
  "kyte_worker_count env cpus = kyte_thread_count env cpus"

definition kyte_io_context :: int where "kyte_io_context = 0"

definition kyte_sched_next :: int where "kyte_sched_next = 0"

section \<open>The retired socket functions\<close>

datatype retired =
    Io_take_result | Io_recv_async | Io_accept_async | Aserver_listen | Aserver_listen_addr
  | Aaccept | Aconnect | Arecv | Arecv_deadline | Asend | Aclose

text \<open>Two answer zero, closing does nothing, the rest stop the process.\<close>

definition call_retired :: "retired \<Rightarrow> int outcome" where
  "call_retired f =
     (case f of Aserver_listen \<Rightarrow> Ok 0 | Aserver_listen_addr \<Rightarrow> Ok 0 | Aclose \<Rightarrow> Ok 0 | _ \<Rightarrow> Trap)"

section \<open>Allocation entry points and flags\<close>

definition kyte_array_alloc :: "platform \<Rightarrow> heap \<Rightarrow> int \<Rightarrow> addr \<Rightarrow> addr \<times> heap" where
  "kyte_array_alloc P h n site = kyte_bytes_alloc P h n site"

definition kyte_region_current :: int where "kyte_region_current = 0"

definition kyte_arc_go_multithreaded :: "bool \<Rightarrow> bool" where
  "kyte_arc_go_multithreaded flag = True"

definition kyte_arc_is_multithreaded :: "bool \<Rightarrow> bool" where
  "kyte_arc_is_multithreaded flag = flag"

text \<open>The two numbers of the SIGUSR1 report are constants in the code.\<close>

definition kyte_arc_sigusr1 :: "audit \<Rightarrow> int \<times> int" where
  "kyte_arc_sigusr1 a = (0, 0)"

definition kyte_uring_current :: "addr \<Rightarrow> addr" where
  "kyte_uring_current ring = ring"

definition kyte_uring_set_current :: "addr \<Rightarrow> addr \<Rightarrow> addr" where
  "kyte_uring_set_current old ring = ring"

section \<open>ConnectEx\<close>

text \<open>
  \<open>cached\<close> is whether the extension function is known already, \<open>ioctl\<close> whether it can be had, \<open>ok\<close> and
  \<open>pending\<close> what the call answers.  The bind to any address is not checked.
\<close>

definition kyte_wsa_connectex :: "bool \<Rightarrow> bool \<Rightarrow> bool \<Rightarrow> bool \<Rightarrow> int \<times> bool" where
  "kyte_wsa_connectex cached ioctl ok pending =
     (if \<not> cached \<and> \<not> ioctl then (- 1, False)
      else (if ok then 0 else if pending then 0 else - 1, True))"

section \<open>The linker shim\<close>

definition lld_run :: "(bytes list \<Rightarrow> bool) \<Rightarrow> bytes list \<Rightarrow> nat \<Rightarrow> int" where
  "lld_run link argv argc = (let args = take argc argv; ok = link args in if ok then 0 else 1)"

definition kyte_lld_link_macho :: "(bytes list \<Rightarrow> bool) \<Rightarrow> bytes list \<Rightarrow> nat \<Rightarrow> int" where
  "kyte_lld_link_macho macho_link argv argc = lld_run macho_link argv argc"

definition kyte_lld_link_elf :: "(bytes list \<Rightarrow> bool) \<Rightarrow> bytes list \<Rightarrow> nat \<Rightarrow> int" where
  "kyte_lld_link_elf elf_link argv argc = lld_run elf_link argv argc"

section \<open>Facts\<close>

text \<open>Every worker gets its own number and the same closure; there are none for a null box.\<close>

lemma run_reactors_workers:
  assumes "kyte_run_reactors m n box mt = (calls, mt')" "box \<noteq> 0" "0 < n"
  shows "length calls = nat n \<and> mt' \<and> distinct calls
    \<and> (\<forall>i < nat n. calls ! i = (load64 m box, load64 m (box + 8), int i))"
  using assms by (auto simp: kyte_run_reactors_def distinct_map inj_on_def)

text \<open>A plain spawn runs the closure on the spot, as a call through the box does.\<close>

lemma spawn_is_call: "kyte_concurrency_spawn code h box = kyte_invoke_void_closure code h box"
  by (simp add: kyte_concurrency_spawn_def kyte_invoke_void_closure_def)

text \<open>The exit code of a program is the result of its main cut to 32 bits.\<close>

lemma exit_code_cut: "main w (\<lambda>_. 2 ^ 32) argc argv = (\<not> w, kyte_set_args argc argv, 0)"
  by (simp add: main_def)

end
