(* ===== verification/Spec2Isabelle.thy ===== *)
theory Spec2Isabelle
  imports Kyte_Store Kyte_Decimal_Literal Kyte_Uring_Props Kyte_Channel Kyte_Ring_Drive Kyte_Process_Props
    Kyte_Crypto_Props Kyte_Sync_Props Kyte_Float Kyte_Sockets Kyte_Console Kyte_Entry
begin

text \<open>
  The C++ runtime of the Kyte language, \<^verbatim>\<open>src/runtime/\<close> of the repository.  A Kyte program is compiled
  to machine code that calls this runtime for memory, strings, decimals, coroutines, the event loop,
  child processes and crypto support.  A handle that crosses the boundary is a 64-bit integer: an address,
  or zero.  The development models the runtime function by function and proves what each part
  promises to the compiled code, and records where it does not keep a promise.

  \<^bold>\<open>Conventions\<close> (Kyte_Prelude, Kyte_Memory).  Memory is a map from integer addresses to bytes; typed cells
  are little-endian byte runs, with one locale (\<open>cell\<close>) for 32- and 64-bit cells.  Machine integers
  are words where wrap-around matters (headers, rings, AES, decimals) and integers otherwise.  A
  function that can stop the process returns an \<open>outcome\<close>: \<open>Ok\<close>, \<open>Panic\<close> with a message, or \<open>Trap\<close> for an abort
  or a fault.  A loop that may not end is a \<open>partial_function (option)\<close>, None meaning that it does not
  return; the properties then prove that it returns.  There is no fuel anywhere.  Everything the
  operating system, compiled code or assembly answers is a parameter; hypotheses about a parameter are
  named predicates, each with a concrete instance in a witness.

  \<^bold>\<open>Memory\<close>, \<^verbatim>\<open>alloc.cpp\<close>.
    \<^item> Kyte_Audit: the table of live objects and the survivor dump (\<open>audit\<close>, \<open>live_insert\<close>, \<open>audit_free\<close>).
    \<^item> Kyte_Heap: object header, arena and \<^verbatim>\<open>malloc\<close> allocation (\<open>heap\<close>, \<open>kyte_bytes_alloc\<close>); Kyte_Arc: retain,
      release, destructors and boxes; Kyte_Bytes: copy, compare, xor, find.
    \<^item> Kyte_Heap_Props, Kyte_Leaks: new objects are fresh, counts move nothing else, the last release runs the
      destructor once on the dead object and frees its block, both reference count paths agree, the audit
      equals the outstanding blocks along every run; word-wise xor is byte-wise xor.

  \<^bold>\<open>Strings, numbers, HTML\<close>, \<^verbatim>\<open>runtime_str.h\<close>, \<^verbatim>\<open>core.cpp\<close>.
    \<^item> Kyte_Digits, Kyte_Str, Kyte_Str_Props: string objects, C strings, integer text (round trip, at most 20
      bytes), wire integers, arguments, test messages, closures, the pool of I/O records.
    \<^item> Kyte_Float: doubles as bit patterns; their text reads back, whole numbers have the text of the
      integer, every other double the fewest digits; floats widen exactly.
    \<^item> Kyte_Html, Kyte_Html_Props: the eight-byte scan equals the byte loop as long as its \<^verbatim>\<open>int\<close>
      counter does not overflow (it cannot below 2^31 - 8 bytes; where it does the model traps), the escaper's
      result is safe and reversible, exactly which URLs the filter rejects and what comes back for them.  Both
      hand back their input when the allocator gives nothing; the theorems name that case.
    \<^item> Kyte_Store: the abstract contract of string objects.  A program sees a finite map from handles to texts;
      building (from bytes, a part of another string, an integer), escaping, filtering, counting, lending
      to C and comparing on the heap refine the operations of that map along every run, and nothing stays
      allocated that the map does not hold.
    \<^item> Kyte_Console: log lines, trace file, crash, panic and test reports, coverage data, stack traces.
    \<^item> Kyte_Sockets: descriptor passing, under the rules by which SCM_RIGHTS gives the receiver a
      descriptor number of its own, and the system names of the Windows build.

  \<^bold>\<open>Decimals\<close>, \<^verbatim>\<open>decimal.cpp\<close>.
    \<^item> Kyte_Decimal, Kyte_Decimal_Text: the 128-bit layout, alignment, the four operations, comparison,
      conversion, parser and formatter.
    \<^item> Kyte_Decimal_Props, _Arith, _Convert, _Literal: packing round trip, comparison by real value,
      error bounds of a sum, exactness and half-even rounding of products and quotients, truncation to
      an integer, text round trip up to 34 digits, and closed instances where a result is wrong.

  \<^bold>\<open>Concurrency\<close>, \<^verbatim>\<open>concurrency.cpp\<close>, \<^verbatim>\<open>uring.cpp\<close>, \<^verbatim>\<open>core.cpp\<close>.
    \<^item> Kyte_Fifo: the queue contract as a locale, interpreted for the rings, the channels and the inboxes.
    \<^item> Kyte_Uring, Kyte_Uring_Props: the mapped rings on 32-bit counters refine bounded queues; creation
      gives everything back when it fails; what a failed submission loses.
    \<^item> Kyte_Sched, _Props, _Claims: frames, waiters, held arguments, the run queue, \<open>when_any\<close>; no freed
      frame is touched when coroutines keep to the protocol of await, and the queue runs dry.
    \<^item> Kyte_Channel: the blocking channel as a step relation (order, capacity, a lost wake-up with two
      senders and two receivers) and the asynchronous channel on the scheduler's run queue
      (a send queues the oldest parked receiver; the queue run down leaves nobody parked beside a value).
    \<^item> Kyte_Reactor, _Props: event words, registration flags, timer tables, inboxes, for kqueue, IOCP and
      Linux; Kyte_Drive, _Props: dispatch and the drive of a root coroutine on all four backends.  A
      drive that returns has a finished root; it gives up after 751 empty waits (except on io_uring); the epoll drive
      spins once a wake is posted.
    \<^item> Kyte_Await: total correctness of the drive for a chain of coroutines of any depth, each awaiting
      the next, the last sleeping: the drive returns with exactly those resumes, delays and releases,
      when each timer is reported before the idle cap.  What the drive needs of the reactor under it is
      the locale \<open>timer_host\<close>, interpreted for the timer tables and for the ring.
    \<^item> Kyte_Ring_Drive: the same chain on io_uring, under a kernel that takes every submitted entry; and
      a quiet root, which that backend drives for ever because each wait's own timeout counts as progress.
    \<^item> Kyte_Sync, _Props: spin lock, mutex, condition variable and read-write lock as steps of threads, with
      the undefined uses of C++ as a result.  Clients that follow the rules of C++, and whose zones are
      read off the calls that returned, exclude each other, never run into an undefined use, and get a
      lock whose zone is clear; a wait, a signal and the return from it; a broadcast after which every
      waiter returns; atomic cells under every interleaving (locale \<open>atomic_cell\<close>).
    \<^item> Kyte_Entry: the entry point, reactor threads, plain spawning, the retired socket functions, and
      the linker shim \<^verbatim>\<open>src/backend/linker/lld_link.cpp\<close>.

  \<^bold>\<open>Processes\<close>, \<^verbatim>\<open>io.cpp\<close>.
    \<^item> Kyte_Process, _Props: descriptors of parent and child, arguments and environment, namespaces, root,
      capabilities and the seccomp filter, waiting and killing.  The parent keeps exactly its two
      ends; what the sandbox enforces, and where it silently does not.  The build's macros, the
      native call numbers and the kernel's capabilities are a parameter (\<open>platform\<close>), with x86-64 and arm64
      as instances; a child in a new user namespace starts with every capability, and a host name that
      cannot be set is skipped, as the code does.

  \<^bold>\<open>Crypto support\<close>, \<^verbatim>\<open>crypto.cpp\<close>.
    \<^item> Kyte_Aes: the portable AES equals the cipher of FIPS-197, written over the field with 256 elements
      (S-box from inversion and the affine map, column mixing as a matrix product), and is a permutation.
    \<^item> Kyte_Crypto, _Props: counter mode is a stream cipher over any block cipher (locale \<open>block_cipher\<close>), the gate of
      the assembly keeps its promise, the entropy loop fills the buffer or stops the process.

  \<^bold>\<open>How the parts meet.\<close>  Every object comes from \<open>kyte_bytes_alloc\<close>; strings, decimals, escaped text and stack
  traces are proved over \<open>heap\<close> and its invariant \<open>heap_ok\<close>.  The drive composes the scheduler (\<open>sched\<close>), the
  timer tables, the rings, memory and the descriptors of the process in one state (\<open>world\<close>); a completion is written to memory by the
  drive and read by the coroutine the scheduler resumes.  The locks and channels share the report about
  blocking on a reactor thread.

  \<^bold>\<open>Not modelled.\<close>
    \<^item> The compiler (\<^verbatim>\<open>src/*.zig\<close>, \<^verbatim>\<open>src/frontend\<close>, \<^verbatim>\<open>src/backend/codegen\<close>) and the standard library
      (\<^verbatim>\<open>src/lib\<close>, in Kyte): other languages than the runtime's.
    \<^item> The assembly kernels \<^verbatim>\<open>kyte_crypto_*.S\<close>: parameters of the dispatchers.
    \<^item> \<^verbatim>\<open>deps/\<close> (zlib, zstd, webview, llvm-zig): third-party code.
    \<^item> \<^verbatim>\<open>kyte_abi.h\<close> declares what the other files define; \<^verbatim>\<open>runtime.cpp\<close> only includes them.
    \<^item> The Windows versions of the process functions and the file watcher, which return nothing; weak
      memory: locks and atomics are sequentially consistent steps; signal safety of the handlers; the
      timing of clocks and waits.
\<close>

end
